(* ===== verification/NomtPrelude.thy ===== *)
theory NomtPrelude
  imports Main "HOL-Library.Word" "HOL-Library.List_Lexorder" "HOL-Library.Monad_Syntax"
begin

text \<open>
  Shared vocabulary of the development.  Bytes are \<open>8 word\<close>s and byte arrays are
  lists of them; \<open>usize\<close> indices and lengths are natural numbers.  A Rust panic
  (failed assertion, slice index out of range, arithmetic underflow) is \<open>None\<close> of an
  option, a Rust \<open>Result\<close> is a sum with \<open>Inl\<close> for \<open>Err\<close>.  The theory holds the
  most-significant-bit-first view of bytes (\<open>view_bits::<Msb0>\<close>), little endian
  integers, slices, and the binary search of the standard library, with the lemmas
  on them that the components share.
\<close>

type_synonym u8 = "8 word"
type_synonym u16 = "16 word"
type_synonym u32 = "32 word"
type_synonym u64 = "64 word"
type_synonym bytes = "8 word list"
type_synonym bits = "bool list"

named_theorems bit_simps' \<open>length and concatenation facts of bit views\<close>
named_theorems slice_simps \<open>slices that are in range\<close>


section \<open>Panics and slices\<close>

definition assert_that :: "bool \<Rightarrow> unit option" where
  "assert_that b = (if b then Some () else None)"

lemma assert_that_simps [simp]:
  "assert_that True = Some ()" "assert_that False = None"
  by (simp_all add: assert_that_def)

lemma assert_that_Some [simp]: "assert_that b = Some u \<longleftrightarrow> b"
  by (simp add: assert_that_def)

lemma list_cases2 [case_names Nil Single Many]:
  obtains "xs = []" | x where "xs = [x]" | x y r where "xs = x # y # r"
  by (metis list.exhaust)

lemma bind_Some_pair: "Option.bind m (\<lambda>(x, y). Some (f x y)) = map_option (\<lambda>(x, y). f x y) m"
  by (cases m) auto

lemma map_option_snd:
  "map_option (\<lambda>(x, y). (x, g y)) (map_option (\<lambda>(x, y). (x, f y)) z) =
   map_option (\<lambda>(x, y). (x, g (f y))) z"
  by (cases z) auto

text \<open>\<open>xs[i..j]\<close>, which panics when \<open>i > j\<close> or \<open>j\<close> is past the end.\<close>
definition slice_of :: "'a list \<Rightarrow> nat \<Rightarrow> nat \<Rightarrow> 'a list option" where
  "slice_of xs i j = (if i \<le> j \<and> j \<le> length xs then Some (take (j - i) (drop i xs)) else None)"

text \<open>\<open>xs[i]\<close>, which panics out of range; also \<open>xs.get(i)\<close>.\<close>
definition get_at :: "'a list \<Rightarrow> nat \<Rightarrow> 'a option" where
  "get_at xs i = (if i < length xs then Some (xs ! i) else None)"

text \<open>\<open>a - b\<close> on unsigned integers, which panics on underflow.\<close>
definition sub_checked :: "nat \<Rightarrow> nat \<Rightarrow> nat option" where
  "sub_checked a b = (if b \<le> a then Some (a - b) else None)"

text \<open>\<open>xs[i..i + ys.len()].copy_from_slice(ys)\<close>.\<close>
definition copy_at :: "'a list \<Rightarrow> nat \<Rightarrow> 'a list \<Rightarrow> 'a list option" where
  "copy_at xs i ys =
     (if i + length ys \<le> length xs
      then Some (take i xs @ ys @ drop (i + length ys) xs) else None)"

lemma slice_Some [slice_simps]:
  "i \<le> j \<Longrightarrow> j \<le> length xs \<Longrightarrow> slice_of xs i j = Some (take (j - i) (drop i xs))"
  by (simp add: slice_of_def)

lemma slice_eq_Some:
  "slice_of xs i j = Some ys \<longleftrightarrow> i \<le> j \<and> j \<le> length xs \<and> ys = take (j - i) (drop i xs)"
  by (auto simp: slice_of_def)

lemma slice_length: "slice_of xs i j = Some ys \<Longrightarrow> length ys = j - i"
  by (auto simp: slice_of_def split: if_splits)

lemma get_at_Some [slice_simps]: "i < length xs \<Longrightarrow> get_at xs i = Some (xs ! i)"
  by (simp add: get_at_def)

lemma get_at_eq_Some: "get_at xs i = Some x \<longleftrightarrow> i < length xs \<and> x = xs ! i"
  by (auto simp: get_at_def)

lemma sub_checked_Some [slice_simps]: "b \<le> a \<Longrightarrow> sub_checked a b = Some (a - b)"
  by (simp add: sub_checked_def)

lemma copy_at_Some [slice_simps]:
  "i + length ys \<le> length xs \<Longrightarrow>
   copy_at xs i ys = Some (take i xs @ ys @ drop (i + length ys) xs)"
  by (simp add: copy_at_def)

lemma copy_at_length: "copy_at xs i ys = Some zs \<Longrightarrow> length zs = length xs"
  by (auto simp: copy_at_def split: if_splits)

text \<open>Reading a window back after it was written.\<close>
lemma copy_at_read:
  "copy_at xs i ys = Some zs \<Longrightarrow> take (length ys) (drop i zs) = ys"
  by (auto simp: copy_at_def split: if_splits)

lemma copy_at_nth:
  assumes "copy_at xs i ys = Some zs" "k < length xs"
  shows "zs ! k = (if i \<le> k \<and> k < i + length ys then ys ! (k - i) else xs ! k)"
  using assms by (auto simp: copy_at_def nth_append min_def split: if_splits)


section \<open>Common prefixes of bit strings\<close>

text \<open>\<open>a.iter().zip(b.iter()).take_while(|(a, b)| a == b).count()\<close>.\<close>
fun lcp_len :: "'a list \<Rightarrow> 'a list \<Rightarrow> nat" where
  "lcp_len (x # xs) (y # ys) = (if x = y then Suc (lcp_len xs ys) else 0)"
| "lcp_len _ _ = 0"

lemma lcp_len_takeWhile:
  "lcp_len xs ys = length (takeWhile (\<lambda>(a, b). a = b) (zip xs ys))"
  by (induction xs ys rule: lcp_len.induct) auto

lemma lcp_len_le1: "lcp_len xs ys \<le> length xs"
  by (induction xs ys rule: lcp_len.induct) auto

lemma lcp_len_le2: "lcp_len xs ys \<le> length ys"
  by (induction xs ys rule: lcp_len.induct) auto

lemma lcp_len_commute: "lcp_len xs ys = lcp_len ys xs"
  by (induction xs ys rule: lcp_len.induct) auto

lemma lcp_len_take: "take (lcp_len xs ys) xs = take (lcp_len xs ys) ys"
  by (induction xs ys rule: lcp_len.induct) auto

lemma lcp_len_nth:
  "lcp_len xs ys < length xs \<Longrightarrow> lcp_len xs ys < length ys \<Longrightarrow>
   xs ! lcp_len xs ys \<noteq> ys ! lcp_len xs ys"
  by (induction xs ys rule: lcp_len.induct) auto

lemma lcp_len_ge:
  "n \<le> length xs \<Longrightarrow> n \<le> length ys \<Longrightarrow> n \<le> lcp_len xs ys \<longleftrightarrow> take n xs = take n ys"
proof (induction xs ys arbitrary: n rule: lcp_len.induct)
  case (1 x xs y ys)
  then show ?case by (cases n) auto
qed auto

lemma lcp_len_eqI:
  assumes "n < length xs" "n < length ys" "take n xs = take n ys" "xs ! n \<noteq> ys ! n"
  shows "lcp_len xs ys = n"
proof (rule antisym)
  show "n \<le> lcp_len xs ys" using assms by (simp add: lcp_len_ge)
  show "lcp_len xs ys \<le> n"
  proof (rule ccontr)
    assume "\<not> lcp_len xs ys \<le> n"
    hence "Suc n \<le> lcp_len xs ys" by simp
    hence "take (Suc n) xs = take (Suc n) ys" using assms by (simp add: lcp_len_ge)
    thus False using assms by (simp add: take_Suc_conv_app_nth)
  qed
qed

lemma lcp_len_eq_length:
  "length xs = length ys \<Longrightarrow> lcp_len xs ys = length xs \<longleftrightarrow> xs = ys"
  by (induction xs ys rule: lcp_len.induct) auto

lemma lcp_len_less:
  "length xs = length ys \<Longrightarrow> xs \<noteq> ys \<Longrightarrow> lcp_len xs ys < length xs"
  using lcp_len_eq_length[of xs ys] lcp_len_le1[of xs ys] by auto

lemma lcp_len_self [simp]: "lcp_len xs xs = length xs"
  by (induction xs) auto

text \<open>Lexicographic order is decided at the first differing bit.\<close>
lemma list_less_at_lcp:
  fixes xs ys :: "'a::linorder list"
  assumes "length xs = length ys" "xs \<noteq> ys"
  shows "xs < ys \<longleftrightarrow> xs ! lcp_len xs ys < ys ! lcp_len xs ys"
  using assms by (induction xs ys rule: lcp_len.induct) auto

lemma list_less_append_same [simp]:
  fixes xs ys zs :: "'a::linorder list"
  shows "zs @ xs < zs @ ys \<longleftrightarrow> xs < ys"
  by (induction zs) auto

lemma list_less_append_eqlen:
  fixes xs ys us vs :: "'a::linorder list"
  assumes "length xs = length ys"
  shows "xs @ us < ys @ vs \<longleftrightarrow> xs < ys \<or> xs = ys \<and> us < vs"
  using assms by (induction xs ys rule: list_induct2) auto

lemma list_le_append_eqlen:
  fixes xs ys us vs :: "'a::linorder list"
  assumes "length xs = length ys"
  shows "xs @ us \<le> ys @ vs \<longleftrightarrow> xs < ys \<or> xs = ys \<and> us \<le> vs"
  using list_less_append_eqlen[OF assms] assms by (auto simp: le_less)


section \<open>Bits of bytes, most significant first\<close>

definition byte_bits :: "u8 \<Rightarrow> bits" where
  "byte_bits b = map (\<lambda>i. bit b (7 - i)) [0..<8]"

text \<open>\<open>bytes.view_bits::<Msb0>()\<close>.\<close>
fun view_bits :: "bytes \<Rightarrow> bits" where
  "view_bits [] = []"
| "view_bits (b # bs) = byte_bits b @ view_bits bs"

text \<open>\<open>bits.load_be()\<close>: the bits as a big endian number.\<close>
definition load_be :: "bits \<Rightarrow> nat" where
  "load_be bs = foldl (\<lambda>acc b. 2 * acc + of_bool b) 0 bs"

lemma byte_bits_length [simp, bit_simps']: "length (byte_bits b) = 8"
  by (simp add: byte_bits_def)

lemma view_bits_length [simp, bit_simps']: "length (view_bits bs) = 8 * length bs"
  by (induction bs) auto

lemma view_bits_append [simp, bit_simps']: "view_bits (xs @ ys) = view_bits xs @ view_bits ys"
  by (induction xs) auto

lemma load_be_Nil [simp]: "load_be [] = 0"
  by (simp add: load_be_def)

lemma load_be_snoc: "load_be (xs @ [b]) = 2 * load_be xs + of_bool b"
  by (simp add: load_be_def)

lemma load_be_bound: "load_be xs < 2 ^ length xs"
  by (induction xs rule: rev_induct) (auto simp: load_be_snoc)

lemma load_be_append: "load_be (xs @ ys) = load_be xs * 2 ^ length ys + load_be ys"
  by (induction ys rule: rev_induct)
     (auto simp: load_be_snoc append_assoc[symmetric] algebra_simps simp del: append_assoc)

lemma load_be_Cons: "load_be (b # xs) = of_bool b * 2 ^ length xs + load_be xs"
  using load_be_append[of "[b]" xs] load_be_snoc[of "[]" b] by simp

lemma load_be_less:
  "length xs = length ys \<Longrightarrow> load_be xs < load_be ys \<longleftrightarrow> xs < ys"
proof (induction xs ys rule: list_induct2)
  case (Cons x xs y ys)
  have "load_be xs < 2 ^ length ys" "load_be ys < 2 ^ length ys"
    using load_be_bound[of xs] load_be_bound[of ys] Cons.hyps by simp_all
  with Cons show ?case by (cases x; cases y) (auto simp: load_be_Cons)
qed simp

lemma load_be_inject:
  assumes "length xs = length ys"
  shows "load_be xs = load_be ys \<longleftrightarrow> xs = ys"
  using load_be_less[OF assms] load_be_less[OF assms[symmetric]]
  by (metis less_irrefl linorder_neqE)

lemma load_be_rev: "load_be (rev xs) = horner_sum of_bool 2 xs"
  by (induction xs) (auto simp: load_be_snoc)

lemma byte_bits_rev: "byte_bits b = rev (map (bit b) [0..<8])"
  by (simp add: byte_bits_def upt_rec eval_nat_numeral)

lemma load_be_byte_bits [simp]: "load_be (byte_bits b) = unat b"
proof -
  have "map (bit b) [0..<8] = map (bit (unat b)) [0..<8]"
    by (rule map_cong) (simp_all add: bit_unsigned_iff bit_imp_le_length)
  hence "load_be (byte_bits b) = take_bit 8 (unat b)"
    by (simp only: byte_bits_rev load_be_rev horner_sum_bit_eq_take_bit)
  also have "\<dots> = unat b"
    using unsigned_less[of b] by (simp add: take_bit_nat_eq_self_iff)
  finally show ?thesis .
qed

lemma byte_bits_inject [simp]: "byte_bits a = byte_bits b \<longleftrightarrow> a = b"
  by (metis load_be_byte_bits unsigned_word_eqI)

lemma byte_bits_less: "byte_bits a < byte_bits b \<longleftrightarrow> a < b"
  using load_be_less[of "byte_bits a" "byte_bits b"] by (simp add: word_less_nat_alt)

lemma view_bits_inject [simp]: "view_bits xs = view_bits ys \<longleftrightarrow> xs = ys"
proof (induction xs arbitrary: ys)
  case Nil
  have "view_bits (y # ys') \<noteq> []" for y ys' by (simp add: byte_bits_def)
  then show ?case by (cases ys) (auto simp del: view_bits.simps, auto)
next
  case (Cons x xs)
  have "byte_bits x @ view_bits xs \<noteq> []" by (simp add: byte_bits_def)
  with Cons show ?case by (cases ys) auto
qed

text \<open>Byte-wise and bit-wise lexicographic order of keys agree.\<close>
lemma view_bits_less:
  "length xs = length ys \<Longrightarrow> view_bits xs < view_bits ys \<longleftrightarrow> xs < ys"
  by (induction xs ys rule: list_induct2)
     (auto simp: list_less_append_eqlen byte_bits_less)


text \<open>The bytes of a bit string whose length is a multiple of eight.\<close>
function bits_to_bytes :: "bits \<Rightarrow> bytes" where
  "bits_to_bytes bs =
     (if bs = [] then [] else word_of_nat (load_be (take 8 bs)) # bits_to_bytes (drop 8 bs))"
  by pat_completeness auto
termination by (relation "measure length") auto

declare bits_to_bytes.simps [simp del]

lemma bits_to_bytes_Nil [simp]: "bits_to_bytes [] = []"
  by (simp add: bits_to_bytes.simps)

lemma bits_to_bytes_append8:
  "length xs = 8 \<Longrightarrow> bits_to_bytes (xs @ ys) = word_of_nat (load_be xs) # bits_to_bytes ys"
  by (subst bits_to_bytes.simps) auto

lemma bits_to_bytes_view [simp]: "bits_to_bytes (view_bits bs) = bs"
  by (induction bs) (auto simp: bits_to_bytes_append8)

lemma byte_bits_load: "length xs = 8 \<Longrightarrow> byte_bits (word_of_nat (load_be xs)) = xs"
  by (subst load_be_inject[symmetric]) (use load_be_bound[of xs] in \<open>auto simp: unat_of_nat\<close>)

lemma view_bits_to_bytes: "length bs = 8 * n \<Longrightarrow> view_bits (bits_to_bytes bs) = bs"
proof (induction n arbitrary: bs)
  case (Suc n)
  have split: "bs = take 8 bs @ drop 8 bs" by simp
  have "bits_to_bytes bs = word_of_nat (load_be (take 8 bs)) # bits_to_bytes (drop 8 bs)"
    by (subst split, rule bits_to_bytes_append8) (use Suc.prems in simp)
  with Suc show ?case by (simp add: byte_bits_load)
qed simp

lemma bits_to_bytes_length: "length bs = 8 * n \<Longrightarrow> length (bits_to_bytes bs) = n"
  by (metis view_bits_to_bytes view_bits_length mult_cancel1 zero_neq_numeral)

text \<open>\<open>bytes.view_bits_mut::<Msb0>().set(i, b)\<close>.\<close>
definition set_bit_at :: "bytes \<Rightarrow> nat \<Rightarrow> bool \<Rightarrow> bytes" where
  "set_bit_at bs i b = bits_to_bytes ((view_bits bs)[i := b])"

lemma view_set_bit_at [simp]: "view_bits (set_bit_at bs i b) = (view_bits bs)[i := b]"
  by (simp add: set_bit_at_def view_bits_to_bytes[where n = "length bs"])

lemma length_set_bit_at [simp]: "length (set_bit_at bs i b) = length bs"
  by (simp add: set_bit_at_def bits_to_bytes_length[where n = "length bs"])


section \<open>Little endian integers\<close>

definition to_le :: "nat \<Rightarrow> nat \<Rightarrow> bytes" where
  "to_le n x = map (\<lambda>i. word_of_nat (x div 256 ^ i)) [0..<n]"

definition from_le :: "bytes \<Rightarrow> nat" where
  "from_le bs = foldr (\<lambda>b acc. unat b + 256 * acc) bs 0"

lemma to_le_length [simp]: "length (to_le n x) = n"
  by (simp add: to_le_def)

lemma from_le_simps [simp]:
  "from_le [] = 0" "from_le (b # bs) = unat b + 256 * from_le bs"
  by (simp_all add: from_le_def)

lemma to_le_0 [simp]: "to_le 0 x = []"
  by (simp add: to_le_def)

lemma to_le_Suc: "to_le (Suc n) x = word_of_nat x # to_le n (x div 256)"
  by (simp add: to_le_def upt_conv_Cons map_Suc_upt[symmetric] div_mult2_eq
           del: upt_Suc map_map) (simp add: div_mult2_eq comp_def)

lemma unat_byte_of_nat [simp]: "unat (word_of_nat x :: u8) = x mod 256"
  by (simp add: unat_of_nat)

lemma from_le_to_le: "from_le (to_le n x) = x mod 256 ^ n"
proof (induction n arbitrary: x)
  case (Suc n)
  then show ?case by (simp add: to_le_Suc mod_mult2_eq)
qed simp

lemma from_le_bound: "from_le bs < 256 ^ length bs"
proof (induction bs)
  case (Cons b bs)
  have "unat b < 256" using unsigned_less[of b] by simp
  with Cons show ?case by simp
qed simp

lemma byte_of_nat_add256: "(word_of_nat (unat b + 256 * x) :: u8) = b"
proof -
  have "(256 :: u8) = 0" by simp
  thus ?thesis by (simp only: of_nat_add of_nat_mult of_nat_unat of_nat_numeral) simp
qed

lemma to_le_from_le: "to_le (length bs) (from_le bs) = bs"
proof (induction bs)
  case (Cons b bs)
  have "unat b < 256" using unsigned_less[of b] by simp
  hence "(unat b + 256 * from_le bs) div 256 = from_le bs" by simp
  with Cons show ?case
    by (simp only: to_le_Suc byte_of_nat_add256 from_le_simps list.size add_Suc_right add_0_right)
qed simp

lemma from_le_to_le_id: "x < 256 ^ n \<Longrightarrow> from_le (to_le n x) = x"
  by (simp add: from_le_to_le)

lemma to_le_pad:
  assumes "x < 256 ^ n"
  shows "to_le (n + m) x = to_le n x @ replicate m 0"
proof -
  have "x div 256 ^ i = 0" if "n \<le> i" for i
    using order.strict_trans2[OF assms power_increasing[OF that]] by simp
  hence "map (\<lambda>i. word_of_nat (x div 256 ^ i) :: u8) [n..<n + m] = replicate m 0"
    by (intro nth_equalityI) auto
  thus ?thesis using upt_add_eq_append[of 0 n m] by (simp add: to_le_def)
qed

text \<open>Big endian byte strings.\<close>
definition to_be :: "nat \<Rightarrow> nat \<Rightarrow> bytes" where
  "to_be n x = rev (to_le n x)"

definition from_be :: "bytes \<Rightarrow> nat" where
  "from_be bs = from_le (rev bs)"

lemma from_le_append: "from_le (xs @ ys) = from_le xs + 256 ^ length xs * from_le ys"
  by (induction xs) (auto simp: algebra_simps)

lemma from_be_load_be: "from_be bs = load_be (view_bits bs)"
proof (induction bs)
  case (Cons b bs)
  have "(2 :: nat) ^ (8 * length bs) = 256 ^ length bs" by (simp add: power_mult)
  with Cons show ?case by (simp add: from_be_def from_le_append load_be_append)
qed (simp add: from_be_def)

lemma to_be_length [simp]: "length (to_be n x) = n"
  by (simp add: to_be_def)

lemma from_be_to_be: "from_be (to_be n x) = x mod 256 ^ n"
  by (simp add: to_be_def from_be_def from_le_to_le)

lemma to_be_from_be: "to_be (length bs) (from_be bs) = bs"
  using to_le_from_le[of "rev bs"] by (simp add: to_be_def from_be_def)

lemma from_be_bound: "from_be bs < 256 ^ length bs"
  using from_le_bound[of "rev bs"] by (simp add: from_be_def)

lemma to_be_pad: "x < 256 ^ n \<Longrightarrow> to_be (n + m) x = replicate m 0 @ to_be n x"
  by (simp add: to_be_def to_le_pad)

lemma to_le_inject: "x < 256 ^ n \<Longrightarrow> y < 256 ^ n \<Longrightarrow> to_le n x = to_le n y \<longleftrightarrow> x = y"
  by (metis from_le_to_le_id)

section \<open>Binary search\<close>

text \<open>\<open>slice::binary_search_by\<close> of the Rust standard library; \<open>Inr\<close> is \<open>Ok\<close>.\<close>

datatype ordering = Less | Equal | Greater

definition cmp_of :: "'a::linorder \<Rightarrow> 'a \<Rightarrow> ordering" where
  "cmp_of a b = (if a < b then Less else if a = b then Equal else Greater)"

lemma cmp_of_simps [simp]:
  "cmp_of a b = Less \<longleftrightarrow> a < b" "cmp_of a b = Equal \<longleftrightarrow> a = b" "cmp_of a b = Greater \<longleftrightarrow> b < a"
  by (auto simp: cmp_of_def)

function bsearch_loop :: "('a \<Rightarrow> ordering) \<Rightarrow> 'a list \<Rightarrow> nat \<Rightarrow> nat \<Rightarrow> nat" where
  "bsearch_loop f xs base sz =
     (if sz \<le> 1 then base
      else let half = sz div 2; mid = base + half in
           bsearch_loop f xs (if f (xs ! mid) = Greater then base else mid) (sz - half))"
  by pat_completeness auto
termination by (relation "measure (\<lambda>(_, _, _, sz). sz)") auto

declare bsearch_loop.simps [simp del]

definition binary_search_by :: "('a \<Rightarrow> ordering) \<Rightarrow> 'a list \<Rightarrow> nat + nat" where
  "binary_search_by f xs =
     (if xs = [] then Inl 0
      else let base = bsearch_loop f xs 0 (length xs) in
           case f (xs ! base) of
             Equal \<Rightarrow> Inr base
           | Less \<Rightarrow> Inl (Suc base)
           | Greater \<Rightarrow> Inl base)"

definition binary_search_by_key :: "'k::linorder \<Rightarrow> ('a \<Rightarrow> 'k) \<Rightarrow> 'a list \<Rightarrow> nat + nat" where
  "binary_search_by_key k f xs = binary_search_by (\<lambda>x. cmp_of (f x) k) xs"

text \<open>The list is ordered with respect to the comparison: less, then equal, then greater.\<close>
definition cmp_sorted :: "('a \<Rightarrow> ordering) \<Rightarrow> 'a list \<Rightarrow> bool" where
  "cmp_sorted f xs \<longleftrightarrow>
     (\<forall>j < length xs. \<forall>i < j.
        (f (xs ! i) = Greater \<longrightarrow> f (xs ! j) = Greater) \<and>
        (f (xs ! j) = Less \<longrightarrow> f (xs ! i) = Less))"

lemma bsearch_loop_inv:
  assumes "cmp_sorted f xs" "0 < sz" "base + sz \<le> length xs"
    and "base = 0 \<or> f (xs ! base) \<noteq> Greater"
    and "\<forall>j < length xs. base + sz \<le> j \<longrightarrow> f (xs ! j) = Greater"
  defines "r \<equiv> bsearch_loop f xs base sz"
  shows "r < length xs \<and> (r = 0 \<or> f (xs ! r) \<noteq> Greater) \<and>
         (\<forall>j < length xs. r < j \<longrightarrow> f (xs ! j) = Greater)"
  using assms(2-5) unfolding r_def
proof (induction sz arbitrary: base rule: less_induct)
  case (less sz)
  show ?case
  proof (cases "sz \<le> 1")
    case True
    then show ?thesis using less.prems by (auto simp: bsearch_loop.simps)
  next
    case False
    let ?half = "sz div 2"
    let ?base = "if f (xs ! (base + ?half)) = Greater then base else base + ?half"
    have half: "0 < ?half" "?half < sz" using False by auto
    have "\<forall>j < length xs. ?base + (sz - ?half) \<le> j \<longrightarrow> f (xs ! j) = Greater"
    proof (intro allI impI)
      fix j assume j: "j < length xs" "?base + (sz - ?half) \<le> j"
      show "f (xs ! j) = Greater"
      proof (cases "f (xs ! (base + ?half)) = Greater")
        case True
        have "base + ?half \<le> j" using True j half by auto
        moreover have "f (xs ! j) = Greater" if "base + ?half < j"
          using assms(1)[unfolded cmp_sorted_def, rule_format, OF j(1) that] True by simp
        ultimately show ?thesis using True by (cases "base + ?half = j") auto
      qed (use less.prems j half in auto)
    qed
    note IH = less.IH[of "sz - ?half" ?base, OF _ _ _ _ this]
    have "sz - ?half < sz" "0 < sz - ?half" "?base + (sz - ?half) \<le> length xs"
      "?base = 0 \<or> f (xs ! ?base) \<noteq> Greater"
      using less.prems half by auto
    note IH [OF this]
    moreover have "bsearch_loop f xs base sz = bsearch_loop f xs ?base (sz - ?half)"
      using False by (subst bsearch_loop.simps) (simp add: Let_def)
    ultimately show ?thesis by simp
  qed
qed

lemma binary_search_by_cases:
  assumes "cmp_sorted f xs"
  obtains (found) i where "binary_search_by f xs = Inr i" "i < length xs" "f (xs ! i) = Equal"
  | (missing) i where "binary_search_by f xs = Inl i" "i \<le> length xs"
      "\<forall>j < i. f (xs ! j) = Less" "\<forall>j < length xs. i \<le> j \<longrightarrow> f (xs ! j) = Greater"
proof (cases "xs = []")
  case True
  then show ?thesis by (intro missing[of 0]) (auto simp: binary_search_by_def)
next
  case False
  define r where "r = bsearch_loop f xs 0 (length xs)"
  have r: "r < length xs" "r = 0 \<or> f (xs ! r) \<noteq> Greater"
    "\<forall>j < length xs. r < j \<longrightarrow> f (xs ! j) = Greater"
    using bsearch_loop_inv[OF assms, of "length xs" 0] False unfolding r_def by auto
  show ?thesis
  proof (cases "f (xs ! r)")
    case Equal
    then show ?thesis using r False
      by (intro found[of r]) (auto simp: binary_search_by_def r_def Let_def)
  next
    case Less
    then show ?thesis using r False assms
      by (intro missing[of "Suc r"])
         (auto simp: binary_search_by_def r_def Let_def cmp_sorted_def less_Suc_eq)
  next
    case Greater
    then show ?thesis using r False
      by (intro missing[of r])
         (auto simp: binary_search_by_def r_def Let_def le_less)
  qed
qed

lemma take_allI: "\<forall>j < i. P (xs ! j) \<Longrightarrow> \<forall>x\<in>set (take i xs). P x"
  by (metis in_set_conv_nth length_take min_less_iff_conj nth_take)

lemma drop_allI: "\<forall>j < length xs. i \<le> j \<longrightarrow> P (xs ! j) \<Longrightarrow> \<forall>x\<in>set (drop i xs). P x"
  by (auto simp: in_set_conv_nth)

lemma cmp_sorted_key:
  fixes f :: "'a \<Rightarrow> 'k::linorder"
  assumes "sorted_wrt (\<lambda>x y. f x < f y) xs"
  shows "cmp_sorted (\<lambda>x. cmp_of (f x) k) xs"
proof -
  have lt: "f (xs ! i) < f (xs ! j)" if "i < j" "j < length xs" for i j
    using sorted_wrt_nth_less[OF assms that] .
  show ?thesis unfolding cmp_sorted_def
    using lt by (auto intro: order.strict_trans)
qed

text \<open>The same search with a comparison that may panic.\<close>

function bsearch_loop_opt :: "('a \<Rightarrow> ordering option) \<Rightarrow> 'a list \<Rightarrow> nat \<Rightarrow> nat \<Rightarrow> nat option" where
  "bsearch_loop_opt f xs base sz =
     (if sz \<le> 1 then Some base
      else let half = sz div 2; mid = base + half in
           Option.bind (f (xs ! mid)) (\<lambda>c.
             bsearch_loop_opt f xs (if c = Greater then base else mid) (sz - half)))"
  by pat_completeness auto
termination by (relation "measure (\<lambda>(_, _, _, sz). sz)") auto

declare bsearch_loop_opt.simps [simp del]

definition binary_search_by_opt :: "('a \<Rightarrow> ordering option) \<Rightarrow> 'a list \<Rightarrow> (nat + nat) option" where
  "binary_search_by_opt f xs =
     (if xs = [] then Some (Inl 0)
      else do {
        base \<leftarrow> bsearch_loop_opt f xs 0 (length xs);
        c \<leftarrow> f (xs ! base);
        Some (case c of Equal \<Rightarrow> Inr base | Less \<Rightarrow> Inl (Suc base) | Greater \<Rightarrow> Inl base) })"

lemma bsearch_loop_opt_total:
  assumes "\<forall>x\<in>set xs. f x = Some (g x)" "base + sz \<le> length xs"
  shows "bsearch_loop_opt f xs base sz = Some (bsearch_loop g xs base sz)"
  using assms(2)
proof (induction sz arbitrary: base rule: less_induct)
  case (less sz)
  show ?case
  proof (cases "sz \<le> 1")
    case True
    then show ?thesis by (subst bsearch_loop_opt.simps, subst bsearch_loop.simps) simp
  next
    case False
    let ?half = "sz div 2"
    have "f (xs ! (base + ?half)) = Some (g (xs ! (base + ?half)))"
      using assms(1) less.prems False by simp
    then show ?thesis using False less.prems less.IH[of "sz - ?half"]
      by (subst bsearch_loop_opt.simps, subst bsearch_loop.simps) (simp add: Let_def)
  qed
qed

lemma bsearch_loop_less: "base < length xs \<Longrightarrow> base + sz \<le> length xs \<Longrightarrow> bsearch_loop f xs base sz < length xs"
proof (induction sz arbitrary: base rule: less_induct)
  case (less sz)
  show ?case
  proof (cases "sz \<le> 1")
    case True
    then show ?thesis using less.prems by (subst bsearch_loop.simps) simp
  next
    case False
    let ?half = "sz div 2"
    have "?half < sz" "0 < ?half" using False by auto
    then show ?thesis using False less.prems less.IH[of "sz - ?half"]
      by (subst bsearch_loop.simps) (simp add: Let_def)
  qed
qed

lemma binary_search_by_opt_total:
  assumes "\<forall>x\<in>set xs. f x = Some (g x)"
  shows "binary_search_by_opt f xs = Some (binary_search_by g xs)"
proof (cases "xs = []")
  case False
  have "bsearch_loop g xs 0 (length xs) < length xs" using False by (intro bsearch_loop_less) auto
  then show ?thesis using assms False bsearch_loop_opt_total[of xs f g 0 "length xs"]
    by (simp add: binary_search_by_opt_def binary_search_by_def Let_def split: ordering.splits)
qed (simp add: binary_search_by_opt_def binary_search_by_def)

lemma map_nth_binary_search:
  assumes "cmp_sorted f xs" "\<forall>x\<in>set xs. f x \<noteq> Equal"
  obtains i where "binary_search_by f xs = Inl i" "i \<le> length xs"
    "\<forall>x\<in>set (take i xs). f x = Less" "\<forall>x\<in>set (drop i xs). f x = Greater"
  using assms(1)
proof (cases rule: binary_search_by_cases)
  case (found i)
  then show ?thesis using assms(2) by auto
next
  case (missing i)
  show ?thesis
    by (rule that[OF missing(1,2) take_allI[OF missing(3)] drop_allI[OF missing(4)]])
qed

end
