(* ===== verification/TrieNodes.thy ===== *)
theory TrieNodes
  imports NomtPrelude
begin

text \<open>
  The node schema of the trie (\<open>core/src/trie.rs\<close>) and the node hashers
  (\<open>core/src/hasher.rs\<close>).  The cryptographic hash is a parameter.  The contract of the
  \<open>NodeHasher\<close> trait is the locale \<open>node_hasher_laws\<close>, and \<open>binary_hasher\<close>, the
  hasher the crate builds from a 256-bit hash, is shown to meet it.  The theory ends
  with the abstract trie: the tree of leaves and internal nodes that a set of
  key-value pairs denotes, and its Merkle root.
\<close>

section \<open>Nodes\<close>

type_synonym node = bytes
type_synonym key_path = bytes
type_synonym value_hash = bytes

datatype node_kind = KTerminator | KLeaf | KInternal

record internal_data =
  left :: node
  right :: node

record leaf_data =
  leaf_key :: key_path
  leaf_value :: value_hash

definition TERMINATOR :: node where
  "TERMINATOR = replicate 32 0"

record node_hasher =
  hash_leaf :: "leaf_data \<Rightarrow> node"
  hash_internal :: "internal_data \<Rightarrow> node"
  node_kind_of :: "node \<Rightarrow> node_kind"

definition is_leaf :: "node_hasher \<Rightarrow> node \<Rightarrow> bool" where
  "is_leaf H n = (node_kind_of H n = KLeaf)"

definition is_internal :: "node_hasher \<Rightarrow> node \<Rightarrow> bool" where
  "is_internal H n = (node_kind_of H n = KInternal)"

definition is_terminator :: "node_hasher \<Rightarrow> node \<Rightarrow> bool" where
  "is_terminator H n = (node_kind_of H n = KTerminator)"

lemma TERMINATOR_length [simp]: "length TERMINATOR = 32"
  by (simp add: TERMINATOR_def)


section \<open>The binary hasher\<close>

unbundle bit_operations_syntax

definition node_kind_by_msb :: "node \<Rightarrow> node_kind" where
  "node_kind_by_msb n =
     (if drop_bit 7 (hd n) = 1 then KLeaf
      else if n = TERMINATOR then KTerminator
      else KInternal)"

fun set_msb :: "node \<Rightarrow> node" where
  "set_msb [] = []"
| "set_msb (b # bs) = (b OR 128) # bs"

fun unset_msb :: "node \<Rightarrow> node" where
  "unset_msb [] = []"
| "unset_msb (b # bs) = (b AND 127) # bs"

text \<open>The default \<open>hash2_32_concat\<close>: both halves copied into a 64-byte buffer.\<close>
definition hash2_32_concat :: "(bytes \<Rightarrow> bytes) \<Rightarrow> bytes \<Rightarrow> bytes \<Rightarrow> bytes" where
  "hash2_32_concat hash l r = hash (l @ r)"

definition binary_hasher :: "(bytes \<Rightarrow> bytes) \<Rightarrow> node_hasher" where
  "binary_hasher hash = \<lparr>
     hash_leaf = (\<lambda>d. set_msb (hash2_32_concat hash (leaf_key d) (leaf_value d))),
     hash_internal = (\<lambda>d. unset_msb (hash2_32_concat hash (left d) (right d))),
     node_kind_of = node_kind_by_msb \<rparr>"

definition hash_value :: "(bytes \<Rightarrow> bytes) \<Rightarrow> bytes \<Rightarrow> bytes" where
  "hash_value hash v = hash v"

text \<open>
  What the trait documents: leaves and internal nodes are domain separated by kind,
  only the all-zero value is a terminator, and no hash produces it.
\<close>
locale node_hasher_laws =
  fixes H :: node_hasher
  assumes kind_leaf: "node_kind_of H (hash_leaf H d) = KLeaf"
    and kind_internal: "node_kind_of H (hash_internal H i) = KInternal"
    and kind_terminator: "node_kind_of H n = KTerminator \<longleftrightarrow> n = TERMINATOR"
begin

lemma kind_TERMINATOR: "node_kind_of H TERMINATOR = KTerminator"
  by (simp add: kind_terminator)

lemma leaf_neq_internal: "hash_leaf H d \<noteq> hash_internal H i"
  using kind_leaf[of d] kind_internal[of i] by auto

lemma leaf_neq_TERMINATOR: "hash_leaf H d \<noteq> TERMINATOR"
  using kind_leaf[of d] kind_TERMINATOR by auto

lemma internal_neq_TERMINATOR: "hash_internal H i \<noteq> TERMINATOR"
  using kind_internal[of i] kind_TERMINATOR by auto

lemmas kind_simps = kind_leaf kind_internal kind_TERMINATOR
  leaf_neq_internal leaf_neq_internal[symmetric]
  leaf_neq_TERMINATOR leaf_neq_TERMINATOR[symmetric]
  internal_neq_TERMINATOR internal_neq_TERMINATOR[symmetric]

end

text \<open>A 256-bit hash whose labelled outputs avoid the reserved all-zero value.\<close>
locale binary_hash =
  fixes hash :: "bytes \<Rightarrow> bytes"
  assumes hash_length: "length (hash bs) = 32"
    and hash_reserved: "unset_msb (hash bs) \<noteq> TERMINATOR"

lemma set_msb_length [simp]: "length (set_msb n) = length n"
  by (cases n) auto

lemma unset_msb_length [simp]: "length (unset_msb n) = length n"
  by (cases n) auto

lemma byte_msb_iff: "drop_bit 7 (b :: u8) = 1 \<longleftrightarrow> bit b 7"
proof -
  have "drop_bit 7 b = of_bool (bit b 7)"
  proof (rule bit_word_eqI)
    fix n assume "n < LENGTH(8)"
    have "bit b (7 + n) \<Longrightarrow> n = 0"
      using bit_imp_le_length[of b "7 + n"] by auto
    then show "bit (drop_bit 7 b) n = bit (of_bool (bit b 7) :: u8) n"
      by (cases "n = 0") (auto simp: bit_drop_bit_eq bit_1_iff of_bool_def)
  qed
  thus ?thesis by simp
qed

lemma bit_numeral_128: "bit (128 :: u8) n \<longleftrightarrow> n = 7"
proof -
  have "(128 :: u8) = push_bit 7 1" by simp
  thus ?thesis by (auto simp only: bit_push_bit_iff bit_1_iff possible_bit_word) auto
qed

lemma bit_numeral_127: "bit (127 :: u8) n \<longleftrightarrow> n < 7"
proof -
  have "(127 :: u8) = mask 7" by (simp add: mask_eq_exp_minus_1)
  thus ?thesis by (auto simp only: bit_mask_iff possible_bit_word) auto
qed

lemma kind_set_msb: "n \<noteq> [] \<Longrightarrow> node_kind_by_msb (set_msb n) = KLeaf"
  by (cases n) (simp_all add: node_kind_by_msb_def byte_msb_iff bit_or_iff bit_numeral_128
                         del: drop_bit_or)

lemma kind_unset_msb:
  "n \<noteq> [] \<Longrightarrow> unset_msb n \<noteq> TERMINATOR \<Longrightarrow> node_kind_by_msb (unset_msb n) = KInternal"
  by (cases n) (auto simp: node_kind_by_msb_def byte_msb_iff bit_and_iff bit_numeral_127)

lemma kind_by_msb_terminator: "node_kind_by_msb n = KTerminator \<longleftrightarrow> n = TERMINATOR"
  by (auto simp: node_kind_by_msb_def TERMINATOR_def)

sublocale binary_hash \<subseteq> bh: node_hasher_laws "binary_hasher hash"
proof
  have ne: "hash bs \<noteq> []" for bs using hash_length[of bs] by auto
  show "node_kind_of (binary_hasher hash) (hash_leaf (binary_hasher hash) d) = KLeaf" for d
    by (simp add: binary_hasher_def hash2_32_concat_def kind_set_msb ne)
  show "node_kind_of (binary_hasher hash) (hash_internal (binary_hasher hash) i) = KInternal" for i
    by (simp add: binary_hasher_def hash2_32_concat_def kind_unset_msb ne hash_reserved)
  show "node_kind_of (binary_hasher hash) n = KTerminator \<longleftrightarrow> n = TERMINATOR" for n
    by (simp add: binary_hasher_def kind_by_msb_terminator)
qed


section \<open>The abstract trie\<close>

text \<open>
  A set of key-value pairs denotes a binary tree: no pair is a terminator, one pair is
  a leaf as high as possible, and more pairs are an internal node that sends each pair
  left or right by the bit of its key at the node's depth.
\<close>

datatype mtrie = MTerm | MLeaf leaf_data | MInt mtrie mtrie

type_synonym kv = "key_path \<times> value_hash"

abbreviation key_bit :: "nat \<Rightarrow> kv \<Rightarrow> bool" where
  "key_bit d kv \<equiv> view_bits (fst kv) ! d"

definition leaf_of :: "kv \<Rightarrow> leaf_data" where
  "leaf_of kv = \<lparr>leaf_key = fst kv, leaf_value = snd kv\<rparr>"

function mk_trie :: "nat \<Rightarrow> kv list \<Rightarrow> mtrie" where
  "mk_trie d [] = MTerm"
| "mk_trie d [kv] = MLeaf (leaf_of kv)"
| "mk_trie d (kv1 # kv2 # kvs) =
     (if 256 \<le> d then MTerm
      else MInt (mk_trie (Suc d) (filter (\<lambda>kv. \<not> key_bit d kv) (kv1 # kv2 # kvs)))
                (mk_trie (Suc d) (filter (key_bit d) (kv1 # kv2 # kvs))))"
  by pat_completeness auto
termination by (relation "measure (\<lambda>(d, _). 256 - d)") auto

declare mk_trie.simps(3) [simp del]

fun node_hash :: "node_hasher \<Rightarrow> mtrie \<Rightarrow> node" where
  "node_hash H MTerm = TERMINATOR"
| "node_hash H (MLeaf d) = hash_leaf H d"
| "node_hash H (MInt l r) = hash_internal H \<lparr>left = node_hash H l, right = node_hash H r\<rparr>"

text \<open>The Merkle root of a set of pairs.\<close>
definition trie_root :: "node_hasher \<Rightarrow> kv list \<Rightarrow> node" where
  "trie_root H kvs = node_hash H (mk_trie 0 kvs)"

text \<open>All nodes below a position that are not terminators, children before parents.\<close>
fun trie_nodes :: "node_hasher \<Rightarrow> bits \<Rightarrow> mtrie \<Rightarrow> (bits \<times> node) list" where
  "trie_nodes H p MTerm = []"
| "trie_nodes H p (MLeaf d) = [(p, hash_leaf H d)]"
| "trie_nodes H p (MInt l r) =
     trie_nodes H (p @ [False]) l @ trie_nodes H (p @ [True]) r @ [(p, node_hash H (MInt l r))]"

text \<open>Well-formed key-value lists: 32-byte keys in strictly ascending order.\<close>
definition kvs_ok :: "kv list \<Rightarrow> bool" where
  "kvs_ok kvs \<longleftrightarrow> (\<forall>kv\<in>set kvs. length (fst kv) = 32) \<and> sorted_wrt (\<lambda>x y. fst x < fst y) kvs"

definition share_prefix :: "nat \<Rightarrow> kv list \<Rightarrow> bits \<Rightarrow> bool" where
  "share_prefix d kvs p \<longleftrightarrow> length p = d \<and> (\<forall>kv\<in>set kvs. take d (view_bits (fst kv)) = p)"

lemma kvs_ok_simps [simp]:
  "kvs_ok []"
  "kvs_ok (kv # kvs) \<longleftrightarrow> length (fst kv) = 32 \<and> (\<forall>x\<in>set kvs. fst kv < fst x) \<and> kvs_ok kvs"
  by (auto simp: kvs_ok_def)

lemma kvs_ok_append:
  "kvs_ok (xs @ ys) \<longleftrightarrow> kvs_ok xs \<and> kvs_ok ys \<and> (\<forall>x\<in>set xs. \<forall>y\<in>set ys. fst x < fst y)"
  by (auto simp: kvs_ok_def sorted_wrt_append)

lemma kvs_ok_filter: "kvs_ok kvs \<Longrightarrow> kvs_ok (filter P kvs)"
  by (auto simp: kvs_ok_def sorted_wrt_filter)

lemma kvs_ok_length: "kvs_ok kvs \<Longrightarrow> kv \<in> set kvs \<Longrightarrow> length (fst kv) = 32"
  by (auto simp: kvs_ok_def)

lemma kvs_ok_distinct: "kvs_ok kvs \<Longrightarrow> distinct (map fst kvs)"
  by (induction kvs) (force simp: kvs_ok_def)+

lemma share_prefix_filter: "share_prefix d kvs p \<Longrightarrow> share_prefix d (filter P kvs) p"
  by (auto simp: share_prefix_def)

lemma share_prefix_step:
  assumes "share_prefix d kvs p" "kvs_ok kvs" "d < 256" "\<forall>kv\<in>set kvs. key_bit d kv = b"
  shows "share_prefix (Suc d) kvs (p @ [b])"
  using assms by (auto simp: share_prefix_def kvs_ok_def take_Suc_conv_app_nth)

text \<open>Keys that share a prefix and sort ascending go left first, then right.\<close>
lemma key_bit_mono:
  assumes "length (fst x) = 32" "length (fst y) = 32" "d < 256"
    and "take d (view_bits (fst x)) = take d (view_bits (fst y))"
    and "fst x < fst y" "key_bit d x"
  shows "key_bit d y"
proof (rule ccontr)
  assume n: "\<not> key_bit d y"
  let ?x = "view_bits (fst x)" and ?y = "view_bits (fst y)"
  have lcp: "lcp_len ?x ?y = d"
    using assms n by (intro lcp_len_eqI) auto
  have "?x < ?y" using assms by (simp add: view_bits_less)
  hence "?x ! d < ?y ! d" using list_less_at_lcp[of ?x ?y] lcp assms by auto
  with n assms show False by simp
qed

lemma kvs_split:
  assumes "kvs_ok kvs" "share_prefix d kvs p" "d < 256"
  shows "kvs = filter (\<lambda>kv. \<not> key_bit d kv) kvs @ filter (key_bit d) kvs"
  using assms
proof (induction kvs)
  case (Cons x kvs)
  have sp: "share_prefix d kvs p" using Cons.prems by (simp add: share_prefix_def)
  note IH = Cons.IH[OF _ sp Cons.prems(3)]
  show ?case
  proof (cases "key_bit d x")
    case True
    have "key_bit d y" if "y \<in> set kvs" for y
      by (rule key_bit_mono[of x]) (use Cons.prems True that in
        \<open>auto simp: share_prefix_def kvs_ok_length\<close>)
    then show ?thesis using True by (simp add: filter_id_conv)
  qed (use Cons.prems IH in auto)
qed simp

lemma kvs_full_prefix_singleton:
  assumes "kvs_ok (x # y # kvs)" "share_prefix d (x # y # kvs) p" "256 \<le> d"
  shows False
proof -
  have "view_bits (fst x) = view_bits (fst y)"
    using assms by (simp add: share_prefix_def)
  with assms show False by simp
qed

end
