(* ===== verification/SampleData.thy ===== *)
theory SampleData
  imports TrieNodes
begin

text \<open>
  A concrete 256-bit hash and concrete keys, at which the witnesses of the development
  evaluate.  The hash mixes the first bytes of the two halves of its input and has a constant last byte; it
  meets the contract of \<open>binary_hash\<close> and separates the preimages the witnesses use.
\<close>

fun mix_bytes :: "nat \<Rightarrow> bytes \<Rightarrow> bytes \<Rightarrow> bytes" where
  "mix_bytes 0 xs ys = []"
| "mix_bytes (Suc n) xs ys =
     ((case xs of [] \<Rightarrow> 0 | x # _ \<Rightarrow> x) + 3 * (case ys of [] \<Rightarrow> 0 | y # _ \<Rightarrow> y) + 1)
     # mix_bytes n (tl xs) (tl ys)"

lemma length_mix_bytes [simp]: "length (mix_bytes n xs ys) = n"
  by (induction n xs ys rule: mix_bytes.induct) auto

definition sample_hash :: "bytes \<Rightarrow> bytes" where
  "sample_hash bs = mix_bytes 3 bs (drop 32 bs) @ replicate 28 0 @ [1]"

definition sample_hasher :: node_hasher where
  "sample_hasher = binary_hasher sample_hash"

lemma last_unset_msb: "length n = 32 \<Longrightarrow> last (unset_msb n) = last n"
  by (cases n) auto

interpretation sample: binary_hash sample_hash
proof
  show len: "length (sample_hash bs) = 32" for bs by (simp add: sample_hash_def)
  show "unset_msb (sample_hash bs) \<noteq> TERMINATOR" for bs
  proof
    assume "unset_msb (sample_hash bs) = TERMINATOR"
    hence "last (sample_hash bs) = last TERMINATOR"
      using last_unset_msb[OF len[of bs]] by simp
    thus False by (simp add: sample_hash_def TERMINATOR_def)
  qed
qed

lemma sample_hasher_laws: "node_hasher_laws sample_hasher"
  unfolding sample_hasher_def by (rule sample.bh.node_hasher_laws_axioms)

text \<open>The key with the given first byte and zeros after it.\<close>
definition sample_key :: "nat \<Rightarrow> key_path" where
  "sample_key b = word_of_nat b # replicate 31 0"

lemma sample_key_length [simp]: "length (sample_key b) = 32"
  by (simp add: sample_key_def)

definition sample_value :: "nat \<Rightarrow> value_hash" where
  "sample_value v = replicate 32 (word_of_nat v)"

definition sample_kvs :: "kv list" where
  "sample_kvs = [(sample_key 16, sample_value 1), (sample_key 32, sample_value 2),
                 (sample_key 160, sample_value 3), (sample_key 176, sample_value 4)]"

lemma sample_kvs_ok: "kvs_ok sample_kvs" "share_prefix 0 sample_kvs []"
  by code_simp+

end
