(* ===== verification/BuildTrie.thy ===== *)
theory BuildTrie
  imports SampleData
begin

text \<open>
  Building a sub-trie from an ordered list of leaves (\<open>core/src/update.rs\<close>).
  \<open>build_trie\<close> is the left-frontier algorithm of the source: one pass over the leaves
  with a stack of pending left siblings, a vector used only at its end, so its head is
  the top here.  The visitor callback is the list of the commands it receives.  The
  main lemmas show that the pass computes the Merkle root of the abstract trie, never
  panics on ordered distinct keys, and visits every node of the trie at its position.
\<close>

section \<open>Splicing a leaf into the operations\<close>

text \<open>\<open>shared_bits\<close>: the length of the common prefix of two bit slices.\<close>
definition shared_bits :: "bits \<Rightarrow> bits \<Rightarrow> nat" where
  "shared_bits a b = length (takeWhile (\<lambda>(x, y). x = y) (zip a b))"

type_synonym leaf_op = "key_path \<times> value_hash option"

definition leaf_ops_spliced :: "leaf_data option \<Rightarrow> leaf_op list \<Rightarrow> kv list" where
  "leaf_ops_spliced leaf ops =
     (let found = Option.bind leaf (\<lambda>l.
            case binary_search_by_key (leaf_key l) fst ops of Inl i \<Rightarrow> Some i | Inr _ \<Rightarrow> None);
          preserve_value = (case (found, leaf) of
             (Some _, Some l) \<Rightarrow> [(leaf_key l, Some (leaf_value l))] | _ \<Rightarrow> []);
          splice_index = (case found of Some i \<Rightarrow> i | None \<Rightarrow> 0)
      in List.map_filter (\<lambda>(k, op). map_option (\<lambda>v. (k, v)) op)
           (take splice_index ops @ preserve_value @ drop splice_index ops))"


section \<open>The build algorithm\<close>

datatype write_node =
  WLeaf (w_up: bool) (w_down: bits) (w_leaf_data: leaf_data) (w_leaf_node: node)
| WInternal (w_internal_data: internal_data) (w_internal_node: node)
| WTerminator

fun write_node_up :: "write_node \<Rightarrow> bool" where
  "write_node_up (WLeaf up _ _ _) = up"
| "write_node_up (WInternal _ _) = True"
| "write_node_up WTerminator = False"

fun write_node_down :: "write_node \<Rightarrow> bits" where
  "write_node_down (WLeaf _ down _ _) = down"
| "write_node_down _ = []"

fun write_node_node :: "write_node \<Rightarrow> node" where
  "write_node_node (WLeaf _ _ _ n) = n"
| "write_node_node (WInternal _ n) = n"
| "write_node_node WTerminator = TERMINATOR"

text \<open>The closure \<open>common_after_prefix\<close>; slicing past the end of a key panics.\<close>
definition common_after_prefix :: "nat \<Rightarrow> key_path \<Rightarrow> key_path \<Rightarrow> nat option" where
  "common_after_prefix skip k1 k2 = do {
     x \<leftarrow> slice_of (view_bits k1) skip (length (view_bits k1));
     y \<leftarrow> slice_of (view_bits k2) skip (length (view_bits k2));
     Some (shared_bits x y) }"

text \<open>Depth of a leaf and the number of layers to hash up, from its neighbours.\<close>
fun leaf_position :: "nat option \<Rightarrow> nat option \<Rightarrow> nat \<times> nat" where
  "leaf_position None None = (0, 0)"
| "leaf_position None (Some n2) = (n2 + 1, 0)"
| "leaf_position (Some n1) None = (n1 + 1, n1 + 1)"
| "leaf_position (Some n1) (Some n2) = (max n1 n2 + 1, n1 - n2)"

text \<open>The top of the pending stack, when it is the sibling at the given layer.\<close>
fun pop_sibling :: "nat \<Rightarrow> (node \<times> nat) list \<Rightarrow> (node \<times> (node \<times> nat) list) option" where
  "pop_sibling l ((n, k) # ps) = (if k = l then Some (n, ps) else None)"
| "pop_sibling l [] = None"

definition internal_of :: "bool \<Rightarrow> node \<Rightarrow> node \<Rightarrow> internal_data" where
  "internal_of b n sibling =
     (if b then \<lparr>left = sibling, right = n\<rparr> else \<lparr>left = n, right = sibling\<rparr>)"

text \<open>The inner loop; it runs over at most \<open>layer\<close> bits, so \<open>layer - 1\<close> is exact.\<close>
fun build_hash_up :: "node_hasher \<Rightarrow> bits \<Rightarrow> nat \<Rightarrow> node \<Rightarrow> (node \<times> nat) list
    \<Rightarrow> node \<times> nat \<times> (node \<times> nat) list \<times> write_node list" where
  "build_hash_up H [] layer last_node pending = (last_node, layer, pending, [])"
| "build_hash_up H (b # bs) layer last_node pending =
     (let layer' = layer - 1;
          (sibling, pending') =
            (case pop_sibling (layer' + 1) pending of
               Some r \<Rightarrow> r | None \<Rightarrow> (TERMINATOR, pending));
          data = internal_of b last_node sibling;
          n = hash_internal H data;
          (n', l, ps, vs) = build_hash_up H bs layer' n pending'
      in (n', l, ps, WInternal data n # vs))"

text \<open>The outer loop: \<open>a\<close> is the previous leaf, the list is the current leaf \<open>b\<close>, the
  next leaf \<open>c\<close> and the rest of the iterator.\<close>
fun build_loop :: "node_hasher \<Rightarrow> nat \<Rightarrow> kv option \<Rightarrow> kv list \<Rightarrow> (node \<times> nat) list
    \<Rightarrow> ((node \<times> nat) list \<times> write_node list) option" where
  "build_loop H skip a [] pending = Some (pending, [])"
| "build_loop H skip a (b # rest) pending = do {
     n1 \<leftarrow> (case a of None \<Rightarrow> Some None
                    | Some (k, _) \<Rightarrow> map_option Some (common_after_prefix skip k (fst b)));
     n2 \<leftarrow> (case rest of [] \<Rightarrow> Some None
                    | (k, _) # _ \<Rightarrow> map_option Some (common_after_prefix skip k (fst b)));
     let leaf_data = leaf_of b;
     let leaf = hash_leaf H leaf_data;
     let (leaf_depth, hash_up_layers) = leaf_position n1 n2;
     let down_start = skip + (case n1 of None \<Rightarrow> 0 | Some n \<Rightarrow> n);
     let leaf_end_bit = skip + leaf_depth;
     down \<leftarrow> slice_of (view_bits (fst b)) down_start leaf_end_bit;
     path \<leftarrow> slice_of (view_bits (fst b)) skip leaf_end_bit;
     let (last_node, layer, pending', vs) =
       build_hash_up H (take hash_up_layers (rev path)) leaf_depth leaf pending;
     (res, ws) \<leftarrow> build_loop H skip (Some b) rest ((last_node, layer) # pending');
     Some (res, WLeaf (n1 \<noteq> None) down leaf_data leaf # vs @ ws) }"

declare build_loop.simps(2) [simp del]

text \<open>The root of the sub-trie at depth \<open>skip\<close> and the visitor's commands, or a panic.\<close>
fun build_trie :: "node_hasher \<Rightarrow> nat \<Rightarrow> kv list \<Rightarrow> (node \<times> write_node list) option" where
  "build_trie H skip [] = Some (TERMINATOR, [WTerminator])"
| "build_trie H skip [b] =
     (let leaf = hash_leaf H (leaf_of b) in Some (leaf, [WLeaf False [] (leaf_of b) leaf]))"
| "build_trie H skip (b # c # ops) = do {
     (pending, vs) \<leftarrow> build_loop H skip None (b # c # ops) [];
     Some (case pending of [] \<Rightarrow> TERMINATOR | (n, _) # _ \<Rightarrow> n, vs) }"

text \<open>How a visitor that starts at a position follows the commands: where it writes each
  node, and where it ends.\<close>
fun visit_pos :: "bits \<Rightarrow> write_node \<Rightarrow> bits" where
  "visit_pos pos w = (if write_node_up w then butlast pos else pos) @ write_node_down w"

fun replay :: "bits \<Rightarrow> write_node list \<Rightarrow> (bits \<times> node) list" where
  "replay pos [] = []"
| "replay pos (w # ws) =
     (let pos' = visit_pos pos w in (pos', write_node_node w) # replay pos' ws)"

definition replay_end :: "bits \<Rightarrow> write_node list \<Rightarrow> bits" where
  "replay_end pos ws = foldl visit_pos pos ws"

lemma replay_append [simp]:
  "replay pos (ws @ vs) = replay pos ws @ replay (replay_end pos ws) vs"
  by (induction ws arbitrary: pos) (auto simp: replay_end_def Let_def)

lemma replay_end_simps [simp]:
  "replay_end pos [] = pos"
  "replay_end pos (w # ws) = replay_end (visit_pos pos w) ws"
  "replay_end pos (ws @ vs) = replay_end (replay_end pos ws) vs"
  by (simp_all add: replay_end_def)


section \<open>The frontier invariant\<close>

lemma shared_bits_lcp: "shared_bits a b = lcp_len a b"
  by (simp add: shared_bits_def lcp_len_takeWhile)

lemma common_after_prefixI:
  assumes "length k1 = 32" "length k2 = 32" "skip \<le> e" "e < 256"
    and "take e (view_bits k1) = take e (view_bits k2)" "view_bits k1 ! e \<noteq> view_bits k2 ! e"
  shows "common_after_prefix skip k1 k2 = Some (e - skip)"
proof -
  have "lcp_len (drop skip (view_bits k1)) (drop skip (view_bits k2)) = e - skip"
    using assms by (intro lcp_len_eqI) (auto simp: take_drop)
  thus ?thesis using assms by (simp add: common_after_prefix_def slice_simps shared_bits_lcp)
qed

lemma common_after_prefix_commute:
  "common_after_prefix skip k1 k2 = common_after_prefix skip k2 k1"
  by (auto simp: common_after_prefix_def slice_of_def shared_bits_lcp lcp_len_commute
           split: bind_splits)

definition target_layer :: "nat option \<Rightarrow> nat" where
  "target_layer n = (case n of None \<Rightarrow> 0 | Some k \<Rightarrow> Suc k)"

lemma target_layer_simps [simp]: "target_layer None = 0" "target_layer (Some k) = Suc k"
  by (simp_all add: target_layer_def)

lemma leaf_position_up: "snd (leaf_position n1 n2) = fst (leaf_position n1 n2) - target_layer n2"
  by (cases "(n1, n2)" rule: leaf_position.cases) auto

text \<open>The neighbour of a segment of leaves below depth \<open>d\<close>: absent, or a key that leaves
  the common path of the segment at layer \<open>n < d\<close>.\<close>
definition neighbour :: "nat \<Rightarrow> kv option \<Rightarrow> nat option \<Rightarrow> nat \<Rightarrow> kv list \<Rightarrow> bool" where
  "neighbour skip a n d seg \<longleftrightarrow>
     (case (a, n) of
        (None, None) \<Rightarrow> True
      | (Some ka, Some k) \<Rightarrow>
          k < d \<and> (\<forall>kv\<in>set seg. common_after_prefix skip (fst ka) (fst kv) = Some k)
      | _ \<Rightarrow> False)"

definition head_opt :: "'a list \<Rightarrow> 'a option" where
  "head_opt xs = (case xs of [] \<Rightarrow> None | x # _ \<Rightarrow> Some x)"

lemma neighbour_mono:
  "neighbour skip a n d seg \<Longrightarrow> set seg' \<subseteq> set seg \<Longrightarrow> d \<le> d' \<Longrightarrow> neighbour skip a n d' seg'"
  by (force simp: neighbour_def split: option.splits)

lemma neighbour_layer: "neighbour skip a n d seg \<Longrightarrow> target_layer n \<le> d"
  by (auto simp: neighbour_def split: option.splits)

text \<open>One iteration of the outer loop on the last leaf below its layer.\<close>
lemma build_loop_single:
  assumes "kvs_ok [b]" "share_prefix (skip + d) [b] p" "skip + d \<le> 256"
    and n1: "neighbour skip a n1 d [b]" and n2: "neighbour skip (head_opt rest) n2 d [b]"
    and pos: "fst (leaf_position n1 n2) = d"
  shows "build_loop H skip a (b # rest) P =
    (case build_hash_up H (take (d - target_layer n2) (rev (drop skip p))) d
            (hash_leaf H (leaf_of b)) P of
       (n, l, P', vs) \<Rightarrow> map_option (\<lambda>(res, ws). (res,
          WLeaf (n1 \<noteq> None) (drop (skip + (case n1 of None \<Rightarrow> 0 | Some n \<Rightarrow> n)) p)
            (leaf_of b) (hash_leaf H (leaf_of b)) # vs @ ws))
         (build_loop H skip (Some b) rest ((n, l) # P')))"
proof -
  obtain ups where lp: "leaf_position n1 n2 = (d, ups)" and ups: "ups = d - target_layer n2"
    using pos leaf_position_up[of n1 n2] by (cases "leaf_position n1 n2") auto
  have p: "p = take (skip + d) (view_bits (fst b))" and len: "length (view_bits (fst b)) = 256"
    using assms(1,2) by (auto simp: share_prefix_def)
  have N1: "(case a of None \<Rightarrow> Some None
              | Some (k, _) \<Rightarrow> map_option Some (common_after_prefix skip k (fst b))) = Some n1"
    using n1 by (auto simp: neighbour_def split: option.splits)
  have N2: "(case rest of [] \<Rightarrow> Some None
              | (k, _) # _ \<Rightarrow> map_option Some (common_after_prefix skip k (fst b))) = Some n2"
    using n2 by (auto simp: neighbour_def head_opt_def split: option.splits list.splits)
  have le: "(case n1 of None \<Rightarrow> 0 | Some n \<Rightarrow> n) \<le> d"
    using neighbour_layer[OF n1] by (auto split: option.splits)
  show ?thesis
    using assms(3) len le
    by (simp add: build_loop.simps N1 N2 lp ups slice_simps p drop_take Let_def option.case_distrib
                  bind_Some_pair split: prod.splits option.splits)
qed

text \<open>One layer of hashing up, with the left sibling pending or with an empty sibling.\<close>
lemma build_hash_up_sibling:
  assumes "length p = skip + d" "t \<le> d"
  shows "build_hash_up H (take (Suc d - t) (rev (drop skip (p @ [True])))) (Suc d) n ((s, Suc d) # P)
    = (let data = \<lparr>left = s, right = n\<rparr>; m = hash_internal H data in
       case build_hash_up H (take (d - t) (rev (drop skip p))) d m P of
         (n', l, P', vs) \<Rightarrow> (n', l, P', WInternal data m # vs))"
  using assms by (simp add: Suc_diff_le internal_of_def Let_def)

lemma build_hash_up_terminator:
  assumes "length p = skip + d" "t \<le> d" "P = [] \<or> snd (hd P) \<le> d"
  shows "build_hash_up H (take (Suc d - t) (rev (drop skip (p @ [b])))) (Suc d) n P
    = (let data = internal_of b n TERMINATOR; m = hash_internal H data in
       case build_hash_up H (take (d - t) (rev (drop skip p))) d m P of
         (n', l, P', vs) \<Rightarrow> (n', l, P', WInternal data m # vs))"
proof -
  have "pop_sibling (Suc d) P = None" using assms(3) by (cases P) auto
  thus ?thesis using assms(1,2) by (simp add: Suc_diff_le Let_def)
qed

lemma mk_trie_split:
  assumes "2 \<le> length seg" "d < 256"
  shows "mk_trie d seg = MInt (mk_trie (Suc d) (filter (\<lambda>kv. \<not> key_bit d kv) seg))
                              (mk_trie (Suc d) (filter (key_bit d) seg))"
  using assms by (cases "(d, seg)" rule: mk_trie.cases) (auto simp: mk_trie.simps(3))

definition segment_built :: "node_hasher \<Rightarrow> nat \<Rightarrow> kv option \<Rightarrow> nat option \<Rightarrow> kv list \<Rightarrow> kv list
    \<Rightarrow> nat option \<Rightarrow> nat \<Rightarrow> bits \<Rightarrow> (node \<times> nat) list \<Rightarrow> bits \<Rightarrow> bool" where
  "segment_built H skip a n1 seg rest n2 d p P pos \<longleftrightarrow>
    (\<exists>svs. build_loop H skip a (seg @ rest) P =
       (case build_hash_up H (take (d - target_layer n2) (rev (drop skip p))) d
              (node_hash H (mk_trie (skip + d) seg)) P of
         (n, l, P', vs) \<Rightarrow> map_option (\<lambda>(res, ws). (res, svs @ vs @ ws))
           (build_loop H skip (Some (last seg)) rest ((n, l) # P')))
     \<and> replay pos svs = trie_nodes H p (mk_trie (skip + d) seg)
     \<and> replay_end pos svs = p)"

definition visitor_at :: "nat \<Rightarrow> nat option \<Rightarrow> bits \<Rightarrow> bits \<Rightarrow> bool" where
  "visitor_at skip n1 p pos \<longleftrightarrow>
     (case n1 of None \<Rightarrow> pos = take skip p | Some n \<Rightarrow> butlast pos = take (skip + n) p)"

lemma segment_single:
  assumes "kvs_ok [b]" "share_prefix (skip + d) [b] p" "skip + d \<le> 256"
    and n1: "neighbour skip a n1 d [b]" and n2: "neighbour skip (head_opt rest) n2 d [b]"
    and pos: "fst (leaf_position n1 n2) = d" and v: "visitor_at skip n1 p pos"
  shows "segment_built H skip a n1 [b] rest n2 d p P pos"
proof -
  let ?w = "WLeaf (n1 \<noteq> None) (drop (skip + (case n1 of None \<Rightarrow> 0 | Some n \<Rightarrow> n)) p)
              (leaf_of b) (hash_leaf H (leaf_of b))"
  have "visit_pos pos ?w = p"
    using v by (auto simp: visitor_at_def split: option.splits)
  thus ?thesis
    unfolding segment_built_def
    by (intro exI[of _ "[?w]"]) (simp add: build_loop_single[OF assms(1-3) n1 n2 pos])
qed

text \<open>A segment with leaves on one side only: the other child is a terminator.\<close>
lemma segment_one_sided:
  assumes IH: "segment_built H skip a n1 seg rest n2 (Suc d) (p @ [b]) P pos"
    and len: "length p = skip + d" "target_layer n2 \<le> d" "P = [] \<or> snd (hd P) \<le> d"
    and tr: "mk_trie (skip + d) seg =
      (if b then MInt MTerm (mk_trie (Suc (skip + d)) seg) else MInt (mk_trie (Suc (skip + d)) seg) MTerm)"
  shows "segment_built H skip a n1 seg rest n2 d p P pos"
proof -
  let ?n = "node_hash H (mk_trie (Suc (skip + d)) seg)"
  let ?data = "internal_of b ?n TERMINATOR"
  let ?m = "hash_internal H ?data"
  have m: "node_hash H (mk_trie (skip + d) seg) = ?m"
    by (simp add: tr internal_of_def)
  obtain svs where svs: "build_loop H skip a (seg @ rest) P =
       (case build_hash_up H (take (Suc d - target_layer n2) (rev (drop skip (p @ [b])))) (Suc d)
              ?n P of
         (n, l, P', vs) \<Rightarrow> map_option (\<lambda>(res, ws). (res, svs @ vs @ ws))
           (build_loop H skip (Some (last seg)) rest ((n, l) # P')))"
    "replay pos svs = trie_nodes H (p @ [b]) (mk_trie (Suc (skip + d)) seg)"
    "replay_end pos svs = p @ [b]"
    using IH by (auto simp: segment_built_def)
  show ?thesis unfolding segment_built_def
  proof (intro exI[of _ "svs @ [WInternal ?data ?m]"] conjI)
    show "replay pos (svs @ [WInternal ?data ?m]) = trie_nodes H p (mk_trie (skip + d) seg)"
      using svs m by (auto simp: tr Let_def split: if_splits)
    show "replay_end pos (svs @ [WInternal ?data ?m]) = p"
      using svs by simp
  qed (simp add: svs(1)[unfolded build_hash_up_terminator[OF len]] m Let_def split: prod.splits)
qed

text \<open>A segment with leaves on both sides: the left root is pending when the right is built.\<close>
lemma segment_two_sided:
  assumes L: "segment_built H skip a n1 L (R @ rest) (Some d) (Suc d) (p @ [False]) P pos"
    and R: "segment_built H skip (Some (last L)) (Some d) R rest n2 (Suc d) (p @ [True])
              ((node_hash H (mk_trie (Suc (skip + d)) L), Suc d) # P) (p @ [False])"
    and len: "length p = skip + d" "target_layer n2 \<le> d" and ne: "L \<noteq> []" "R \<noteq> []"
    and tr: "mk_trie (skip + d) (L @ R) =
      MInt (mk_trie (Suc (skip + d)) L) (mk_trie (Suc (skip + d)) R)"
  shows "segment_built H skip a n1 (L @ R) rest n2 d p P pos"
proof -
  let ?l = "node_hash H (mk_trie (Suc (skip + d)) L)"
  let ?r = "node_hash H (mk_trie (Suc (skip + d)) R)"
  let ?data = "\<lparr>left = ?l, right = ?r\<rparr>"
  let ?m = "hash_internal H ?data"
  obtain svs where svs: "build_loop H skip a (L @ R @ rest) P =
      map_option (\<lambda>(res, ws). (res, svs @ ws))
        (build_loop H skip (Some (last L)) (R @ rest) ((?l, Suc d) # P))"
    "replay pos svs = trie_nodes H (p @ [False]) (mk_trie (Suc (skip + d)) L)"
    "replay_end pos svs = p @ [False]"
    using L by (auto simp: segment_built_def)
  obtain svs' where svs': "build_loop H skip (Some (last L)) (R @ rest) ((?l, Suc d) # P) =
       (case build_hash_up H (take (Suc d - target_layer n2) (rev (drop skip (p @ [True])))) (Suc d)
              ?r ((?l, Suc d) # P) of
         (n, l, P', vs) \<Rightarrow> map_option (\<lambda>(res, ws). (res, svs' @ vs @ ws))
           (build_loop H skip (Some (last R)) rest ((n, l) # P')))"
    "replay (p @ [False]) svs' = trie_nodes H (p @ [True]) (mk_trie (Suc (skip + d)) R)"
    "replay_end (p @ [False]) svs' = p @ [True]"
    using R by (auto simp: segment_built_def)
  show ?thesis unfolding segment_built_def
  proof (intro exI[of _ "svs @ svs' @ [WInternal ?data ?m]"] conjI)
    show "replay pos (svs @ svs' @ [WInternal ?data ?m]) =
        trie_nodes H p (mk_trie (skip + d) (L @ R))"
      using svs svs' by (simp add: tr Let_def)
    show "replay_end pos (svs @ svs' @ [WInternal ?data ?m]) = p"
      using svs svs' by simp
  qed (use ne in \<open>simp add: svs(1) svs'(1)[unfolded build_hash_up_sibling[OF len]] tr Let_def
                       map_option_snd split: prod.splits\<close>)
qed

lemma head_opt_append: "R \<noteq> [] \<Longrightarrow> head_opt (R @ rest) = Some (hd R)"
  by (cases R) (auto simp: head_opt_def)

lemma split_common:
  assumes "kvs_ok seg" "share_prefix (skip + d) seg p" "skip + d < 256"
    and "x \<in> set seg" "y \<in> set seg" "\<not> key_bit (skip + d) x" "key_bit (skip + d) y"
  shows "common_after_prefix skip (fst x) (fst y) = Some d"
    "common_after_prefix skip (fst y) (fst x) = Some d"
proof -
  show "common_after_prefix skip (fst x) (fst y) = Some d"
    using common_after_prefixI[of "fst x" "fst y" skip "skip + d"] assms
    by (auto simp: share_prefix_def kvs_ok_length)
  thus "common_after_prefix skip (fst y) (fst x) = Some d"
    by (simp add: common_after_prefix_commute)
qed

text \<open>The frontier invariant: after the leaves below a position, the loop state is that of
  hashing up from the root of their sub-trie.\<close>
lemma build_loop_segment:
  assumes "kvs_ok seg" "share_prefix (skip + d) seg p" "seg \<noteq> []" "skip + d \<le> 256"
    and "neighbour skip a n1 d seg" "neighbour skip (head_opt rest) n2 d seg"
    and "length seg = 1 \<longrightarrow> fst (leaf_position n1 n2) = d"
    and "P = [] \<or> snd (hd P) \<le> d" "visitor_at skip n1 p pos"
  shows "segment_built H skip a n1 seg rest n2 d p P pos"
  using assms
proof (induction "256 - (skip + d)" arbitrary: seg d p a n1 rest n2 P pos rule: less_induct)
  case less
  let ?e = "skip + d"
  let ?L = "filter (\<lambda>kv. \<not> key_bit ?e kv) seg" and ?R = "filter (key_bit ?e) seg"
  note sp = \<open>share_prefix ?e seg p\<close> and ok = \<open>kvs_ok seg\<close>
  note na = \<open>neighbour skip a n1 d seg\<close> and nc = \<open>neighbour skip (head_opt rest) n2 d seg\<close>
  have len: "length p = ?e" using sp by (simp add: share_prefix_def)
  have t: "target_layer n2 \<le> d" by (rule neighbour_layer[OF nc])
  show ?case
  proof (cases "length seg = 1")
    case True
    then obtain b where "seg = [b]" by (auto simp: length_Suc_conv)
    with less.prems show ?thesis by (auto intro: segment_single)
  next
    case False
    hence two: "2 \<le> length seg" using \<open>seg \<noteq> []\<close> by (cases seg) (auto simp: Suc_le_eq)
    have e: "?e < 256"
    proof (rule ccontr)
      assume "\<not> ?e < 256"
      moreover obtain x y kvs where "seg = x # y # kvs"
        using two by (cases "(d, seg)" rule: mk_trie.cases) auto
      ultimately show False using ok sp kvs_full_prefix_singleton[of x y kvs ?e p] by simp
    qed
    have split: "seg = ?L @ ?R" using kvs_split[OF ok sp e] .
    have okL: "kvs_ok ?L" and okR: "kvs_ok ?R" by (rule kvs_ok_filter[OF ok])+
    have spL: "share_prefix (skip + Suc d) ?L (p @ [False])"
      using share_prefix_step[OF share_prefix_filter[OF sp] okL e, of False] by simp
    have spR: "share_prefix (skip + Suc d) ?R (p @ [True])"
      using share_prefix_step[OF share_prefix_filter[OF sp] okR e, of True] by simp
    note tr = mk_trie_split[OF two e]
    have va: "visitor_at skip n1 (p @ [b]) pos" for b
      using \<open>visitor_at skip n1 p pos\<close> neighbour_layer[OF na] len
      by (auto simp: visitor_at_def split: option.splits)
    have IH: "segment_built H skip a' n1' seg' rest' n2' (Suc d) (p @ [b]) P' pos'"
      if "kvs_ok seg'" "share_prefix (skip + Suc d) seg' (p @ [b])" "seg' \<noteq> []"
        "neighbour skip a' n1' (Suc d) seg'" "neighbour skip (head_opt rest') n2' (Suc d) seg'"
        "length seg' = 1 \<longrightarrow> fst (leaf_position n1' n2') = Suc d"
        "P' = [] \<or> snd (hd P') \<le> Suc d" "visitor_at skip n1' (p @ [b]) pos'"
      for a' n1' seg' rest' n2' b P' pos'
      using less.hyps[of "Suc d" seg' "p @ [b]" a' n1' rest' n2' P' pos'] that e by simp
    consider (left) "?R = []" | (right) "?L = []" | (both) "?L \<noteq> []" "?R \<noteq> []" by blast
    then show ?thesis
    proof cases
      case left
      hence L: "?L = seg" using split by simp
      show ?thesis
        by (rule segment_one_sided[where b = False, OF IH])
          (use less.prems va spL t len two tr left L in
            \<open>auto intro: neighbour_mono simp del: filter_empty_conv\<close>)
    next
      case right
      hence R: "?R = seg" using split by simp
      show ?thesis
        by (rule segment_one_sided[where b = True, OF IH])
          (use less.prems va spR t len two tr right R in
            \<open>auto intro: neighbour_mono simp del: filter_empty_conv\<close>)
    next
      case both
      have x: "hd ?R \<in> set ?R" "last ?L \<in> set ?L" 
        using hd_in_set[OF both(2)] last_in_set[OF both(1)] .
      note common = split_common[OF ok sp e]
      have nL: "neighbour skip (head_opt (?R @ rest)) (Some d) (Suc d) ?L"
        using x common by (auto simp: neighbour_def head_opt_append[OF both(2)])
      have nR: "neighbour skip (Some (last ?L)) (Some d) (Suc d) ?R"
        using x common by (auto simp: neighbour_def)
      have LS: "segment_built H skip a n1 ?L (?R @ rest) (Some d) (Suc d) (p @ [False]) P pos"
        by (rule IH[OF okL spL both(1) neighbour_mono[OF na] nL])
          (use less.prems va neighbour_layer[OF na] in
            \<open>auto simp: neighbour_def split: option.splits\<close>)
      have RS: "segment_built H skip (Some (last ?L)) (Some d) ?R rest n2 (Suc d) (p @ [True])
          ((node_hash H (mk_trie (Suc ?e) ?L), Suc d) # P) (p @ [False])"
        by (rule IH[OF okR spR both(2) nR neighbour_mono[OF nc]])
          (use t len in \<open>auto simp: visitor_at_def target_layer_def split: option.splits\<close>)
      have "segment_built H skip a n1 (?L @ ?R) rest n2 d p P pos"
        by (rule segment_two_sided[OF LS RS len t both]) (simp only: split[symmetric] tr)
      thus ?thesis by (simp only: split[symmetric])
    qed
  qed
qed


section \<open>Correctness of building\<close>

lemma share_prefix_le:
  assumes "kvs_ok kvs" "share_prefix d kvs p" "kvs \<noteq> []"
  shows "d \<le> 256"
proof -
  obtain kv where "kv \<in> set kvs" using assms(3) by (cases kvs) auto
  with assms have "length (take d (view_bits (fst kv))) = d" "length (fst kv) = 32"
    by (auto simp: share_prefix_def kvs_ok_length)
  thus ?thesis by simp
qed

lemma build_trie_visits:
  assumes ok: "kvs_ok ops" and sp: "share_prefix skip ops p"
  shows "\<exists>vs. build_trie H skip ops = Some (node_hash H (mk_trie skip ops), vs) \<and>
    replay p vs = (if ops = [] then [(p, TERMINATOR)] else trie_nodes H p (mk_trie skip ops))"
proof (cases "(H, skip, ops)" rule: build_trie.cases)
  case (3 _ _ b c rest)
  have "skip \<le> 256" using share_prefix_le[OF ok sp] 3 by simp
  moreover have "length p = skip" using sp by (simp add: share_prefix_def)
  ultimately have "segment_built H skip None None ops [] None 0 p [] p"
    using ok sp 3
    by (intro build_loop_segment) (auto simp: neighbour_def head_opt_def visitor_at_def)
  thus ?thesis using 3 \<open>length p = skip\<close> by (auto simp: segment_built_def)
qed (auto simp: Let_def)

lemma build_trie_root:
  assumes "kvs_ok ops" "share_prefix skip ops p"
  obtains vs where "build_trie H skip ops = Some (node_hash H (mk_trie skip ops), vs)"
  using build_trie_visits[OF assms] by blast

text \<open>The effect of a list of operations on a key-value map.\<close>
definition apply_ops :: "(key_path \<rightharpoonup> value_hash) \<Rightarrow> leaf_op list \<Rightarrow> (key_path \<rightharpoonup> value_hash)" where
  "apply_ops m ops k = (case map_of ops k of Some op \<Rightarrow> op | None \<Rightarrow> m k)"

definition leaf_map :: "leaf_data option \<Rightarrow> (key_path \<rightharpoonup> value_hash)" where
  "leaf_map leaf = (case leaf of None \<Rightarrow> Map.empty | Some l \<Rightarrow> [leaf_key l \<mapsto> leaf_value l])"

definition ops_ok :: "leaf_op list \<Rightarrow> bool" where
  "ops_ok ops \<longleftrightarrow> (\<forall>op\<in>set ops. length (fst op) = 32) \<and> sorted_wrt (\<lambda>x y. fst x < fst y) ops"

lemma ops_ok_simps [simp]:
  "ops_ok []"
  "ops_ok (op # ops) \<longleftrightarrow> length (fst op) = 32 \<and> (\<forall>x\<in>set ops. fst op < fst x) \<and> ops_ok ops"
  by (auto simp: ops_ok_def)

lemma ops_ok_append:
  "ops_ok (xs @ ys) \<longleftrightarrow> ops_ok xs \<and> ops_ok ys \<and> (\<forall>x\<in>set xs. \<forall>y\<in>set ys. fst x < fst y)"
  by (auto simp: ops_ok_def sorted_wrt_append)

definition live_ops :: "leaf_op list \<Rightarrow> kv list" where
  "live_ops ops = List.map_filter (\<lambda>(k, op). map_option (\<lambda>v. (k, v)) op) ops"

lemma live_ops_simps [simp]:
  "live_ops [] = []"
  "live_ops ((k, None) # ops) = live_ops ops"
  "live_ops ((k, Some v) # ops) = (k, v) # live_ops ops"
  by (simp_all add: live_ops_def List.map_filter_simps)

lemma live_ops_keys: "fst ` set (live_ops ops) \<subseteq> fst ` set ops"
proof (induction ops)
  case (Cons op ops)
  then show ?case by (cases op; cases "snd op") auto
qed simp

lemma live_ops_ok: "ops_ok ops \<Longrightarrow> kvs_ok (live_ops ops)"
proof (induction ops)
  case (Cons op ops)
  obtain k v where op: "op = (k, v)" by (cases op)
  have "k < fst x" if "x \<in> set (live_ops ops)" for x
    using that live_ops_keys[of ops] Cons.prems op by fastforce
  with Cons op show ?case by (cases v) auto
qed simp

lemma live_ops_map:
  "ops_ok ops \<Longrightarrow> map_of (live_ops ops) = (\<lambda>k. Option.bind (map_of ops k) id)"
proof (induction ops)
  case (Cons op ops)
  obtain k v where op: "op = (k, v)" by (cases op)
  have "k \<notin> fst ` set (live_ops ops)"
    using live_ops_keys[of ops] Cons.prems op by fastforce
  hence "map_of (live_ops ops) k = None" by (simp add: map_of_eq_None_iff)
  with Cons op show ?case by (cases v) (auto simp: fun_eq_iff)
qed auto

lemma leaf_ops_spliced_cases:
  assumes "ops_ok ops"
  obtains (kept) l xs ys where "leaf = Some l" "leaf_key l \<notin> fst ` set ops" "ops = xs @ ys"
      "\<forall>x\<in>set xs. fst x < leaf_key l" "\<forall>y\<in>set ys. leaf_key l < fst y"
      "leaf_ops_spliced leaf ops = live_ops (xs @ [(leaf_key l, Some (leaf_value l))] @ ys)"
  | (dropped) "leaf = None \<or> leaf_key (the leaf) \<in> fst ` set ops"
      "leaf_ops_spliced leaf ops = live_ops ops"
proof (cases leaf)
  case None
  then show ?thesis by (intro dropped) (auto simp: leaf_ops_spliced_def live_ops_def)
next
  case (Some l)
  have srt: "cmp_sorted (\<lambda>x. cmp_of (fst x) (leaf_key l)) ops"
    using assms by (intro cmp_sorted_key) (simp add: ops_ok_def)
  show ?thesis
  proof (cases rule: binary_search_by_cases[OF srt])
    case (1 i)
    hence "leaf_key l = fst (ops ! i)" by simp
    with 1 Some show ?thesis
      by (intro dropped) (auto simp: leaf_ops_spliced_def live_ops_def binary_search_by_key_def)
  next
    case (2 i)
    have lt: "\<forall>x\<in>set (take i ops). fst x < leaf_key l"
      using 2(3) by (intro take_allI) simp
    have gt: "\<forall>y\<in>set (drop i ops). leaf_key l < fst y"
      using 2(4) by (intro drop_allI) simp
    have "leaf_key l \<notin> fst ` set (take i ops @ drop i ops)"
      using lt gt unfolding set_append by fastforce
    with 2 Some lt gt show ?thesis
      by (intro kept[of l "take i ops" "drop i ops"])
         (auto simp: leaf_ops_spliced_def live_ops_def binary_search_by_key_def)
  qed
qed

lemma ops_ok_insert:
  assumes "ops_ok (xs @ ys)" "length (fst op) = 32"
    and "\<forall>x\<in>set xs. fst x < fst op" "\<forall>y\<in>set ys. fst op < fst y"
  shows "ops_ok (xs @ [op] @ ys)"
  using assms by (simp add: ops_ok_append)

lemma leaf_ops_spliced_ok:
  assumes "ops_ok ops" "\<forall>l. leaf = Some l \<longrightarrow> length (leaf_key l) = 32"
  shows "kvs_ok (leaf_ops_spliced leaf ops)"
  using assms(1)
proof (cases rule: leaf_ops_spliced_cases[where leaf = leaf])
  case (kept l xs ys)
  have "ops_ok (xs @ [(leaf_key l, Some (leaf_value l))] @ ys)"
    using kept assms by (intro ops_ok_insert) auto
  then show ?thesis using kept(6) by (simp only: live_ops_ok)
qed (use assms in \<open>simp add: live_ops_ok\<close>)

lemma leaf_ops_spliced_map:
  assumes "ops_ok ops" "\<forall>l. leaf = Some l \<longrightarrow> length (leaf_key l) = 32"
  shows "map_of (leaf_ops_spliced leaf ops) = apply_ops (leaf_map leaf) ops"
  using assms(1)
proof (cases rule: leaf_ops_spliced_cases[where leaf = leaf])
  case (kept l xs ys)
  let ?all = "xs @ [(leaf_key l, Some (leaf_value l))] @ ys"
  have ok: "ops_ok ?all" using kept assms by (intro ops_ok_insert) auto
  have none: "map_of xs (leaf_key l) = None" "map_of ys (leaf_key l) = None"
    using kept(2,3) by (auto simp: map_of_eq_None_iff)
  show ?thesis
  proof
    fix k
    show "map_of (leaf_ops_spliced leaf ops) k = apply_ops (leaf_map leaf) ops k"
      using live_ops_map[OF ok] kept none
      by (auto simp: apply_ops_def leaf_map_def map_add_def split: option.splits)
  qed
next
  case dropped
  have "leaf_map leaf k = None" if "map_of ops k = None" for k
    using that dropped(1) by (cases leaf) (auto simp add: leaf_map_def map_of_eq_None_iff simp del: image_iff)
  then show ?thesis using dropped(2) live_ops_map[OF assms(1)]
    by (auto simp: apply_ops_def fun_eq_iff split: option.splits)
qed


section \<open>Properties\<close>

text \<open>C2: on ordered 32-byte keys with a common prefix, \<open>build_trie\<close> does not
  panic, returns the Merkle root of the sub-trie of those pairs, and its visitor writes
  exactly the nodes of that sub-trie, each at its position and after its children.\<close>
theorem build_trie_correct:
  assumes "kvs_ok ops" "share_prefix skip ops p"
  shows "\<exists>vs. build_trie H skip ops = Some (node_hash H (mk_trie skip ops), vs) \<and>
    replay p vs = (if ops = [] then [(p, TERMINATOR)] else trie_nodes H p (mk_trie skip ops))"
  using build_trie_visits[OF assms] .

theorem build_trie_correct_witness:
  "kvs_ok sample_kvs \<and> share_prefix 0 sample_kvs [] \<and>
   (\<exists>vs. build_trie sample_hasher 0 sample_kvs = Some (node_hash sample_hasher (mk_trie 0 sample_kvs), vs) \<and>
     replay [] vs = (if sample_kvs = [] then [([], TERMINATOR)]
       else trie_nodes sample_hasher [] (mk_trie 0 sample_kvs)))"
  using build_trie_correct[of sample_kvs 0 "[]" sample_hasher] sample_kvs_ok by blast

definition sample_ops :: "leaf_op list" where
  "sample_ops = [(sample_key 16, None), (sample_key 24, Some (sample_value 9))]"

lemma sample_ops_ok: "ops_ok sample_ops"
  by code_simp

text \<open>C30: splicing the leaf of a terminal node into ordered operations
  gives an ordered list of pairs, and its map is the leaf's map updated by the operations.\<close>
theorem leaf_ops_spliced_correct:
  assumes "ops_ok ops" "\<forall>l. leaf = Some l \<longrightarrow> length (leaf_key l) = 32"
  shows "kvs_ok (leaf_ops_spliced leaf ops) \<and>
    map_of (leaf_ops_spliced leaf ops) = apply_ops (leaf_map leaf) ops"
  using leaf_ops_spliced_ok[OF assms] leaf_ops_spliced_map[OF assms] ..

theorem leaf_ops_spliced_correct_witness:
  "kvs_ok (leaf_ops_spliced (Some (leaf_of (sample_key 32, sample_value 2))) sample_ops) \<and>
   map_of (leaf_ops_spliced (Some (leaf_of (sample_key 32, sample_value 2))) sample_ops) =
     apply_ops (leaf_map (Some (leaf_of (sample_key 32, sample_value 2)))) sample_ops"
proof (rule leaf_ops_spliced_correct[OF sample_ops_ok])
  show "\<forall>l. Some (leaf_of (sample_key 32, sample_value 2)) = Some l \<longrightarrow> length (leaf_key l) = 32"
    by (simp add: leaf_of_def sample_key_def)
qed

end
