(* ===== verification/PageIds.thy ===== *)
theory PageIds
  imports BuildTrie
begin

text \<open>
  Page identifiers (\<open>core/src/page_id.rs\<close>) and page regions
  (\<open>nomt/src/page_region.rs\<close>).  A page is named by the list of child indices on the
  path to it, at most 42 six-bit numbers; the derived \<open>Ord\<close> of the byte vector is the
  lexicographic order of lists.  The 256-bit integers of the codec are natural numbers
  with the reduction modulo \<open>2 ^ 64\<close> or \<open>2 ^ 256\<close> written where the source shifts.
\<close>

section \<open>Page identifiers\<close>

definition DEPTH :: nat where "DEPTH = 6"
definition NODES_PER_PAGE :: nat where "NODES_PER_PAGE = 2 ^ (DEPTH + 1) - 2"
definition MAX_PAGE_DEPTH :: nat where "MAX_PAGE_DEPTH = 42"
definition MAX_CHILD_INDEX :: u8 where "MAX_CHILD_INDEX = 63"
definition NUM_CHILDREN :: nat where "NUM_CHILDREN = unat MAX_CHILD_INDEX + 1"

lemmas page_consts = DEPTH_def NODES_PER_PAGE_def MAX_PAGE_DEPTH_def MAX_CHILD_INDEX_def

type_synonym page_id = "u8 list"
type_synonym child_page_index = u8

definition ROOT_PAGE_ID :: page_id where "ROOT_PAGE_ID = []"

definition ChildPageIndex_new :: "u8 \<Rightarrow> child_page_index option" where
  "ChildPageIndex_new index = (if index > MAX_CHILD_INDEX then None else Some index)"

text \<open>Valid page ids: what the constructors of the source produce.\<close>
definition page_id_ok :: "page_id \<Rightarrow> bool" where
  "page_id_ok p \<longleftrightarrow> length p \<le> MAX_PAGE_DEPTH \<and> (\<forall>x\<in>set p. x \<le> MAX_CHILD_INDEX)"

datatype child_page_id_error = PageIdOverflow
datatype invalid_page_id_bytes = InvalidPageIdBytes

definition HIGHEST_ENCODED_42 :: nat where
  "HIGHEST_ENCODED_42 = from_be
     [16, 65, 4, 16, 65, 4, 16, 65, 4, 16, 65, 4, 16, 65, 4, 16, 65, 4, 16, 65, 4, 16, 65, 4, 16, 65,
      4, 16, 65, 4, 16, 64]"

text \<open>The number of bits of an integer: \<open>256 - leading_zeros\<close>.\<close>
fun bit_count :: "nat \<Rightarrow> nat" where
  "bit_count n = (if n = 0 then 0 else Suc (bit_count (n div 2)))"

declare bit_count.simps [simp del]

text \<open>The sextet loop of \<open>decode\<close>, least significant first, then the last partial sextet.\<close>
fun decode_sextets :: "nat \<Rightarrow> nat \<Rightarrow> u8 list" where
  "decode_sextets 0 u =
     (let b = u mod 256 in if b \<noteq> 0 then [word_of_nat ((u - 1) mod 256)] else [])"
| "decode_sextets (Suc n) u =
     (let v = u - 1 in word_of_nat (v mod 64) # decode_sextets n (v div 64))"

definition page_id_decode :: "bytes \<Rightarrow> invalid_page_id_bytes + page_id" where
  "page_id_decode bs =
     (let u = from_be bs in
      if u > HIGHEST_ENCODED_42 then Inl InvalidPageIdBytes
      else let bits = bit_count u; sextets = (bits + 5) div 6 in
           if bits = 0 then Inr ROOT_PAGE_ID
           else Inr (rev (decode_sextets (sextets - 1) u)))"

definition child_index_at_level :: "page_id \<Rightarrow> nat \<Rightarrow> child_page_index option" where
  "child_index_at_level p depth = get_at p depth"

definition encode_step :: "nat \<Rightarrow> nat \<Rightarrow> u8 \<Rightarrow> nat" where
  "encode_step w acc limb = ((acc + unat (limb + 1)) * 64) mod 2 ^ w"

definition page_id_encode :: "page_id \<Rightarrow> bytes" where
  "page_id_encode p =
     (if length p < 10
      then replicate 24 0 @ to_be 8 (foldl (encode_step 64) 0 p)
      else to_be 32 (foldl (encode_step 256) 0 p))"

definition length_dependent_encoding :: "page_id \<Rightarrow> bytes" where
  "length_dependent_encoding p = p"

definition page_depth :: "page_id \<Rightarrow> nat" where
  "page_depth p = length p"

definition child_page_id :: "page_id \<Rightarrow> child_page_index \<Rightarrow> child_page_id_error + page_id" where
  "child_page_id p i = (if length p \<ge> MAX_PAGE_DEPTH then Inl PageIdOverflow else Inr (p @ [i]))"

definition parent_page_id :: "page_id \<Rightarrow> page_id" where
  "parent_page_id p = (if p = ROOT_PAGE_ID then ROOT_PAGE_ID else butlast p)"

definition is_descendant_of :: "page_id \<Rightarrow> page_id \<Rightarrow> bool" where
  "is_descendant_of p q \<longleftrightarrow> take (length q) p = q"

text \<open>\<open>while path.len() < MAX_PAGE_DEPTH\<close> push the last child index.\<close>
function max_descendant :: "page_id \<Rightarrow> page_id" where
  "max_descendant p =
     (if length p < MAX_PAGE_DEPTH then max_descendant (p @ [MAX_CHILD_INDEX]) else p)"
  by pat_completeness auto
termination by (relation "measure (\<lambda>p. MAX_PAGE_DEPTH - length p)") auto

declare max_descendant.simps [simp del]

text \<open>Six bits of each child index, then a constant tail, in a 32-byte key.\<close>
definition child_bits :: "u8 \<Rightarrow> bits" where
  "child_bits c = take 6 (drop 2 (byte_bits c))"

definition page_id_bits :: "page_id \<Rightarrow> bits" where
  "page_id_bits p = concat (map child_bits p)"

definition min_key_path :: "page_id \<Rightarrow> key_path" where
  "min_key_path p = bits_to_bytes (page_id_bits p @ replicate (256 - 6 * length p) False)"

definition max_key_path :: "page_id \<Rightarrow> key_path" where
  "max_key_path p = bits_to_bytes (page_id_bits p @ replicate (256 - 6 * length p) True)"

text \<open>The iterator of the page ids along a key: the shifted key and the next id.\<close>
record page_ids_iterator =
  pi_key :: nat
  pi_page_id :: "page_id option"

definition PageIdsIterator_new :: "key_path \<Rightarrow> page_ids_iterator" where
  "PageIdsIterator_new k = \<lparr>pi_key = from_be k, pi_page_id = Some ROOT_PAGE_ID\<rparr>"

text \<open>\<open>byte(31) >> 2\<close> of a 256-bit integer is its top six bits.\<close>
definition PageIdsIterator_next :: "page_ids_iterator \<Rightarrow> page_id option \<times> page_ids_iterator" where
  "PageIdsIterator_next it =
     (case pi_page_id it of
        None \<Rightarrow> (None, it)
      | Some prev \<Rightarrow>
          let child = word_of_nat (pi_key it div 2 ^ 248 div 4) :: u8;
              key' = (pi_key it * 64) mod 2 ^ 256
          in (Some prev, \<lparr>pi_key = key',
                pi_page_id = (case child_page_id prev child of Inl _ \<Rightarrow> None | Inr q \<Rightarrow> Some q)\<rparr>))"

fun PageIdsIterator_take :: "nat \<Rightarrow> page_ids_iterator \<Rightarrow> page_id list" where
  "PageIdsIterator_take 0 it = []"
| "PageIdsIterator_take (Suc n) it =
     (case PageIdsIterator_next it of
        (None, _) \<Rightarrow> [] | (Some p, it') \<Rightarrow> p # PageIdsIterator_take n it')"


section \<open>The codec\<close>

text \<open>The documented representation: shift by six bits, then add the child index plus one.\<close>
definition page_num :: "page_id \<Rightarrow> nat" where
  "page_num p = foldl (\<lambda>acc x. acc * 64 + unat x + 1) 0 p"

lemma page_num_simps [simp]:
  "page_num [] = 0" "page_num (p @ [x]) = page_num p * 64 + unat x + 1"
  by (simp_all add: page_num_def)

lemma page_id_ok_simps [simp]:
  "page_id_ok []"
  "page_id_ok (p @ [x]) \<longleftrightarrow> page_id_ok p \<and> length p < 42 \<and> x \<le> 63"
  by (auto simp: page_id_ok_def page_consts)

lemma child_index_unat: "x \<le> (63 :: u8) \<longleftrightarrow> unat x \<le> 63"
  by (simp add: word_le_nat_alt)

lemma base64_div:
  fixes a x :: nat
  assumes "x \<le> 63"
  shows "(a * 64 + x) div 64 = a" "(a * 64 + x) mod 64 = x"
  using assms by simp_all

lemma base64_digit:
  fixes a b x y :: nat
  assumes "a * 64 + x = b * 64 + y" "x \<le> 63" "y \<le> 63"
  shows "a = b" "x = y"
  using assms base64_div by metis+

lemma page_num_inject:
  assumes "page_id_ok p" "page_id_ok q" "page_num p = page_num q"
  shows "p = q"
  using assms
proof (induction p arbitrary: q rule: rev_induct)
  case Nil
  then show ?case by (cases q rule: rev_cases) auto
next
  case (snoc x p)
  obtain r y where q: "q = r @ [y]"
    using snoc.prems by (cases q rule: rev_cases) auto
  have "unat x \<le> 63" "unat y \<le> 63"
    using snoc.prems q by (auto simp: child_index_unat)
  moreover have "page_num p * 64 + unat x = page_num r * 64 + unat y"
    using snoc.prems q by simp
  ultimately have "page_num p = page_num r" "unat x = unat y" by (auto dest: base64_digit)
  then show ?case using q snoc.IH[of r] snoc.prems by (auto simp: word_unat_eq_iff)
qed

text \<open>Page numbers of depth \<open>n\<close> fill an interval.\<close>
definition sextets :: "page_id \<Rightarrow> bool" where
  "sextets p \<longleftrightarrow> (\<forall>x\<in>set p. x \<le> 63)"

lemma sextets_simps [simp]: "sextets []" "sextets (p @ [x]) \<longleftrightarrow> sextets p \<and> x \<le> 63"
  by (auto simp: sextets_def)

lemma page_id_ok_sextets: "page_id_ok p \<longleftrightarrow> sextets p \<and> length p \<le> 42"
  by (auto simp: page_id_ok_def sextets_def page_consts)

lemma page_num_bounds:
  "sextets p \<Longrightarrow> 63 * page_num p + 64 \<le> 64 * 64 ^ length p \<and> 64 ^ length p \<le> 63 * page_num p + 1"
proof (induction p rule: rev_induct)
  case (snoc x p)
  hence "unat x \<le> 63" by (auto simp: child_index_unat)
  with snoc show ?case by (auto simp: algebra_simps)
qed simp

lemma bit_count_le: "bit_count n \<le> k \<longleftrightarrow> n < 2 ^ k"
proof (induction k arbitrary: n)
  case 0
  then show ?case by (subst bit_count.simps) simp
next
  case (Suc k)
  have "bit_count n \<le> Suc k \<longleftrightarrow> bit_count (n div 2) \<le> k"
    by (subst bit_count.simps) (simp add: bit_count.simps[of 0])
  also have "\<dots> \<longleftrightarrow> n div 2 < 2 ^ k" by (rule Suc.IH)
  also have "\<dots> \<longleftrightarrow> n < 2 ^ Suc k" by (simp add: div_less_iff_less_mult mult.commute)
  finally show ?case .
qed

lemma decode_sextets_page_num:
  assumes "page_id_ok p" "length p = n \<or> length p = Suc n"
  shows "rev (decode_sextets n (page_num p)) = p"
  using assms
proof (induction n arbitrary: p)
  case 0
  show ?case
  proof (cases p rule: rev_cases)
    case (snoc r x)
    hence "r = []" "unat x \<le> 63" using 0 by (auto simp: child_index_unat)
    then show ?thesis using snoc page_num_simps(2)[of "[]" x] by simp
  qed simp
next
  case (Suc n)
  then obtain r x where p: "p = r @ [x]" by (cases p rule: rev_cases) auto
  hence "unat x \<le> 63" using Suc.prems by (auto simp: child_index_unat)
  with Suc p show ?case by (simp add: Let_def base64_div)
qed

lemma sextet_count:
  fixes c m n :: nat
  assumes "6 * n < c" "c \<le> 6 * m + 1" "m = Suc n"
  shows "(c + 5) div 6 = m \<or> (c + 5) div 6 = Suc m"
proof (cases "c \<le> 6 * m")
  case True
  hence "(c + 5) div 6 = m" using assms by (intro div_nat_eqI) simp_all
  thus ?thesis ..
next
  case False
  hence "(c + 5) div 6 = Suc m" using assms by (intro div_nat_eqI) simp_all
  thus ?thesis ..
qed

lemma page_num_bit_count:
  assumes "page_id_ok p" "p \<noteq> []"
  shows "(bit_count (page_num p) + 5) div 6 = length p \<or>
    (bit_count (page_num p) + 5) div 6 = Suc (length p)"
proof -
  obtain n where n: "length p = Suc n" using assms(2) by (cases p) auto
  note b = page_num_bounds[of p] and s = assms(1)[unfolded page_id_ok_sextets]
  have pow: "(64 :: nat) ^ k = 2 ^ (6 * k)" for k by (simp add: power_mult)
  have "\<not> page_num p < 2 ^ (6 * n)" using b s n by (auto simp: pow[symmetric])
  hence "\<not> bit_count (page_num p) \<le> 6 * n" by (simp add: bit_count_le)
  moreover have "page_num p < 2 ^ (6 * length p + 1)"
    using b s by (auto simp: power_add pow[symmetric])
  hence "bit_count (page_num p) \<le> 6 * length p + 1" by (simp add: bit_count_le)
  ultimately show ?thesis using sextet_count[of n "bit_count (page_num p)" "length p"] n by simp
qed

lemma HIGHEST_ENCODED_42_eq: "63 * HIGHEST_ENCODED_42 + 64 = 64 * 64 ^ 42"
  by (simp add: HIGHEST_ENCODED_42_def from_be_def)

lemma page_num_highest: "page_id_ok p \<Longrightarrow> page_num p \<le> HIGHEST_ENCODED_42"
proof -
  assume "page_id_ok p"
  hence "63 * page_num p + 64 \<le> 64 * 64 ^ length p" "length p \<le> 42"
    using page_num_bounds[of p] by (auto simp: page_id_ok_sextets)
  moreover from this have "(64 :: nat) ^ length p \<le> 64 ^ 42" by (intro power_increasing) auto
  ultimately show ?thesis using HIGHEST_ENCODED_42_eq by linarith
qed

lemma HIGHEST_ENCODED_42_bound: "HIGHEST_ENCODED_42 < 256 ^ 32"
  using HIGHEST_ENCODED_42_eq by simp

text \<open>Every integer up to the highest one is the number of a valid page.\<close>
lemma page_num_exists: "\<exists>p. sextets p \<and> page_num p = v"
proof (induction v rule: less_induct)
  case (less v)
  show ?case
  proof (cases v)
    case 0
    then show ?thesis by (intro exI[of _ "[]"]) simp
  next
    case (Suc u)
    hence "u div 64 < v" by (simp add: le_imp_less_Suc)
    then obtain p where "sextets p" "page_num p = u div 64" using less by blast
    thus ?thesis using Suc
      by (intro exI[of _ "p @ [word_of_nat (u mod 64)]"]) (auto simp: child_index_unat)
  qed
qed

lemma page_num_onto:
  assumes "v \<le> HIGHEST_ENCODED_42"
  obtains p where "page_id_ok p" "page_num p = v"
proof -
  obtain p where p: "sextets p" "page_num p = v" using page_num_exists by blast
  have "64 ^ length p \<le> 63 * HIGHEST_ENCODED_42 + 1" using page_num_bounds[OF p(1)] p assms by simp
  also have "\<dots> < 64 ^ 43" using HIGHEST_ENCODED_42_eq by simp
  finally have "length p < 43" by (rule power_less_imp_less_exp[rotated]) simp
  with p show ?thesis by (intro that[of p]) (auto simp: page_id_ok_sextets)
qed

lemma decode_page_num:
  assumes ok: "page_id_ok p" and v: "from_be bs = page_num p"
  shows "page_id_decode bs = Inr p"
proof (cases "p = []")
  case True
  then show ?thesis using v
    by (simp add: page_id_decode_def ROOT_PAGE_ID_def bit_count.simps Let_def)
next
  case False
  let ?s = "(bit_count (page_num p) + 5) div 6"
  have s: "length p = ?s - 1 \<or> length p = Suc (?s - 1)"
    using page_num_bit_count[OF ok False] False by (cases p) auto
  have "page_num p \<noteq> 0" using page_num_inject[OF ok page_id_ok_simps(1)] False by auto
  hence "bit_count (page_num p) \<noteq> 0" by (simp add: bit_count.simps)
  thus ?thesis
    using v decode_sextets_page_num[OF ok s] page_num_highest[OF ok]
    by (simp add: page_id_decode_def Let_def)
qed

lemma decode_iff:
  assumes "length bs = 32"
  shows "page_id_decode bs = Inr p \<longleftrightarrow> page_id_ok p \<and> bs = to_be 32 (page_num p)"
proof
  assume d: "page_id_decode bs = Inr p"
  hence "from_be bs \<le> HIGHEST_ENCODED_42"
    by (auto simp: page_id_decode_def Let_def split: if_splits)
  then obtain q where "page_id_ok q" "page_num q = from_be bs" by (rule page_num_onto)
  with d decode_page_num[of q bs] to_be_from_be[of bs] assms
  show "page_id_ok p \<and> bs = to_be 32 (page_num p)" by auto
next
  assume a: "page_id_ok p \<and> bs = to_be 32 (page_num p)"
  hence "page_num p < 256 ^ 32"
    using page_num_highest[of p] HIGHEST_ENCODED_42_bound by linarith
  with a show "page_id_decode bs = Inr p" by (intro decode_page_num) (auto simp: from_be_to_be)
qed

text \<open>\<open>encode\<close> shifts after each addition, so it computes 64 times the documented number.\<close>
lemma encode_fold: "sextets p \<Longrightarrow> foldl (encode_step w) 0 p = (64 * page_num p) mod 2 ^ w"
proof (induction p rule: rev_induct)
  case (snoc x p)
  have "unat x \<le> 63" using snoc.prems by (simp add: child_index_unat)
  hence x: "unat (x + 1) = unat x + 1" by (simp add: unat_word_ariths)
  have "foldl (encode_step w) 0 (p @ [x]) = ((64 * page_num p) mod 2 ^ w + unat (x + 1)) * 64 mod 2 ^ w"
    using snoc.IH snoc.prems by (simp add: encode_step_def[of w "_ mod _"])
  also have "\<dots> = (64 * page_num p + unat (x + 1)) * 64 mod 2 ^ w"
    by (metis mod_add_left_eq mod_mult_left_eq)
  also have "(64 * page_num p + unat (x + 1)) * 64 = 64 * page_num (p @ [x])"
    unfolding x by simp
  finally show ?case .
qed simp

lemma encode_page_num:
  assumes "page_id_ok p"
  shows "page_id_encode p = to_be 32 ((64 * page_num p) mod 2 ^ 256)"
proof (cases "length p < 10")
  case True
  note b = page_num_bounds[of p] and s = assms[unfolded page_id_ok_sextets]
  have "(64 :: nat) ^ length p \<le> 64 ^ 9" using True by (intro power_increasing) auto
  hence "64 * page_num p < 2 ^ 64" using b s by simp
  moreover from this have "to_be (8 + 24) (64 * page_num p) = replicate 24 0 @ to_be 8 (64 * page_num p)"
    by (intro to_be_pad) simp
  ultimately show ?thesis using True s by (simp add: page_id_encode_def encode_fold)
next
  case False
  then show ?thesis using assms by (simp add: page_id_encode_def encode_fold page_id_ok_sextets)
qed

lemma page_num_shallow:
  assumes "page_id_ok p" "length p < 42"
  shows "64 * page_num p < 2 ^ 256"
proof -
  have "(64 :: nat) ^ length p \<le> 64 ^ 41" using assms by (intro power_increasing) auto
  thus ?thesis using page_num_bounds[of p] assms by (simp add: page_id_ok_sextets)
qed



section \<open>Order, regions and key ranges\<close>

lemma max_descendant_eq: "length p \<le> 42 \<Longrightarrow> max_descendant p = p @ replicate (42 - length p) 63"
proof (induction p rule: max_descendant.induct)
  case (1 p)
  show ?case
  proof (cases "length p < 42")
    case True
    hence "42 - length p = Suc (42 - Suc (length p))" by simp
    with 1 True show ?thesis by (subst max_descendant.simps) (simp add: page_consts)
  qed (use 1 in \<open>simp add: max_descendant.simps page_consts\<close>)
qed

lemma le_replicate_max:
  fixes p :: "'a::linorder list"
  assumes "length p \<le> n" "\<forall>x\<in>set p. x \<le> m"
  shows "p \<le> replicate n m"
  using assms
proof (induction p arbitrary: n)
  case (Cons x p)
  then obtain k where "n = Suc k" by (cases n) auto
  with Cons show ?case by (auto simp: le_less)
qed simp

lemma list_le_append_same [simp]:
  fixes xs ys zs :: "'a::linorder list"
  shows "zs @ xs \<le> zs @ ys \<longleftrightarrow> xs \<le> ys"
  by (simp add: le_less)

lemma prefix_interval:
  fixes p q :: "'a::linorder list"
  assumes "length p \<le> length q + n" "\<forall>x\<in>set p. x \<le> m"
  shows "take (length q) p = q \<longleftrightarrow> q \<le> p \<and> p \<le> q @ replicate n m"
  using assms
proof (induction q arbitrary: p)
  case Nil
  then show ?case by (simp add: le_replicate_max)
next
  case (Cons y q)
  show ?case
  proof (cases p)
    case (Cons x p')
    then show ?thesis using Cons.IH[of p'] Cons.prems by (auto simp: le_less)
  qed simp
qed

text \<open>The descendants of a page are the interval up to its maximum descendant.\<close>
lemma descendant_interval:
  assumes "page_id_ok p" "page_id_ok q"
  shows "is_descendant_of p q \<longleftrightarrow> q \<le> p \<and> p \<le> max_descendant q"
  using assms prefix_interval[of p q "42 - length q" 63]
  by (auto simp: is_descendant_of_def page_id_ok_sextets max_descendant_eq sextets_def)

lemma descendant_iff: "is_descendant_of p q \<longleftrightarrow> (\<exists>r. p = q @ r)"
  unfolding is_descendant_of_def by (metis append_eq_conv_conj)

lemma descendant_refl [simp]: "is_descendant_of p p"
  by (simp add: is_descendant_of_def)

lemma descendant_trans:
  "is_descendant_of a b \<Longrightarrow> is_descendant_of b c \<Longrightarrow> is_descendant_of a c"
  by (auto simp: descendant_iff)

lemma descendant_comparable:
  assumes "is_descendant_of c a" "is_descendant_of c b"
  shows "is_descendant_of a b \<or> is_descendant_of b a"
  using assms by (auto simp: descendant_iff append_eq_append_conv2)

lemma child_bits_length [simp]: "length (child_bits c) = 6"
  by (simp add: child_bits_def)

lemma page_id_bits_simps [simp]:
  "page_id_bits [] = []" "page_id_bits (c # p) = child_bits c @ page_id_bits p"
  "page_id_bits (p @ q) = page_id_bits p @ page_id_bits q"
  by (simp_all add: page_id_bits_def)

lemma page_id_bits_length [simp]: "length (page_id_bits p) = 6 * length p"
  by (induction p) auto

lemma view_key_path:
  assumes "length p \<le> 42"
  shows "view_bits (bits_to_bytes (page_id_bits p @ replicate (256 - 6 * length p) b)) =
    page_id_bits p @ replicate (256 - 6 * length p) b"
    "length (bits_to_bytes (page_id_bits p @ replicate (256 - 6 * length p) b)) = 32"
  using assms by (simp_all add: view_bits_to_bytes[where n = 32] bits_to_bytes_length[where n = 32])

lemma bool_interval:
  assumes "length k = length q + n"
  shows "take (length q) k = q \<longleftrightarrow> q @ replicate n False \<le> k \<and> k \<le> q @ replicate n True"
proof -
  let ?a = "take (length q) k" and ?b = "drop (length q) k"
  have low: "replicate n False \<le> ys" if "length ys = n" for ys
    using that
  proof (induction ys arbitrary: n)
    case (Cons y ys)
    then show ?case by (cases n; cases y) auto
  qed simp
  have "?b \<le> replicate n True" by (rule le_replicate_max) (use assms in auto)
  moreover have "replicate n False \<le> ?b" using low[of ?b] assms by simp
  moreover have "q @ xs \<le> ?a @ ?b \<longleftrightarrow> q < ?a \<or> q = ?a \<and> xs \<le> ?b"
    "?a @ ?b \<le> q @ xs \<longleftrightarrow> ?a < q \<or> ?a = q \<and> ?b \<le> xs" for xs
    using assms by (intro list_le_append_eqlen; simp)+
  ultimately show ?thesis unfolding append_take_drop_id by (metis less_asym)
qed

lemma key_range:
  assumes "length p \<le> 42" "length k = 32"
  shows "min_key_path p \<le> k \<and> k \<le> max_key_path p \<longleftrightarrow>
    take (6 * length p) (view_bits k) = page_id_bits p"
proof -
  have "x \<le> y \<longleftrightarrow> view_bits x \<le> view_bits y" if "length x = length y" for x y :: bytes
    using that by (simp add: le_less view_bits_less)
  thus ?thesis
    using assms bool_interval[of "view_bits k" "page_id_bits p" "256 - 6 * length p"]
    by (simp add: min_key_path_def max_key_path_def view_key_path)
qed

text \<open>The page id given by the first sextets of a bit string.\<close>
definition bits_page_id :: "nat \<Rightarrow> bits \<Rightarrow> page_id" where
  "bits_page_id n bs = map (\<lambda>i. word_of_nat (load_be (take 6 (drop (6 * i) bs)))) [0..<n]"

lemma bits_page_id_simps [simp]:
  "bits_page_id 0 bs = []"
  "bits_page_id (Suc n) bs = bits_page_id n bs @ [word_of_nat (load_be (take 6 (drop (6 * n) bs)))]"
  "length (bits_page_id n bs) = n"
  by (simp_all add: bits_page_id_def)

lemma load_be_6: "load_be (take 6 bs) < 64"
proof -
  have "load_be (take 6 bs) < 2 ^ length (take 6 bs)" by (rule load_be_bound)
  also have "\<dots> \<le> (2 :: nat) ^ 6" by (rule power_increasing) auto
  finally show ?thesis by simp
qed

lemma bits_page_id_sextets: "sextets (bits_page_id n bs)"
proof (induction n)
  case (Suc n)
  have "load_be (take 6 (drop (6 * n) bs)) < 64" by (rule load_be_6)
  with Suc show ?case by (simp add: child_index_unat)
qed simp

lemma window_value:
  assumes "length bs = 256" "6 * i + 6 \<le> 256"
  shows "load_be bs * 64 ^ i mod 2 ^ 256 div 2 ^ 248 div 4 = load_be (take 6 (drop (6 * i) bs))"
proof -
  let ?a = "take (6 * i) bs" and ?b = "take 6 (drop (6 * i) bs)" and ?c = "drop (6 * i + 6) bs"
  let ?r = "250 - 6 * i"
  have bs: "bs = ?a @ ?b @ ?c" by (metis append_take_drop_id drop_drop add.commute)
  have len: "length ?b = 6" "length ?c = ?r" using assms by auto
  have "load_be bs = load_be ?a * 2 ^ (6 + ?r) + (load_be ?b * 2 ^ ?r + load_be ?c)"
    by (subst bs) (simp only: load_be_append length_append len)
  moreover have "(64 :: nat) ^ i = 2 ^ (6 * i)" by (simp add: power_mult)
  moreover have "(2 :: nat) ^ (6 + ?r) * 2 ^ (6 * i) = 2 ^ 256" "(2 :: nat) ^ ?r * 2 ^ (6 * i) = 2 ^ 250"
    using assms by (simp_all add: power_add[symmetric])
  ultimately have eq: "load_be bs * 64 ^ i =
      load_be ?a * 2 ^ 256 + (load_be ?b * 2 ^ 250 + load_be ?c * 2 ^ (6 * i))"
    by (simp only: distrib_right mult.assoc)
  have "load_be ?c < 2 ^ ?r" using load_be_bound[of ?c] len by simp
  hence "load_be ?c * 2 ^ (6 * i) < 2 ^ ?r * 2 ^ (6 * i)" by simp
  hence c: "load_be ?c * 2 ^ (6 * i) < 2 ^ 250"
    using \<open>2 ^ ?r * 2 ^ (6 * i) = 2 ^ 250\<close> by simp
  have "load_be ?b < 64" by (rule load_be_6)
  with c have "load_be ?b * 2 ^ 250 + load_be ?c * 2 ^ (6 * i) < 2 ^ 256" by simp
  hence "load_be bs * 64 ^ i mod 2 ^ 256 = load_be ?b * 2 ^ 250 + load_be ?c * 2 ^ (6 * i)"
    unfolding eq by simp
  moreover have "x div 2 ^ 248 div 4 = x div 2 ^ 250" for x :: nat
    by (simp only: div_mult2_eq[symmetric]) simp
  moreover have "(load_be ?b * 2 ^ 250 + load_be ?c * 2 ^ (6 * i)) div 2 ^ 250 = load_be ?b"
    using c by simp
  ultimately show ?thesis by simp
qed

definition iterator_at :: "bits \<Rightarrow> nat \<Rightarrow> page_ids_iterator" where
  "iterator_at bs i = \<lparr>pi_key = load_be bs * 64 ^ i mod 2 ^ 256,
     pi_page_id = (if i \<le> 42 then Some (bits_page_id i bs) else None)\<rparr>"

lemma iterator_next:
  assumes "length bs = 256" "i \<le> 42"
  shows "PageIdsIterator_next (iterator_at bs i) = (Some (bits_page_id i bs), iterator_at bs (Suc i))"
proof -
  have "load_be bs * 64 ^ i mod 2 ^ 256 * 64 mod 2 ^ 256 = load_be bs * 64 ^ Suc i mod 2 ^ 256"
    by (simp only: mod_mult_left_eq power_Suc2 mult.assoc)
  moreover have "load_be bs * 64 ^ i mod 2 ^ 256 div 2 ^ 248 div 4 = load_be (take 6 (drop (6 * i) bs))"
    if "i < 42" using window_value[of bs i] assms that by simp
  ultimately show ?thesis using assms(2)
    by (auto simp: PageIdsIterator_next_def iterator_at_def child_page_id_def MAX_PAGE_DEPTH_def Let_def)
qed

lemma iterator_take:
  assumes "length bs = 256" "i \<le> 43"
  shows "PageIdsIterator_take n (iterator_at bs i) = map (\<lambda>j. bits_page_id j bs) [i..<min (i + n) 43]"
  using assms(2)
proof (induction n arbitrary: i)
  case (Suc n)
  show ?case
  proof (cases "i = 43")
    case True
    then show ?thesis by (simp add: PageIdsIterator_next_def iterator_at_def)
  next
    case False
    hence "i \<le> 42" using Suc.prems by simp
    then show ?thesis using Suc.IH[of "Suc i"] iterator_next[OF assms(1), of i]
      by (simp add: upt_conv_Cons del: upt_Suc)
  qed
qed simp

lemma iterator_new: "PageIdsIterator_new k = iterator_at (view_bits k) 0" if "length k = 32"
proof -
  have "load_be (view_bits k) < 2 ^ 256" using load_be_bound[of "view_bits k"] that by simp
  thus ?thesis
    by (simp add: PageIdsIterator_new_def iterator_at_def from_be_load_be ROOT_PAGE_ID_def)
qed

lemma load_be_child_bits: "c \<le> 63 \<Longrightarrow> load_be (child_bits c) = unat c"
proof -
  assume "c \<le> 63"
  have split: "byte_bits c = take 2 (byte_bits c) @ child_bits c" by (simp add: child_bits_def)
  have "unat c = load_be (take 2 (byte_bits c)) * 64 + load_be (child_bits c)"
    using load_be_append[of "take 2 (byte_bits c)" "child_bits c"] by (simp add: split[symmetric])
  moreover have "unat c \<le> 63" using \<open>c \<le> 63\<close> by (simp add: child_index_unat)
  ultimately show ?thesis by simp
qed

lemma child_bits_load: "length bs = 6 \<Longrightarrow> child_bits (word_of_nat (load_be bs)) = bs"
proof -
  assume l: "length bs = 6"
  have b: "load_be bs < 64" using load_be_bound[of bs] l by simp
  hence "(word_of_nat (load_be bs) :: u8) \<le> 63" by (simp add: child_index_unat)
  hence "load_be (child_bits (word_of_nat (load_be bs))) = load_be bs"
    using b by (simp add: load_be_child_bits)
  thus ?thesis using load_be_inject[of "child_bits (word_of_nat (load_be bs))" bs] l by simp
qed

lemma page_id_bits_of_bits: "6 * n \<le> length bs \<Longrightarrow> page_id_bits (bits_page_id n bs) = take (6 * n) bs"
proof (induction n)
  case (Suc n)
  have "take (6 * Suc n) bs = take (6 * n) bs @ take 6 (drop (6 * n) bs)"
    by (simp add: take_add[symmetric] add.commute)
  with Suc show ?case by (simp add: child_bits_load)
qed simp

lemma child_bits_inject: "c \<le> 63 \<Longrightarrow> d \<le> 63 \<Longrightarrow> child_bits c = child_bits d \<Longrightarrow> c = d"
  by (metis load_be_child_bits word_unat_eq_iff)

lemma page_id_bits_inject:
  "sextets p \<Longrightarrow> sextets q \<Longrightarrow> length p = length q \<Longrightarrow> page_id_bits p = page_id_bits q \<Longrightarrow> p = q"
proof (induction p arbitrary: q)
  case (Cons c p)
  then obtain d r where "q = d # r" by (cases q) auto
  with Cons show ?case by (auto simp: sextets_def child_bits_inject)
qed simp

text \<open>A page is on the path of a key exactly when the key starts with the page's sextets.\<close>
lemma bits_page_id_iff:
  assumes "sextets p" "6 * length p \<le> length bs"
  shows "bits_page_id (length p) bs = p \<longleftrightarrow> take (6 * length p) bs = page_id_bits p"
proof
  assume "take (6 * length p) bs = page_id_bits p"
  with assms show "bits_page_id (length p) bs = p"
    by (intro page_id_bits_inject) (auto simp: bits_page_id_sextets page_id_bits_of_bits)
qed (metis assms(2) page_id_bits_of_bits)

lemma iterator_mem:
  assumes "page_id_ok p" "length k = 32" "43 \<le> n"
  shows "p \<in> set (PageIdsIterator_take n (PageIdsIterator_new k)) \<longleftrightarrow>
    bits_page_id (length p) (view_bits k) = p"
proof -
  have "set (PageIdsIterator_take n (PageIdsIterator_new k)) = (\<lambda>j. bits_page_id j (view_bits k)) ` {0..<43}"
    using assms(2,3) by (simp add: iterator_new iterator_take min_def)
  moreover have "length p < 43" using assms(1) by (simp add: page_id_ok_sextets)
  ultimately show ?thesis by (auto intro: image_eqI[where x = "length p"])
qed


section \<open>Properties\<close>

text \<open>C27: \<open>decode\<close> inverts the documented 256-bit representation exactly: it accepts
  the numbers of the valid pages and nothing else.\<close>
theorem decode_correct:
  assumes "length bs = 32"
  shows "page_id_decode bs = Inr p \<longleftrightarrow> page_id_ok p \<and> bs = to_be 32 (page_num p)"
  by (rule decode_iff[OF assms])

theorem decode_correct_witness:
  "page_id_decode (to_be 32 7) = Inr [6]"
  using decode_correct[of "to_be 32 7" "[6]"] page_num_simps(2)[of "[]" 6]
  by (simp add: page_id_ok_def page_consts)

text \<open>\<open>encode\<close> gives different labels to different pages above the deepest
  layer of the page tree.\<close>
theorem encode_inj:
  assumes "page_id_ok p" "page_id_ok q" "page_depth p < MAX_PAGE_DEPTH" "page_depth q < MAX_PAGE_DEPTH"
  shows "page_id_encode p = page_id_encode q \<longleftrightarrow> p = q"
proof
  assume "page_id_encode p = page_id_encode q"
  moreover have "64 * page_num p < 2 ^ 256" "64 * page_num q < 2 ^ 256"
    using page_num_shallow assms by (auto simp: page_depth_def page_consts)
  moreover have "(2 :: nat) ^ 256 = 256 ^ 32" by simp
  ultimately have "64 * page_num p = 64 * page_num q"
    using encode_page_num[OF assms(1)] encode_page_num[OF assms(2)]
    by (metis from_be_to_be mod_less)
  thus "p = q" using page_num_inject[OF assms(1,2)] by simp
qed simp

theorem encode_inj_witness:
  "page_id_encode [6] \<noteq> page_id_encode [5, 63]"
  using encode_inj[of "[6]" "[5, 63]"] by (simp add: page_id_ok_def page_depth_def page_consts)

lemma page_num_Cons: "page_num (x # p) = (unat x + 1) * 64 ^ length p + page_num p"
proof (induction p rule: rev_induct)
  case Nil
  show ?case using page_num_simps(2)[of "[]" x] by simp
next
  case (snoc y p)
  have "page_num (x # p @ [y]) = page_num (x # p) * 64 + unat y + 1"
    using page_num_simps(2)[of "x # p" y] by simp
  thus ?case by (simp add: snoc algebra_simps)
qed

text \<open>C28: at the deepest layer the shift after the last limb drops the top bits, so two
  pages of depth 42 whose first child indices differ by 16 share a label; and the label of
  page \<open>[6]\<close> decodes to another page.\<close>
theorem encode_collides:
  "page_id_encode (0 # replicate 41 0) = page_id_encode (16 # replicate 41 0) \<and>
   page_id_ok (0 # replicate 41 0) \<and> page_id_ok (16 # replicate 41 0) \<and>
   page_id_decode (page_id_encode [6]) = Inr [5, 63]"
proof (intro conjI)
  show ok: "page_id_ok (0 # replicate 41 0)" "page_id_ok (16 # replicate 41 0)"
    by (simp_all add: page_id_ok_def page_consts)
  have "64 * page_num (16 # replicate 41 0) = 64 * page_num (0 # replicate 41 0) + 2 ^ 256"
    by (simp add: page_num_Cons)
  thus "page_id_encode (0 # replicate 41 0) = page_id_encode (16 # replicate 41 0)"
    using ok by (simp add: encode_page_num)
  have n: "page_num [6] = 7" "page_num [5, 63] = 448"
    using page_num_simps(2)[of "[]" 6] page_num_simps(2)[of "[]" 5] page_num_simps(2)[of "[5]" 63] by simp_all
  have "page_id_ok [6]" "page_id_ok [5, 63]" by (simp_all add: page_id_ok_def page_consts)
  thus "page_id_decode (page_id_encode [6]) = Inr [5, 63]"
    by (intro decode_page_num) (simp_all add: encode_page_num n from_be_to_be)
qed

text \<open>C29: the order of page ids is depth first: the descendants of a page are the ids
  from the page itself up to its maximum descendant.\<close>
theorem descendants_are_an_interval:
  assumes "page_id_ok p" "page_id_ok q"
  shows "is_descendant_of p q \<longleftrightarrow> q \<le> p \<and> p \<le> max_descendant q"
  by (rule descendant_interval[OF assms])

theorem descendants_are_an_interval_witness:
  "is_descendant_of [6, 3] [6] \<and> [6] \<le> [6, 3 :: u8] \<and> [6, 3] \<le> max_descendant [6]"
  using descendants_are_an_interval[of "[6, 3]" "[6]"]
  by (simp add: page_id_ok_def page_consts is_descendant_of_def)

text \<open>C26: the pages the iterator yields for a key are exactly the pages whose key range
  contains the key.\<close>
theorem pages_of_key:
  assumes "page_id_ok p" "length k = 32" "MAX_PAGE_DEPTH < n"
  shows "p \<in> set (PageIdsIterator_take n (PageIdsIterator_new k)) \<longleftrightarrow>
    min_key_path p \<le> k \<and> k \<le> max_key_path p"
proof -
  have "length p \<le> 42" "43 \<le> n" using assms by (auto simp: page_id_ok_sextets MAX_PAGE_DEPTH_def)
  thus ?thesis
    using assms iterator_mem[of p k n] bits_page_id_iff[of p "view_bits k"] key_range[of p k]
    by (auto simp: page_id_ok_sextets)
qed

theorem pages_of_key_witness:
  "[4, 0] \<in> set (PageIdsIterator_take 43 (PageIdsIterator_new (sample_key 16))) \<and>
   min_key_path [4, 0] \<le> sample_key 16 \<and> sample_key 16 \<le> max_key_path [4, 0]"
proof -
  have "min_key_path [4, 0] \<le> sample_key 16 \<and> sample_key 16 \<le> max_key_path [4, 0]" by code_simp
  thus ?thesis using pages_of_key[of "[4, 0]" "sample_key 16" 43]
    by (simp add: page_id_ok_def page_consts)
qed

end
