(* ===== verification/PageRegions.thy ===== *)
theory PageRegions
  imports PageIds
begin

text \<open>
  Page regions (\<open>nomt/src/page_region.rs\<close>): the sub-trees of the page tree that one
  worker may write, and the pages above them that it may read.  The lemmas show that the
  order tests of the source decide disjointness and containment of the regions as sets of
  pages, which is the contract of the \<open>Region\<close> trait of the pass cells.
\<close>

record page_region =
  region_path :: page_id
  region_exclusive_min :: "page_id option"
  region_exclusive_max :: page_id

definition from_page_id :: "page_id \<Rightarrow> page_region" where
  "from_page_id p = \<lparr>region_path = p, region_exclusive_min = None,
     region_exclusive_max = max_descendant p\<rparr>"

text \<open>Panics when \<open>min > max\<close> or the page is at the maximum depth.\<close>
definition from_page_id_descendants ::
    "page_id \<Rightarrow> child_page_index \<Rightarrow> child_page_index \<Rightarrow> page_region option" where
  "from_page_id_descendants p mn mx = do {
     _ \<leftarrow> assert_that (mn \<le> mx);
     lo \<leftarrow> (case child_page_id p mn of Inl _ \<Rightarrow> None | Inr q \<Rightarrow> Some q);
     hi \<leftarrow> (case child_page_id p mx of Inl _ \<Rightarrow> None | Inr q \<Rightarrow> Some q);
     Some \<lparr>region_path = p, region_exclusive_min = Some lo,
           region_exclusive_max = max_descendant hi\<rparr> }"

definition region_universe :: page_region where
  "region_universe = from_page_id ROOT_PAGE_ID"

definition exclusive_min :: "page_region \<Rightarrow> page_id" where
  "exclusive_min r = (case region_exclusive_min r of None \<Rightarrow> region_path r | Some m \<Rightarrow> m)"

definition exclusive_max :: "page_region \<Rightarrow> page_id" where
  "exclusive_max r = region_exclusive_max r"

definition non_exclusive_max :: "page_region \<Rightarrow> page_id option" where
  "non_exclusive_max r =
     (case region_exclusive_min r of
        None \<Rightarrow> if region_path r = ROOT_PAGE_ID then None else Some (parent_page_id (region_path r))
      | Some _ \<Rightarrow> Some (region_path r))"

definition contains_exclusive :: "page_region \<Rightarrow> page_id \<Rightarrow> bool" where
  "contains_exclusive r p \<longleftrightarrow> exclusive_min r \<le> p \<and> exclusive_max r \<ge> p"

definition contains_non_exclusive :: "page_region \<Rightarrow> page_id \<Rightarrow> bool" where
  "contains_non_exclusive r p =
     (case non_exclusive_max r of None \<Rightarrow> False
      | Some m \<Rightarrow> p = m \<or> is_descendant_of m p)"

definition encompasses :: "page_region \<Rightarrow> page_region \<Rightarrow> bool" where
  "encompasses r s \<longleftrightarrow> exclusive_min r \<le> exclusive_min s \<and> exclusive_max r \<ge> exclusive_max s"

definition excludes_unique :: "page_region \<Rightarrow> page_region \<Rightarrow> bool" where
  "excludes_unique r s \<longleftrightarrow>
     exclusive_max r < exclusive_min s \<or> exclusive_max s < exclusive_min r"

text \<open>\<open>RegionContains::contains\<close>: any access.\<close>
definition region_contains :: "page_region \<Rightarrow> page_id \<Rightarrow> bool" where
  "region_contains r p \<longleftrightarrow> contains_exclusive r p \<or> contains_non_exclusive r p"

text \<open>The regions the constructors build on valid ids.\<close>
inductive region_ok :: "page_region \<Rightarrow> bool" where
  subtree: "page_id_ok p \<Longrightarrow> region_ok (from_page_id p)"
| children: "page_id_ok p \<Longrightarrow> mx \<le> MAX_CHILD_INDEX \<Longrightarrow>
    from_page_id_descendants p mn mx = Some r \<Longrightarrow> region_ok r"


section \<open>Regions as sets of sub-trees\<close>

text \<open>The roots of the exclusive sub-trees, and the page above them.\<close>
lemma region_shape:
  assumes "region_ok r"
  obtains (subtree) p where "page_id_ok p" "exclusive_min r = p" "exclusive_max r = max_descendant p"
      "non_exclusive_max r = (if p = [] then None else Some (butlast p))"
  | (children) p mn mx where "page_id_ok p" "length p < 42" "mn \<le> mx" "mx \<le> 63"
      "exclusive_min r = p @ [mn]" "exclusive_max r = max_descendant (p @ [mx])"
      "non_exclusive_max r = Some p"
  using assms
proof cases
  case (subtree p)
  then show ?thesis
    by (intro that(1)[of p])
       (auto simp: from_page_id_def exclusive_min_def exclusive_max_def non_exclusive_max_def
                   ROOT_PAGE_ID_def parent_page_id_def)
next
  case (children p mx mn)
  then show ?thesis
    by (intro that(2)[of p mn mx])
       (auto simp: from_page_id_descendants_def exclusive_min_def exclusive_max_def
                   non_exclusive_max_def child_page_id_def page_consts
             split: bind_splits if_splits)
qed

text \<open>A child range contains a page exactly when it descends from one of the children.\<close>
lemma children_interval:
  assumes "page_id_ok p" "length p < 42" "mn \<le> mx" "mx \<le> 63" "page_id_ok x"
  shows "p @ [mn] \<le> x \<and> x \<le> max_descendant (p @ [mx]) \<longleftrightarrow>
    (\<exists>c. mn \<le> c \<and> c \<le> mx \<and> is_descendant_of x (p @ [c]))"
proof
  assume "\<exists>c. mn \<le> c \<and> c \<le> mx \<and> is_descendant_of x (p @ [c])"
  then obtain c where c: "mn \<le> c" "c \<le> mx" "is_descendant_of x (p @ [c])" by blast
  have okc: "page_id_ok (p @ [c])" "page_id_ok (p @ [mx])" using assms c by auto
  have "p @ [c] \<le> x" "x \<le> max_descendant (p @ [c])"
    using descendant_interval[OF assms(5) okc(1)] c by auto
  moreover have "p @ [mn] \<le> p @ [c]" using c(1) by (auto simp: le_less)
  moreover have "max_descendant (p @ [c]) \<le> max_descendant (p @ [mx])"
    using c(2) okc by (auto simp: max_descendant_eq page_id_ok_sextets le_less)
  ultimately show "p @ [mn] \<le> x \<and> x \<le> max_descendant (p @ [mx])" by (meson order.trans)
next
  assume a: "p @ [mn] \<le> x \<and> x \<le> max_descendant (p @ [mx])"
  have len: "length p \<le> 42" "length (p @ [mx]) \<le> 42" using assms by auto
  have "p \<le> p @ [mn]" using list_le_append_same[of p "[]" "[mn]"] by simp
  moreover have "max_descendant (p @ [mx]) \<le> max_descendant p"
  proof -
    have "mx # replicate (41 - length p) 63 \<le> replicate (42 - length p) 63"
      by (rule le_replicate_max) (use assms in auto)
    thus ?thesis using len by (simp add: max_descendant_eq)
  qed
  ultimately have "is_descendant_of x p"
    using a descendant_interval[OF assms(5,1)] by (meson order.trans)
  then obtain r where r: "x = p @ r" by (auto simp: descendant_iff)
  have "[mn] \<le> r" "r \<le> mx # replicate (41 - length p) 63"
    using a r len by (auto simp: max_descendant_eq)
  then obtain c r' where "r = c # r'" "mn \<le> c" "c \<le> mx"
    by (cases r) (auto simp: le_less)
  thus "\<exists>c. mn \<le> c \<and> c \<le> mx \<and> is_descendant_of x (p @ [c])"
    using r by (intro exI[of _ c]) (auto simp: descendant_iff)
qed

text \<open>The exclusive pages of a region are closed under descendants.\<close>
lemma exclusive_closed:
  assumes "region_ok r" "page_id_ok x" "page_id_ok y" "contains_exclusive r x" "is_descendant_of y x"
  shows "contains_exclusive r y"
  using assms(1)
proof (cases rule: region_shape)
  case (subtree p)
  then show ?thesis using assms descendant_interval[of _ p] descendant_trans[of y x p]
    by (simp add: contains_exclusive_def)
next
  case (children p mn mx)
  then show ?thesis using assms children_interval[of p mn mx] descendant_trans[of y x]
    by (auto simp: contains_exclusive_def)
qed

text \<open>Every page above the exclusive part has the first exclusive page below it.\<close>
lemma non_exclusive_above:
  assumes "region_ok s" "page_id_ok x" "contains_non_exclusive s x"
  shows "is_descendant_of (exclusive_min s) x" "x \<noteq> exclusive_min s"
proof -
  have "\<exists>m r. non_exclusive_max s = Some m \<and> exclusive_min s = m @ [r]"
    using assms(1) assms(3)
    by (cases rule: region_shape)
       (auto simp: contains_non_exclusive_def split: if_splits intro: append_butlast_last_id[symmetric])
  then obtain m c where m: "non_exclusive_max s = Some m" "exclusive_min s = m @ [c]" by blast
  have "is_descendant_of m x" using assms(3) m by (auto simp: contains_non_exclusive_def)
  thus "is_descendant_of (exclusive_min s) x" "x \<noteq> exclusive_min s"
    using m by (auto simp: descendant_iff)
qed

lemma exclusive_min_ok:
  assumes "region_ok r"
  shows "page_id_ok (exclusive_min r)" "contains_exclusive r (exclusive_min r)"
  using assms
proof (atomize (full), cases rule: region_shape)
  case (subtree p)
  then show "page_id_ok (exclusive_min r) \<and> contains_exclusive r (exclusive_min r)"
    using descendant_interval[of p p] by (simp add: contains_exclusive_def)
next
  case (children p mn mx)
  then show "page_id_ok (exclusive_min r) \<and> contains_exclusive r (exclusive_min r)"
    using children_interval[of p mn mx "p @ [mn]"]
    by (auto simp: contains_exclusive_def intro: exI[of _ mn])
qed

text \<open>The pages a region can reach: those above its roots and those below.\<close>
lemma region_reach:
  assumes "region_ok r" "page_id_ok x" "contains_exclusive r y" "page_id_ok y" "is_descendant_of y x"
  shows "region_contains r x"
  using assms(1)
proof (cases rule: region_shape)
  case (subtree p)
  have yp: "is_descendant_of y p"
    using assms subtree descendant_interval[of y p] by (simp add: contains_exclusive_def)
  show ?thesis
  proof (cases "is_descendant_of x p")
    case True
    then show ?thesis using subtree assms(2) descendant_interval[of x p]
      by (simp add: region_contains_def contains_exclusive_def)
  next
    case False
    then obtain z where z: "p = x @ z" "z \<noteq> []"
      using descendant_comparable[OF assms(5) yp] by (auto simp: descendant_iff)
    then show ?thesis using subtree
      by (auto simp: region_contains_def contains_non_exclusive_def descendant_iff butlast_append)
  qed
next
  case (children p mn mx)
  then obtain c where c: "mn \<le> c" "c \<le> mx" "is_descendant_of y (p @ [c])"
    using assms children_interval[of p mn mx y] by (auto simp: contains_exclusive_def)
  show ?thesis
  proof (cases "is_descendant_of x (p @ [c])")
    case True
    then show ?thesis using children c assms(2) children_interval[of p mn mx x]
      by (auto simp: region_contains_def contains_exclusive_def)
  next
    case False
    then obtain z where "p @ [c] = x @ z"
      using descendant_comparable[OF assms(5) c(3)] by (auto simp: descendant_iff)
    moreover from this have "z \<noteq> []" using False by (cases z) auto
    ultimately obtain z' where "p = x @ z'" by (cases z rule: rev_cases) auto
    then show ?thesis using children
      by (auto simp: region_contains_def contains_non_exclusive_def descendant_iff)
  qed
qed


section \<open>The contract of the pass cells\<close>

text \<open>
  What \<open>Region\<close> and \<open>RegionContains\<close> promise to the pass cells: exclusion is symmetric
  and keeps one region's writes away from every access of the other, and a region that
  encompasses another grants every access the other grants.
\<close>
locale region_laws =
  fixes ok :: "'r \<Rightarrow> bool" and id_ok :: "'id \<Rightarrow> bool"
    and encomp :: "'r \<Rightarrow> 'r \<Rightarrow> bool" and excl :: "'r \<Rightarrow> 'r \<Rightarrow> bool"
    and any_access :: "'r \<Rightarrow> 'id \<Rightarrow> bool" and write_access :: "'r \<Rightarrow> 'id \<Rightarrow> bool"
  assumes excl_commute: "excl r s \<Longrightarrow> excl s r"
    and excl_access: "ok r \<Longrightarrow> ok s \<Longrightarrow> id_ok x \<Longrightarrow> excl r s \<Longrightarrow> write_access r x \<Longrightarrow> \<not> any_access s x"
    and encomp_any: "ok r \<Longrightarrow> ok s \<Longrightarrow> id_ok x \<Longrightarrow> encomp r s \<Longrightarrow> any_access s x \<Longrightarrow> any_access r x"
    and encomp_write: "ok r \<Longrightarrow> ok s \<Longrightarrow> id_ok x \<Longrightarrow> encomp r s \<Longrightarrow> write_access s x \<Longrightarrow> write_access r x"
    and write_any: "write_access r x \<Longrightarrow> any_access r x"
begin

text \<open>Regions inside mutually exclusive regions are themselves separated.\<close>
lemma separated_below:
  assumes "ok r" "ok s" "ok r'" "ok s'" "id_ok x" "excl r s" "encomp r r'" "encomp s s'"
    and "write_access r' x"
  shows "\<not> any_access s' x"
  using assms excl_access[of r s x] encomp_write[of r r' x] encomp_any[of s s' x] by blast

end

lemma excludes_access:
  assumes "region_ok r" "region_ok s" "page_id_ok x" "excludes_unique r s" "contains_exclusive r x"
  shows "\<not> region_contains s x"
proof
  note min_s = exclusive_min_ok[OF assms(2)]
  assume "region_contains s x"
  hence "contains_exclusive s x \<or> contains_exclusive r (exclusive_min s)"
    using non_exclusive_above[OF assms(2,3)] exclusive_closed[OF assms(1,3) min_s(1) assms(5)]
    by (auto simp: region_contains_def)
  thus False using assms(4,5) min_s(2)
    by (auto simp: excludes_unique_def contains_exclusive_def)
qed

lemma encompasses_exclusive:
  "encompasses r s \<Longrightarrow> contains_exclusive s x \<Longrightarrow> contains_exclusive r x"
  unfolding encompasses_def contains_exclusive_def by (meson order.trans)

lemma encompasses_contains:
  assumes "region_ok r" "region_ok s" "page_id_ok x" "encompasses r s" "region_contains s x"
  shows "region_contains r x"
proof (cases "contains_exclusive s x")
  case True
  then show ?thesis using encompasses_exclusive[OF assms(4)] by (simp add: region_contains_def)
next
  case False
  hence "is_descendant_of (exclusive_min s) x"
    using assms non_exclusive_above[of s x] by (simp add: region_contains_def)
  then show ?thesis
    using region_reach[OF assms(1,3)] exclusive_min_ok[OF assms(2)] encompasses_exclusive[OF assms(4)]
    by blast
qed

interpretation pr: region_laws region_ok page_id_ok encompasses excludes_unique
  region_contains contains_exclusive
proof
  show "excludes_unique r s \<Longrightarrow> excludes_unique s r" for r s by (auto simp: excludes_unique_def)
  show "contains_exclusive r x \<Longrightarrow> region_contains r x" for r x by (simp add: region_contains_def)
qed (auto intro: encompasses_exclusive encompasses_contains dest: excludes_access)


section \<open>Properties\<close>

text \<open>C8: when two regions pass the exclusion test, no page that one of them may write is
  accessible through the other, for reading or for writing.\<close>
theorem exclusive_regions_are_separated:
  assumes "region_ok r" "region_ok s" "page_id_ok x" "excludes_unique r s"
  shows "\<not> (contains_exclusive r x \<and> region_contains s x) \<and>
    \<not> (contains_exclusive s x \<and> region_contains r x)"
  using pr.excl_access[OF assms(1-4)] pr.excl_access[OF assms(2,1,3) pr.excl_commute[OF assms(4)]]
  by blast

lemma sample_regions_ok: "region_ok (from_page_id [1])" "region_ok (from_page_id [2])"
  by (auto intro!: region_ok.subtree simp: page_id_ok_def page_consts)

theorem exclusive_regions_are_separated_witness:
  "excludes_unique (from_page_id [1]) (from_page_id [2]) \<and>
   \<not> (contains_exclusive (from_page_id [1]) [1, 5] \<and> region_contains (from_page_id [2]) [1, 5])"
proof
  show e: "excludes_unique (from_page_id [1]) (from_page_id [2])"
    by (simp add: excludes_unique_def exclusive_max_def exclusive_min_def from_page_id_def max_descendant_eq)
  show "\<not> (contains_exclusive (from_page_id [1]) [1, 5] \<and> region_contains (from_page_id [2]) [1, 5])"
    using exclusive_regions_are_separated[OF sample_regions_ok _ e, of "[1, 5]"]
    by (simp add: page_id_ok_def page_consts)
qed

text \<open>C9: a region that encompasses another grants every access the other grants.\<close>
theorem encompassing_region_grants_more:
  assumes "region_ok r" "region_ok s" "page_id_ok x" "encompasses r s"
  shows "(contains_exclusive s x \<longrightarrow> contains_exclusive r x) \<and> (region_contains s x \<longrightarrow> region_contains r x)"
  using pr.encomp_write[OF assms] pr.encomp_any[OF assms] by blast

theorem encompassing_region_grants_more_witness:
  "encompasses region_universe (from_page_id [1]) \<and>
   contains_exclusive (from_page_id [1]) [1, 5] \<and> contains_exclusive region_universe [1, 5]"
proof (intro conjI)
  show e: "encompasses region_universe (from_page_id [1])"
    by (simp add: encompasses_def exclusive_max_def exclusive_min_def from_page_id_def max_descendant_eq
          region_universe_def ROOT_PAGE_ID_def replicate_Suc[symmetric] le_replicate_max del: replicate_Suc)
  have x: "page_id_ok [1, 5]" "page_id_ok [1]" by (simp_all add: page_id_ok_def page_consts)
  have "is_descendant_of [1, 5] [1]" by (simp add: is_descendant_of_def)
  thus c: "contains_exclusive (from_page_id [1]) [1, 5]"
    using descendant_interval[OF x] by (simp add: contains_exclusive_def from_page_id_def
      exclusive_min_def exclusive_max_def)
  have "region_ok region_universe"
    unfolding region_universe_def by (auto intro!: region_ok.subtree simp: ROOT_PAGE_ID_def)
  thus "contains_exclusive region_universe [1, 5]"
    using encompassing_region_grants_more[OF _ sample_regions_ok(1) x(1) e] c by blast
qed

end
