(* ===== verification/TriePos.thy ===== *)
theory TriePos
  imports PageIds
begin

text \<open>
  Positions in the paged trie (\<open>core/src/trie_pos.rs\<close>): a key path, a depth, and the
  index of the node in its page, kept up to date by each move.  The invariant \<open>tp_ok\<close>
  says that the cached index is the one of the path; every move keeps it and moves the
  path as the abstract bit string does.
\<close>

section \<open>Node indices\<close>

text \<open>Panics on an empty path.\<close>
definition last_page_path :: "bytes \<Rightarrow> nat \<Rightarrow> bits option" where
  "last_page_path path depth =
     (if depth = 0 then None
      else slice_of (view_bits path) (((depth - 1) div DEPTH) * DEPTH) depth)"

definition node_index :: "bits \<Rightarrow> nat" where
  "node_index page_path =
     (let depth = min DEPTH (length page_path) in
      if depth = 0 then 0 else 2 ^ depth - 2 + load_be (take depth page_path))"

text \<open>\<open>node_index as u8 - 62\<close>.\<close>
definition bottom_node_index :: "nat \<Rightarrow> nat option" where
  "bottom_node_index i = sub_checked (i mod 256) 62"

definition sibling_index_of :: "nat \<Rightarrow> nat" where
  "sibling_index_of i = (if i mod 2 = 0 then i + 1 else i - 1)"

definition parent_node_index :: "nat \<Rightarrow> nat option" where
  "parent_node_index i = map_option (\<lambda>x. x div 2) (sub_checked i 2)"


section \<open>Positions\<close>

record trie_position =
  tp_path :: bytes
  tp_depth :: nat
  tp_node_index :: nat

definition tp_new :: trie_position where
  "tp_new = \<lparr>tp_path = replicate 32 0, tp_depth = 0, tp_node_index = 0\<rparr>"

definition from_path_and_depth :: "key_path \<Rightarrow> nat \<Rightarrow> trie_position option" where
  "from_path_and_depth path depth = do {
     _ \<leftarrow> assert_that (depth \<noteq> 0);
     _ \<leftarrow> assert_that (depth \<le> 256);
     page_path \<leftarrow> last_page_path path depth;
     Some \<lparr>tp_path = path, tp_depth = depth, tp_node_index = node_index page_path\<rparr> }"

definition from_bitslice :: "bits \<Rightarrow> trie_position option" where
  "from_bitslice bs = do {
     _ \<leftarrow> assert_that (length bs \<le> 256);
     from_path_and_depth (bits_to_bytes (bs @ replicate (256 - length bs) False)) (length bs) }"

definition tp_is_root :: "trie_position \<Rightarrow> bool" where
  "tp_is_root t \<longleftrightarrow> tp_depth t = 0"

text \<open>\<open>path()\<close>: the bits up to the depth.\<close>
definition tp_bits :: "trie_position \<Rightarrow> bits" where
  "tp_bits t = take (tp_depth t) (view_bits (tp_path t))"

definition tp_raw_path :: "trie_position \<Rightarrow> bytes" where
  "tp_raw_path t = tp_path t"

text \<open>\<open>TriePosition: PartialEq\<close> compares the paths only.\<close>
definition tp_eq :: "trie_position \<Rightarrow> trie_position \<Rightarrow> bool" where
  "tp_eq t u \<longleftrightarrow> tp_bits t = tp_bits u"

definition tp_depth_in_page :: "trie_position \<Rightarrow> nat" where
  "tp_depth_in_page t =
     (if tp_depth t = 0 then 0 else tp_depth t - ((tp_depth t - 1) div DEPTH) * DEPTH)"

text \<open>The index of the left child; panics outside depths 1 to 5 of the page.\<close>
definition child_node_indices :: "trie_position \<Rightarrow> nat option" where
  "child_node_indices t =
     (let depth = tp_depth_in_page t in
      if depth = 0 \<or> depth > DEPTH - 1 then None else Some (tp_node_index t * 2 + 2))"

text \<open>\<open>ChildNodeIndices\<close>: the pair given by its left index.\<close>
definition cni_in_next_page :: "nat \<Rightarrow> bool" where
  "cni_in_next_page l \<longleftrightarrow> l = 0"

definition cni_right :: "nat \<Rightarrow> nat" where
  "cni_right l = l + 1"

definition tp_down :: "trie_position \<Rightarrow> bool \<Rightarrow> trie_position option" where
  "tp_down t b = do {
     _ \<leftarrow> assert_that (tp_depth t \<noteq> 256);
     idx \<leftarrow> (if tp_depth t mod DEPTH = 0 then Some (of_bool b)
            else map_option (\<lambda>l. if b then cni_right l else l) (child_node_indices t));
     Some \<lparr>tp_path = set_bit_at (tp_path t) (tp_depth t) b, tp_depth = tp_depth t + 1,
           tp_node_index = idx\<rparr> }"

fun parent_steps :: "nat \<Rightarrow> nat \<Rightarrow> nat option" where
  "parent_steps 0 i = Some i"
| "parent_steps (Suc d) i = Option.bind (parent_node_index i) (parent_steps d)"

definition tp_up :: "trie_position \<Rightarrow> nat \<Rightarrow> trie_position option" where
  "tp_up t d = do {
     new_depth \<leftarrow> sub_checked (tp_depth t) d;
     if new_depth = 0 then Some tp_new
     else do {
       let prev_page_depth = (tp_depth t + DEPTH - 1) div DEPTH;
       let new_page_depth = (new_depth + DEPTH - 1) div DEPTH;
       idx \<leftarrow> (if prev_page_depth = new_page_depth then parent_steps d (tp_node_index t)
              else map_option node_index (last_page_path (tp_path t) new_depth));
       Some (t\<lparr>tp_depth := new_depth, tp_node_index := idx\<rparr>) } }"

definition tp_sibling :: "trie_position \<Rightarrow> trie_position option" where
  "tp_sibling t = do {
     _ \<leftarrow> assert_that (tp_depth t \<noteq> 0);
     let i = tp_depth t - 1;
     b \<leftarrow> get_at (view_bits (tp_path t)) i;
     Some (t\<lparr>tp_path := set_bit_at (tp_path t) i (\<not> b),
            tp_node_index := sibling_index_of (tp_node_index t)\<rparr>) }"

definition tp_peek_last_bit :: "trie_position \<Rightarrow> bool option" where
  "tp_peek_last_bit t = do {
     _ \<leftarrow> assert_that (tp_depth t \<noteq> 0);
     get_at (view_bits (tp_path t)) (tp_depth t - 1) }"

text \<open>The loop over the exact chunks of six bits, the \<open>i\<close>-th chunk first; the inner option
  is a panic of one of the unwraps.\<close>
function page_id_loop :: "nat \<Rightarrow> nat \<Rightarrow> bits \<Rightarrow> page_id \<Rightarrow> page_id option" where
  "page_id_loop depth i bs page_id =
     (if length bs < DEPTH then Some page_id
      else if (i + 1) * DEPTH = depth then Some page_id
      else do {
        child \<leftarrow> ChildPageIndex_new (word_of_nat (load_be (take DEPTH bs)));
        q \<leftarrow> (case child_page_id page_id child of Inl _ \<Rightarrow> None | Inr q \<Rightarrow> Some q);
        page_id_loop depth (i + 1) (drop DEPTH bs) q })"
  by pat_completeness auto
termination by (relation "measure (\<lambda>(_, _, bs, _). length bs)") (auto simp: DEPTH_def)

declare page_id_loop.simps [simp del]

text \<open>\<open>None\<close> is a panic, \<open>Some None\<close> the root position.\<close>
definition tp_page_id :: "trie_position \<Rightarrow> page_id option option" where
  "tp_page_id t =
     (if tp_is_root t then Some None
      else map_option Some (page_id_loop (tp_depth t) 0 (tp_bits t) ROOT_PAGE_ID))"

definition tp_child_page_index :: "trie_position \<Rightarrow> child_page_index option" where
  "tp_child_page_index t = do {
     _ \<leftarrow> assert_that (tp_node_index t \<ge> 62);
     i \<leftarrow> bottom_node_index (tp_node_index t);
     ChildPageIndex_new (word_of_nat i) }"

definition tp_sibling_child_page_index :: "trie_position \<Rightarrow> child_page_index option" where
  "tp_sibling_child_page_index t = do {
     i \<leftarrow> bottom_node_index (sibling_index_of (tp_node_index t));
     ChildPageIndex_new (word_of_nat i) }"

text \<open>\<open>node_index & !1 == 0\<close>.\<close>
definition tp_is_first_layer_in_page :: "trie_position \<Rightarrow> bool" where
  "tp_is_first_layer_in_page t \<longleftrightarrow> tp_node_index t div 2 = 0"

definition tp_shared_depth :: "trie_position \<Rightarrow> trie_position \<Rightarrow> nat" where
  "tp_shared_depth t u = shared_bits (tp_bits t) (tp_bits u)"

definition tp_subtrie_contains :: "trie_position \<Rightarrow> key_path \<Rightarrow> bool" where
  "tp_subtrie_contains t k \<longleftrightarrow>
     take (tp_depth t) (view_bits k) = take (tp_depth t) (view_bits (tp_path t))"


section \<open>The invariant\<close>

text \<open>The bits of a path within its last page: one to six of them.\<close>
definition page_tail :: "bits \<Rightarrow> bits" where
  "page_tail bs = drop ((length bs - 1) div 6 * 6) bs"

definition tp_ok :: "trie_position \<Rightarrow> bool" where
  "tp_ok t \<longleftrightarrow> length (tp_path t) = 32 \<and> tp_depth t \<le> 256 \<and>
     tp_node_index t = (if tp_depth t = 0 then 0 else node_index (page_tail (tp_bits t)))"

lemma tp_bits_length [simp]: "tp_ok t \<Longrightarrow> length (tp_bits t) = tp_depth t"
  by (simp add: tp_ok_def tp_bits_def)

lemma page_tail_length:
  assumes "bs \<noteq> []"
  shows "length (page_tail bs) = Suc ((length bs - 1) mod 6)"
proof -
  obtain n where "length bs = Suc n" using assms by (cases bs) auto
  thus ?thesis by (simp add: page_tail_def Suc_diff_le minus_div_mult_eq_mod)
qed

lemma page_tail_le: "bs \<noteq> [] \<Longrightarrow> length (page_tail bs) \<le> 6"
proof -
  assume "bs \<noteq> []"
  have "(length bs - 1) mod 6 < 6" by simp
  thus ?thesis using page_tail_length[OF \<open>bs \<noteq> []\<close>] by simp
qed

lemma last_page_path_eq:
  assumes "0 < depth" "depth \<le> 8 * length path"
  shows "last_page_path path depth = Some (page_tail (take depth (view_bits path)))"
proof -
  have "(depth - 1) div 6 * 6 \<le> depth - 1" by simp
  hence "(depth - 1) div 6 * 6 \<le> depth" by linarith
  thus ?thesis using assms
    by (simp add: last_page_path_def page_tail_def DEPTH_def slice_simps drop_take min_def)
qed

lemma page_tail_snoc:
  "page_tail (bs @ [b]) = (if length bs mod 6 = 0 then [b] else page_tail bs @ [b])"
proof (cases "length bs mod 6 = 0")
  case True
  hence "length bs div 6 * 6 = length bs" by (metis add.right_neutral div_mult_mod_eq)
  then show ?thesis using True by (simp add: page_tail_def)
next
  case False
  then obtain n where n: "length bs = Suc n" by (cases "length bs") auto
  have "Suc n div 6 = n div 6" using False n by (simp add: div_Suc)
  then show ?thesis using False n by (simp add: page_tail_def)
qed

lemma node_index_eq: "p \<noteq> [] \<Longrightarrow> length p \<le> 6 \<Longrightarrow> node_index p = 2 ^ length p - 2 + load_be p"
  by (simp add: node_index_def DEPTH_def min_def)

lemma node_index_snoc:
  assumes "p \<noteq> []" "length p < 6"
  shows "node_index (p @ [b]) = node_index p * 2 + 2 + of_bool b"
proof -
  have "2 \<le> (2 :: nat) ^ length p" using assms by (cases p) auto
  thus ?thesis using assms by (simp add: node_index_eq load_be_snoc)
qed

lemma node_index_single: "node_index [b] = of_bool b"
  using node_index_eq[of "[b]"] load_be_snoc[of "[]" b] by simp

lemma node_index_bound: "p \<noteq> [] \<Longrightarrow> length p \<le> 6 \<Longrightarrow> node_index p < 2 ^ Suc (length p) - 2"
proof -
  assume p: "p \<noteq> []" "length p \<le> 6"
  have "2 \<le> (2 :: nat) ^ length p" using p(1) by (cases p) auto
  thus ?thesis using load_be_bound[of p] p by (simp add: node_index_eq)
qed


section \<open>Moves\<close>

lemma tp_new_ok: "tp_ok tp_new" "tp_bits tp_new = []"
  by (simp_all add: tp_ok_def tp_new_def tp_bits_def)

lemma tp_bits_Nil: "tp_ok t \<Longrightarrow> tp_bits t = [] \<longleftrightarrow> tp_depth t = 0"
  by (metis length_0_conv tp_bits_length)

lemma tp_index: "tp_ok t \<Longrightarrow> 0 < tp_depth t \<Longrightarrow> tp_node_index t = node_index (page_tail (tp_bits t))"
  by (simp add: tp_ok_def)

lemma from_path_and_depth_ok:
  assumes "length path = 32" "0 < depth" "depth \<le> 256"
  obtains t where "from_path_and_depth path depth = Some t" "tp_ok t"
    "tp_bits t = take depth (view_bits path)"
  using assms that
  by (simp add: from_path_and_depth_def last_page_path_eq tp_ok_def tp_bits_def)

lemma from_bitslice_ok:
  assumes "bs \<noteq> []" "length bs \<le> 256"
  obtains t where "from_bitslice bs = Some t" "tp_ok t" "tp_bits t = bs"
proof -
  let ?path = "bits_to_bytes (bs @ replicate (256 - length bs) False)"
  have v: "view_bits ?path = bs @ replicate (256 - length bs) False" "length ?path = 32"
    using assms by (simp_all add: view_bits_to_bytes[where n = 32] bits_to_bytes_length[where n = 32])
  from v(2) assms obtain t where "from_path_and_depth ?path (length bs) = Some t" "tp_ok t"
    "tp_bits t = take (length bs) (view_bits ?path)"
    by (auto intro: from_path_and_depth_ok[of ?path "length bs"])
  thus ?thesis using that[of t] assms v by (simp add: from_bitslice_def)
qed

text \<open>The depth within the page is the length of the tail.\<close>
lemma depth_in_page_eq:
  assumes "tp_ok t" "0 < tp_depth t"
  shows "tp_depth_in_page t = length (page_tail (tp_bits t))"
  using assms by (simp add: tp_depth_in_page_def page_tail_def DEPTH_def)

lemma tp_down_ok:
  assumes ok: "tp_ok t" and d: "tp_depth t < 256"
  obtains t' where "tp_down t b = Some t'" "tp_ok t'" "tp_bits t' = tp_bits t @ [b]"
proof -
  let ?idx = "node_index (page_tail (tp_bits t @ [b]))"
  let ?t = "\<lparr>tp_path = set_bit_at (tp_path t) (tp_depth t) b, tp_depth = tp_depth t + 1,
              tp_node_index = ?idx\<rparr>"
  have bits: "tp_bits ?t = tp_bits t @ [b]"
    using ok d by (simp add: tp_bits_def tp_ok_def take_Suc_conv_app_nth)
  have idx: "(if tp_depth t mod DEPTH = 0 then Some (of_bool b)
      else map_option (\<lambda>l. if b then cni_right l else l) (child_node_indices t)) = Some ?idx"
  proof (cases "tp_depth t mod 6 = 0")
    case True
    then show ?thesis using ok by (simp add: page_tail_snoc node_index_single DEPTH_def)
  next
    case False
    let ?p = "page_tail (tp_bits t)"
    obtain n where n: "tp_depth t = Suc n" using False by (cases "tp_depth t") auto
    have "tp_bits t \<noteq> []" using ok n by (simp add: tp_bits_Nil)
    hence len: "length ?p = Suc (n mod 6)" using page_tail_length[of "tp_bits t"] ok n by simp
    have "n mod 6 \<noteq> 5" using False n by (auto simp: mod_Suc split: if_splits)
    moreover have "n mod 6 < 6" by simp
    ultimately have "n mod 6 < 5" by linarith
    with len have p: "?p \<noteq> []" "length ?p < 6" by auto
    have "child_node_indices t = Some (node_index ?p * 2 + 2)"
      using depth_in_page_eq[OF ok] tp_index[OF ok] n p
      by (simp add: child_node_indices_def DEPTH_def Let_def)
    then show ?thesis using False ok p
      by (simp add: page_tail_snoc node_index_snoc DEPTH_def cni_right_def)
  qed
  have "tp_down t b = Some ?t"
    using d idx by (simp add: tp_down_def)
  moreover have "tp_ok ?t" using bits ok d by (simp add: tp_ok_def)
  ultimately show ?thesis using that bits by blast
qed

lemma parent_node_index_snoc:
  "p \<noteq> [] \<Longrightarrow> length p < 6 \<Longrightarrow> parent_node_index (node_index (p @ [b])) = Some (node_index p)"
  by (simp add: parent_node_index_def node_index_snoc sub_checked_def)

lemma parent_steps_take:
  assumes "d < length p" "length p \<le> 6"
  shows "parent_steps d (node_index p) = Some (node_index (take (length p - d) p))"
  using assms
proof (induction d arbitrary: p)
  case (Suc d)
  then obtain q b where p: "p = q @ [b]" by (cases p rule: rev_cases) auto
  have "parent_node_index (node_index p) = Some (node_index q)"
    unfolding p by (rule parent_node_index_snoc) (use Suc p in auto)
  with Suc p show ?case by simp
qed simp

lemma page_depth_eq:
  assumes "0 < n" "n \<le> (m :: nat)" "(m + 5) div 6 = (n + 5) div 6"
  shows "(m - 1) div 6 = (n - 1) div 6"
proof -
  have "(k + 5) div 6 = Suc ((k - 1) div 6)" if "0 < k" for k :: nat
    using that by (cases k) auto
  thus ?thesis using assms by simp
qed

lemma tail_start_less: "0 < (n :: nat) \<Longrightarrow> (n - 1) div 6 * 6 < n"
  by (cases n) (auto simp: le_imp_less_Suc)

lemma diff_shift:
  fixes k m d :: nat
  assumes "k < m - d"
  shows "d < m - k" "m - k - d = m - d - k"
  using assms by auto

lemma tp_up_ok:
  assumes ok: "tp_ok t" and d: "d \<le> tp_depth t"
  obtains t' where "tp_up t d = Some t'" "tp_ok t'" "tp_bits t' = take (tp_depth t - d) (tp_bits t)"
proof (cases "tp_depth t - d = 0")
  case True
  then show ?thesis using that[of tp_new] tp_new_ok d by (simp add: tp_up_def sub_checked_def)
next
  case False
  let ?n = "tp_depth t - d"
  let ?t = "t\<lparr>tp_depth := ?n, tp_node_index := node_index (page_tail (take ?n (tp_bits t)))\<rparr>"
  have len: "length (tp_path t) = 32" "tp_depth t \<le> 256" using ok by (auto simp: tp_ok_def)
  have bits: "take ?n (view_bits (tp_path t)) = take ?n (tp_bits t)" by (simp add: tp_bits_def)
  have idx: "(if (tp_depth t + DEPTH - 1) div DEPTH = (?n + DEPTH - 1) div DEPTH
      then parent_steps d (tp_node_index t)
      else map_option node_index (last_page_path (tp_path t) ?n)) =
      Some (node_index (page_tail (take ?n (tp_bits t))))"
  proof (cases "(tp_depth t + DEPTH - 1) div DEPTH = (?n + DEPTH - 1) div DEPTH")
    case True
    let ?p = "page_tail (tp_bits t)"
    have same: "(tp_depth t - 1) div 6 = (?n - 1) div 6"
      using page_depth_eq[of ?n "tp_depth t"] True False by (simp add: DEPTH_def add.commute)
    have ne: "tp_bits t \<noteq> []" using ok False by (simp add: tp_bits_Nil)
    have lt: "(?n - 1) div 6 * 6 < ?n" using tail_start_less[of ?n] False by simp
    have "length ?p = tp_depth t - (?n - 1) div 6 * 6" using same ok by (simp add: page_tail_def)
    hence lp: "d < length ?p" "length ?p - d = ?n - (?n - 1) div 6 * 6" using diff_shift[OF lt] by simp_all
    have "take (length ?p - d) ?p = page_tail (take ?n (tp_bits t))"
      using same ok lt lp(2) by (simp add: page_tail_def drop_take)
    with True show ?thesis
      using parent_steps_take[of d ?p] lp page_tail_le[OF ne] tp_index[OF ok] False by simp
  next
    case False
    then show ?thesis
      using last_page_path_eq[of ?n "tp_path t"] len \<open>tp_depth t - d \<noteq> 0\<close> by (simp add: bits)
  qed
  have "tp_up t d = Some ?t"
    using d False idx by (simp add: tp_up_def sub_checked_def Let_def)
  moreover have "tp_bits ?t = take ?n (tp_bits t)" by (simp add: tp_bits_def)
  moreover have "tp_ok ?t"
    using len \<open>tp_bits ?t = _\<close> False unfolding tp_ok_def by simp
  ultimately show ?thesis using that by blast
qed

lemma sibling_index_snoc:
  assumes "length p \<le> 5"
  shows "sibling_index_of (node_index (p @ [b])) = node_index (p @ [\<not> b])"
proof (cases "p = []")
  case False
  thus ?thesis using assms by (simp add: node_index_snoc sibling_index_of_def)
qed (simp add: node_index_single sibling_index_of_def)

lemma tp_sibling_ok:
  assumes ok: "tp_ok t" and d: "0 < tp_depth t"
  obtains t' where "tp_sibling t = Some t'" "tp_ok t'"
    "tp_bits t' = butlast (tp_bits t) @ [\<not> last (tp_bits t)]"
proof -
  obtain q b where q: "tp_bits t = q @ [b]"
    using tp_bits_Nil[OF ok] d by (cases "tp_bits t" rule: rev_cases) auto
  have len: "tp_depth t = Suc (length q)" using tp_bits_length[OF ok] q by simp
  have lp: "length (view_bits (tp_path t)) = 256" "Suc (length q) \<le> 256"
    using ok len by (auto simp: tp_ok_def)
  have tk: "take (length q) (view_bits (tp_path t)) = q" "view_bits (tp_path t) ! length q = b"
    using q len lp by (auto simp: tp_bits_def take_Suc_conv_app_nth)
  let ?t = "t\<lparr>tp_path := set_bit_at (tp_path t) (length q) (\<not> b),
              tp_node_index := sibling_index_of (tp_node_index t)\<rparr>"
  have bits: "tp_bits ?t = q @ [\<not> b]"
    using len lp tk by (simp add: tp_bits_def take_Suc_conv_app_nth)
  have "tp_sibling t = Some ?t"
    using d len lp tk by (simp add: tp_sibling_def get_at_def Let_def)
  moreover have "sibling_index_of (tp_node_index t) = node_index (page_tail (q @ [\<not> b]))"
  proof -
    have "length (if length q mod 6 = 0 then [] else page_tail q) \<le> 5"
      using page_tail_le[of "q @ [b]"] page_tail_snoc[of q b] by (auto split: if_splits)
    thus ?thesis using sibling_index_snoc[of "if length q mod 6 = 0 then [] else page_tail q" b]
      tp_index[OF ok d] by (auto simp: q page_tail_snoc)
  qed
  hence "tp_ok ?t" using bits ok len unfolding tp_ok_def by simp
  ultimately show ?thesis using that bits q by simp
qed


section \<open>Pages of positions\<close>

lemma page_id_loop_eq:
  assumes "length full \<le> 256" "6 * i < length full"
  shows "page_id_loop (length full) i (drop (6 * i) full) (bits_page_id i full) =
    Some (bits_page_id ((length full - 1) div 6) full)"
  using assms(2)
proof (induction "length full - 6 * i" arbitrary: i rule: less_induct)
  case less
  show ?case
  proof (cases "length full \<le> 6 * i + 6")
    case True
    have "(length full - 1) div 6 = i" using True less.prems by (intro div_nat_eqI) auto
    then show ?thesis using True less.prems
      by (subst page_id_loop.simps) (auto simp: DEPTH_def)
  next
    case False
    let ?c = "word_of_nat (load_be (take 6 (drop (6 * i) full))) :: u8"
    have "?c \<le> 63" using load_be_6[of "drop (6 * i) full"] by (simp add: child_index_unat)
    hence child: "ChildPageIndex_new ?c = Some ?c"
      by (simp add: ChildPageIndex_new_def MAX_CHILD_INDEX_def not_less)
    have "i < 42" using False assms(1) by simp
    hence q: "child_page_id (bits_page_id i full) ?c = Inr (bits_page_id (Suc i) full)"
      by (simp add: child_page_id_def MAX_PAGE_DEPTH_def)
    have "page_id_loop (length full) (Suc i) (drop (6 * Suc i) full) (bits_page_id (Suc i) full) =
        Some (bits_page_id ((length full - 1) div 6) full)"
      using less.hyps[of "Suc i"] False by simp
    moreover have "\<not> length full - 6 * i < 6" using False by arith
    ultimately show ?thesis using False
      by (subst page_id_loop.simps) (simp add: DEPTH_def child q add.commute)
  qed
qed

lemma tp_page_id_eq:
  assumes ok: "tp_ok t"
  shows "tp_page_id t = Some (if tp_depth t = 0 then None
    else Some (bits_page_id ((tp_depth t - 1) div 6) (tp_bits t)))"
proof (cases "tp_depth t = 0")
  case False
  hence "0 < length (tp_bits t)" "length (tp_bits t) \<le> 256"
    using ok tp_bits_length[OF ok] by (auto simp: tp_ok_def)
  thus ?thesis using page_id_loop_eq[of "tp_bits t" 0] ok False
    by (simp add: tp_page_id_def tp_is_root_def ROOT_PAGE_ID_def)
qed (simp add: tp_page_id_def tp_is_root_def)

lemma load_be_lt64: "length p \<le> 6 \<Longrightarrow> load_be p < 64"
  using load_be_6[of p] by simp

text \<open>Node indices separate the paths within a page.\<close>
lemma node_index_inject:
  assumes "p \<noteq> []" "length p \<le> 6" "q \<noteq> []" "length q \<le> 6" "node_index p = node_index q"
  shows "p = q"
proof -
  have lower: "2 ^ length r - 2 \<le> node_index r" if "r \<noteq> []" "length r \<le> 6" for r
    using that by (simp add: node_index_eq)
  have len: "length a \<le> length b"
    if "a \<noteq> []" "length a \<le> 6" "b \<noteq> []" "length b \<le> 6" "node_index a = node_index b" for a b
  proof (rule ccontr)
    assume "\<not> length a \<le> length b"
    hence "(2 :: nat) ^ Suc (length b) \<le> 2 ^ length a" by (intro power_increasing) auto
    moreover have "2 \<le> (2 :: nat) ^ length a" using that(1) by (cases a) auto
    ultimately show False
      using lower[OF that(1,2)] node_index_bound[OF that(3,4)] that(5) by linarith
  qed
  have "length p = length q" using len[of p q] len[of q p] assms by simp
  moreover from this have "load_be p = load_be q" using assms by (simp add: node_index_eq)
  ultimately show ?thesis by (simp add: load_be_inject)
qed

text \<open>The page and the index within it determine the path.\<close>
lemma tp_location_inject:
  assumes t: "tp_ok t" "0 < tp_depth t" and u: "tp_ok u" "0 < tp_depth u"
    and same: "tp_page_id t = tp_page_id u" "tp_node_index t = tp_node_index u"
  shows "tp_bits t = tp_bits u"
proof -
  have split: "tp_bits x = page_id_bits (bits_page_id ((tp_depth x - 1) div 6) (tp_bits x)) @ page_tail (tp_bits x)"
    if "tp_ok x" "0 < tp_depth x" for x
  proof -
    have "6 * ((tp_depth x - 1) div 6) \<le> tp_depth x - 1" by simp
    hence "6 * ((tp_depth x - 1) div 6) \<le> length (tp_bits x)" using that by simp
    thus ?thesis using that by (simp add: page_id_bits_of_bits page_tail_def mult.commute)
  qed
  have ne: "tp_bits t \<noteq> []" "tp_bits u \<noteq> []" using t u by (simp_all add: tp_bits_Nil)
  have tails: "page_tail (tp_bits t) = page_tail (tp_bits u)"
  proof (rule node_index_inject)
    show "page_tail (tp_bits t) \<noteq> []" "page_tail (tp_bits u) \<noteq> []"
      using page_tail_length[OF ne(1)] page_tail_length[OF ne(2)] by auto
    show "length (page_tail (tp_bits t)) \<le> 6" "length (page_tail (tp_bits u)) \<le> 6"
      using page_tail_le ne by auto
    show "node_index (page_tail (tp_bits t)) = node_index (page_tail (tp_bits u))"
      using same t u by (simp add: tp_index)
  qed
  have "bits_page_id ((tp_depth t - 1) div 6) (tp_bits t) = bits_page_id ((tp_depth u - 1) div 6) (tp_bits u)"
    using same(1) t u by (simp add: tp_page_id_eq)
  thus ?thesis using split[OF t] split[OF u] tails by simp
qed

text \<open>Below the last layer of a page the child page index leads to the child page.\<close>
lemma tp_child_page:
  assumes ok: "tp_ok t" and d: "0 < tp_depth t" "tp_depth t mod 6 = 0" "tp_depth t < 256"
    and down: "tp_down t b = Some t'"
  shows "\<exists>p c. tp_page_id t = Some (Some p) \<and> tp_child_page_index t = Some c \<and>
    tp_page_id t' = Some (Some (p @ [c]))"
proof -
  let ?p = "bits_page_id ((tp_depth t - 1) div 6) (tp_bits t)" and ?q = "page_tail (tp_bits t)"
  obtain n where n: "tp_depth t = 6 * Suc n"
    using d by (metis gr0_implies_Suc mult_is_0 not_gr_zero mod_0_imp_dvd dvd_def)
  have t': "tp_ok t'" "tp_bits t' = tp_bits t @ [b]"
    using tp_down_ok[OF ok d(3), of b] down by (metis option.inject)+
  hence dep: "tp_depth t' = Suc (tp_depth t)" using tp_bits_length[OF t'(1)] ok by simp
  have div: "(tp_depth t - 1) div 6 = n" unfolding n by (intro div_nat_eqI) auto
  have q: "?q = drop (6 * n) (tp_bits t)" "length ?q = 6" "?q \<noteq> []"
    using ok n div by (simp_all add: page_tail_def mult.commute)
  have idx: "tp_node_index t = 62 + load_be ?q"
    using tp_index[OF ok d(1)] q by (simp add: node_index_eq)
  have "load_be ?q < 64" using q by (simp add: load_be_lt64)
  hence c: "tp_child_page_index t = Some (word_of_nat (load_be ?q))"
    by (simp add: tp_child_page_index_def idx bottom_node_index_def sub_checked_def
          ChildPageIndex_new_def MAX_CHILD_INDEX_def not_less child_index_unat)
  have "bits_page_id m (tp_bits t @ [b]) = bits_page_id m (tp_bits t)" if "m \<le> Suc n" for m
  proof -
    have "take 6 (drop (6 * i) (tp_bits t @ [b])) = take 6 (drop (6 * i) (tp_bits t))" if "i < m" for i
      using that \<open>m \<le> Suc n\<close> ok n by simp
    thus ?thesis by (auto simp: bits_page_id_def simp del: drop_append take_append)
  qed
  hence "bits_page_id (Suc n) (tp_bits t') = ?p @ [word_of_nat (load_be ?q)]"
    using t' q div by simp
  moreover have "tp_page_id t' = Some (Some (bits_page_id (Suc n) (tp_bits t')))"
    using tp_page_id_eq[OF t'(1)] dep n by simp
  ultimately show ?thesis using c tp_page_id_eq[OF ok] d by auto
qed


section \<open>Properties\<close>

text \<open>C24: every move of a position keeps the cached node index right and moves the path
  as the bit string moves: \<open>down\<close> appends a bit, \<open>up\<close> drops the last ones, \<open>sibling\<close> flips
  the last; none of them panics within the 256 bits.\<close>
theorem moves_follow_the_path:
  assumes "tp_ok t"
  shows "(tp_depth t < 256 \<longrightarrow> (\<exists>u. tp_down t b = Some u \<and> tp_ok u \<and> tp_bits u = tp_bits t @ [b])) \<and>
    (d \<le> tp_depth t \<longrightarrow> (\<exists>u. tp_up t d = Some u \<and> tp_ok u \<and> tp_bits u = take (tp_depth t - d) (tp_bits t))) \<and>
    (0 < tp_depth t \<longrightarrow> (\<exists>u. tp_sibling t = Some u \<and> tp_ok u \<and>
       tp_bits u = butlast (tp_bits t) @ [\<not> last (tp_bits t)]))"
  using tp_down_ok[OF assms, of b] tp_up_ok[OF assms, of d] tp_sibling_ok[OF assms] by metis

definition sample_pos :: trie_position where
  "sample_pos = \<lparr>tp_path = sample_key 176, tp_depth = 6, tp_node_index = 106\<rparr>"

lemma sample_pos_ok: "tp_ok sample_pos"
  by code_simp

theorem moves_follow_the_path_witness:
  "(\<exists>u. tp_down sample_pos True = Some u \<and> tp_ok u \<and> tp_bits u = tp_bits sample_pos @ [True]) \<and>
   (\<exists>u. tp_up sample_pos 2 = Some u \<and> tp_ok u \<and> tp_bits u = take 4 (tp_bits sample_pos)) \<and>
   (\<exists>u. tp_sibling sample_pos = Some u \<and> tp_ok u \<and>
      tp_bits u = butlast (tp_bits sample_pos) @ [\<not> last (tp_bits sample_pos)])"
proof -
  have "tp_depth sample_pos = 6" by (simp add: sample_pos_def)
  thus ?thesis using moves_follow_the_path[OF sample_pos_ok, of True 2] by simp
qed

text \<open>C25: the page id and the node index of a position determine its path, so no two
  nodes of the trie share a slot.\<close>
theorem location_determines_path:
  assumes "tp_ok t" "0 < tp_depth t" "tp_ok u" "0 < tp_depth u"
    and "tp_page_id t = tp_page_id u" "tp_node_index t = tp_node_index u"
  shows "tp_eq t u"
  using tp_location_inject[OF assms] by (simp add: tp_eq_def)

theorem location_determines_path_witness:
  "tp_ok sample_pos \<and> 0 < tp_depth sample_pos \<and> tp_eq sample_pos sample_pos"
proof -
  have d: "0 < tp_depth sample_pos" by (simp add: sample_pos_def)
  show ?thesis
    using location_determines_path[OF sample_pos_ok d sample_pos_ok d refl refl] sample_pos_ok d by simp
qed

text \<open>A position has a page at every depth below the root, its path without the bits
  of its own page; and from the last layer of a page \<open>down\<close> enters the child page that
  \<open>child_page_index\<close> names.\<close>
theorem down_enters_the_child_page:
  assumes "tp_ok t" "0 < tp_depth t" "tp_depth t < 256" "tp_down t b = Some u"
  shows "tp_page_id t = Some (Some (bits_page_id ((tp_depth t - 1) div DEPTH) (tp_bits t))) \<and>
    (tp_depth t mod DEPTH = 0 \<longrightarrow> (\<exists>p c. tp_page_id t = Some (Some p) \<and>
       tp_child_page_index t = Some c \<and> tp_page_id u = Some (Some (p @ [c]))))"
  using tp_page_id_eq[OF assms(1)] tp_child_page[OF assms(1,2) _ assms(3,4)] assms(2)
  by (simp add: DEPTH_def)

theorem down_enters_the_child_page_witness:
  "\<exists>p c u. tp_down sample_pos True = Some u \<and> tp_page_id sample_pos = Some (Some p) \<and>
     tp_child_page_index sample_pos = Some c \<and> tp_page_id u = Some (Some (p @ [c]))"
proof -
  have d: "0 < tp_depth sample_pos" "tp_depth sample_pos < 256" "tp_depth sample_pos mod DEPTH = 0"
    by (simp_all add: sample_pos_def DEPTH_def)
  obtain u where "tp_down sample_pos True = Some u" by (rule tp_down_ok[OF sample_pos_ok d(2)])
  thus ?thesis using down_enters_the_child_page[OF sample_pos_ok d(1,2), of True u] d(3) by blast
qed

end
