(* ===== verification/TriePaths.thy ===== *)
theory TriePaths
  imports BuildTrie
begin

text \<open>
  Paths through the abstract trie, for the proofs: the sub-trie at a position, the
  siblings met on the way, the pairs that live below a position, and how an operation on
  the pairs of one position changes the Merkle root.
\<close>

section \<open>Sub-tries and siblings\<close>

fun subtrie :: "mtrie \<Rightarrow> bits \<Rightarrow> mtrie option" where
  "subtrie t [] = Some t"
| "subtrie (MInt l r) (b # bs) = subtrie (if b then r else l) bs"
| "subtrie _ (b # bs) = None"

text \<open>The hashes of the siblings on a path, the topmost first.\<close>
fun path_siblings :: "node_hasher \<Rightarrow> mtrie \<Rightarrow> bits \<Rightarrow> node list" where
  "path_siblings H (MInt l r) (b # bs) =
     node_hash H (if b then l else r) # path_siblings H (if b then r else l) bs"
| "path_siblings H _ _ = []"

text \<open>The bits from the root to the terminal node on the way to a key.\<close>
fun lookup_path :: "mtrie \<Rightarrow> bits \<Rightarrow> bits" where
  "lookup_path (MInt l r) (b # bs) = b # lookup_path (if b then r else l) bs"
| "lookup_path _ _ = []"

fun is_terminal :: "mtrie \<Rightarrow> bool" where
  "is_terminal (MInt _ _) = False"
| "is_terminal _ = True"

lemma subtrie_append:
  "subtrie t (p @ q) = Option.bind (subtrie t p) (\<lambda>u. subtrie u q)"
  by (induction t p rule: subtrie.induct) auto

lemma path_siblings_length: "subtrie t p = Some u \<Longrightarrow> length (path_siblings H t p) = length p"
  by (induction t p arbitrary: u rule: subtrie.induct) auto

lemma path_siblings_append:
  "subtrie t p = Some u \<Longrightarrow> path_siblings H t (p @ q) = path_siblings H t p @ path_siblings H u q"
  by (induction t p arbitrary: u rule: subtrie.induct) auto

lemma subtrie_terminal_extend:
  "subtrie t p = Some u \<Longrightarrow> is_terminal u \<Longrightarrow> subtrie t (p @ q) = Some w \<Longrightarrow> q = []"
  by (cases u; cases q) (auto simp: subtrie_append)

text \<open>Terminal positions are never one above the other.\<close>
lemma terminal_paths_incomparable:
  assumes "subtrie t p = Some u" "is_terminal u" "subtrie t q = Some w" "take (length p) q = p"
  shows "q = p"
proof -
  have "q = p @ drop (length p) q" using assms(4) by (metis append_take_drop_id)
  moreover have "drop (length p) q = []"
    using subtrie_terminal_extend[of t p u "drop (length p) q" w] assms calculation by simp
  ultimately show ?thesis by simp
qed


section \<open>Pairs below a position\<close>

definition key_under :: "bits \<Rightarrow> key_path \<Rightarrow> bool" where
  "key_under p k \<longleftrightarrow> take (length p) (view_bits k) = p"

definition below :: "bits \<Rightarrow> kv list \<Rightarrow> kv list" where
  "below p kvs = filter (\<lambda>kv. key_under p (fst kv)) kvs"

lemma under_Nil [simp]: "key_under [] k"
  by (simp add: key_under_def)

lemma below_Nil [simp]: "below [] kvs = kvs"
  by (simp add: below_def)

lemma under_snoc:
  "length p < 8 * length k \<Longrightarrow> key_under (p @ [b]) k \<longleftrightarrow> key_under p k \<and> view_bits k ! length p = b"
  by (auto simp: key_under_def take_Suc_conv_app_nth)

lemma under_prefix: "key_under (p @ q) k \<Longrightarrow> key_under p k"
  unfolding key_under_def
  by (metis append_eq_conv_conj le_add1 length_append min.absorb1 take_take)

lemma under_comparable:
  assumes "key_under p k" "key_under q k" "length p \<le> length q"
  shows "take (length p) q = p"
  using assms unfolding key_under_def by (metis min.absorb1 take_take)

lemma below_ok: "kvs_ok kvs \<Longrightarrow> kvs_ok (below p kvs)"
  by (simp add: below_def kvs_ok_filter)

lemma below_share: "share_prefix (length p) (below p kvs) p"
  by (auto simp: share_prefix_def below_def key_under_def)

lemma below_split:
  assumes "kvs_ok kvs" "length p < 256"
  shows "below (p @ [False]) kvs = filter (\<lambda>kv. \<not> key_bit (length p) kv) (below p kvs)"
    "below (p @ [True]) kvs = filter (key_bit (length p)) (below p kvs)"
  using assms by (auto simp: below_def under_snoc kvs_ok_def intro!: filter_cong)

lemma below_prefix_len:
  assumes "kvs_ok kvs" "2 \<le> length (below p kvs)"
  shows "length p < 256"
proof (rule ccontr)
  assume "\<not> length p < 256"
  moreover obtain x y r where "below p kvs = x # y # r"
    using assms(2) by (cases "below p kvs" rule: list_cases2) auto
  ultimately show False
    using kvs_full_prefix_singleton[of x y r "length p" p] below_share[of p kvs] below_ok[OF assms(1), of p]
    by simp
qed

text \<open>The sub-trie at a position is the trie of the pairs below it.\<close>
lemma subtrie_mk_trie:
  assumes "kvs_ok kvs" "subtrie (mk_trie (length p) (below p kvs)) q = Some u"
  shows "u = mk_trie (length (p @ q)) (below (p @ q) kvs)"
  using assms(2)
proof (induction q arbitrary: p)
  case (Cons b q)
  let ?t = "mk_trie (length p) (below p kvs)"
  have two: "2 \<le> length (below p kvs)"
  proof (rule ccontr)
    assume "\<not> 2 \<le> length (below p kvs)"
    hence "below p kvs = [] \<or> (\<exists>x. below p kvs = [x])"
      by (cases "below p kvs" rule: list_cases2) auto
    with Cons.prems show False by auto
  qed
  note len = below_prefix_len[OF assms(1) two]
  have "subtrie (mk_trie (length (p @ [b])) (below (p @ [b]) kvs)) q = Some u"
    using Cons.prems mk_trie_split[OF two len] below_split[OF assms(1) len] by (cases b) auto
  from Cons.IH[OF this] show ?case by simp
qed simp

lemma subtrie_root:
  assumes "kvs_ok kvs" "subtrie (mk_trie 0 kvs) q = Some u"
  shows "u = mk_trie (length q) (below q kvs)"
  using subtrie_mk_trie[of kvs "[]" q u] assms by simp

lemma mk_trie_shape:
  assumes "kvs_ok kvs"
  shows "mk_trie (length p) (below p kvs) = MTerm \<longleftrightarrow> below p kvs = []"
    "mk_trie (length p) (below p kvs) = MLeaf l \<longleftrightarrow> below p kvs = [(leaf_key l, leaf_value l)]"
proof -
  have c: "\<lbrakk>below p kvs = [] \<Longrightarrow> Q; \<And>x. below p kvs = [x] \<Longrightarrow> Q; 2 \<le> length (below p kvs) \<Longrightarrow> Q\<rbrakk> \<Longrightarrow> Q" for Q
    by (cases "below p kvs" rule: list_cases2) auto
  show "mk_trie (length p) (below p kvs) = MTerm \<longleftrightarrow> below p kvs = []"
    by (cases rule: c) (auto simp: mk_trie_split below_prefix_len[OF assms])
  show "mk_trie (length p) (below p kvs) = MLeaf l \<longleftrightarrow> below p kvs = [(leaf_key l, leaf_value l)]"
    by (cases rule: c) (auto simp: mk_trie_split below_prefix_len[OF assms] leaf_of_def)
qed

lemma map_of_below: "map_of (below p kvs) k = (if key_under p k then map_of kvs k else None)"
  by (induction kvs) (auto simp: below_def)

lemma kvs_ok_unique:
  assumes "kvs_ok xs" "kvs_ok ys" "map_of xs = map_of ys"
  shows "xs = ys"
proof -
  have keys: "set (map fst zs) = dom (map_of zs)" for zs :: "kv list"
    by (simp add: dom_map_of_conv_image_fst)
  have "sorted_wrt (<) (map fst xs)" "sorted_wrt (<) (map fst ys)"
    using assms by (auto simp: kvs_ok_def sorted_wrt_map)
  hence f: "map fst xs = map fst ys"
    using keys[of xs] keys[of ys] assms(3) by (intro strict_sorted_equal) auto
  have "snd (xs ! i) = snd (ys ! i)" if "i < length xs" for i
  proof -
    have l: "length xs = length ys" using f by (metis length_map)
    have "map_of xs (fst (xs ! i)) = Some (snd (xs ! i))"
      using that kvs_ok_distinct[OF assms(1)] by (simp add: map_of_eq_Some_iff)
    moreover have "map_of ys (fst (ys ! i)) = Some (snd (ys ! i))"
      using that l kvs_ok_distinct[OF assms(2)] by (simp add: map_of_eq_Some_iff)
    moreover have "fst (xs ! i) = fst (ys ! i)" using that l f by (metis nth_map)
    ultimately show ?thesis using assms(3) by simp
  qed
  thus ?thesis using f by (intro nth_equalityI) (metis length_map, metis length_map nth_map prod_eq_iff)
qed


section \<open>Compaction\<close>

text \<open>Combining two sub-tries one layer up: a lone leaf or terminator moves up.\<close>
definition compact_up :: "node_hasher \<Rightarrow> bool \<Rightarrow> node \<Rightarrow> node \<Rightarrow> node" where
  "compact_up H b cur_node sibling =
     (case (node_kind_of H cur_node, node_kind_of H sibling) of
        (KTerminator, KTerminator) \<Rightarrow> cur_node
      | (KLeaf, KTerminator) \<Rightarrow> cur_node
      | (KTerminator, KLeaf) \<Rightarrow> sibling
      | _ \<Rightarrow> hash_internal H (internal_of b cur_node sibling))"

lemma mk_trie_kind:
  assumes "node_hasher_laws H" "kvs_ok kvs"
  shows "node_kind_of H (node_hash H (mk_trie (length p) (below p kvs))) =
    (case below p kvs of [] \<Rightarrow> KTerminator | [_] \<Rightarrow> KLeaf | _ \<Rightarrow> KInternal)"
proof -
  show ?thesis
  proof (cases "below p kvs" rule: list_cases2)
    case (Many x y r)
    hence two: "2 \<le> length (below p kvs)" by simp
    show ?thesis unfolding mk_trie_split[OF two below_prefix_len[OF assms(2) two]]
      using Many by (simp add: node_hasher_laws.kind_simps[OF assms(1)])
  qed (simp_all add: node_hasher_laws.kind_simps[OF assms(1)])
qed

lemma compact_step:
  assumes H: "node_hasher_laws H" and ok: "kvs_ok kvs" and len: "length p < 256"
  shows "node_hash H (mk_trie (length p) (below p kvs)) =
    compact_up H b (node_hash H (mk_trie (Suc (length p)) (below (p @ [b]) kvs)))
                   (node_hash H (mk_trie (Suc (length p)) (below (p @ [\<not> b]) kvs)))"
proof -
  let ?L = "below (p @ [False]) kvs" and ?R = "below (p @ [True]) kvs"
  let ?l = "node_hash H (mk_trie (Suc (length p)) ?L)"
  let ?r = "node_hash H (mk_trie (Suc (length p)) ?R)"
  have split: "below p kvs = ?L @ ?R"
    unfolding below_split[OF ok len]
    by (rule kvs_split[OF below_ok[OF ok] below_share len])
  have kl: "node_kind_of H ?l = (case ?L of [] \<Rightarrow> KTerminator | [_] \<Rightarrow> KLeaf | _ \<Rightarrow> KInternal)"
    using mk_trie_kind[OF H ok, of "p @ [False]"] by simp
  have kr: "node_kind_of H ?r = (case ?R of [] \<Rightarrow> KTerminator | [_] \<Rightarrow> KLeaf | _ \<Rightarrow> KInternal)"
    using mk_trie_kind[OF H ok, of "p @ [True]"] by simp
  show ?thesis
  proof (cases "2 \<le> length (below p kvs)")
    case True
    have "node_hash H (mk_trie (length p) (below p kvs)) = hash_internal H \<lparr>left = ?l, right = ?r\<rparr>"
      by (simp add: mk_trie_split[OF True len] below_split[OF ok len])
    moreover have "length ?L + length ?R \<ge> 2" using True split by (metis length_append)
    ultimately show ?thesis using kl kr
      by (cases b) (auto simp: compact_up_def internal_of_def split: list.splits)
  next
    case False
    then consider "?L = []" "?R = []" | x where "?L = [x]" "?R = []" | x where "?L = []" "?R = [x]"
      using split by (cases ?L; cases ?R) (auto simp: not_le)
    thus ?thesis
      by cases (use kl kr split in \<open>cases b; simp add: compact_up_def\<close>)+
  qed
qed

end
