(* ===== verification/PathProofs.thy ===== *)
theory PathProofs
  imports TriePaths TriePos
begin

text \<open>
  Proofs of single paths (\<open>core/src/proof/path_proof.rs\<close>): verification against a root,
  the statements a verified path confirms, and the root of the trie after updates at a
  list of verified paths.  Verification is shown complete for the siblings of the trie
  and sound when the hash does not collide on the preimages involved; the update
  computes the root of the updated key-value map.
\<close>

section \<open>Path proofs\<close>

datatype path_proof_terminal = PLeaf leaf_data | PTerminator trie_position

fun terminal_path :: "path_proof_terminal \<Rightarrow> bits" where
  "terminal_path (PLeaf d) = view_bits (leaf_key d)"
| "terminal_path (PTerminator pos) = tp_bits pos"

fun terminal_node :: "node_hasher \<Rightarrow> path_proof_terminal \<Rightarrow> node" where
  "terminal_node H (PLeaf d) = hash_leaf H d"
| "terminal_node H (PTerminator _) = TERMINATOR"

fun as_leaf_option :: "path_proof_terminal \<Rightarrow> leaf_data option" where
  "as_leaf_option (PLeaf d) = Some d"
| "as_leaf_option (PTerminator _) = None"

record path_proof =
  pp_terminal :: path_proof_terminal
  pp_siblings :: "node list"

text \<open>The loop body of \<open>hash_path\<close>, over the zipped bits and siblings.\<close>
fun hash_path_loop :: "node_hasher \<Rightarrow> node \<Rightarrow> (bool \<times> node) list \<Rightarrow> node" where
  "hash_path_loop H n [] = n"
| "hash_path_loop H n ((b, sibling) # rest) =
     hash_path_loop H (hash_internal H (internal_of b n sibling)) rest"

definition hash_path :: "node_hasher \<Rightarrow> node \<Rightarrow> bits \<Rightarrow> node list \<Rightarrow> node" where
  "hash_path H n path siblings = hash_path_loop H n (zip (rev path) siblings)"

datatype path_proof_verification_error = TooManySiblings | RootMismatch
datatype key_out_of_scope = KeyOutOfScope

record verified_path_proof =
  vp_key_path :: bits
  vp_terminal :: "leaf_data option"
  vp_siblings :: "node list"
  vp_root :: node

definition path_proof_verify :: "node_hasher \<Rightarrow> path_proof \<Rightarrow> bits \<Rightarrow> node
    \<Rightarrow> path_proof_verification_error + verified_path_proof" where
  "path_proof_verify H proof key_path root =
     (if length (pp_siblings proof) > min (length key_path) 256 then Inl TooManySiblings
      else let relevant_path = take (length (pp_siblings proof)) key_path;
               cur_node = terminal_node H (pp_terminal proof);
               new_root = hash_path H cur_node relevant_path (rev (pp_siblings proof))
           in if new_root = root
              then Inr \<lparr>vp_key_path = relevant_path, vp_terminal = as_leaf_option (pp_terminal proof),
                        vp_siblings = pp_siblings proof, vp_root = root\<rparr>
              else Inl RootMismatch)"

text \<open>Slicing the key to the length of the path panics past 256 bits.\<close>
definition in_scope :: "verified_path_proof \<Rightarrow> key_path \<Rightarrow> (key_out_of_scope + unit) option" where
  "in_scope vp k = do {
     other_path \<leftarrow> slice_of (view_bits k) 0 (length (vp_key_path vp));
     Some (if vp_key_path vp = other_path then Inr () else Inl KeyOutOfScope) }"

definition confirm_value :: "verified_path_proof \<Rightarrow> leaf_data \<Rightarrow> (key_out_of_scope + bool) option" where
  "confirm_value vp expected =
     map_option (\<lambda>r. case r of Inl e \<Rightarrow> Inl e | Inr _ \<Rightarrow> Inr (vp_terminal vp = Some expected))
       (in_scope vp (leaf_key expected))"

definition confirm_nonexistence :: "verified_path_proof \<Rightarrow> key_path \<Rightarrow> (key_out_of_scope + bool) option" where
  "confirm_nonexistence vp k =
     map_option (\<lambda>r. case r of Inl e \<Rightarrow> Inl e
       | Inr _ \<Rightarrow> Inr (case vp_terminal vp of None \<Rightarrow> True | Some d \<Rightarrow> leaf_key d \<noteq> k))
       (in_scope vp k)"


section \<open>Updates at verified paths\<close>

datatype verify_update_error =
  PathsOutOfOrder | OpsOutOfOrder | OpOutOfScope | PathWithoutOps | UpdateRootMismatch

record path_update =
  pu_inner :: verified_path_proof
  pu_ops :: "leaf_op list"

text \<open>The checks on one path's operations, with the previous key.\<close>
fun check_ops :: "bits \<Rightarrow> key_path option \<Rightarrow> leaf_op list \<Rightarrow> verify_update_error option" where
  "check_ops path prev [] = None"
| "check_ops path prev ((key, _) # ops) =
     (if (case prev of None \<Rightarrow> False | Some p \<Rightarrow> p \<ge> key) then Some OpsOutOfOrder
      else if take (length path) (view_bits key) \<noteq> path then Some OpOutOfScope
      else check_ops path (Some key) ops)"

fun check_paths :: "node \<Rightarrow> bits option \<Rightarrow> path_update list \<Rightarrow> verify_update_error option" where
  "check_paths root prev [] = None"
| "check_paths root prev (u # us) =
     (if vp_root (pu_inner u) \<noteq> root then Some UpdateRootMismatch
      else if (case prev of None \<Rightarrow> False | Some p \<Rightarrow> p \<ge> vp_key_path (pu_inner u)) then Some PathsOutOfOrder
      else if pu_ops u = [] then Some PathWithoutOps
      else case check_ops (vp_key_path (pu_inner u)) None (pu_ops u) of
             Some e \<Rightarrow> Some e
           | None \<Rightarrow> check_paths root (Some (vp_key_path (pu_inner u))) us)"

text \<open>The inner loop: siblings up to the meeting point with the next path.\<close>
fun update_climb :: "node_hasher \<Rightarrow> (bool \<times> node) list \<Rightarrow> nat \<Rightarrow> node \<Rightarrow> (node \<times> nat) list
    \<Rightarrow> node \<times> (node \<times> nat) list" where
  "update_climb H [] cur_layer cur_node pending = (cur_node, pending)"
| "update_climb H ((b, s) # rest) cur_layer cur_node pending =
     (let (sibling, pending') = (case pop_sibling cur_layer pending of
            Some r \<Rightarrow> r | None \<Rightarrow> (s, pending))
      in update_climb H rest (cur_layer - 1) (compact_up H b cur_node sibling) pending')"

fun update_loop :: "node_hasher \<Rightarrow> path_update list \<Rightarrow> (node \<times> nat) list \<Rightarrow> (node \<times> nat) list option" where
  "update_loop H [] pending = Some pending"
| "update_loop H (u # us) pending = do {
     let path = vp_key_path (pu_inner u);
     let skip = length path;
     up_layers \<leftarrow> (case us of [] \<Rightarrow> Some skip
       | v # _ \<Rightarrow> sub_checked skip (shared_bits (vp_key_path (pu_inner v)) path + 1));
     (sub_root, _) \<leftarrow> build_trie H skip (leaf_ops_spliced (vp_terminal (pu_inner u)) (pu_ops u));
     let end_layer = skip - up_layers;
     let (cur_node, pending') = update_climb H
       (zip (take up_layers (rev path)) (rev (vp_siblings (pu_inner u)))) skip sub_root pending;
     update_loop H us ((cur_node, end_layer) # pending') }"

declare update_loop.simps(2) [simp del]

text \<open>\<open>None\<close> is a panic, \<open>Inl\<close> an error, \<open>Inr\<close> the new root.\<close>
definition verify_update :: "node_hasher \<Rightarrow> node \<Rightarrow> path_update list \<Rightarrow> (verify_update_error + node) option" where
  "verify_update H prev_root paths =
     (if paths = [] then Some (Inr prev_root)
      else case check_paths prev_root None paths of
             Some e \<Rightarrow> Some (Inl e)
           | None \<Rightarrow> do {
               pending \<leftarrow> update_loop H paths [];
               case pending of [] \<Rightarrow> None | (n, _) # _ \<Rightarrow> Some (Inr n) })"


section \<open>Soundness and completeness of verification\<close>

text \<open>Hashing up a path, from the top: the recursion the proofs follow.\<close>
fun path_root :: "node_hasher \<Rightarrow> node \<Rightarrow> bits \<Rightarrow> node list \<Rightarrow> node" where
  "path_root H n (b # bs) (s # ss) = hash_internal H (internal_of b (path_root H n bs ss) s)"
| "path_root H n _ _ = n"

lemma hash_path_loop_snoc:
  "hash_path_loop H n (xs @ [(b, s)]) = hash_internal H (internal_of b (hash_path_loop H n xs) s)"
  by (induction xs arbitrary: n) auto

lemma hash_path_root:
  "length bs = length ss \<Longrightarrow> hash_path H n bs (rev ss) = path_root H n bs ss"
  by (induction bs ss rule: list_induct2) (auto simp: hash_path_def hash_path_loop_snoc)

text \<open>The preimages of the internal nodes computed on a path, and those in a trie.\<close>
fun path_preimages :: "node_hasher \<Rightarrow> node \<Rightarrow> bits \<Rightarrow> node list \<Rightarrow> internal_data list" where
  "path_preimages H n (b # bs) (s # ss) =
     internal_of b (path_root H n bs ss) s # path_preimages H n bs ss"
| "path_preimages H n _ _ = []"

fun trie_preimages :: "node_hasher \<Rightarrow> mtrie \<Rightarrow> internal_data list" where
  "trie_preimages H (MInt l r) =
     \<lparr>left = node_hash H l, right = node_hash H r\<rparr> # trie_preimages H l @ trie_preimages H r"
| "trie_preimages H _ = []"

fun trie_leaves :: "mtrie \<Rightarrow> leaf_data list" where
  "trie_leaves (MInt l r) = trie_leaves l @ trie_leaves r"
| "trie_leaves (MLeaf d) = [d]"
| "trie_leaves MTerm = []"

text \<open>No two different preimages, one of each list, have the same hash.\<close>
definition separates :: "('a \<Rightarrow> 'b) \<Rightarrow> 'a list \<Rightarrow> 'a list \<Rightarrow> bool" where
  "separates h xs ys \<longleftrightarrow> (\<forall>x\<in>set xs. \<forall>y\<in>set ys. h x = h y \<longrightarrow> x = y)"

text \<open>The hash is collision free between a trie and what verifying a proof hashes.\<close>
definition proof_binding :: "node_hasher \<Rightarrow> mtrie \<Rightarrow> path_proof \<Rightarrow> bits \<Rightarrow> bool" where
  "proof_binding H t proof key_path \<longleftrightarrow>
     separates (hash_internal H) (trie_preimages H t)
       (path_preimages H (terminal_node H (pp_terminal proof))
          (take (length (pp_siblings proof)) key_path) (pp_siblings proof)) \<and>
     separates (hash_leaf H) (trie_leaves t)
       (case as_leaf_option (pp_terminal proof) of None \<Rightarrow> [] | Some d \<Rightarrow> [d])"

lemma internal_of_inject:
  "internal_of b n s = \<lparr>left = l, right = r\<rparr> \<longleftrightarrow> n = (if b then r else l) \<and> s = (if b then l else r)"
  by (auto simp: internal_of_def)

lemma separates_append_left: "separates h (xs @ xs') ys \<longleftrightarrow> separates h xs ys \<and> separates h xs' ys"
  by (auto simp: separates_def)

lemma path_root_sound:
  assumes H: "node_hasher_laws H" and "length bs = length ss"
    and "path_root H n bs ss = node_hash H t"
    and "separates (hash_internal H) (trie_preimages H t) (path_preimages H n bs ss)"
  shows "\<exists>u. subtrie t bs = Some u \<and> node_hash H u = n \<and> ss = path_siblings H t bs"
  using assms(2-)
proof (induction bs ss arbitrary: t rule: list_induct2)
  case Nil
  then show ?case by (cases t) auto
next
  case (Cons b bs s ss)
  obtain l r where t: "t = MInt l r"
    using Cons.prems(1) node_hasher_laws.kind_simps[OF H] by (cases t) auto
  have "internal_of b (path_root H n bs ss) s = \<lparr>left = node_hash H l, right = node_hash H r\<rparr>"
    using Cons.prems t by (auto simp: separates_def)
  hence eq: "path_root H n bs ss = node_hash H (if b then r else l)" "s = node_hash H (if b then l else r)"
    by (auto simp: internal_of_inject)
  have "separates (hash_internal H) (trie_preimages H (if b then r else l)) (path_preimages H n bs ss)"
    using Cons.prems(2) t by (auto simp: separates_def)
  from Cons.IH[OF eq(1) this] show ?case using t eq(2) by auto
qed

lemma path_root_complete:
  assumes "subtrie t p = Some u"
  shows "path_root H (node_hash H u) p (path_siblings H t p) = node_hash H t"
  using assms
  by (induction t p arbitrary: u rule: subtrie.induct) (auto simp: internal_of_def)

text \<open>What a verified path says about the trie it was verified against.\<close>
definition vp_in_trie :: "node_hasher \<Rightarrow> mtrie \<Rightarrow> verified_path_proof \<Rightarrow> bool" where
  "vp_in_trie H t vp \<longleftrightarrow>
     subtrie t (vp_key_path vp) = Some (case vp_terminal vp of None \<Rightarrow> MTerm | Some d \<Rightarrow> MLeaf d) \<and>
     vp_siblings vp = path_siblings H t (vp_key_path vp) \<and> vp_root vp = node_hash H t \<and>
     length (vp_key_path vp) \<le> 256"

lemma subtrie_leaf_mem: "subtrie t p = Some (MLeaf d) \<Longrightarrow> d \<in> set (trie_leaves t)"
  by (induction t p rule: subtrie.induct) (auto split: if_splits)

lemma verify_in_trie:
  assumes H: "node_hasher_laws H"
    and v: "path_proof_verify H proof k (node_hash H t) = Inr vp"
    and b: "proof_binding H t proof k"
  shows "vp_in_trie H t vp \<and> take (length (vp_key_path vp)) k = vp_key_path vp"
proof -
  let ?ss = "pp_siblings proof" and ?n = "terminal_node H (pp_terminal proof)"
  let ?p = "take (length ?ss) k"
  have len: "length ?ss \<le> length k" "length ?ss \<le> 256"
    using v by (auto simp: path_proof_verify_def split: if_splits)
  have root: "path_root H ?n ?p ?ss = node_hash H t"
    using v len by (auto simp: path_proof_verify_def Let_def hash_path_root split: if_splits)
  have vp: "vp = \<lparr>vp_key_path = ?p, vp_terminal = as_leaf_option (pp_terminal proof),
      vp_siblings = ?ss, vp_root = node_hash H t\<rparr>"
    using v by (auto simp: path_proof_verify_def Let_def split: if_splits)
  obtain u where u: "subtrie t ?p = Some u" "node_hash H u = ?n" "?ss = path_siblings H t ?p"
    using path_root_sound[OF H _ root] b len by (auto simp: proof_binding_def)
  have "u = (case as_leaf_option (pp_terminal proof) of None \<Rightarrow> MTerm | Some d \<Rightarrow> MLeaf d)"
  proof (cases "pp_terminal proof")
    case (PLeaf d)
    then obtain d' where d': "u = MLeaf d'" "hash_leaf H d' = hash_leaf H d"
      using u(2) node_hasher_laws.kind_simps[OF H] by (cases u) auto
    have "d' \<in> set (trie_leaves t)" using u(1) d'(1) by (simp add: subtrie_leaf_mem)
    thus ?thesis using b d' PLeaf by (auto simp: proof_binding_def separates_def)
  next
    case (PTerminator pos)
    then show ?thesis using u(2) node_hasher_laws.kind_simps[OF H] by (cases u) auto
  qed
  thus ?thesis using u(1) vp len by (simp add: vp_in_trie_def u(3)[symmetric])
qed

lemma vp_below:
  assumes "kvs_ok kvs" "vp_in_trie H (mk_trie 0 kvs) vp"
  shows "below (vp_key_path vp) kvs =
    (case vp_terminal vp of None \<Rightarrow> [] | Some d \<Rightarrow> [(leaf_key d, leaf_value d)])"
proof -
  let ?u = "case vp_terminal vp of None \<Rightarrow> MTerm | Some d \<Rightarrow> MLeaf d"
  have "subtrie (mk_trie 0 kvs) (vp_key_path vp) = Some ?u"
    using assms(2) by (simp add: vp_in_trie_def)
  from subtrie_root[OF assms(1) this]
  have "mk_trie (length (vp_key_path vp)) (below (vp_key_path vp) kvs) = ?u" by simp
  thus ?thesis using mk_trie_shape[OF assms(1)] by (cases "vp_terminal vp") simp_all
qed

lemma in_scope_eq:
  "length (vp_key_path vp) \<le> 256 \<Longrightarrow> length k = 32 \<Longrightarrow>
   in_scope vp k = Some (if key_under (vp_key_path vp) k then Inr () else Inl KeyOutOfScope)"
  by (auto simp: in_scope_def slice_simps key_under_def)

text \<open>Confirmations about a path of the trie are right about the key-value map.\<close>
lemma confirm_value_eq:
  assumes ok: "kvs_ok kvs" and vp: "vp_in_trie H (mk_trie 0 kvs) vp" and k: "length (leaf_key l) = 32"
  shows "confirm_value vp l = Some (if key_under (vp_key_path vp) (leaf_key l)
    then Inr (map_of kvs (leaf_key l) = Some (leaf_value l)) else Inl KeyOutOfScope)"
proof -
  have "length (vp_key_path vp) \<le> 256" using vp by (simp add: vp_in_trie_def)
  moreover have "key_under (vp_key_path vp) (leaf_key l) \<Longrightarrow>
      map_of kvs (leaf_key l) = Some (leaf_value l) \<longleftrightarrow> vp_terminal vp = Some l"
    using vp_below[OF ok vp] map_of_below[of "vp_key_path vp" kvs "leaf_key l"]
    by (cases "vp_terminal vp") (auto split: if_splits)
  ultimately show ?thesis using k by (auto simp: confirm_value_def in_scope_eq)
qed

lemma confirm_nonexistence_eq:
  assumes ok: "kvs_ok kvs" and vp: "vp_in_trie H (mk_trie 0 kvs) vp" and k: "length k = 32"
  shows "confirm_nonexistence vp k = Some (if key_under (vp_key_path vp) k
    then Inr (map_of kvs k = None) else Inl KeyOutOfScope)"
proof -
  have "length (vp_key_path vp) \<le> 256" using vp by (simp add: vp_in_trie_def)
  moreover have "key_under (vp_key_path vp) k \<Longrightarrow>
      map_of kvs k = None \<longleftrightarrow> (case vp_terminal vp of None \<Rightarrow> True | Some d \<Rightarrow> leaf_key d \<noteq> k)"
    using vp_below[OF ok vp] map_of_below[of "vp_key_path vp" kvs k, symmetric]
    by (cases "vp_terminal vp") (simp_all split: if_splits)
  ultimately show ?thesis using k by (auto simp: confirm_nonexistence_def in_scope_eq)
qed

text \<open>The honest prover: the terminal node on the way to a key, and the siblings.\<close>
definition prove_key :: "node_hasher \<Rightarrow> mtrie \<Rightarrow> key_path \<Rightarrow> trie_position \<Rightarrow> path_proof" where
  "prove_key H t k pos =
     (let p = lookup_path t (view_bits k) in
      \<lparr>pp_terminal = (case subtrie t p of Some (MLeaf d) \<Rightarrow> PLeaf d | _ \<Rightarrow> PTerminator pos),
       pp_siblings = path_siblings H t p\<rparr>)"

lemma lookup_path_prefix: "take (length (lookup_path t bs)) bs = lookup_path t bs"
  by (induction t bs rule: lookup_path.induct) auto

lemma lookup_path_subtrie: "\<exists>u. subtrie t (lookup_path t bs) = Some u \<and> (is_terminal u \<or> lookup_path t bs = bs)"
  by (induction t bs rule: lookup_path.induct) (auto split: if_splits)

lemma lookup_path_terminal:
  assumes "kvs_ok kvs" "length k = 32"
  obtains u where "subtrie (mk_trie 0 kvs) (lookup_path (mk_trie 0 kvs) (view_bits k)) = Some u"
    "is_terminal u"
proof -
  let ?p = "lookup_path (mk_trie 0 kvs) (view_bits k)"
  obtain u where u: "subtrie (mk_trie 0 kvs) ?p = Some u" "is_terminal u \<or> ?p = view_bits k"
    using lookup_path_subtrie by blast
  have "is_terminal u" if "?p = view_bits k"
  proof -
    have len: "length ?p = 256" using that assms(2) by simp
    have "u = mk_trie (length ?p) (below ?p kvs)" using subtrie_root[OF assms(1) u(1)] .
    moreover have "\<not> 2 \<le> length (below ?p kvs)" using below_prefix_len[OF assms(1), of ?p] len by auto
    ultimately show ?thesis by (cases "below ?p kvs" rule: list_cases2) auto
  qed
  thus ?thesis using u that by blast
qed

lemma prove_key_verifies:
  assumes ok: "kvs_ok kvs" and k: "length k = 32"
  obtains vp where
    "path_proof_verify H (prove_key H (mk_trie 0 kvs) k pos) (view_bits k) (trie_root H kvs) = Inr vp"
    "vp_in_trie H (mk_trie 0 kvs) vp" "key_under (vp_key_path vp) k"
proof -
  let ?t = "mk_trie 0 kvs" and ?p = "lookup_path (mk_trie 0 kvs) (view_bits k)"
  let ?proof = "prove_key H ?t k pos"
  obtain u where u: "subtrie ?t ?p = Some u" "is_terminal u"
    by (rule lookup_path_terminal[OF ok k])
  have sl: "length (path_siblings H ?t ?p) = length ?p" by (rule path_siblings_length[OF u(1)])
  have tk: "take (length ?p) (view_bits k) = ?p" by (rule lookup_path_prefix)
  hence "length (take (length ?p) (view_bits k)) = length ?p" by simp
  hence pl: "length ?p \<le> 256" using k by simp
  have node: "terminal_node H (pp_terminal ?proof) = node_hash H u"
    using u by (cases u) (auto simp: prove_key_def Let_def)
  have leaf: "(case as_leaf_option (pp_terminal ?proof) of None \<Rightarrow> MTerm | Some d \<Rightarrow> MLeaf d) = u"
    using u by (cases u) (auto simp: prove_key_def Let_def)
  have sib: "pp_siblings ?proof = path_siblings H ?t ?p" by (simp add: prove_key_def Let_def)
  have "hash_path H (node_hash H u) ?p (rev (path_siblings H ?t ?p)) = trie_root H kvs"
    using path_root_complete[OF u(1)] sl by (simp add: hash_path_root trie_root_def)
  hence "path_proof_verify H ?proof (view_bits k) (trie_root H kvs) =
      Inr \<lparr>vp_key_path = ?p, vp_terminal = as_leaf_option (pp_terminal ?proof),
           vp_siblings = path_siblings H ?t ?p, vp_root = trie_root H kvs\<rparr>"
    using pl k by (simp add: path_proof_verify_def sib sl tk node Let_def)
  thus ?thesis using that u leaf pl tk
    by (simp add: vp_in_trie_def trie_root_def key_under_def)
qed



section \<open>Correctness of updates\<close>

abbreviation upath :: "path_update \<Rightarrow> bits" where
  "upath u \<equiv> vp_key_path (pu_inner u)"

definition all_ops :: "path_update list \<Rightarrow> leaf_op list" where
  "all_ops us = concat (map pu_ops us)"

text \<open>Ordered updates at terminal positions of a trie, with operations in scope.\<close>
definition updates_ok :: "node_hasher \<Rightarrow> mtrie \<Rightarrow> path_update list \<Rightarrow> bool" where
  "updates_ok H t us \<longleftrightarrow>
     (\<forall>u\<in>set us. vp_in_trie H t (pu_inner u) \<and> ops_ok (pu_ops u) \<and>
        (\<forall>op\<in>set (pu_ops u). key_under (upath u) (fst op))) \<and>
     sorted_wrt (\<lambda>u v. upath u < upath v) us"

lemma check_ops_ok:
  assumes "check_ops path prev ops = None" "\<forall>op\<in>set ops. length (fst op) = 32"
  shows "ops_ok ops \<and> (\<forall>op\<in>set ops. key_under path (fst op)) \<and>
    (\<forall>p. prev = Some p \<longrightarrow> (\<forall>op\<in>set ops. p < fst op))"
  using assms
proof (induction path prev ops rule: check_ops.induct)
  case (2 path prev key v ops)
  hence "check_ops path (Some key) ops = None" "\<not> (case prev of None \<Rightarrow> False | Some p \<Rightarrow> key \<le> p)"
    "key_under path key"
    by (auto simp: key_under_def split: if_splits)
  moreover from this 2 have "ops_ok ops" "\<forall>op\<in>set ops. key_under path (fst op)" "\<forall>op\<in>set ops. key < fst op"
    by (auto split: if_splits)
  ultimately show ?case using 2(3) by (auto split: option.splits)
qed simp

lemma check_paths_ok:
  assumes "check_paths root prev us = None"
    and "\<forall>u\<in>set us. vp_in_trie H t (pu_inner u) \<and> (\<forall>op\<in>set (pu_ops u). length (fst op) = 32)"
  shows "updates_ok H t us \<and> (\<forall>p. prev = Some p \<longrightarrow> (\<forall>u\<in>set us. p < upath u))"
  using assms
proof (induction root prev us rule: check_paths.induct)
  case (2 root prev u us)
  from 2(2) have c: "check_ops (upath u) None (pu_ops u) = None"
    "check_paths root (Some (upath u)) us = None"
    "\<not> (case prev of None \<Rightarrow> False | Some p \<Rightarrow> upath u \<le> p)"
    "vp_root (pu_inner u) = root" "pu_ops u \<noteq> []"
    by (auto split: if_splits option.splits)
  have u: "ops_ok (pu_ops u) \<and> (\<forall>op\<in>set (pu_ops u). key_under (upath u) (fst op))"
    using check_ops_ok[OF c(1)] 2(3) by auto
  have "updates_ok H t us \<and> (\<forall>p. Some (upath u) = Some p \<longrightarrow> (\<forall>v\<in>set us. p < upath v))"
    by (rule 2(1)) (use c 2(3) in \<open>auto split: option.splits\<close>)
  with u c(3) 2(3) show ?case
    by (auto simp: updates_ok_def split: option.splits)
qed (simp add: updates_ok_def)

lemma map_of_concat_unique:
  assumes "u \<in> set us" "\<forall>v\<in>set us. v \<noteq> u \<longrightarrow> k \<notin> fst ` set (f v)"
  shows "map_of (concat (map f us)) k = map_of (f u) k"
proof -
  have "map_of (concat (map f us)) k = (if u \<in> set us then map_of (f u) k else None)"
    using assms(2)
  proof (induction us)
    case (Cons v us)
    have "v \<noteq> u \<Longrightarrow> map_of (f v) k = None" using Cons.prems by (simp add: map_of_eq_None_iff)
    with Cons show ?case by (cases "v = u") (auto simp: map_add_def split: option.splits)
  qed simp
  with assms(1) show ?thesis by simp
qed

lemma map_of_concat_none:
  "\<forall>v\<in>set us. k \<notin> fst ` set (f v) \<Longrightarrow> map_of (concat (map f us)) k = None"
  by (auto simp: map_of_eq_None_iff)

lemma vp_in_trie_terminal:
  assumes "vp_in_trie H t vp"
  obtains u where "subtrie t (vp_key_path vp) = Some u" "is_terminal u"
  using assms that unfolding vp_in_trie_def by (cases "vp_terminal vp") auto

lemma updates_scope:
  assumes us: "updates_ok H t us" and u: "u \<in> set us" "op \<in> set (pu_ops u)"
    and q: "subtrie t q = Some w" "key_under q (fst op)"
  shows "take (length q) (upath u) = q"
proof -
  have under: "key_under (upath u) (fst op)" and vp: "vp_in_trie H t (pu_inner u)"
    using us u by (auto simp: updates_ok_def)
  obtain x where x: "subtrie t (upath u) = Some x" "is_terminal x" by (rule vp_in_trie_terminal[OF vp])
  show ?thesis
  proof (cases "length q \<le> length (upath u)")
    case True
    then show ?thesis using under_comparable[OF q(2) under] by simp
  next
    case False
    hence "take (length (upath u)) q = upath u" using under_comparable[OF under q(2)] by simp
    from terminal_paths_incomparable[OF x q(1) this] show ?thesis by simp
  qed
qed

text \<open>A sub-trie without an update keeps its pairs.\<close>
lemma below_unchanged:
  assumes us: "updates_ok H (mk_trie 0 kvs) us" and ok: "kvs_ok kvs" "kvs_ok kvs'"
    and new: "map_of kvs' = apply_ops (map_of kvs) (all_ops us)"
    and q: "subtrie (mk_trie 0 kvs) q = Some w" "\<forall>u\<in>set us. take (length q) (upath u) \<noteq> q"
  shows "below q kvs' = below q kvs"
proof (rule kvs_ok_unique[OF below_ok[OF ok(2)] below_ok[OF ok(1)]])
  have "map_of (all_ops us) k = None" if "key_under q k" for k
    unfolding all_ops_def using updates_scope[OF us _ _ q(1)] q(2) that
    by (intro map_of_concat_none) force
  thus "map_of (below q kvs') = map_of (below q kvs)"
    by (auto simp: map_of_below new apply_ops_def)
qed

text \<open>At an updated terminal position the new pairs are the spliced operations.\<close>
lemma below_updated:
  assumes us: "updates_ok H (mk_trie 0 kvs) us" and ok: "kvs_ok kvs" "kvs_ok kvs'"
    and new: "map_of kvs' = apply_ops (map_of kvs) (all_ops us)" and u: "u \<in> set us"
  shows "leaf_ops_spliced (vp_terminal (pu_inner u)) (pu_ops u) = below (upath u) kvs'"
proof (rule kvs_ok_unique[OF _ below_ok[OF ok(2)]])
  let ?leaf = "vp_terminal (pu_inner u)"
  have vp: "vp_in_trie H (mk_trie 0 kvs) (pu_inner u)" and ops: "ops_ok (pu_ops u)"
    using us u by (auto simp: updates_ok_def)
  note bel = vp_below[OF ok(1) vp]
  have len: "\<forall>l. ?leaf = Some l \<longrightarrow> length (leaf_key l) = 32"
    using bel below_ok[OF ok(1), of "upath u"] by auto
  show "kvs_ok (leaf_ops_spliced ?leaf (pu_ops u))" by (rule leaf_ops_spliced_ok[OF ops len])
  have lm: "leaf_map ?leaf = map_of (below (upath u) kvs)"
    unfolding bel by (auto simp: leaf_map_def split: option.splits)
  obtain x where x: "subtrie (mk_trie 0 kvs) (upath u) = Some x" "is_terminal x"
    by (rule vp_in_trie_terminal[OF vp])
  have other: "v = u" if v: "v \<in> set us" "op \<in> set (pu_ops v)" "key_under (upath u) (fst op)" for v op
  proof -
    have "take (length (upath u)) (upath v) = upath u" by (rule updates_scope[OF us v(1,2) x(1) v(3)])
    moreover obtain y where "subtrie (mk_trie 0 kvs) (upath v) = Some y"
      using us v(1) by (auto simp: updates_ok_def vp_in_trie_def)
    ultimately have "upath v = upath u" by (rule terminal_paths_incomparable[OF x, rotated])
    thus ?thesis using us v(1) u unfolding updates_ok_def
      by (metis in_set_conv_nth less_irrefl linorder_neqE_nat sorted_wrt_nth_less)
  qed
  have "map_of (all_ops us) k = map_of (pu_ops u) k" if "key_under (upath u) k" for k
    unfolding all_ops_def using other that by (intro map_of_concat_unique[OF u]) force
  moreover have "map_of (pu_ops u) k = None" if "\<not> key_under (upath u) k" for k
    using that us u by (auto simp: updates_ok_def map_of_eq_None_iff)
  ultimately show "map_of (leaf_ops_spliced ?leaf (pu_ops u)) = map_of (below (upath u) kvs')"
    by (auto simp: leaf_ops_spliced_map[OF ops len] lm map_of_below new apply_ops_def fun_eq_iff
             split: option.splits)
qed

lemma zip_take_left: "zip (take k xs) ys = take k (zip xs ys)"
proof (induction xs arbitrary: k ys)
  case (Cons x xs)
  then show ?case by (cases k; cases ys) auto
qed simp

text \<open>The bits and siblings of a path, the deepest first.\<close>
definition climb_pairs :: "node_hasher \<Rightarrow> mtrie \<Rightarrow> bits \<Rightarrow> (bool \<times> node) list" where
  "climb_pairs H t p = zip (rev p) (rev (path_siblings H t p))"

lemma climb_pairs_snoc:
  assumes "subtrie t p = Some (MInt l r)"
  shows "climb_pairs H t (p @ [b]) = (b, node_hash H (if b then l else r)) # climb_pairs H t p"
  using path_siblings_append[OF assms, of H "[b]"] path_siblings_length[OF assms, of H]
  by (simp add: climb_pairs_def)

text \<open>The next update after a segment below depth \<open>d\<close>, and where its path leaves.\<close>
definition next_update :: "path_update list \<Rightarrow> nat option \<Rightarrow> nat \<Rightarrow> path_update list \<Rightarrow> bool" where
  "next_update rest n d seg \<longleftrightarrow>
     (case (rest, n) of
        ([], None) \<Rightarrow> True
      | (v # _, Some k) \<Rightarrow> k < d \<and> (\<forall>u\<in>set seg. shared_bits (upath v) (upath u) = k)
      | _ \<Rightarrow> False)"

lemma next_update_layer: "next_update rest n d seg \<Longrightarrow> target_layer n \<le> d"
  by (auto simp: next_update_def split: list.splits option.splits)

lemma next_update_mono:
  "next_update rest n d seg \<Longrightarrow> set seg' \<subseteq> set seg \<Longrightarrow> d \<le> d' \<Longrightarrow> next_update rest n d' seg'"
  by (force simp: next_update_def split: list.splits option.splits)

definition segment_updated :: "node_hasher \<Rightarrow> mtrie \<Rightarrow> kv list \<Rightarrow> path_update list
    \<Rightarrow> path_update list \<Rightarrow> nat option \<Rightarrow> bits \<Rightarrow> (node \<times> nat) list \<Rightarrow> bool" where
  "segment_updated H t kvs' seg rest n p P \<longleftrightarrow>
     update_loop H (seg @ rest) P =
       (case update_climb H (take (length p - target_layer n) (climb_pairs H t p)) (length p)
               (node_hash H (mk_trie (length p) (below p kvs'))) P of
          (m, P') \<Rightarrow> update_loop H rest ((m, target_layer n) # P'))"

lemma segment_updated_single:
  assumes vp: "vp_in_trie H t (pu_inner u)" and p: "upath u = p"
    and spl: "leaf_ops_spliced (vp_terminal (pu_inner u)) (pu_ops u) = below p kvs'"
    and ok: "kvs_ok kvs'" and nx: "next_update rest n (length p) [u]"
  shows "segment_updated H t kvs' [u] rest n p P"
proof -
  obtain vs where b: "build_trie H (length p) (below p kvs') =
      Some (node_hash H (mk_trie (length p) (below p kvs')), vs)"
    by (rule build_trie_root[OF below_ok[OF ok] below_share])
  have up: "(case rest of [] \<Rightarrow> Some (length p)
      | v # _ \<Rightarrow> sub_checked (length p) (shared_bits (upath v) p + 1)) = Some (length p - target_layer n)"
    using nx p by (auto simp: next_update_def sub_checked_def split: list.splits option.splits)
  have "length p - (length p - target_layer n) = target_layer n"
    using next_update_layer[OF nx] by simp
  moreover have "zip (take k (rev p)) (rev (vp_siblings (pu_inner u))) = take k (climb_pairs H t p)" for k
    using vp p by (simp add: climb_pairs_def vp_in_trie_def zip_take_left)
  ultimately show ?thesis
    by (simp add: segment_updated_def update_loop.simps p up spl b Let_def split: prod.splits)
qed

lemma update_climb_pop:
  assumes "subtrie t p = Some (MInt l r)" "k \<le> length p"
  shows "update_climb H (take (Suc (length p) - k) (climb_pairs H t (p @ [b]))) (Suc (length p)) n
      ((s, Suc (length p)) # P)
    = update_climb H (take (length p - k) (climb_pairs H t p)) (length p) (compact_up H b n s) P"
  using assms by (simp add: climb_pairs_snoc Suc_diff_le)

lemma update_climb_sibling:
  assumes "subtrie t p = Some (MInt l r)" "k \<le> length p" "P = [] \<or> snd (hd P) \<le> length p"
  shows "update_climb H (take (Suc (length p) - k) (climb_pairs H t (p @ [b]))) (Suc (length p)) n P
    = update_climb H (take (length p - k) (climb_pairs H t p)) (length p)
        (compact_up H b n (node_hash H (if b then l else r))) P"
proof -
  have "pop_sibling (Suc (length p)) P = None" using assms(3) by (cases P) auto
  thus ?thesis using assms(1,2) by (simp add: climb_pairs_snoc Suc_diff_le)
qed

text \<open>Paths through a common internal node, in ascending order: left ones first.\<close>
lemma path_bit_mono:
  fixes x y :: bits
  assumes "take n x = take n y" "n < length x" "n < length y" "x < y" "x ! n"
  shows "y ! n"
proof (rule ccontr)
  assume no: "\<not> y ! n"
  have "x = take n x @ x ! n # drop (Suc n) x" "y = take n x @ y ! n # drop (Suc n) y"
    using assms(1-3) by (metis id_take_nth_drop)+
  hence "take n x @ x ! n # drop (Suc n) x < take n x @ y ! n # drop (Suc n) y" using assms(4) by metis
  thus False using assms(5) no by simp
qed

lemma segment_split:
  assumes "sorted_wrt (\<lambda>u v. upath u < upath v) seg"
    and "\<forall>u\<in>set seg. take n (upath u) = p \<and> n < length (upath u)"
  shows "seg = filter (\<lambda>u. \<not> upath u ! n) seg @ filter (\<lambda>u. upath u ! n) seg"
  using assms
proof (induction seg)
  case (Cons x seg)
  show ?case
  proof (cases "upath x ! n")
    case True
    have "upath y ! n" if "y \<in> set seg" for y
      by (rule path_bit_mono[of n "upath x"]) (use Cons.prems True that in auto)
    then show ?thesis using True by (simp add: filter_id_conv)
  qed (use Cons in auto)
qed simp

lemma shared_bits_split:
  assumes "take n x = take n y" "n < length x" "n < length y" "x ! n \<noteq> y ! n"
  shows "shared_bits x y = n"
  using assms by (simp add: shared_bits_lcp lcp_len_eqI)

lemma update_segment_terminal:
  assumes ok: "kvs_ok kvs" "kvs_ok kvs'"
    and us: "updates_ok H (mk_trie 0 kvs) us"
    and new: "map_of kvs' = apply_ops (map_of kvs) (all_ops us)"
    and seg: "seg \<noteq> []" "set seg = {u \<in> set us. take (length p) (upath u) = p}"
      "sorted_wrt (\<lambda>u v. upath u < upath v) seg"
    and sub: "subtrie (mk_trie 0 kvs) p = Some w" "is_terminal w"
    and nx: "next_update rest n (length p) seg"
  shows "segment_updated H (mk_trie 0 kvs) kvs' seg rest n p P"
proof -
  have path: "upath u = p" if u: "u \<in> set seg" for u
  proof -
    have tk: "take (length p) (upath u) = p" and "u \<in> set us" using u seg(2) by auto
    then obtain x where "subtrie (mk_trie 0 kvs) (upath u) = Some x"
      using us by (meson updates_ok_def vp_in_trie_terminal)
    from terminal_paths_incomparable[OF sub this tk] show ?thesis .
  qed
  obtain u r where ur: "seg = u # r" using seg(1) by (cases seg) auto
  have "r = []"
  proof (cases r)
    case (Cons v r')
    hence "upath u < upath v" using seg(3) ur by simp
    moreover have "upath u = p" "upath v = p" using path[of u] path[of v] ur Cons by simp_all
    ultimately show ?thesis by simp
  qed simp
  hence seg1: "seg = [u]" and u: "u \<in> set us" "upath u = p" using ur path[of u] seg(2) by auto
  have vp: "vp_in_trie H (mk_trie 0 kvs) (pu_inner u)" using us u(1) by (simp add: updates_ok_def)
  show ?thesis unfolding seg1
    using segment_updated_single[OF vp u(2) _ ok(2)] below_updated[OF us ok new u(1)] u(2) nx seg1
    by simp
qed

lemma update_segment:
  assumes H: "node_hasher_laws H" and ok: "kvs_ok kvs" "kvs_ok kvs'"
    and us: "updates_ok H (mk_trie 0 kvs) us"
    and new: "map_of kvs' = apply_ops (map_of kvs) (all_ops us)"
    and seg: "seg \<noteq> []" "set seg = {u \<in> set us. take (length p) (upath u) = p}"
      "sorted_wrt (\<lambda>u v. upath u < upath v) seg"
    and sub: "subtrie (mk_trie 0 kvs) p = Some w" and nx: "next_update rest n (length p) seg"
    and P: "P = [] \<or> snd (hd P) \<le> length p"
  shows "segment_updated H (mk_trie 0 kvs) kvs' seg rest n p P"
  using seg sub nx P
proof (induction w arbitrary: seg p rest n P)
  case (MInt l r)
  let ?t = "mk_trie 0 kvs" and ?d = "length p"
  let ?L = "filter (\<lambda>u. \<not> upath u ! ?d) seg" and ?R = "filter (\<lambda>u. upath u ! ?d) seg"
  note sub = \<open>subtrie ?t p = Some (MInt l r)\<close>
  have "MInt l r = mk_trie ?d (below p kvs)" by (rule subtrie_root[OF ok(1) sub])
  hence "2 \<le> length (below p kvs)" by (cases "below p kvs" rule: list_cases2) auto
  hence d: "?d < 256" by (rule below_prefix_len[OF ok(1)])
  have subb: "subtrie ?t (p @ [b]) = Some (if b then r else l)" for b
    using sub by (simp add: subtrie_append)
  have long: "take ?d (upath u) = p \<and> ?d < length (upath u)" if u: "u \<in> set seg" for u
  proof -
    have tk: "take ?d (upath u) = p" and "u \<in> set us" using u MInt.prems(2) by auto
    then obtain x where "subtrie ?t (upath u) = Some x" "is_terminal x"
      using us by (meson updates_ok_def vp_in_trie_terminal)
    hence "upath u \<noteq> p" using sub by auto
    thus ?thesis using tk by (metis length_take min.absorb2 not_less take_all_iff)
  qed
  have split: "seg = ?L @ ?R" by (rule segment_split[OF MInt.prems(3)]) (use long in auto)
  have ext: "take (Suc ?d) (upath u) = p @ [b] \<longleftrightarrow> take ?d (upath u) = p \<and> upath u ! ?d = b"
    if "u \<in> set seg" for u b
    using long[OF that] by (auto simp: take_Suc_conv_app_nth)
  have pre: "take ?d (upath u) = p" if "take (Suc ?d) (upath u) = p @ [b]" for u b
    using arg_cong[OF that, of "take ?d"] by simp
  have mem: "u \<in> set us \<and> take (Suc ?d) (upath u) = p @ [b] \<longleftrightarrow> u \<in> set seg \<and> upath u ! ?d = b" for u b
    using ext[of u b] pre[of u b] MInt.prems(2) by blast
  have setL: "set ?L = {u \<in> set us. take (length (p @ [False])) (upath u) = p @ [False]}"
    and setR: "set ?R = {u \<in> set us. take (length (p @ [True])) (upath u) = p @ [True]}"
    by (simp_all add: mem)
  have srt: "sorted_wrt (\<lambda>u v. upath u < upath v) ?L" "sorted_wrt (\<lambda>u v. upath u < upath v) ?R"
    using MInt.prems(3) by (auto intro: sorted_wrt_filter)
  have IHL: "segment_updated H ?t kvs' ?L rest' n' (p @ [False]) P'"
    if "?L \<noteq> []" "next_update rest' n' (Suc ?d) ?L" "P' = [] \<or> snd (hd P') \<le> Suc ?d" for rest' n' P'
    using MInt.IH(1)[OF that(1) setL srt(1)] subb[of False] that(2,3) by simp
  have IHR: "segment_updated H ?t kvs' ?R rest' n' (p @ [True]) P'"
    if "?R \<noteq> []" "next_update rest' n' (Suc ?d) ?R" "P' = [] \<or> snd (hd P') \<le> Suc ?d" for rest' n' P'
    using MInt.IH(2)[OF that(1) setR srt(2)] subb[of True] that(2,3) by simp
  note step = compact_step[OF H ok(2) d]
  have PS: "P = [] \<or> snd (hd P) \<le> Suc ?d" using MInt.prems(6) by auto
  have nxd: "next_update rest n (Suc ?d) seg'" if "set seg' \<subseteq> set seg" for seg'
    using next_update_mono[OF MInt.prems(5) that] by simp
  note layer = next_update_layer[OF MInt.prems(5)]
  have unch: "node_hash H (if b then r else l) = node_hash H (mk_trie (Suc ?d) (below (p @ [b]) kvs'))"
    if "\<forall>u\<in>set us. take (Suc ?d) (upath u) \<noteq> p @ [b]" for b
    using below_unchanged[OF us ok new subb[of b]] subtrie_root[OF ok(1) subb[of b]] that by simp
  consider (left) "?R = []" | (right) "?L = []" | (both) "?L \<noteq> []" "?R \<noteq> []" by blast
  then show ?case
  proof cases
    case left
    hence L: "?L = seg" using split by simp
    have "\<forall>u\<in>set us. take (Suc ?d) (upath u) \<noteq> p @ [True]" using setR left by auto
    from unch[OF this] IHL[OF _ _ PS, of rest n] show ?thesis
      using L MInt.prems(1,6) nxd[of seg] step[of False]
      by (simp add: segment_updated_def update_climb_sibling[OF sub layer MInt.prems(6)])
  next
    case right
    hence R: "?R = seg" using split by simp
    have "\<forall>u\<in>set us. take (Suc ?d) (upath u) \<noteq> p @ [False]" using setL right by auto
    from unch[OF this] IHR[OF _ _ PS, of rest n] show ?thesis
      using R MInt.prems(1,6) nxd[of seg] step[of True]
      by (simp add: segment_updated_def update_climb_sibling[OF sub layer MInt.prems(6)])
  next
    case both
    have hdR: "hd ?R \<in> set ?R" by (rule hd_in_set[OF both(2)])
    have "next_update (?R @ rest) (Some ?d) (Suc ?d) ?L"
    proof -
      have "shared_bits (upath (hd ?R)) (upath u) = ?d" if "u \<in> set ?L" for u
        using that hdR long by (intro shared_bits_split) auto
      thus ?thesis using both(2) by (cases ?R) (auto simp: next_update_def)
    qed
    from IHL[OF both(1) this] MInt.prems(6)
    have l: "update_loop H (?L @ ?R @ rest) P = update_loop H (?R @ rest)
        ((node_hash H (mk_trie (Suc ?d) (below (p @ [False]) kvs')), Suc ?d) # P)"
      by (auto simp: segment_updated_def)
    have "update_loop H (?L @ ?R @ rest) P =
       (case update_climb H (take (?d - target_layer n) (climb_pairs H ?t p)) ?d
               (node_hash H (mk_trie ?d (below p kvs'))) P of
          (m, P') \<Rightarrow> update_loop H rest ((m, target_layer n) # P'))"
      using IHR[OF both(2) nxd, of "(node_hash H (mk_trie (Suc ?d) (below (p @ [False]) kvs')), Suc ?d) # P"]
        step[of True]
      by (simp add: l segment_updated_def update_climb_pop[OF sub layer])
    thus ?thesis unfolding segment_updated_def by (subst split) simp
  qed
qed (use update_segment_terminal[OF ok us new] in auto)

lemma updates_root:
  assumes H: "node_hasher_laws H" and ok: "kvs_ok kvs" "kvs_ok kvs'"
    and us: "updates_ok H (mk_trie 0 kvs) us" "us \<noteq> []"
    and new: "map_of kvs' = apply_ops (map_of kvs) (all_ops us)"
  shows "update_loop H us [] = Some [(trie_root H kvs', 0)]"
proof -
  have "segment_updated H (mk_trie 0 kvs) kvs' us [] None [] []"
    by (rule update_segment[OF H ok us(1) new us(2)])
       (use us(1) in \<open>auto simp: updates_ok_def next_update_def\<close>)
  thus ?thesis by (simp add: segment_updated_def trie_root_def)
qed


section \<open>Properties\<close>

text \<open>C4: for every key, the terminal node and the siblings on the way to it form a proof
  that verifies against the root, and the verified path confirms exactly the value, or the
  absence, of that key.\<close>
theorem path_proof_complete:
  assumes "kvs_ok kvs" "length k = 32"
  shows "\<exists>vp. path_proof_verify H (prove_key H (mk_trie 0 kvs) k pos) (view_bits k) (trie_root H kvs) = Inr vp \<and>
    confirm_value vp \<lparr>leaf_key = k, leaf_value = v\<rparr> = Some (Inr (map_of kvs k = Some v)) \<and>
    confirm_nonexistence vp k = Some (Inr (map_of kvs k = None))"
proof -
  obtain vp where vp:
    "path_proof_verify H (prove_key H (mk_trie 0 kvs) k pos) (view_bits k) (trie_root H kvs) = Inr vp"
    "vp_in_trie H (mk_trie 0 kvs) vp" "key_under (vp_key_path vp) k"
    by (rule prove_key_verifies[OF assms])
  thus ?thesis
    using confirm_value_eq[OF assms(1) vp(2), of "\<lparr>leaf_key = k, leaf_value = v\<rparr>"]
      confirm_nonexistence_eq[OF assms(1) vp(2)] assms(2) by (intro exI[of _ vp]) simp
qed

theorem path_proof_complete_witness:
  "\<exists>vp. path_proof_verify sample_hasher (prove_key sample_hasher (mk_trie 0 sample_kvs) (sample_key 32) tp_new)
      (view_bits (sample_key 32)) (trie_root sample_hasher sample_kvs) = Inr vp \<and>
    confirm_value vp \<lparr>leaf_key = sample_key 32, leaf_value = sample_value 2\<rparr> =
      Some (Inr (map_of sample_kvs (sample_key 32) = Some (sample_value 2))) \<and>
    confirm_nonexistence vp (sample_key 32) = Some (Inr (map_of sample_kvs (sample_key 32) = None))"
  by (rule path_proof_complete[OF sample_kvs_ok(1)]) (simp add: sample_key_def)

text \<open>C3: whatever proof verifies against the root of a trie, without a hash collision
  between the trie and the proof, its confirmations are right about the trie: a key in
  scope has the confirmed value exactly when it is there, and is confirmed absent exactly
  when it is absent.\<close>
theorem path_proof_sound:
  assumes "node_hasher_laws H" "kvs_ok kvs" "length k = 32"
    and "path_proof_verify H proof bs (trie_root H kvs) = Inr vp"
    and "proof_binding H (mk_trie 0 kvs) proof bs"
  shows "confirm_value vp \<lparr>leaf_key = k, leaf_value = v\<rparr> = Some (if key_under (vp_key_path vp) k
      then Inr (map_of kvs k = Some v) else Inl KeyOutOfScope) \<and>
    confirm_nonexistence vp k = Some (if key_under (vp_key_path vp) k
      then Inr (map_of kvs k = None) else Inl KeyOutOfScope)"
proof -
  have "vp_in_trie H (mk_trie 0 kvs) vp"
    using verify_in_trie[OF assms(1) _ assms(5)] assms(4) by (simp add: trie_root_def)
  from confirm_value_eq[OF assms(2) this] confirm_nonexistence_eq[OF assms(2) this]
  show ?thesis using assms(3) by simp
qed

definition sample_proof :: path_proof where
  "sample_proof = prove_key sample_hasher (mk_trie 0 sample_kvs) (sample_key 32) tp_new"

lemma sample_proof_binding:
  "proof_binding sample_hasher (mk_trie 0 sample_kvs) sample_proof (view_bits (sample_key 32))"
  by code_simp

lemma sample_proof_verifies:
  obtains vp where "path_proof_verify sample_hasher sample_proof (view_bits (sample_key 32))
      (trie_root sample_hasher sample_kvs) = Inr vp"
    "vp_in_trie sample_hasher (mk_trie 0 sample_kvs) vp" "key_under (vp_key_path vp) (sample_key 32)"
  unfolding sample_proof_def
  by (rule prove_key_verifies[OF sample_kvs_ok(1) sample_key_length])

theorem path_proof_sound_witness:
  "\<exists>vp. path_proof_verify sample_hasher sample_proof (view_bits (sample_key 32))
      (trie_root sample_hasher sample_kvs) = Inr vp \<and>
    confirm_value vp \<lparr>leaf_key = sample_key 32, leaf_value = sample_value 2\<rparr> =
      Some (Inr (map_of sample_kvs (sample_key 32) = Some (sample_value 2)))"
proof -
  obtain vp where vp: "path_proof_verify sample_hasher sample_proof (view_bits (sample_key 32))
      (trie_root sample_hasher sample_kvs) = Inr vp" "key_under (vp_key_path vp) (sample_key 32)"
    by (rule sample_proof_verifies)
  have "length (sample_key 32) = 32" by (simp add: sample_key_def)
  from path_proof_sound[OF sample_hasher_laws sample_kvs_ok(1) this vp(1) sample_proof_binding]
  show ?thesis using vp by auto
qed

text \<open>C1: when the paths were verified against the root of a trie and the checks pass,
  \<open>verify_update\<close> does not panic and returns the root of the trie of the updated key-value
  map.\<close>
theorem verify_update_correct:
  assumes "node_hasher_laws H" "kvs_ok kvs" "kvs_ok kvs'"
    and ver: "\<forall>u\<in>set us. \<exists>proof bs. path_proof_verify H proof bs (trie_root H kvs) = Inr (pu_inner u) \<and>
      proof_binding H (mk_trie 0 kvs) proof bs"
    and ops: "\<forall>u\<in>set us. \<forall>op\<in>set (pu_ops u). length (fst op) = 32"
    and chk: "check_paths (trie_root H kvs) None us = None"
    and new: "map_of kvs' = apply_ops (map_of kvs) (all_ops us)"
  shows "verify_update H (trie_root H kvs) us = Some (Inr (trie_root H kvs'))"
proof (cases "us = []")
  case True
  hence "map_of kvs' = map_of kvs" using new by (auto simp: apply_ops_def all_ops_def)
  hence "kvs' = kvs" by (rule kvs_ok_unique[OF assms(3,2)])
  thus ?thesis using True by (simp add: verify_update_def)
next
  case False
  have "\<forall>u\<in>set us. vp_in_trie H (mk_trie 0 kvs) (pu_inner u)"
    using ver verify_in_trie[OF assms(1)] unfolding trie_root_def by blast
  hence "updates_ok H (mk_trie 0 kvs) us" using check_paths_ok[OF chk] ops by blast
  from updates_root[OF assms(1-3) this False new] chk False show ?thesis
    by (simp add: verify_update_def)
qed


definition sample_vp :: verified_path_proof where
  "sample_vp = projr (path_proof_verify sample_hasher sample_proof (view_bits (sample_key 32))
     (trie_root sample_hasher sample_kvs))"

definition sample_updates :: "path_update list" where
  "sample_updates = [\<lparr>pu_inner = sample_vp,
     pu_ops = [(sample_key 32, None), (sample_key 40, Some (sample_value 9))]\<rparr>]"

definition sample_kvs' :: "kv list" where
  "sample_kvs' = [(sample_key 16, sample_value 1), (sample_key 40, sample_value 9),
                  (sample_key 160, sample_value 3), (sample_key 176, sample_value 4)]"

theorem verify_update_correct_witness:
  "verify_update sample_hasher (trie_root sample_hasher sample_kvs) sample_updates =
     Some (Inr (trie_root sample_hasher sample_kvs'))"
proof (rule verify_update_correct[OF sample_hasher_laws sample_kvs_ok(1)])
  show "kvs_ok sample_kvs'" by code_simp
  have "path_proof_verify sample_hasher sample_proof (view_bits (sample_key 32))
      (trie_root sample_hasher sample_kvs) = Inr sample_vp"
    unfolding sample_vp_def by (rule sample_proof_verifies) simp
  thus "\<forall>u\<in>set sample_updates. \<exists>proof bs. path_proof_verify sample_hasher proof bs
      (trie_root sample_hasher sample_kvs) = Inr (pu_inner u) \<and>
      proof_binding sample_hasher (mk_trie 0 sample_kvs) proof bs"
    using sample_proof_binding by (auto simp: sample_updates_def)
  show "\<forall>u\<in>set sample_updates. \<forall>op\<in>set (pu_ops u). length (fst op) = 32"
    by (simp add: sample_updates_def)
  show "check_paths (trie_root sample_hasher sample_kvs) None sample_updates = None" by code_simp
  show "map_of sample_kvs' = apply_ops (map_of sample_kvs) (all_ops sample_updates)"
    by (rule ext)
       (simp add: sample_kvs'_def sample_kvs_def all_ops_def sample_updates_def apply_ops_def sample_key_def)
qed

end
