(* ===== verification/MultiProofs.thy ===== *)
theory MultiProofs
  imports PathProofs
begin

text \<open>
  Proofs of many paths at once (\<open>core/src/proof/multi_proof.rs\<close>): compressing ordered
  path proofs into one list of siblings, verifying the compressed proof by recursive
  bisection, the confirmations of a verified multi-proof, and the update of the root.
  Two kinds of failure nest here, so results are options of sums: \<open>None\<close> is a panic.
  \<open>verify_range\<close> also records the internal preimages it hashes; only the soundness
  hypothesis reads that record.
\<close>

section \<open>Construction\<close>

record multi_path_proof =
  mpp_terminal :: path_proof_terminal
  mpp_depth :: nat

record multi_proof =
  mp_paths :: "multi_path_proof list"
  mp_siblings :: "node list"

record path_proof_range =
  ppr_lower :: nat
  ppr_upper :: nat
  ppr_bit :: nat

text \<open>\<open>Advance\<close> also carries the range with its bit index moved on.\<close>
datatype path_proof_range_step =
  RBisect path_proof_range path_proof_range
| RAdvance node path_proof_range

definition prove_unique_path_remainder ::
    "path_proof_range \<Rightarrow> path_proof list \<Rightarrow> (multi_path_proof \<times> node list) option option" where
  "prove_unique_path_remainder r proofs = do {
     u \<leftarrow> sub_checked (ppr_upper r) 1;
     if ppr_lower r \<noteq> u then Some None
     else do {
       pp \<leftarrow> get_at proofs (ppr_lower r);
       let unique_siblings = drop (ppr_bit r) (pp_siblings pp);
       Some (Some (\<lparr>mpp_terminal = pp_terminal pp, mpp_depth = ppr_bit r + length unique_siblings\<rparr>,
                   unique_siblings)) } }"

definition range_step :: "path_proof_range \<Rightarrow> path_proof list \<Rightarrow> path_proof_range_step option" where
  "range_step r proofs = do {
     lower \<leftarrow> get_at proofs (ppr_lower r);
     u \<leftarrow> sub_checked (ppr_upper r) 1;
     upper \<leftarrow> get_at proofs u;
     b_lower \<leftarrow> get_at (terminal_path (pp_terminal lower)) (ppr_bit r);
     b_upper \<leftarrow> get_at (terminal_path (pp_terminal upper)) (ppr_bit r);
     if b_lower \<noteq> b_upper then do {
       window \<leftarrow> slice_of proofs (ppr_lower r) (ppr_upper r);
       found \<leftarrow> binary_search_by_opt (\<lambda>pp.
           map_option (\<lambda>b. if \<not> b then Less else Greater)
             (get_at (terminal_path (pp_terminal pp)) (ppr_bit r))) window;
       off \<leftarrow> (case found of Inl i \<Rightarrow> Some i | Inr _ \<Rightarrow> None);
       let mid = ppr_lower r + off;
       Some (RBisect \<lparr>ppr_lower = ppr_lower r, ppr_upper = mid, ppr_bit = ppr_bit r + 1\<rparr>
                     \<lparr>ppr_lower = mid, ppr_upper = ppr_upper r, ppr_bit = ppr_bit r + 1\<rparr>) }
     else do {
       sibling \<leftarrow> get_at (pp_siblings lower) (ppr_bit r);
       Some (RAdvance sibling (r\<lparr>ppr_bit := ppr_bit r + 1\<rparr>)) } }"

text \<open>The loop over ranges; \<open>None\<close> is a panic or no end.\<close>
partial_function (option) from_path_proofs_loop :: "path_proof list \<Rightarrow> path_proof_range \<Rightarrow> node list
    \<Rightarrow> path_proof_range list \<Rightarrow> multi_path_proof list \<Rightarrow> node list \<Rightarrow> multi_proof option" where
  "from_path_proofs_loop proofs r common_siblings stack paths siblings =
     Option.bind (prove_unique_path_remainder r proofs) (\<lambda>unique.
       case unique of
         Some (sub_path_proof, unique_siblings) \<Rightarrow>
           Option.bind (assert_that (common_siblings = [])) (\<lambda>_.
             case stack of
               [] \<Rightarrow> Some \<lparr>mp_paths = paths @ [sub_path_proof], mp_siblings = siblings @ unique_siblings\<rparr>
             | r' # stack' \<Rightarrow> from_path_proofs_loop proofs r' [] stack'
                 (paths @ [sub_path_proof]) (siblings @ unique_siblings))
       | None \<Rightarrow>
           Option.bind (range_step r proofs) (\<lambda>step.
             case step of
               RBisect l rr \<Rightarrow> from_path_proofs_loop proofs l [] (rr # stack) paths (siblings @ common_siblings)
             | RAdvance s r' \<Rightarrow> from_path_proofs_loop proofs r' (common_siblings @ [s]) stack paths siblings))"

declare from_path_proofs_loop.simps [code]

definition from_path_proofs :: "path_proof list \<Rightarrow> multi_proof option" where
  "from_path_proofs proofs =
     (if proofs = [] then Some \<lparr>mp_paths = [], mp_siblings = []\<rparr>
      else from_path_proofs_loop proofs \<lparr>ppr_lower = 0, ppr_upper = length proofs, ppr_bit = 0\<rparr> [] [] [] [])"


section \<open>Verification\<close>

datatype multi_proof_verification_error = MRootMismatch | MPathsOutOfOrder | MTooManySiblings

record verified_multi_path =
  vmp_terminal :: path_proof_terminal
  vmp_depth :: nat
  vmp_unique :: "nat \<times> nat"

record verified_bisection =
  vb_start_depth :: nat
  vb_common :: "nat \<times> nat"

record verified_multi_proof =
  vm_inner :: "verified_multi_path list"
  vm_bisections :: "verified_bisection list"
  vm_siblings :: "node list"
  vm_root :: node

text \<open>The node of a range, the siblings it used, the verified paths and bisections it
  appends, and the preimages of the internal nodes it hashed.\<close>
record range_result =
  rr_node :: node
  rr_used :: nat
  rr_paths :: "verified_multi_path list"
  rr_bisections :: "verified_bisection list"
  rr_hashed :: "internal_data list"

definition max_path_len :: "multi_path_proof list \<Rightarrow> nat" where
  "max_path_len paths = foldr max (map (\<lambda>q. length (terminal_path (mpp_terminal q))) paths) 0"

lemma max_path_len_ge: "q \<in> set paths \<Longrightarrow> length (terminal_path (mpp_terminal q)) \<le> max_path_len paths"
  by (induction paths) (auto simp: max_path_len_def)

lemma max_path_len_mono: "set xs \<subseteq> set ys \<Longrightarrow> max_path_len xs \<le> max_path_len ys"
  by (induction xs) (auto simp: max_path_len_def intro: max_path_len_ge[unfolded max_path_len_def])

lemma verify_range_decreases:
  assumes "slice_of (terminal_path (mpp_terminal q)) s n = Some x" "q \<in> set ys" "set xs \<subseteq> set ys"
  shows "max_path_len xs + 1 - (s + k + 1) < max_path_len ys + 1 - s"
  using assms max_path_len_ge[of q ys] max_path_len_mono[of xs ys]
  by (auto simp: slice_of_def split: if_splits)

function verify_range :: "node_hasher \<Rightarrow> nat \<Rightarrow> multi_path_proof list \<Rightarrow> node list \<Rightarrow> nat
    \<Rightarrow> range_result option" where
  "verify_range H start_depth [] siblings offset =
     Some \<lparr>rr_node = TERMINATOR, rr_used = 0,
       rr_paths = [\<lparr>vmp_terminal = PTerminator tp_new, vmp_depth = 0, vmp_unique = (0, 0)\<rparr>],
       rr_bisections = [], rr_hashed = []\<rparr>"
| "verify_range H start_depth [q] siblings offset = do {
     unique_len \<leftarrow> sub_checked (mpp_depth q) start_depth;
     path \<leftarrow> slice_of (terminal_path (mpp_terminal q)) start_depth (start_depth + unique_len);
     unique \<leftarrow> slice_of siblings 0 unique_len;
     let n = terminal_node H (mpp_terminal q);
     Some \<lparr>rr_node = hash_path H n path (rev unique), rr_used = unique_len,
       rr_paths = [\<lparr>vmp_terminal = mpp_terminal q, vmp_depth = mpp_depth q,
                    vmp_unique = (offset, offset + unique_len)\<rparr>],
       rr_bisections = [], rr_hashed = path_preimages H n path unique\<rparr> }"
| "verify_range H start_depth (q1 # q2 # qs) siblings offset = do {
     let paths = q1 # q2 # qs;
     let start_path = terminal_path (mpp_terminal q1);
     let end_path = terminal_path (mpp_terminal (last paths));
     x \<leftarrow> slice_of start_path start_depth (length start_path);
     y \<leftarrow> slice_of end_path start_depth (length end_path);
     let common_bits = shared_bits x y;
     let common_len = start_depth + common_bits;
     let uncommon_start_len = common_len + 1;
     found \<leftarrow> binary_search_by_opt (\<lambda>q.
         map_option (\<lambda>b. if \<not> b then Less else Greater)
           (get_at (terminal_path (mpp_terminal q)) (uncommon_start_len - 1))) paths;
     bisect_idx \<leftarrow> (case found of Inl i \<Rightarrow> Some i | Inr _ \<Rightarrow> None);
     let bis = (if common_bits > 0
       then [\<lparr>vb_start_depth = start_depth, vb_common = (offset, offset + common_bits)\<rparr>] else []);
     left_siblings \<leftarrow> slice_of siblings common_bits (length siblings);
     l \<leftarrow> verify_range H uncommon_start_len (take bisect_idx paths) left_siblings (offset + common_bits);
     right_siblings \<leftarrow> slice_of siblings (common_bits + rr_used l) (length siblings);
     r \<leftarrow> verify_range H uncommon_start_len (drop bisect_idx paths) right_siblings
            (offset + common_bits + rr_used l);
     common_path \<leftarrow> slice_of start_path start_depth common_len;
     common \<leftarrow> slice_of siblings 0 common_bits;
     let data = \<lparr>left = rr_node l, right = rr_node r\<rparr>;
     let n = hash_internal H data;
     Some \<lparr>rr_node = hash_path H n common_path (rev common),
       rr_used = common_bits + rr_used l + rr_used r,
       rr_paths = rr_paths l @ rr_paths r,
       rr_bisections = bis @ rr_bisections l @ rr_bisections r,
       rr_hashed = path_preimages H n common_path common @ data # rr_hashed l @ rr_hashed r\<rparr> }"
  by pat_completeness auto

termination
proof (relation "measure (\<lambda>(_, start, paths, _, _). max_path_len paths + 1 - start)", goal_cases)
  case (2 H start q1 q2 qs siblings offset paths sp ep x y cb cl ul found idx bis ls)
  then have "slice_of (terminal_path (mpp_terminal q1)) start (length sp) = Some x" by simp
  from verify_range_decreases[OF this list.set_intros(1) set_take_subset, of idx "q2 # qs" cb] 2
  show ?case by simp
next
  case (3 H start q1 q2 qs siblings offset paths sp ep x y cb cl ul found idx bis ls l rs)
  then have "slice_of (terminal_path (mpp_terminal q1)) start (length sp) = Some x" by simp
  from verify_range_decreases[OF this list.set_intros(1) set_drop_subset, of idx "q2 # qs" cb] 3
  show ?case by simp
qed simp

declare verify_range.simps(3) [simp del]

fun paths_ordered :: "multi_path_proof list \<Rightarrow> bool" where
  "paths_ordered (q1 # q2 # qs) \<longleftrightarrow>
     \<not> terminal_path (mpp_terminal q2) \<le> terminal_path (mpp_terminal q1) \<and> paths_ordered (q2 # qs)"
| "paths_ordered _ = True"

definition multi_proof_verify :: "node_hasher \<Rightarrow> multi_proof \<Rightarrow> node
    \<Rightarrow> (multi_proof_verification_error + verified_multi_proof) option" where
  "multi_proof_verify H mp root =
     (if \<not> paths_ordered (mp_paths mp) then Some (Inl MPathsOutOfOrder)
      else do {
        rr \<leftarrow> verify_range H 0 (mp_paths mp) (mp_siblings mp) 0;
        Some (if root \<noteq> rr_node rr then Inl MRootMismatch
              else if rr_used rr \<noteq> length (mp_siblings mp) then Inl MTooManySiblings
              else Inr \<lparr>vm_inner = rr_paths rr, vm_bisections = rr_bisections rr,
                        vm_siblings = mp_siblings mp, vm_root = root\<rparr>) })"

definition find_index_for :: "verified_multi_proof \<Rightarrow> key_path \<Rightarrow> (key_out_of_scope + nat) option" where
  "find_index_for vm k =
     map_option (\<lambda>r. case r of Inl _ \<Rightarrow> Inl KeyOutOfScope | Inr i \<Rightarrow> Inr i)
       (binary_search_by_opt (\<lambda>v. do {
           x \<leftarrow> slice_of (terminal_path (vmp_terminal v)) 0 (vmp_depth v);
           y \<leftarrow> slice_of (view_bits k) 0 (vmp_depth v);
           Some (cmp_of x y) }) (vm_inner vm))"

definition confirm_nonexistence_inner :: "verified_multi_proof \<Rightarrow> key_path \<Rightarrow> nat \<Rightarrow> bool option" where
  "confirm_nonexistence_inner vm k i =
     map_option (\<lambda>v. case vmp_terminal v of PTerminator _ \<Rightarrow> True | PLeaf d \<Rightarrow> leaf_key d \<noteq> k)
       (get_at (vm_inner vm) i)"

definition confirm_value_inner :: "verified_multi_proof \<Rightarrow> leaf_data \<Rightarrow> nat \<Rightarrow> bool option" where
  "confirm_value_inner vm l i =
     map_option (\<lambda>v. case vmp_terminal v of PTerminator _ \<Rightarrow> False | PLeaf d \<Rightarrow> d = l)
       (get_at (vm_inner vm) i)"

definition multi_confirm_nonexistence :: "verified_multi_proof \<Rightarrow> key_path \<Rightarrow> (key_out_of_scope + bool) option" where
  "multi_confirm_nonexistence vm k = do {
     idx \<leftarrow> find_index_for vm k;
     case idx of Inl e \<Rightarrow> Some (Inl e) | Inr i \<Rightarrow> map_option Inr (confirm_nonexistence_inner vm k i) }"

definition multi_confirm_value :: "verified_multi_proof \<Rightarrow> leaf_data \<Rightarrow> (key_out_of_scope + bool) option" where
  "multi_confirm_value vm l = do {
     idx \<leftarrow> find_index_for vm (leaf_key l);
     case idx of Inl e \<Rightarrow> Some (Inl e) | Inr i \<Rightarrow> map_option Inr (confirm_value_inner vm l i) }"

text \<open>Scope test of the variants that are given the index of the path.\<close>
definition index_in_scope :: "verified_multi_proof \<Rightarrow> key_path \<Rightarrow> nat \<Rightarrow> bool option" where
  "index_in_scope vm k i = do {
     v \<leftarrow> get_at (vm_inner vm) i;
     x \<leftarrow> slice_of (terminal_path (vmp_terminal v)) 0 (vmp_depth v);
     y \<leftarrow> slice_of (view_bits k) 0 (vmp_depth v);
     Some (x = y) }"

definition confirm_nonexistence_with_index ::
    "verified_multi_proof \<Rightarrow> key_path \<Rightarrow> nat \<Rightarrow> (key_out_of_scope + bool) option" where
  "confirm_nonexistence_with_index vm k i = do {
     ok \<leftarrow> index_in_scope vm k i;
     if ok then map_option Inr (confirm_nonexistence_inner vm k i) else Some (Inl KeyOutOfScope) }"

definition confirm_value_with_index ::
    "verified_multi_proof \<Rightarrow> leaf_data \<Rightarrow> nat \<Rightarrow> (key_out_of_scope + bool) option" where
  "confirm_value_with_index vm l i = do {
     ok \<leftarrow> index_in_scope vm (leaf_key l) i;
     if ok then map_option Inr (confirm_value_inner vm l i) else Some (Inl KeyOutOfScope) }"


section \<open>Updates\<close>

datatype multi_verify_update_error = MOpsOutOfOrder | MOpOutOfScope | MUpdateRootMismatch | MPathPrefixOfAnother

definition terminal_contains :: "verified_multi_path \<Rightarrow> key_path \<Rightarrow> bool option" where
  "terminal_contains v k = do {
     x \<leftarrow> slice_of (view_bits k) 0 (vmp_depth v);
     y \<leftarrow> slice_of (terminal_path (vmp_terminal v)) 0 (vmp_depth v);
     Some (x = y) }"

text \<open>Both vectors are stacks: the head is the end of the vector.\<close>
record common_siblings =
  cs_bisection_stack :: "verified_bisection list"
  cs_stack :: "(nat \<times> node) list"
  cs_taken_siblings :: nat
  cs_terminal_index :: nat
  cs_bisection_index :: nat

definition common_siblings_new :: common_siblings where
  "common_siblings_new = \<lparr>cs_bisection_stack = [], cs_stack = [], cs_taken_siblings = 0,
     cs_terminal_index = 0, cs_bisection_index = 0\<rparr>"

definition cs_pop_to :: "nat \<Rightarrow> common_siblings \<Rightarrow> common_siblings" where
  "cs_pop_to depth cs = cs\<lparr>
     cs_bisection_stack := dropWhile (\<lambda>b. vb_start_depth b \<ge> depth) (cs_bisection_stack cs),
     cs_stack := dropWhile (\<lambda>(d, _). d \<ge> depth) (cs_stack cs)\<rparr>"

text \<open>Pushes the siblings up to \<open>end\<close>, the depth counted up from \<open>start_depth\<close>.\<close>
definition cs_extend :: "nat \<Rightarrow> nat \<Rightarrow> node list \<Rightarrow> bool \<Rightarrow> common_siblings \<Rightarrow> common_siblings option" where
  "cs_extend start_depth end' siblings reverse cs = do {
     window \<leftarrow> slice_of siblings (cs_taken_siblings cs) end';
     let items = (if reverse then rev window else window);
     let pushed = zip [start_depth..<start_depth + length items] items;
     Some (cs\<lparr>cs_stack := rev pushed @ cs_stack cs, cs_taken_siblings := end'\<rparr>) }"

fun cs_advance_bisections :: "nat \<Rightarrow> node list \<Rightarrow> verified_bisection list \<Rightarrow> bool \<Rightarrow> common_siblings
    \<Rightarrow> common_siblings option" where
  "cs_advance_bisections start siblings bs prune cs =
     (if start = cs_taken_siblings cs then Some cs
      else case bs of
        [] \<Rightarrow> None
      | b # bs' \<Rightarrow> do {
          _ \<leftarrow> assert_that (fst (vb_common b) = cs_taken_siblings cs);
          let cs1 = (if prune then cs_pop_to (vb_start_depth b) cs else cs);
          cs2 \<leftarrow> cs_extend (vb_start_depth b + 1) (snd (vb_common b)) siblings False cs1;
          cs_advance_bisections start siblings bs' False
            (cs2\<lparr>cs_bisection_index := cs_bisection_index cs2 + 1,
                 cs_bisection_stack := b # cs_bisection_stack cs2\<rparr>) })"

declare cs_advance_bisections.simps [simp del]

definition cs_advance :: "verified_multi_proof \<Rightarrow> common_siblings \<Rightarrow> common_siblings option" where
  "cs_advance vm cs = do {
     t \<leftarrow> get_at (vm_inner vm) (cs_terminal_index cs);
     cs1 \<leftarrow> cs_advance_bisections (fst (vmp_unique t)) (vm_siblings vm)
              (drop (cs_bisection_index cs) (vm_bisections vm)) True cs;
     terminal_n \<leftarrow> sub_checked (snd (vmp_unique t)) (fst (vmp_unique t));
     d \<leftarrow> sub_checked (vmp_depth t) terminal_n;
     cs2 \<leftarrow> cs_extend (d + 1) (snd (vmp_unique t)) (vm_siblings vm) True cs1;
     Some (cs2\<lparr>cs_terminal_index := cs_terminal_index cs2 + 1\<rparr>) }"

fun cs_pop_if_at_depth :: "nat \<Rightarrow> common_siblings \<Rightarrow> node option \<times> common_siblings" where
  "cs_pop_if_at_depth depth cs =
     (case cs_stack cs of
        (d, n) # st \<Rightarrow> if d = depth then (Some n, cs\<lparr>cs_stack := st\<rparr>) else (None, cs)
      | [] \<Rightarrow> (None, cs))"

fun multi_climb :: "node_hasher \<Rightarrow> bits \<Rightarrow> nat \<Rightarrow> node \<Rightarrow> (node \<times> nat) list \<Rightarrow> common_siblings
    \<Rightarrow> (node \<times> (node \<times> nat) list \<times> common_siblings) option" where
  "multi_climb H [] cur_layer cur_node pending cs = Some (cur_node, pending, cs)"
| "multi_climb H (b # bs) cur_layer cur_node pending cs = do {
     (sibling, pending', cs') \<leftarrow> (case pop_sibling cur_layer pending of
         Some (n, ps) \<Rightarrow> Some (n, ps, snd (cs_pop_if_at_depth cur_layer cs))
       | None \<Rightarrow> (case cs_pop_if_at_depth cur_layer cs of
             (Some n, cs1) \<Rightarrow> Some (n, pending, cs1) | (None, _) \<Rightarrow> None));
     multi_climb H bs (cur_layer - 1) (compact_up H b cur_node sibling) pending' cs' }"

definition hash_and_compact_terminal :: "node_hasher \<Rightarrow> (node \<times> nat) list \<Rightarrow> verified_multi_path
    \<Rightarrow> verified_multi_path option \<Rightarrow> common_siblings \<Rightarrow> leaf_op list
    \<Rightarrow> (multi_verify_update_error + ((node \<times> nat) list \<times> common_siblings)) option" where
  "hash_and_compact_terminal H pending t next cs ops =
     (let skip = vmp_depth t;
          shared = map_option (\<lambda>v. shared_bits (terminal_path (vmp_terminal t)) (terminal_path (vmp_terminal v))) next
      in if shared = Some skip then Some (Inl MPathPrefixOfAnother)
         else do {
           up_layers \<leftarrow> (case shared of None \<Rightarrow> Some skip | Some n \<Rightarrow> sub_checked skip (n + 1));
           (sub_root, _) \<leftarrow> build_trie H skip (leaf_ops_spliced (as_leaf_option (vmp_terminal t)) ops);
           path \<leftarrow> slice_of (terminal_path (vmp_terminal t)) 0 (vmp_depth t);
           (cur_node, pending', cs') \<leftarrow> multi_climb H (take up_layers (rev path)) skip sub_root pending cs;
           Some (Inr ((cur_node, skip - up_layers) # pending', cs')) })"

text \<open>Chaining fallible steps: \<open>?\<close> on a result that may also panic.\<close>
definition and_then :: "('e + 'a) option \<Rightarrow> ('a \<Rightarrow> ('e + 'b) option) \<Rightarrow> ('e + 'b) option" where
  "and_then m f = (case m of None \<Rightarrow> None | Some (Inl e) \<Rightarrow> Some (Inl e) | Some (Inr x) \<Rightarrow> f x)"

lemma and_then_cong [fundef_cong]:
  "m = m' \<Longrightarrow> (\<And>x. m' = Some (Inr x) \<Longrightarrow> f x = g x) \<Longrightarrow> and_then m f = and_then m' g"
  by (auto simp: and_then_def split: option.splits sum.splits)

text \<open>Ingest the terminals with the given indices; \<open>ops_of\<close> gives the operations of each.\<close>
fun ingest_terminals :: "node_hasher \<Rightarrow> verified_multi_proof \<Rightarrow> (nat \<Rightarrow> leaf_op list) \<Rightarrow> nat list
    \<Rightarrow> (node \<times> nat) list \<Rightarrow> common_siblings
    \<Rightarrow> (multi_verify_update_error + ((node \<times> nat) list \<times> common_siblings)) option" where
  "ingest_terminals H vm ops_of [] pending cs = Some (Inr (pending, cs))"
| "ingest_terminals H vm ops_of (i # is) pending cs = do {
     t \<leftarrow> get_at (vm_inner vm) i;
     cs' \<leftarrow> cs_advance vm cs;
     and_then (hash_and_compact_terminal H pending t (get_at (vm_inner vm) (i + 1)) cs' (ops_of i))
       (\<lambda>(pending', cs''). ingest_terminals H vm ops_of is pending' cs'') }"

text \<open>The first terminal from an index on that contains the key.\<close>
fun find_terminal :: "verified_multi_path list \<Rightarrow> nat \<Rightarrow> key_path \<Rightarrow> (multi_verify_update_error + nat) option" where
  "find_terminal [] i k = Some (Inl MOpOutOfScope)"
| "find_terminal (v # vs) i k = do {
     c \<leftarrow> terminal_contains v k;
     if c then Some (Inr i) else find_terminal vs (i + 1) k }"

record update_state =
  us_pending :: "(node \<times> nat) list"
  us_last_key :: "key_path option"
  us_last_terminal :: "nat option"
  us_next_pending :: "nat option"
  us_working_ops :: "leaf_op list"
  us_common :: common_siblings

definition opt_or :: "'a option \<Rightarrow> 'a \<Rightarrow> 'a" where
  "opt_or x d = (case x of None \<Rightarrow> d | Some y \<Rightarrow> y)"

definition multi_update_op :: "node_hasher \<Rightarrow> verified_multi_proof \<Rightarrow> update_state \<Rightarrow> leaf_op
    \<Rightarrow> (multi_verify_update_error + update_state) option" where
  "multi_update_op H vm st op =
     (if (case us_last_key st of None \<Rightarrow> False | Some lk \<Rightarrow> fst op \<le> lk) then Some (Inl MOpsOutOfOrder)
      else and_then (find_terminal (drop (opt_or (us_last_terminal st) 0) (vm_inner vm))
                       (opt_or (us_last_terminal st) 0) (fst op)) (\<lambda>idx.
        let st1 = st\<lparr>us_last_key := Some (fst op), us_last_terminal := Some idx\<rparr> in
        if us_last_terminal st = None \<or> us_last_terminal st = Some idx
        then Some (Inr (st1\<lparr>us_working_ops := us_working_ops st @ [op]\<rparr>))
        else let updated = opt_or (us_last_terminal st) 0; start = opt_or (us_next_pending st) 0 in
             and_then (ingest_terminals H vm (\<lambda>i. if i = updated then us_working_ops st else [])
                         ([start..<updated] @ [updated]) (us_pending st) (us_common st))
               (\<lambda>(pending, cs). Some (Inr (st1\<lparr>us_pending := pending, us_common := cs,
                  us_working_ops := [op], us_next_pending := Some (updated + 1)\<rparr>)))))"

fun multi_update_ops :: "node_hasher \<Rightarrow> verified_multi_proof \<Rightarrow> update_state \<Rightarrow> leaf_op list
    \<Rightarrow> (multi_verify_update_error + update_state) option" where
  "multi_update_ops H vm st [] = Some (Inr st)"
| "multi_update_ops H vm st (op # ops) =
     and_then (multi_update_op H vm st op) (\<lambda>st'. multi_update_ops H vm st' ops)"

definition multi_verify_update :: "node_hasher \<Rightarrow> verified_multi_proof \<Rightarrow> leaf_op list
    \<Rightarrow> (multi_verify_update_error + node) option" where
  "multi_verify_update H vm ops =
     and_then (multi_update_ops H vm \<lparr>us_pending = [], us_last_key = None, us_last_terminal = None,
                 us_next_pending = None, us_working_ops = [], us_common = common_siblings_new\<rparr> ops) (\<lambda>st.
       let updated = opt_or (us_last_terminal st) 0; start = opt_or (us_next_pending st) 0 in
       and_then (ingest_terminals H vm (\<lambda>i. if i = updated then us_working_ops st else [])
                   [start..<length (vm_inner vm)] (us_pending st) (us_common st))
         (\<lambda>(pending, _). Some (Inr (case pending of [] \<Rightarrow> vm_root vm | (n, _) # _ \<Rightarrow> n))))"

end
