(* ===== verification/MultiProofFacts.thy ===== *)
theory MultiProofFacts
  imports MultiProofs
begin

text \<open>
  Facts about multi-proofs: a verified multi-proof only contains terminals of the trie
  with the given root, so its confirmations are right.
\<close>

section \<open>Ranges of ordered paths\<close>

text \<open>A path between two paths with a common prefix has that prefix.\<close>
lemma prefix_between:
  fixes x y z :: bits
  assumes "x \<le> y" "y \<le> z" "take c x = take c z" "c \<le> length x" "c \<le> length z"
  shows "take c y = take c x \<and> c \<le> length y \<and> (c < length x \<longrightarrow> c < length y)"
  using assms
proof (induction c arbitrary: x y z)
  case 0
  then show ?case by (cases x; cases y) auto
next
  case (Suc c)
  obtain a x' b z' where xz: "x = a # x'" "z = b # z'" using Suc.prems by (cases x; cases z) auto
  then obtain a' y' where y: "y = a' # y'" using Suc.prems by (cases y) auto
  have "a' = a" "b = a" using Suc.prems xz y by auto
  then show ?case using Suc.IH[of x' y' z'] Suc.prems xz y by auto
qed

lemma bit_search:
  fixes pth :: "'a \<Rightarrow> bits"
  assumes "sorted_wrt (\<lambda>x y. pth x < pth y) xs"
    and "\<forall>x\<in>set xs. take c (pth x) = q \<and> c < length (pth x)"
  obtains i where "binary_search_by_opt (\<lambda>x. map_option (\<lambda>b. if \<not> b then Less else Greater)
      (get_at (pth x) c)) xs = Some (Inl i)" "i \<le> length xs"
    "\<forall>x\<in>set (take i xs). \<not> pth x ! c" "\<forall>x\<in>set (drop i xs). pth x ! c"
proof -
  let ?g = "\<lambda>x. if \<not> pth x ! c then Less else Greater"
  have mono: "pth (xs ! j) ! c" if "i < j" "j < length xs" "pth (xs ! i) ! c" for i j
    using path_bit_mono[of c "pth (xs ! i)" "pth (xs ! j)"] that assms sorted_wrt_nth_less[OF assms(1)]
    by simp
  have "cmp_sorted ?g xs" using mono by (auto simp: cmp_sorted_def)
  then obtain i where i: "binary_search_by ?g xs = Inl i" "i \<le> length xs"
    "\<forall>x\<in>set (take i xs). ?g x = Less" "\<forall>x\<in>set (drop i xs). ?g x = Greater"
    by (rule map_nth_binary_search) (simp split: if_splits)
  have "binary_search_by_opt (\<lambda>x. map_option (\<lambda>b. if \<not> b then Less else Greater) (get_at (pth x) c)) xs
      = Some (Inl i)"
    unfolding i(1)[symmetric]
    by (rule binary_search_by_opt_total) (use assms(2) in \<open>auto simp: get_at_def\<close>)
  moreover have "\<forall>x\<in>set (take i xs). \<not> pth x ! c" using i(3) by (metis ordering.distinct(3))
  moreover have "\<forall>x\<in>set (drop i xs). pth x ! c" using i(4) by (metis ordering.distinct(3))
  ultimately show ?thesis using that i(2) by blast
qed

lemma take_le_list: "take c (x :: bits) \<le> x"
proof (induction c arbitrary: x)
  case (Suc c)
  then show ?case by (cases x) auto
qed simp

lemma sorted_wrt_ends:
  fixes f :: "'a \<Rightarrow> 'k::linorder"
  assumes "sorted_wrt (\<lambda>x y. f x < f y) xs" "x \<in> set xs"
  shows "f (hd xs) \<le> f x \<and> f x \<le> f (last xs)"
  using assms
proof (induction xs)
  case (Cons a xs)
  then show ?case by (cases xs) (force intro: less_imp_le)+
qed simp

text \<open>Where the first and last of ordered paths part, all of them part.\<close>
lemma range_parts:
  fixes pth :: "'a \<Rightarrow> bits"
  assumes srt: "sorted_wrt (\<lambda>x y. pth x < pth y) xs" and xs: "xs = x1 # x2 # xs'"
    and pre: "take s (pth x1) = take s (pth (last xs))" "s \<le> length (pth x1)" "s \<le> length (pth (last xs))"
    and c: "c = s + shared_bits (drop s (pth x1)) (drop s (pth (last xs)))" "c < length (pth x1)"
  obtains i where "binary_search_by_opt (\<lambda>x. map_option (\<lambda>b. if \<not> b then Less else Greater)
      (get_at (pth x) c)) xs = Some (Inl i)" "0 < i" "i < length xs"
    "\<forall>x\<in>set (take i xs). take (Suc c) (pth x) = take c (pth x1) @ [False] \<and> c < length (pth x)"
    "\<forall>x\<in>set (drop i xs). take (Suc c) (pth x) = take c (pth x1) @ [True] \<and> c < length (pth x)"
proof -
  let ?a = "pth x1" and ?z = "pth (last xs)"
  have lt: "?a < ?z" using srt xs by (auto simp: last_ConsR)
  have lcp: "take (c - s) (drop s ?a) = take (c - s) (drop s ?z)"
    using c by (simp add: shared_bits_lcp) (rule lcp_len_take)
  have tk: "take c ?a = take c ?z"
  proof -
    have "take c ?a = take s ?a @ take (c - s) (drop s ?a)" "take c ?z = take s ?z @ take (c - s) (drop s ?z)"
      using c(1) by (metis le_add1 le_add_diff_inverse take_add)+
    thus ?thesis using pre(1) lcp by simp
  qed
  have cz: "c \<le> length ?z"
    using c(1) pre(3) lcp_len_le2[of "drop s ?a" "drop s ?z"] by (simp add: shared_bits_lcp)
  have cz': "c < length ?z"
  proof (rule ccontr)
    assume "\<not> c < length ?z"
    hence "?z = take c ?a" using cz tk by simp
    thus False using lt take_le_list[of c ?a] by simp
  qed
  have all: "take c (pth x) = take c ?a \<and> c < length (pth x)" if "x \<in> set xs" for x
  proof -
    have "?a \<le> pth x" "pth x \<le> ?z" using sorted_wrt_ends[OF srt that] xs by auto
    from prefix_between[OF this tk] show ?thesis using c(2) cz by simp
  qed
  then obtain i where i: "binary_search_by_opt (\<lambda>x. map_option (\<lambda>b. if \<not> b then Less else Greater)
      (get_at (pth x) c)) xs = Some (Inl i)" "i \<le> length xs"
    "\<forall>x\<in>set (take i xs). \<not> pth x ! c" "\<forall>x\<in>set (drop i xs). pth x ! c"
    using bit_search[OF srt, of c "take c ?a"] by metis
  have ne: "?a ! c \<noteq> ?z ! c"
    using lcp_len_nth[of "drop s ?a" "drop s ?z"] c cz' by (simp add: shared_bits_lcp)
  have "\<not> ?a ! c"
    using path_bit_mono[OF tk c(2) cz' lt] ne by auto
  moreover have "?a ! c" if "i = 0" using i(4) that xs by simp
  moreover have "\<not> ?z ! c" if "i = length xs" using i(3) that xs by simp
  ultimately have i0: "0 < i" "i < length xs" using ne i(2) by (cases "i = 0"; cases "i = length xs"; simp)+
  have ext: "take (Suc c) (pth x) = take c ?a @ [pth x ! c] \<and> c < length (pth x)" if "x \<in> set xs" for x
    using all[OF that] by (simp add: take_Suc_conv_app_nth)
  show ?thesis
  proof (rule that[OF i(1) i0])
    show "\<forall>x\<in>set (take i xs). take (Suc c) (pth x) = take c ?a @ [False] \<and> c < length (pth x)"
      using ext[OF in_set_takeD] i(3) by fastforce
    show "\<forall>x\<in>set (drop i xs). take (Suc c) (pth x) = take c ?a @ [True] \<and> c < length (pth x)"
      using ext[OF in_set_dropD] i(4) by fastforce
  qed
qed

section \<open>Soundness of verification\<close>

abbreviation mpath :: "multi_path_proof \<Rightarrow> bits" where
  "mpath q \<equiv> terminal_path (mpp_terminal q)"

text \<open>The position of a verified path in the trie.\<close>
definition vpath :: "verified_multi_path \<Rightarrow> bits" where
  "vpath v = take (vmp_depth v) (terminal_path (vmp_terminal v))"

fun terminal_trie :: "path_proof_terminal \<Rightarrow> mtrie" where
  "terminal_trie (PLeaf d) = MLeaf d"
| "terminal_trie (PTerminator _) = MTerm"

text \<open>A verified path names a terminal of the trie.\<close>
definition vmp_in_trie :: "mtrie \<Rightarrow> verified_multi_path \<Rightarrow> bool" where
  "vmp_in_trie t v \<longleftrightarrow> vmp_depth v \<le> length (terminal_path (vmp_terminal v)) \<and>
     subtrie t (vpath v) = Some (terminal_trie (vmp_terminal v))"

lemma binary_search_opt_zero: "binary_search_by_opt f (x # xs) = Some (Inl 0) \<Longrightarrow> f x \<noteq> None"
  by (auto simp: binary_search_by_opt_def bind_eq_Some_conv) (metis (no_types, lifting) nth_Cons_0 Inl_inject Zero_not_Suc ordering.exhaust ordering.simps(7-9) sum.distinct(1))

lemma unwrap_err_eq: "(case r of Inl i \<Rightarrow> Some i | Inr _ \<Rightarrow> None) = Some i \<longleftrightarrow> r = Inl i"
  by (cases r) auto

definition bisection_result :: "node_hasher \<Rightarrow> nat \<Rightarrow> nat \<Rightarrow> nat \<Rightarrow> bits \<Rightarrow> node list
    \<Rightarrow> range_result \<Rightarrow> range_result \<Rightarrow> range_result" where
  "bisection_result H s off cb path common l r =
     (let data = \<lparr>left = rr_node l, right = rr_node r\<rparr>; n = hash_internal H data in
      \<lparr>rr_node = hash_path H n path (rev common),
       rr_used = cb + rr_used l + rr_used r, rr_paths = rr_paths l @ rr_paths r,
       rr_bisections = (if cb > 0 then [\<lparr>vb_start_depth = s, vb_common = (off, off + cb)\<rparr>] else [])
          @ rr_bisections l @ rr_bisections r,
       rr_hashed = path_preimages H n path common @ data # rr_hashed l @ rr_hashed r\<rparr>)"

text \<open>The bisecting case of \<open>verify_range\<close>, with the checks that succeeded.\<close>
lemma verify_range_bisects:
  assumes "verify_range H s qs sibs off = Some rr" "qs = q1 # q2 # qs'"
    and cb: "cb = shared_bits (drop s (mpath q1)) (drop s (mpath (last qs)))"
  obtains i l r where "s \<le> length (mpath q1)" "s \<le> length (mpath (last qs))"
    "binary_search_by_opt (\<lambda>q. map_option (\<lambda>b. if \<not> b then Less else Greater)
       (get_at (mpath q) (s + cb))) qs = Some (Inl i)"
    "verify_range H (Suc (s + cb)) (take i qs) (drop cb sibs) (off + cb) = Some l"
    "verify_range H (Suc (s + cb)) (drop i qs) (drop (cb + rr_used l) sibs) (off + cb + rr_used l) = Some r"
    "cb + rr_used l \<le> length sibs"
    "rr = bisection_result H s off cb (take cb (drop s (mpath q1))) (take cb sibs) l r"
proof -
  let ?paths = "q1 # q2 # qs'"
  from assms(1)[unfolded assms(2) verify_range.simps(3) Let_def] obtain x y found i ls l rs r cp cm where *:
    "slice_of (mpath q1) s (length (mpath q1)) = Some x"
    "slice_of (mpath (last ?paths)) s (length (mpath (last ?paths))) = Some y"
    "binary_search_by_opt (\<lambda>q. map_option (\<lambda>b. if \<not> b then Less else Greater)
       (get_at (mpath q) (s + shared_bits x y))) ?paths = Some found" "found = Inl i"
    "slice_of sibs (shared_bits x y) (length sibs) = Some ls"
    "verify_range H (Suc (s + shared_bits x y)) (take i ?paths) ls (off + shared_bits x y) = Some l"
    "slice_of sibs (shared_bits x y + rr_used l) (length sibs) = Some rs"
    "verify_range H (Suc (s + shared_bits x y)) (drop i ?paths) rs (off + shared_bits x y + rr_used l) = Some r"
    "slice_of (mpath q1) s (s + shared_bits x y) = Some cp"
    "slice_of sibs 0 (shared_bits x y) = Some cm"
    "rr = bisection_result H s off (shared_bits x y) cp cm l r"
    by (auto simp: bind_eq_Some_conv bisection_result_def Let_def unwrap_err_eq)
  have xy: "shared_bits x y = cb" using *(1,2) cb assms(2) by (simp add: slice_eq_Some)
  note ** = *[unfolded xy slice_eq_Some, folded assms(2)]
  show ?thesis by (rule that[of i l r]) (use ** in simp_all)
qed

lemma verify_range_reach:
  assumes "verify_range H s qs sibs off = Some rr" "qs \<noteq> []"
  shows "s \<le> length (mpath (hd qs))"
proof (cases qs rule: list_cases2)
  case (Many q1 q2 qs')
  show ?thesis by (rule verify_range_bisects[OF assms(1) Many refl]) (use Many in simp)
qed (use assms in \<open>auto simp: bind_eq_Some_conv slice_eq_Some\<close>)

lemma verify_range_parts:
  assumes v: "verify_range H s qs sibs off = Some rr" and qs: "2 \<le> length qs"
    and srt: "sorted_wrt (\<lambda>x y. mpath x < mpath y) qs" and pre: "\<forall>q\<in>set qs. take s (mpath q) = p"
  obtains i l r cp where "0 < i" "i < length qs" "length cp \<le> length sibs" "length p = s"
    "verify_range H (Suc (s + length cp)) (take i qs) (drop (length cp) sibs) (off + length cp) = Some l"
    "verify_range H (Suc (s + length cp)) (drop i qs) (drop (length cp + rr_used l) sibs)
       (off + length cp + rr_used l) = Some r"
    "rr = bisection_result H s off (length cp) cp (take (length cp) sibs) l r"
    "\<forall>q\<in>set (take i qs). take (Suc (s + length cp)) (mpath q) = p @ cp @ [False]"
    "\<forall>q\<in>set (drop i qs). take (Suc (s + length cp)) (mpath q) = p @ cp @ [True]"
proof -
  obtain q1 q2 qs' where q: "qs = q1 # q2 # qs'" using qs by (cases qs rule: list_cases2) auto
  define cb where cb: "cb = shared_bits (drop s (mpath q1)) (drop s (mpath (last qs)))"
  define cp where "cp = take cb (drop s (mpath q1))"
  from verify_range_bisects[OF v q cb] obtain i l r where *:
    "s \<le> length (mpath q1)" "s \<le> length (mpath (last qs))"
    "binary_search_by_opt (\<lambda>q. map_option (\<lambda>b. if \<not> b then Less else Greater)
       (get_at (mpath q) (s + cb))) qs = Some (Inl i)"
    "verify_range H (Suc (s + cb)) (take i qs) (drop cb sibs) (off + cb) = Some l"
    "verify_range H (Suc (s + cb)) (drop i qs) (drop (cb + rr_used l) sibs) (off + cb + rr_used l) = Some r"
    "cb + rr_used l \<le> length sibs"
    "rr = bisection_result H s off cb (take cb (drop s (mpath q1))) (take cb sibs) l r" .
  have c1: "s + cb < length (mpath q1)"
  proof (cases i)
    case 0
    have "map_option (\<lambda>b. if \<not> b then Less else Greater) (get_at (mpath q1) (s + cb)) \<noteq> None"
      by (rule binary_search_opt_zero[of _ _ "q2 # qs'"]) (use *(3) 0 q in simp)
    thus ?thesis by (auto simp: get_at_def split: if_splits)
  next
    case (Suc j)
    with verify_range_reach[OF *(4)] q show ?thesis by simp
  qed
  have ends: "take s (mpath q1) = take s (mpath (last qs))" "take s (mpath q1) = p" using pre q by auto
  obtain i' where i': "binary_search_by_opt (\<lambda>q. map_option (\<lambda>b. if \<not> b then Less else Greater)
       (get_at (mpath q) (s + cb))) qs = Some (Inl i')" "0 < i'" "i' < length qs"
    "\<forall>x\<in>set (take i' qs). take (Suc (s + cb)) (mpath x) = take (s + cb) (mpath q1) @ [False] \<and> s + cb < length (mpath x)"
    "\<forall>x\<in>set (drop i' qs). take (Suc (s + cb)) (mpath x) = take (s + cb) (mpath q1) @ [True] \<and> s + cb < length (mpath x)"
    by (rule range_parts[OF srt q ends(1) *(1,2) _ c1]) (simp add: cb)
  have i: "i' = i" using i'(1) *(3) by simp
  have len: "length cp = cb" using c1 by (simp add: cp_def)
  have tk: "take (s + cb) (mpath q1) = p @ cp" by (simp add: take_add ends(2) cp_def)
  show ?thesis
    by (rule that[of i cp l r]) (use * i' i len tk ends(2) in \<open>auto simp: cp_def[symmetric]\<close>)
qed

lemma verify_range_sorted:
  assumes "verify_range H s qs sibs off = Some rr" "qs \<noteq> []"
    "sorted_wrt (\<lambda>x y. mpath x < mpath y) qs" "\<forall>q\<in>set qs. take s (mpath q) = p"
  shows "(\<forall>v\<in>set (rr_paths rr). length p \<le> vmp_depth v \<and> take (length p) (vpath v) = p) \<and>
    sorted_wrt (\<lambda>v w. vpath v < vpath w) (rr_paths rr)"
  using assms
proof (induction "length qs" arbitrary: qs s sibs off rr p rule: less_induct)
  case less
  show ?case
  proof (cases "2 \<le> length qs")
    case True
    from verify_range_parts[OF less.prems(1) True less.prems(3,4)] obtain i l r cp where *:
      "0 < i" "i < length qs"
      "verify_range H (Suc (s + length cp)) (take i qs) (drop (length cp) sibs) (off + length cp) = Some l"
      "verify_range H (Suc (s + length cp)) (drop i qs) (drop (length cp + rr_used l) sibs)
         (off + length cp + rr_used l) = Some r"
      "rr = bisection_result H s off (length cp) cp (take (length cp) sibs) l r"
      "\<forall>q\<in>set (take i qs). take (Suc (s + length cp)) (mpath q) = p @ cp @ [False]"
      "\<forall>q\<in>set (drop i qs). take (Suc (s + length cp)) (mpath q) = p @ cp @ [True]" .
    let ?q = "\<lambda>b. p @ cp @ [b]"
    have l: "(\<forall>v\<in>set (rr_paths l). length (?q False) \<le> vmp_depth v \<and> take (length (?q False)) (vpath v) = ?q False)
        \<and> sorted_wrt (\<lambda>v w. vpath v < vpath w) (rr_paths l)"
      by (rule less.hyps[OF _ *(3) _ sorted_wrt_take[OF less.prems(3)] *(6)]) (use *(1,2) in auto)
    have r: "(\<forall>v\<in>set (rr_paths r). length (?q True) \<le> vmp_depth v \<and> take (length (?q True)) (vpath v) = ?q True)
        \<and> sorted_wrt (\<lambda>v w. vpath v < vpath w) (rr_paths r)"
      by (rule less.hyps[OF _ *(4) _ sorted_wrt_drop[OF less.prems(3)] *(7)]) (use *(1,2) in auto)
    have paths: "rr_paths rr = rr_paths l @ rr_paths r" using *(5) by (simp add: bisection_result_def Let_def)
    have ext: "vpath v = ?q b @ drop (length (?q b)) (vpath v)"
      if "take (length (?q b)) (vpath v) = ?q b" for v b
      using append_take_drop_id[of "length (?q b)" "vpath v", unfolded that] by (rule sym)
    have L: "\<exists>y. vpath v = p @ cp @ False # y" if "v \<in> set (rr_paths l)" for v
      using ext[of False v] l that by auto
    have R: "\<exists>y. vpath v = p @ cp @ True # y" if "v \<in> set (rr_paths r)" for v
      using ext[of True v] r that by auto
    have "vpath v < vpath w" if vw: "v \<in> set (rr_paths l)" "w \<in> set (rr_paths r)" for v w
    proof -
      obtain y z where "vpath v = p @ cp @ False # y" "vpath w = p @ cp @ True # z"
        using L[OF vw(1)] R[OF vw(2)] by blast
      thus ?thesis by simp
    qed
    moreover have "length p \<le> vmp_depth v \<and> take (length p) (vpath v) = p" if v: "v \<in> set (rr_paths rr)" for v
    proof -
      obtain b y where e: "vpath v = p @ cp @ b # y" using L[of v] R[of v] v paths by auto
      hence "take (length p) (vpath v) = p" by simp
      moreover have "length p \<le> length (vpath v)" using e by simp
      ultimately show ?thesis by (simp add: vpath_def)
    qed
    ultimately show ?thesis using l r paths by (simp add: sorted_wrt_append)
  next
    case False
    then obtain q where "qs = [q]" using less.prems(2) by (cases qs rule: list_cases2) auto
    then show ?thesis using less.prems(1,4)
      by (auto simp: bind_eq_Some_conv Let_def slice_eq_Some sub_checked_def vpath_def min_def split: if_splits)
  qed
qed

lemma subtrie_preimages: "subtrie t p = Some u \<Longrightarrow> set (trie_preimages H u) \<subseteq> set (trie_preimages H t)"
  by (induction t p rule: subtrie.induct) (auto split: if_splits)

lemma separates_mono: "separates h xs ys \<Longrightarrow> set xs' \<subseteq> set xs \<Longrightarrow> set ys' \<subseteq> set ys \<Longrightarrow> separates h xs' ys'"
  by (auto simp: separates_def)

lemma terminal_node_trie:
  assumes H: "node_hasher_laws H" and n: "node_hash H u = terminal_node H x"
    and u: "subtrie t p = Some u"
    and leaf: "\<And>d. as_leaf_option x = Some d \<Longrightarrow> separates (hash_leaf H) (trie_leaves t) [d]"
  shows "u = terminal_trie x"
proof (cases x)
  case (PLeaf d)
  then obtain d' where d': "u = MLeaf d'" "hash_leaf H d' = hash_leaf H d"
    using n node_hasher_laws.kind_simps[OF H] by (cases u) auto
  have "d' \<in> set (trie_leaves t)" using u d'(1) by (simp add: subtrie_leaf_mem)
  thus ?thesis using leaf[of d] d' PLeaf by (auto simp: separates_def)
next
  case (PTerminator pos)
  then show ?thesis using n node_hasher_laws.kind_simps[OF H] by (cases u) auto
qed

lemma verify_range_sound:
  assumes H: "node_hasher_laws H"
    and "verify_range H s qs sibs off = Some rr" "qs \<noteq> []"
    "sorted_wrt (\<lambda>x y. mpath x < mpath y) qs" "\<forall>q\<in>set qs. take s (mpath q) = p"
    and "subtrie t p = Some u" "rr_node rr = node_hash H u"
    "separates (hash_internal H) (trie_preimages H t) (rr_hashed rr)"
    and leaf: "\<And>q d. q \<in> set qs \<Longrightarrow> as_leaf_option (mpp_terminal q) = Some d \<Longrightarrow>
      separates (hash_leaf H) (trie_leaves t) [d]"
  shows "\<forall>v\<in>set (rr_paths rr). vmp_in_trie t v"
  using assms(2-)
proof (induction "length qs" arbitrary: qs s sibs off rr p u rule: less_induct)
  case less
  note sub = less.prems(5) and node = less.prems(6)
  have sep: "separates (hash_internal H) (trie_preimages H u) (rr_hashed rr)"
    by (rule separates_mono[OF less.prems(7) subtrie_preimages[OF sub]]) simp
  show ?case
  proof (cases "2 \<le> length qs")
    case True
    from verify_range_parts[OF less.prems(1) True less.prems(3,4)] obtain i l r cp where *:
      "0 < i" "i < length qs" "length cp \<le> length sibs" "length p = s"
      "verify_range H (Suc (s + length cp)) (take i qs) (drop (length cp) sibs) (off + length cp) = Some l"
      "verify_range H (Suc (s + length cp)) (drop i qs) (drop (length cp + rr_used l) sibs)
         (off + length cp + rr_used l) = Some r"
      "rr = bisection_result H s off (length cp) cp (take (length cp) sibs) l r"
      "\<forall>q\<in>set (take i qs). take (Suc (s + length cp)) (mpath q) = p @ cp @ [False]"
      "\<forall>q\<in>set (drop i qs). take (Suc (s + length cp)) (mpath q) = p @ cp @ [True]" .
    let ?data = "\<lparr>left = rr_node l, right = rr_node r\<rparr>"
    have root: "path_root H (hash_internal H ?data) cp (take (length cp) sibs) = node_hash H u"
      using node *(3,7) by (simp add: bisection_result_def Let_def hash_path_root)
    have hashed: "set (rr_hashed rr) = set (path_preimages H (hash_internal H ?data) cp (take (length cp) sibs))
        \<union> {?data} \<union> set (rr_hashed l) \<union> set (rr_hashed r)"
      using *(7) by (auto simp: bisection_result_def Let_def)
    obtain w where w: "subtrie u cp = Some w" "node_hash H w = hash_internal H ?data"
      using path_root_sound[OF H _ root separates_mono[OF sep]] hashed *(3) by auto
    obtain wl wr where wlr: "w = MInt wl wr"
      using w(2) node_hasher_laws.kind_simps[OF H] by (cases w) auto
    have "\<lparr>left = node_hash H wl, right = node_hash H wr\<rparr> = ?data"
      using sep w wlr hashed subtrie_preimages[OF w(1), of H] by (auto simp: separates_def)
    hence nodes: "rr_node l = node_hash H wl" "rr_node r = node_hash H wr" by auto
    have subs: "subtrie t (p @ cp @ [False]) = Some wl" "subtrie t (p @ cp @ [True]) = Some wr"
      using sub w(1) wlr by (simp_all add: subtrie_append)
    have "\<forall>v\<in>set (rr_paths l). vmp_in_trie t v"
      by (rule less.hyps[OF _ *(5) _ sorted_wrt_take[OF less.prems(3)] *(8) subs(1) nodes(1)
            separates_mono[OF less.prems(7)] less.prems(8)[OF in_set_takeD]])
         (use *(1,2) hashed in auto)
    moreover have "\<forall>v\<in>set (rr_paths r). vmp_in_trie t v"
      by (rule less.hyps[OF _ *(6) _ sorted_wrt_drop[OF less.prems(3)] *(9) subs(2) nodes(2)
            separates_mono[OF less.prems(7)] less.prems(8)[OF in_set_dropD]])
         (use *(1,2) hashed in auto)
    ultimately show ?thesis using *(7) by (auto simp: bisection_result_def Let_def)
  next
    case False
    then obtain q where q: "qs = [q]" using less.prems(2) by (cases qs rule: list_cases2) auto
    define n path where "n = mpp_depth q - s" and "path = take n (drop s (mpath q))"
    from less.prems(1) q have v: "s \<le> mpp_depth q" "mpp_depth q \<le> length (mpath q)" "n \<le> length sibs"
      and rr: "rr_node rr = hash_path H (terminal_node H (mpp_terminal q)) path (rev (take n sibs))"
        "rr_hashed rr = path_preimages H (terminal_node H (mpp_terminal q)) path (take n sibs)"
        "rr_paths rr = [\<lparr>vmp_terminal = mpp_terminal q, vmp_depth = mpp_depth q, vmp_unique = (off, off + n)\<rparr>]"
      by (auto simp: bind_eq_Some_conv slice_eq_Some sub_checked_def Let_def n_def path_def split: if_splits)
    have len: "length path = length (take n sibs)" using v by (simp add: path_def n_def)
    from rr(1) node have root: "path_root H (terminal_node H (mpp_terminal q)) path (take n sibs) = node_hash H u"
      by (simp add: hash_path_root[OF len])
    obtain w where w: "subtrie u path = Some w" "node_hash H w = terminal_node H (mpp_terminal q)"
      using path_root_sound[OF H len root] sep rr(2) by auto
    have "take (mpp_depth q) (mpath q) = p @ path"
      using less.prems(4) q v take_add[of s n "mpath q"] by (simp add: path_def n_def)
    hence st: "subtrie t (take (mpp_depth q) (mpath q)) = Some w"
      using sub w(1) by (simp add: subtrie_append)
    have "w = terminal_trie (mpp_terminal q)"
      by (rule terminal_node_trie[OF H w(2) st]) (use less.prems(8)[of q] q in simp)
    thus ?thesis using rr(3) v st by (simp add: vmp_in_trie_def vpath_def)
  qed
qed

text \<open>The hash is collision free between a trie and what verifying a multi-proof hashes.\<close>
definition multi_proof_binding :: "node_hasher \<Rightarrow> mtrie \<Rightarrow> multi_proof \<Rightarrow> bool" where
  "multi_proof_binding H t mp \<longleftrightarrow>
     (case verify_range H 0 (mp_paths mp) (mp_siblings mp) 0 of
        None \<Rightarrow> True
      | Some rr \<Rightarrow> separates (hash_internal H) (trie_preimages H t) (rr_hashed rr)) \<and>
     separates (hash_leaf H) (trie_leaves t)
       (List.map_filter (\<lambda>q. as_leaf_option (mpp_terminal q)) (mp_paths mp))"

lemma paths_ordered_sorted: "paths_ordered qs \<longleftrightarrow> sorted_wrt (\<lambda>x y. mpath x < mpath y) qs"
proof (induction qs rule: paths_ordered.induct)
  case (1 q1 q2 qs)
  then show ?case by (auto simp: not_le intro: order.strict_trans)
qed auto

text \<open>A verified multi-proof: its paths are terminals of the trie, in ascending order.\<close>
definition vm_in_trie :: "mtrie \<Rightarrow> verified_multi_proof \<Rightarrow> bool" where
  "vm_in_trie t vm \<longleftrightarrow> (\<forall>v\<in>set (vm_inner vm). vmp_in_trie t v) \<and>
     sorted_wrt (\<lambda>v w. vpath v < vpath w) (vm_inner vm)"

lemma multi_verify_in_trie:
  assumes H: "node_hasher_laws H"
    and v: "multi_proof_verify H mp (node_hash H t) = Some (Inr vm)"
    and b: "multi_proof_binding H t mp"
  shows "vm_in_trie t vm"
proof -
  from v obtain rr where ord: "paths_ordered (mp_paths mp)"
    and rr: "verify_range H 0 (mp_paths mp) (mp_siblings mp) 0 = Some rr" "rr_node rr = node_hash H t"
    and vm: "vm_inner vm = rr_paths rr"
    by (auto simp: multi_proof_verify_def bind_eq_Some_conv split: if_splits)
  note srt = ord[unfolded paths_ordered_sorted]
  show ?thesis
  proof (cases "mp_paths mp = []")
    case True
    have "t = MTerm" using rr True node_hasher_laws.kind_simps[OF H] by (cases t) auto
    then show ?thesis using rr(1) True vm by (auto simp: vm_in_trie_def vmp_in_trie_def vpath_def)
  next
    case False
    have leaf: "separates (hash_leaf H) (trie_leaves t) [d]"
      if "q \<in> set (mp_paths mp)" "as_leaf_option (mpp_terminal q) = Some d" for q d
      using b that by (force simp: multi_proof_binding_def separates_def List.map_filter_def)
    have "\<forall>v\<in>set (rr_paths rr). vmp_in_trie t v"
      by (rule verify_range_sound[OF H rr(1) False srt _ _ rr(2) _ leaf])
         (use b rr(1) in \<open>auto simp: multi_proof_binding_def\<close>)
    moreover have "sorted_wrt (\<lambda>v w. vpath v < vpath w) (rr_paths rr)"
      by (rule conjunct2[OF verify_range_sorted[OF rr(1) False srt, of "[]"]]) simp
    ultimately show ?thesis by (simp add: vm_in_trie_def vm)
  qed
qed

section \<open>Confirmations\<close>

definition covered :: "verified_multi_proof \<Rightarrow> key_path \<Rightarrow> bool" where
  "covered vm k \<longleftrightarrow> (\<exists>v\<in>set (vm_inner vm). key_under (vpath v) k)"

lemma less_take_iff:
  fixes x k :: bits
  assumes "length x \<le> length k"
  shows "take (length x) k < x \<longleftrightarrow> k < x" "x < take (length x) k \<longleftrightarrow> x < k \<and> x \<noteq> take (length x) k"
  using assms
proof (induction x arbitrary: k)
  case (Cons a x)
  { case 1 then show ?case using Cons.IH(1) by (cases k) auto }
  { case 2 then show ?case using Cons.IH(2) by (cases k) auto }
qed auto

lemma subtrie_path_len:
  assumes "kvs_ok kvs" "subtrie (mk_trie 0 kvs) p = Some u"
  shows "length p \<le> 256"
proof (cases p rule: rev_cases)
  case (snoc q b)
  then obtain w where w: "subtrie (mk_trie 0 kvs) q = Some w" "subtrie w [b] = Some u"
    using assms(2) by (auto simp: subtrie_append bind_eq_Some_conv)
  have "w = mk_trie (length q) (below q kvs)" by (rule subtrie_root[OF assms(1) w(1)])
  hence "2 \<le> length (below q kvs)" using w(2) by (cases "below q kvs" rule: list_cases2) auto
  thus ?thesis using below_prefix_len[OF assms(1)] snoc by fastforce
qed simp

lemma terminal_trie_terminal [simp]: "is_terminal (terminal_trie x)"
  by (cases x) auto

lemma find_index_for_eq:
  assumes ok: "kvs_ok kvs" and vm: "vm_in_trie (mk_trie 0 kvs) vm" and k: "length k = 32"
  shows "\<exists>r. find_index_for vm k = Some r \<and>
    (case r of Inl e \<Rightarrow> \<not> covered vm k
     | Inr i \<Rightarrow> i < length (vm_inner vm) \<and> key_under (vpath (vm_inner vm ! i)) k)"
proof -
  let ?t = "mk_trie 0 kvs" and ?K = "view_bits k" and ?xs = "vm_inner vm"
  let ?f = "\<lambda>v. cmp_of (vpath v) (take (length (vpath v)) ?K)"
  have mem: "vmp_in_trie ?t v" "vmp_depth v = length (vpath v)" "length (vpath v) \<le> 256"
    if "v \<in> set ?xs" for v
    using vm that subtrie_path_len[OF ok] by (auto simp: vm_in_trie_def vmp_in_trie_def) (simp add: vpath_def)
  have K: "length ?K = 256" using k by simp
  have srt: "vpath (?xs ! i) < vpath (?xs ! j)" if "i < j" "j < length ?xs" for i j
    using sorted_wrt_nth_less[OF conjunct2[OF vm[unfolded vm_in_trie_def]] that] .
  have inc: "take (length (vpath v)) (vpath w) \<noteq> vpath v"
    if "v \<in> set ?xs" "w \<in> set ?xs" "vpath v < vpath w" for v w
  proof
    assume pre: "take (length (vpath v)) (vpath w) = vpath v"
    have "subtrie ?t (vpath v) = Some (terminal_trie (vmp_terminal v))"
      "subtrie ?t (vpath w) = Some (terminal_trie (vmp_terminal w))"
      using mem(1) that(1,2) by (auto simp: vmp_in_trie_def)
    from terminal_paths_incomparable[OF this(1) terminal_trie_terminal this(2) pre]
    have "vpath w = vpath v" .
    thus False using that(3) by simp
  qed
  have greater: "?f v = Greater \<longleftrightarrow> ?K < vpath v" and less: "?f v = Less \<longleftrightarrow> vpath v < ?K \<and> vpath v \<noteq> take (length (vpath v)) ?K"
    if "v \<in> set ?xs" for v
    using less_take_iff[of "vpath v" ?K] mem(3)[OF that] K by (auto simp: cmp_of_def)
  have cs: "cmp_sorted ?f ?xs"
    unfolding cmp_sorted_def
  proof (intro allI impI conjI)
    fix i j assume ij: "j < length ?xs" "i < j"
    let ?v = "?xs ! i" and ?w = "?xs ! j"
    have vw: "?v \<in> set ?xs" "?w \<in> set ?xs" "vpath ?v < vpath ?w" using ij srt by auto
    show "?f ?w = Greater" if "?f ?v = Greater"
      using that greater vw by auto
    show "?f ?v = Less" if "?f ?w = Less"
    proof -
      have w: "vpath ?w < ?K" using that less[OF vw(2)] by simp
      have "vpath ?v \<noteq> take (length (vpath ?v)) ?K"
      proof
        assume e: "vpath ?v = take (length (vpath ?v)) ?K"
        have "take (length (vpath ?v)) (vpath ?w) = take (length (vpath ?v)) (vpath ?v)"
          using prefix_between[of "vpath ?v" "vpath ?w" ?K "length (vpath ?v)"] vw(3) w e mem(3)[OF vw(1)] K
          by simp
        thus False using inc[OF vw] by simp
      qed
      thus ?thesis using less[OF vw(1)] vw(3) w by simp
    qed
  qed
  have search: "find_index_for vm k =
      Some (case binary_search_by ?f ?xs of Inl _ \<Rightarrow> Inl KeyOutOfScope | Inr i \<Rightarrow> Inr i)"
  proof -
    have "binary_search_by_opt (\<lambda>v. do {
           x \<leftarrow> slice_of (terminal_path (vmp_terminal v)) 0 (vmp_depth v);
           y \<leftarrow> slice_of ?K 0 (vmp_depth v);
           Some (cmp_of x y) }) ?xs = Some (binary_search_by ?f ?xs)"
    proof (rule binary_search_by_opt_total, rule ballI)
      fix v assume v: "v \<in> set ?xs"
      have d: "vmp_depth v \<le> length (terminal_path (vmp_terminal v))" "vmp_depth v \<le> 256"
        using mem[OF v] by (auto simp: vmp_in_trie_def)
      show "do { x \<leftarrow> slice_of (terminal_path (vmp_terminal v)) 0 (vmp_depth v);
           y \<leftarrow> slice_of ?K 0 (vmp_depth v); Some (cmp_of x y) } = Some (?f v)"
        using d K by (simp add: slice_simps vpath_def min_def)
    qed
    thus ?thesis by (simp add: find_index_for_def)
  qed
  from cs show ?thesis
  proof (cases rule: binary_search_by_cases)
    case (found i)
    then show ?thesis using search by (auto simp: key_under_def)
  next
    case (missing i)
    have "?f v \<noteq> Equal" if "v \<in> set ?xs" for v
      using missing(3,4) that by (metis in_set_conv_nth not_le ordering.distinct(1,5))
    hence "\<not> covered vm k" by (simp add: covered_def key_under_def) metis
    then show ?thesis using search missing(1) by simp
  qed
qed

lemma vmp_below:
  assumes ok: "kvs_ok kvs" and v: "vmp_in_trie (mk_trie 0 kvs) v"
  shows "below (vpath v) kvs =
    (case vmp_terminal v of PTerminator _ \<Rightarrow> [] | PLeaf d \<Rightarrow> [(leaf_key d, leaf_value d)])"
proof -
  have "mk_trie (length (vpath v)) (below (vpath v) kvs) = terminal_trie (vmp_terminal v)"
    using subtrie_root[OF ok conjunct2[OF v[unfolded vmp_in_trie_def]]] by simp
  thus ?thesis using mk_trie_shape[OF ok] by (cases "vmp_terminal v") simp_all
qed

lemma vmp_in_index: "vm_in_trie t vm \<Longrightarrow> i < length (vm_inner vm) \<Longrightarrow> vmp_in_trie t (vm_inner vm ! i)"
  by (simp add: vm_in_trie_def)

lemma confirm_inner_eq:
  assumes ok: "kvs_ok kvs" and vm: "vm_in_trie (mk_trie 0 kvs) vm"
    and i: "i < length (vm_inner vm)" and u: "key_under (vpath (vm_inner vm ! i)) k"
  shows "confirm_value_inner vm \<lparr>leaf_key = k, leaf_value = x\<rparr> i = Some (map_of kvs k = Some x)"
    "confirm_nonexistence_inner vm k i = Some (map_of kvs k = None)"
proof -
  let ?v = "vm_inner vm ! i"
  have "map_of kvs k = map_of (below (vpath ?v) kvs) k" using u by (simp add: map_of_below)
  also have "\<dots> = map_of (case vmp_terminal ?v of PTerminator _ \<Rightarrow> [] | PLeaf d \<Rightarrow> [(leaf_key d, leaf_value d)]) k"
    by (simp only: vmp_below[OF ok vmp_in_index[OF vm i]])
  finally have *: "map_of kvs k = \<dots>" .
  show "confirm_value_inner vm \<lparr>leaf_key = k, leaf_value = x\<rparr> i = Some (map_of kvs k = Some x)"
    unfolding * using i by (auto simp: confirm_value_inner_def get_at_def split: path_proof_terminal.splits)
  show "confirm_nonexistence_inner vm k i = Some (map_of kvs k = None)"
    unfolding * using i by (auto simp: confirm_nonexistence_inner_def get_at_def split: path_proof_terminal.splits)
qed

lemma index_in_scope_eq:
  assumes ok: "kvs_ok kvs" and vm: "vm_in_trie (mk_trie 0 kvs) vm"
    and i: "i < length (vm_inner vm)" and k: "length k = 32"
  shows "index_in_scope vm k i = Some (key_under (vpath (vm_inner vm ! i)) k)"
proof -
  let ?v = "vm_inner vm ! i"
  have v: "vmp_in_trie (mk_trie 0 kvs) ?v" by (rule vmp_in_index[OF vm i])
  hence "length (vpath ?v) \<le> 256" "vmp_depth ?v \<le> length (terminal_path (vmp_terminal ?v))"
    using subtrie_path_len[OF ok] by (auto simp: vmp_in_trie_def)
  thus ?thesis using i k
    by (auto simp: index_in_scope_def slice_simps vpath_def key_under_def)
qed

lemma multi_confirm_eq:
  assumes ok: "kvs_ok kvs" and vm: "vm_in_trie (mk_trie 0 kvs) vm" and k: "length k = 32"
  shows "multi_confirm_value vm \<lparr>leaf_key = k, leaf_value = x\<rparr> =
      Some (if covered vm k then Inr (map_of kvs k = Some x) else Inl KeyOutOfScope)"
    "multi_confirm_nonexistence vm k =
      Some (if covered vm k then Inr (map_of kvs k = None) else Inl KeyOutOfScope)"
proof -
  obtain r where r: "find_index_for vm k = Some r"
    "case r of Inl e \<Rightarrow> \<not> covered vm k
     | Inr i \<Rightarrow> i < length (vm_inner vm) \<and> key_under (vpath (vm_inner vm ! i)) k"
    using find_index_for_eq[OF assms] by blast
  have out: "e = KeyOutOfScope" for e by (cases e) simp
  have cov: "covered vm k" if "i < length (vm_inner vm)" "key_under (vpath (vm_inner vm ! i)) k" for i
    using that by (auto simp: covered_def)
  show "multi_confirm_value vm \<lparr>leaf_key = k, leaf_value = x\<rparr> =
      Some (if covered vm k then Inr (map_of kvs k = Some x) else Inl KeyOutOfScope)"
    using r cov out by (cases r) (auto simp: multi_confirm_value_def confirm_inner_eq[OF ok vm])
  show "multi_confirm_nonexistence vm k =
      Some (if covered vm k then Inr (map_of kvs k = None) else Inl KeyOutOfScope)"
    using r cov out by (cases r) (auto simp: multi_confirm_nonexistence_def confirm_inner_eq[OF ok vm])
qed

text \<open>C5: what a verified multi-proof confirms is right.
  If a multi-proof verifies against the root of a trie, on which the hash does not collide
  with the nodes hashed during verification, then for every key the confirmations of a value and of
  non-existence agree with the key-value map, or report the key out of scope exactly when
  no verified path covers it; they never panic.\<close>
theorem multi_proof_sound:
  assumes "node_hasher_laws H" "kvs_ok kvs" "length k = 32"
    and "multi_proof_verify H mp (trie_root H kvs) = Some (Inr vm)"
    and "multi_proof_binding H (mk_trie 0 kvs) mp"
  shows "multi_confirm_value vm \<lparr>leaf_key = k, leaf_value = x\<rparr> =
      Some (if covered vm k then Inr (map_of kvs k = Some x) else Inl KeyOutOfScope) \<and>
    multi_confirm_nonexistence vm k =
      Some (if covered vm k then Inr (map_of kvs k = None) else Inl KeyOutOfScope)"
  using multi_confirm_eq[OF assms(2) _ assms(3)]
    multi_verify_in_trie[OF assms(1) assms(4)[unfolded trie_root_def] assms(5)] by blast

text \<open>The confirmations at a given index of a
  verified multi-proof agree with the key-value map, and report the key out of scope
  exactly when the path at the index does not lead to it.\<close>
theorem multi_proof_index_sound:
  assumes "node_hasher_laws H" "kvs_ok kvs" "length k = 32"
    and "multi_proof_verify H mp (trie_root H kvs) = Some (Inr vm)"
    and "multi_proof_binding H (mk_trie 0 kvs) mp" "i < length (vm_inner vm)"
  shows "confirm_value_with_index vm \<lparr>leaf_key = k, leaf_value = x\<rparr> i =
      Some (if key_under (vpath (vm_inner vm ! i)) k then Inr (map_of kvs k = Some x) else Inl KeyOutOfScope) \<and>
    confirm_nonexistence_with_index vm k i =
      Some (if key_under (vpath (vm_inner vm ! i)) k then Inr (map_of kvs k = None) else Inl KeyOutOfScope)"
proof -
  have vm: "vm_in_trie (mk_trie 0 kvs) vm"
    by (rule multi_verify_in_trie[OF assms(1) assms(4)[unfolded trie_root_def] assms(5)])
  show ?thesis
    using index_in_scope_eq[OF assms(2) vm assms(6,3)] confirm_inner_eq[OF assms(2) vm assms(6)]
    by (simp add: confirm_value_with_index_def confirm_nonexistence_with_index_def)
qed

end
