(* ===== verification/MultiProofBuild.thy ===== *)
theory MultiProofBuild
  imports MultiProofFacts
begin

text \<open>
  The multi-proof that \<open>from_path_proofs\<close> compresses from honest path proofs verifies
  against the root, with the paths given.  The proof follows one segment of the path
  proofs through the loop and through \<open>verify_range\<close> at once.
\<close>

abbreviation tpath :: "path_proof \<Rightarrow> bits" where
  "tpath pp \<equiv> terminal_path (pp_terminal pp)"

definition ppath :: "path_proof \<Rightarrow> bits" where
  "ppath pp = take (length (pp_siblings pp)) (tpath pp)"

text \<open>A path proof that ends at a terminal of the trie and lists its siblings.\<close>
definition honest_proof :: "node_hasher \<Rightarrow> mtrie \<Rightarrow> path_proof \<Rightarrow> bool" where
  "honest_proof H t pp \<longleftrightarrow> length (pp_siblings pp) \<le> length (tpath pp) \<and>
     subtrie t (ppath pp) = Some (terminal_trie (pp_terminal pp)) \<and>
     pp_siblings pp = path_siblings H t (ppath pp)"

abbreviation honest_proofs :: "node_hasher \<Rightarrow> mtrie \<Rightarrow> path_proof list \<Rightarrow> bool" where
  "honest_proofs H t proofs \<equiv> (\<forall>pp\<in>set proofs. honest_proof H t pp) \<and>
     sorted_wrt (\<lambda>a b. ppath a < ppath b) proofs"

lemma ppath_length: "honest_proof H t pp \<Longrightarrow> length (ppath pp) = length (pp_siblings pp)"
  by (simp add: honest_proof_def ppath_def)

lemma ppath_prefix: "honest_proof H t pp \<Longrightarrow> take (length (ppath pp)) (tpath pp) = ppath pp"
  by (simp add: honest_proof_def ppath_def)

lemma honest_incomparable:
  assumes "honest_proof H t a" "honest_proof H t b" "take (length (ppath a)) (ppath b) = ppath a"
  shows "ppath b = ppath a"
  using assms(1,2) terminal_paths_incomparable[OF _ terminal_trie_terminal _ assms(3)]
  unfolding honest_proof_def by blast

text \<open>Extensions of incomparable lists are ordered like them.\<close>
lemma extension_less:
  fixes x y :: bits
  assumes "x < y" "take (length x) y \<noteq> x" "take (length x) x' = x" "take (length y) y' = y"
  shows "x' < y' \<and> lcp_len x' y' = lcp_len x y \<and> lcp_len x y < length x \<and> lcp_len x y < length y"
  using assms
proof (induction x y arbitrary: x' y' rule: lcp_len.induct)
  case (1 a x b y)
  obtain x'' y'' where x: "x' = a # x''" and y: "y' = b # y''" using "1.prems"(3,4) by (cases x'; cases y') auto
  show ?case
  proof (cases "a = b")
    case True
    then show ?thesis using "1.IH"[OF True, of x'' y''] "1.prems" x y by simp
  qed (use "1.prems" x y in simp)
qed simp_all

lemma honest_order:
  assumes "honest_proof H t a" "honest_proof H t b" "ppath a < ppath b"
  shows "tpath a < tpath b" "shared_bits (tpath a) (tpath b) = shared_bits (ppath a) (ppath b)"
    "shared_bits (ppath a) (ppath b) < length (ppath a)" "shared_bits (ppath a) (ppath b) < length (ppath b)"
proof -
  have "take (length (ppath a)) (ppath b) \<noteq> ppath a"
    using honest_incomparable[OF assms(1,2)] assms(3) by auto
  from extension_less[OF assms(3) this ppath_prefix[OF assms(1)] ppath_prefix[OF assms(2)]]
  show "tpath a < tpath b" "shared_bits (tpath a) (tpath b) = shared_bits (ppath a) (ppath b)"
    "shared_bits (ppath a) (ppath b) < length (ppath a)" "shared_bits (ppath a) (ppath b) < length (ppath b)"
    by (auto simp: shared_bits_lcp)
qed

lemma honest_sorted: "honest_proofs H t proofs \<Longrightarrow> sorted_wrt (\<lambda>a b. tpath a < tpath b) proofs"
  by (rule sorted_wrt_mono_rel[of _ "\<lambda>a b. ppath a < ppath b"]) (auto intro: honest_order(1))


section \<open>One segment\<close>

text \<open>What the loop does after a range is finished.\<close>
definition next_range :: "path_proof list \<Rightarrow> path_proof_range list \<Rightarrow> multi_path_proof list \<Rightarrow> node list
    \<Rightarrow> multi_proof option" where
  "next_range proofs stack paths siblings =
     (case stack of [] \<Rightarrow> Some \<lparr>mp_paths = paths, mp_siblings = siblings\<rparr>
      | r # stack' \<Rightarrow> from_path_proofs_loop proofs r [] stack' paths siblings)"

definition mpp_of :: "path_proof \<Rightarrow> multi_path_proof" where
  "mpp_of pp = \<lparr>mpp_terminal = pp_terminal pp, mpp_depth = length (pp_siblings pp)\<rparr>"

text \<open>The range \<open>lo..hi\<close> at depth \<open>s\<close> contributes its paths and the siblings \<open>T\<close>, from which
  the node \<open>n\<close> is recomputed.\<close>
definition compresses :: "node_hasher \<Rightarrow> path_proof list \<Rightarrow> nat \<Rightarrow> nat \<Rightarrow> nat \<Rightarrow> node list \<Rightarrow> node \<Rightarrow> bool" where
  "compresses H proofs lo hi s T n \<longleftrightarrow>
     (let Q = map mpp_of (take (hi - lo) (drop lo proofs)) in
      (\<forall>stack P S. from_path_proofs_loop proofs \<lparr>ppr_lower = lo, ppr_upper = hi, ppr_bit = s\<rparr> [] stack P S
         = next_range proofs stack (P @ Q) (S @ T)) \<and>
      (\<forall>rest off. \<exists>rr. verify_range H s Q (T @ rest) off = Some rr \<and> rr_node rr = n \<and> rr_used rr = length T))"

lemma compresses_single:
  assumes pp: "honest_proof H t pp" "lo < length proofs" "proofs ! lo = pp"
    and p: "subtrie t p = Some u" "take (length p) (ppath pp) = p"
  shows "compresses H proofs lo (Suc lo) (length p) (drop (length p) (pp_siblings pp)) (node_hash H u)"
proof -
  define x where "x = drop (length p) (ppath pp)"
  have px: "ppath pp = p @ x" using p(2) append_take_drop_id[of "length p" "ppath pp"] by (simp add: x_def)
  have sibs: "pp_siblings pp = path_siblings H t p @ path_siblings H u x"
    using pp(1) px by (simp add: honest_proof_def path_siblings_append[OF p(1)])
  have w: "subtrie u x = Some (terminal_trie (pp_terminal pp))"
    using pp(1) px p(1) by (simp add: honest_proof_def subtrie_append)
  have len: "length (path_siblings H t p) = length p" "length (path_siblings H u x) = length x"
    by (rule path_siblings_length[OF p(1)], rule path_siblings_length[OF w])
  have T: "drop (length p) (pp_siblings pp) = path_siblings H u x" using len sibs by simp
  have seg: "take (Suc lo - lo) (drop lo proofs) = [pp]"
    using pp(2,3) by (simp add: Suc_diff_le take_Suc_conv_app_nth)
  have node: "terminal_node H (pp_terminal pp) = node_hash H (terminal_trie (pp_terminal pp))"
    by (cases "pp_terminal pp") auto
  have "from_path_proofs_loop proofs \<lparr>ppr_lower = lo, ppr_upper = Suc lo, ppr_bit = length p\<rparr> [] stack P S
      = next_range proofs stack (P @ [mpp_of pp]) (S @ path_siblings H u x)" for stack P S
    using pp(2,3) T len
    by (subst from_path_proofs_loop.simps)
       (simp add: prove_unique_path_remainder_def sub_checked_def get_at_def next_range_def mpp_of_def Let_def sibs
          split: list.splits)
  moreover have "\<exists>rr. verify_range H (length p) [mpp_of pp] (path_siblings H u x @ rest) off = Some rr \<and>
      rr_node rr = node_hash H u \<and> rr_used rr = length (path_siblings H u x)" for rest off
  proof -
    have d: "length (pp_siblings pp) = length p + length x" using sibs len by simp
    have sl: "slice_of (tpath pp) (length p) (length p + length x) = Some x"
    proof -
      have "take (length p + length x) (tpath pp) = p @ x" using ppath_prefix[OF pp(1)] px by simp
      moreover have "length p + length x \<le> length (tpath pp)" using pp(1) d by (simp add: honest_proof_def)
      ultimately show ?thesis
        by (simp add: slice_eq_Some) (metis append_eq_conv_conj drop_take add_diff_cancel_left')
    qed
    have "path_root H (node_hash H (terminal_trie (pp_terminal pp))) x (path_siblings H u x) = node_hash H u"
      by (rule path_root_complete[OF w])
    moreover have "slice_of (path_siblings H u x @ rest) 0 (length x) = Some (path_siblings H u x)"
      using len(2) by (simp add: slice_eq_Some)
    ultimately show ?thesis using len d sl by (simp add: mpp_of_def sub_checked_def node hash_path_root Let_def)
  qed
  ultimately show ?thesis by (simp only: compresses_def seg T list.map Let_def) blast
qed

lemma not_unique:
  assumes "Suc lo < hi"
  shows "prove_unique_path_remainder \<lparr>ppr_lower = lo, ppr_upper = hi, ppr_bit = s\<rparr> proofs = Some None"
proof -
  have "lo \<noteq> hi - Suc 0" "1 \<le> hi" using assms by auto
  thus ?thesis by (simp add: prove_unique_path_remainder_def sub_checked_def)
qed

text \<open>While all paths of a range agree, the loop collects the siblings of the first one.\<close>
lemma loop_advances:
  assumes lo: "Suc lo < hi" "hi \<le> length proofs" and s: "s \<le> c"
    and eq: "take c (tpath (proofs ! lo)) = take c (tpath (proofs ! (hi - 1)))"
    and c: "c \<le> length (pp_siblings (proofs ! lo))" "c \<le> length (tpath (proofs ! lo))"
      "c \<le> length (tpath (proofs ! (hi - 1)))"
  shows "from_path_proofs_loop proofs \<lparr>ppr_lower = lo, ppr_upper = hi, ppr_bit = s\<rparr> common stack P S =
    from_path_proofs_loop proofs \<lparr>ppr_lower = lo, ppr_upper = hi, ppr_bit = c\<rparr>
      (common @ take (c - s) (drop s (pp_siblings (proofs ! lo)))) stack P S"
  using s
proof (induction "c - s" arbitrary: s common)
  case (Suc d)
  hence sc: "s < c" by simp
  have "tpath (proofs ! lo) ! s = tpath (proofs ! (hi - 1)) ! s"
    using arg_cong[OF eq, of "\<lambda>xs. xs ! s"] sc by simp
  hence "range_step \<lparr>ppr_lower = lo, ppr_upper = hi, ppr_bit = s\<rparr> proofs =
      Some (RAdvance (pp_siblings (proofs ! lo) ! s) \<lparr>ppr_lower = lo, ppr_upper = hi, ppr_bit = Suc s\<rparr>)"
    using lo c sc by (simp add: range_step_def get_at_def sub_checked_def)
  hence "from_path_proofs_loop proofs \<lparr>ppr_lower = lo, ppr_upper = hi, ppr_bit = s\<rparr> common stack P S =
      from_path_proofs_loop proofs \<lparr>ppr_lower = lo, ppr_upper = hi, ppr_bit = Suc s\<rparr>
        (common @ [pp_siblings (proofs ! lo) ! s]) stack P S"
    by (subst from_path_proofs_loop.simps) (simp add: not_unique[OF lo(1)])
  moreover have "take (c - s) (drop s (pp_siblings (proofs ! lo))) =
      pp_siblings (proofs ! lo) ! s # take (c - Suc s) (drop (Suc s) (pp_siblings (proofs ! lo)))"
    using sc c(1) by (simp add: Cons_nth_drop_Suc[symmetric] take_Cons')
  ultimately show ?case using Suc.hyps(1)[of "Suc s"] Suc.hyps(2) sc by simp
qed simp

lemma loop_bisects:
  assumes lo: "Suc lo < hi" "hi \<le> length proofs"
    and c: "c < length (tpath (proofs ! lo))" "c < length (tpath (proofs ! (hi - 1)))"
    and bits: "tpath (proofs ! lo) ! c \<noteq> tpath (proofs ! (hi - 1)) ! c"
    and i: "binary_search_by_opt (\<lambda>pp. map_option (\<lambda>b. if \<not> b then Less else Greater) (get_at (tpath pp) c))
      (take (hi - lo) (drop lo proofs)) = Some (Inl i)"
  shows "from_path_proofs_loop proofs \<lparr>ppr_lower = lo, ppr_upper = hi, ppr_bit = c\<rparr> common stack P S =
    from_path_proofs_loop proofs \<lparr>ppr_lower = lo, ppr_upper = lo + i, ppr_bit = Suc c\<rparr> []
      (\<lparr>ppr_lower = lo + i, ppr_upper = hi, ppr_bit = Suc c\<rparr> # stack) P (S @ common)"
proof -
  have "range_step \<lparr>ppr_lower = lo, ppr_upper = hi, ppr_bit = c\<rparr> proofs =
      Some (RBisect \<lparr>ppr_lower = lo, ppr_upper = lo + i, ppr_bit = Suc c\<rparr>
                    \<lparr>ppr_lower = lo + i, ppr_upper = hi, ppr_bit = Suc c\<rparr>)"
  proof -
    have "hi - Suc 0 < length proofs" "lo < length proofs" "1 \<le> hi" using lo by auto
    thus ?thesis using lo c bits i by (simp add: range_step_def slice_simps Let_def)
  qed
  thus ?thesis by (subst from_path_proofs_loop.simps) (simp add: not_unique[OF lo(1)])
qed

lemma verify_range_bisectI:
  assumes "qs = q1 # q2 # qs'" "cb = shared_bits (drop s (mpath q1)) (drop s (mpath (last qs)))"
    and "s + cb \<le> length (mpath q1)" "s \<le> length (mpath (last qs))"
    and "binary_search_by_opt (\<lambda>q. map_option (\<lambda>b. if \<not> b then Less else Greater)
       (get_at (mpath q) (s + cb))) qs = Some (Inl i)"
    and "verify_range H (Suc (s + cb)) (take i qs) (drop cb sibs) (off + cb) = Some l"
    and "verify_range H (Suc (s + cb)) (drop i qs) (drop (cb + rr_used l) sibs) (off + cb + rr_used l) = Some r"
    and "cb + rr_used l \<le> length sibs"
  shows "verify_range H s qs sibs off =
    Some (bisection_result H s off cb (take cb (drop s (mpath q1))) (take cb sibs) l r)"
proof -
  have "slice_of (mpath q1) s (length (mpath q1)) = Some (drop s (mpath q1))"
    "slice_of (mpath (last qs)) s (length (mpath (last qs))) = Some (drop s (mpath (last qs)))"
    "slice_of sibs cb (length sibs) = Some (drop cb sibs)"
    "slice_of sibs (cb + rr_used l) (length sibs) = Some (drop (cb + rr_used l) sibs)"
    "slice_of (mpath q1) s (s + cb) = Some (take cb (drop s (mpath q1)))"
    "slice_of sibs 0 cb = Some (take cb sibs)"
    using assms(3,4,8) by (simp_all add: slice_eq_Some)
  with assms(5-7) show ?thesis
    unfolding assms(1) by (simp add: verify_range.simps(3) Let_def assms(2)[symmetric, unfolded assms(1)]
      bisection_result_def del: last.simps take_Cons_numeral)
qed

text \<open>Two segments side by side below a common path.\<close>
lemma verify_range_joins:
  assumes Q: "Ql \<noteq> []" "Qr \<noteq> []" and srt: "sorted_wrt (\<lambda>x y. mpath x < mpath y) (Ql @ Qr)"
    and pl: "\<forall>q\<in>set Ql. take (Suc (length (p @ cp))) (mpath q) = p @ cp @ [False]"
    and pr: "\<forall>q\<in>set Qr. take (Suc (length (p @ cp))) (mpath q) = p @ cp @ [True]"
    and l: "\<And>rest off. \<exists>rr. verify_range H (Suc (length (p @ cp))) Ql (Tl @ rest) off = Some rr \<and>
      rr_node rr = nl \<and> rr_used rr = length Tl"
    and r: "\<And>rest off. \<exists>rr. verify_range H (Suc (length (p @ cp))) Qr (Tr @ rest) off = Some rr \<and>
      rr_node rr = nr \<and> rr_used rr = length Tr"
    and T: "length T = length cp"
  shows "\<exists>rr. verify_range H (length p) (Ql @ Qr) ((T @ Tl @ Tr) @ rest) off = Some rr \<and>
    rr_node rr = path_root H (hash_internal H \<lparr>left = nl, right = nr\<rparr>) cp T \<and>
    rr_used rr = length (T @ Tl @ Tr)"
proof -
  let ?Q = "Ql @ Qr" and ?s = "length p" and ?c = "length (p @ cp)"
  obtain q1 q2 Q' where q: "?Q = q1 # q2 # Q'" using Q by (cases Ql; cases Qr; cases "tl Ql") auto
  have in1: "q1 \<in> set Ql" using q Q(1) by (cases Ql) auto
  have inL: "last ?Q \<in> set Qr" using Q(2) by simp
  have ext: "\<exists>y. mpath x = p @ cp @ b # y" if "take (Suc ?c) (mpath x) = p @ cp @ [b]" for x b
    using append_take_drop_id[of "Suc ?c" "mpath x", unfolded that] by (metis append.assoc append_Cons append_Nil)
  obtain y z where y: "mpath q1 = p @ cp @ False # y" and z: "mpath (last ?Q) = p @ cp @ True # z"
    using ext[of q1 False] ext[of "last ?Q" True] pl pr in1 inL by blast
  have sb: "shared_bits (drop ?s (mpath q1)) (drop ?s (mpath (last ?Q))) = length cp"
    unfolding y z by (simp add: shared_bits_lcp) (rule lcp_len_eqI, simp_all)
  obtain i where i: "binary_search_by_opt (\<lambda>x. map_option (\<lambda>b. if \<not> b then Less else Greater)
      (get_at (mpath x) ?c)) ?Q = Some (Inl i)" "0 < i" "i < length ?Q"
    "\<forall>x\<in>set (take i ?Q). take (Suc ?c) (mpath x) = take ?c (mpath q1) @ [False] \<and> ?c < length (mpath x)"
    "\<forall>x\<in>set (drop i ?Q). take (Suc ?c) (mpath x) = take ?c (mpath q1) @ [True] \<and> ?c < length (mpath x)"
    by (rule range_parts[OF srt q, of ?s ?c]) (use sb y z in auto)
  have tk: "take ?c (mpath q1) = p @ cp" by (simp add: y)
  have "i = length Ql"
  proof (rule linorder_cases[of i "length Ql"])
    assume lt: "i < length Ql"
    hence "Ql ! i \<in> set (drop i ?Q)" by (simp add: drop_Cons' Cons_nth_drop_Suc[symmetric])
    hence "p @ cp @ [False] = p @ cp @ [True]" using i(5) pl lt tk by (metis append.assoc nth_mem)
    thus ?thesis by simp
  next
    assume gt: "length Ql < i"
    have "hd Qr \<in> set (take i ?Q)" using gt Q(2) by (cases Qr) (auto simp: take_Cons')
    moreover have "hd Qr \<in> set Qr" using Q(2) by simp
    ultimately have "p @ cp @ [False] = p @ cp @ [True]" using i(4) pr tk by (metis append.assoc)
    thus ?thesis by simp
  qed
  with i(1) have found: "binary_search_by_opt (\<lambda>x. map_option (\<lambda>b. if \<not> b then Less else Greater)
      (get_at (mpath x) ?c)) ?Q = Some (Inl (length Ql))" by simp
  obtain rl where rl: "verify_range H (Suc ?c) Ql (Tl @ Tr @ rest) (off + length cp) = Some rl"
    "rr_node rl = nl" "rr_used rl = length Tl" using l by blast
  obtain rr where rr: "verify_range H (Suc ?c) Qr (Tr @ rest) (off + length cp + length Tl) = Some rr"
    "rr_node rr = nr" "rr_used rr = length Tr" using r by blast
  have "verify_range H ?s ?Q ((T @ Tl @ Tr) @ rest) off =
      Some (bisection_result H ?s off (length cp) (take (length cp) (drop ?s (mpath q1)))
        (take (length cp) ((T @ Tl @ Tr) @ rest)) rl rr)"
    by (rule verify_range_bisectI[OF q sb[symmetric], where i = "length Ql"])
       (use found rl rr T y z in auto)
  thus ?thesis using T y rl rr by (simp add: bisection_result_def Let_def hash_path_root)
qed

lemma lcp_len_drop:
  "take s x = take s y \<Longrightarrow> s \<le> length x \<Longrightarrow> s \<le> length y \<Longrightarrow> lcp_len x y = s + lcp_len (drop s x) (drop s y)"
proof (induction s arbitrary: x y)
  case (Suc s)
  then show ?case by (cases x; cases y) auto
qed simp

lemma mpath_mpp_of [simp]: "mpath (mpp_of pp) = tpath pp"
  by (simp add: mpp_of_def)

text \<open>Within a range of honest proofs, a position reaches below where the range parts.\<close>
lemma honest_long:
  assumes "honest_proof H t x" "honest_proof H t a" "take c (tpath x) = take c (tpath a)" "c < length (ppath a)"
  shows "c < length (ppath x)"
proof (rule ccontr)
  assume "\<not> c < length (ppath x)"
  hence le: "length (ppath x) \<le> c" by simp
  have "ppath x = take (length (ppath x)) (take c (tpath x))"
    using ppath_prefix[OF assms(1)] le by (simp add: min_absorb1)
  also have "\<dots> = take (length (ppath x)) (take (length (ppath a)) (tpath a))"
    using assms(3,4) le by (simp add: min_absorb1)
  finally have "take (length (ppath x)) (ppath a) = ppath x" using ppath_prefix[OF assms(2)] by simp
  from honest_incomparable[OF assms(1,2) this] assms(4) le show False by simp
qed

lemma compresses_join:
  assumes lo: "Suc lo < hi" "hi \<le> length proofs" and i: "0 < i" "i < hi - lo"
    and seg: "seg = take (hi - lo) (drop lo proofs)"
    and loop: "\<And>stack P S. from_path_proofs_loop proofs \<lparr>ppr_lower = lo, ppr_upper = hi, ppr_bit = length p\<rparr> [] stack P S =
      from_path_proofs_loop proofs \<lparr>ppr_lower = lo, ppr_upper = lo + i, ppr_bit = Suc (length (p @ cp))\<rparr> []
        (\<lparr>ppr_lower = lo + i, ppr_upper = hi, ppr_bit = Suc (length (p @ cp))\<rparr> # stack) P (S @ T)"
    and l: "compresses H proofs lo (lo + i) (Suc (length (p @ cp))) Tl nl"
    and r: "compresses H proofs (lo + i) hi (Suc (length (p @ cp))) Tr nr"
    and srt: "sorted_wrt (\<lambda>x y. tpath x < tpath y) seg" and T: "length T = length cp"
    and pl: "\<forall>x\<in>set (take i seg). take (Suc (length (p @ cp))) (tpath x) = p @ cp @ [False]"
    and pr: "\<forall>x\<in>set (drop i seg). take (Suc (length (p @ cp))) (tpath x) = p @ cp @ [True]"
  shows "compresses H proofs lo hi (length p) (T @ Tl @ Tr)
    (path_root H (hash_internal H \<lparr>left = nl, right = nr\<rparr>) cp T)"
proof -
  have segs: "take (lo + i - lo) (drop lo proofs) = take i seg"
    "take (hi - (lo + i)) (drop (lo + i) proofs) = drop i seg"
    using i by (simp_all add: seg min_def drop_take add.commute)
  let ?Ql = "map mpp_of (take i seg)" and ?Qr = "map mpp_of (drop i seg)"
  have len: "length seg = hi - lo" using lo by (simp add: seg)
  have Q: "?Ql @ ?Qr = map mpp_of seg" by (simp flip: map_append)
  have "sorted_wrt (\<lambda>x y. mpath x < mpath y) (?Ql @ ?Qr)" unfolding Q using srt by (simp add: sorted_wrt_map)
  note l' = l[unfolded compresses_def segs Let_def] and r' = r[unfolded compresses_def segs Let_def]
  have "\<exists>rr. verify_range H (length p) (?Ql @ ?Qr) ((T @ Tl @ Tr) @ rest) off = Some rr \<and>
      rr_node rr = path_root H (hash_internal H \<lparr>left = nl, right = nr\<rparr>) cp T \<and>
      rr_used rr = length (T @ Tl @ Tr)" for rest off
    by (rule verify_range_joins[OF _ _ \<open>sorted_wrt _ (?Ql @ ?Qr)\<close>])
       (use l' r' pl pr T i len in auto)
  moreover have "from_path_proofs_loop proofs \<lparr>ppr_lower = lo, ppr_upper = hi, ppr_bit = length p\<rparr> [] stack P S
      = next_range proofs stack (P @ (?Ql @ ?Qr)) (S @ T @ Tl @ Tr)" for stack P S
    using l' r' by (simp add: loop next_range_def[of proofs "_ # _"])
  ultimately show ?thesis unfolding Q compresses_def seg[symmetric] Let_def by blast
qed

text \<open>The end paths of a range of honest proofs part at some depth below the range.\<close>
lemma honest_ends:
  assumes ha: "honest_proof H t a" and hz: "honest_proof H t z" and az: "ppath a < ppath z"
    and pa: "take (length p) (ppath a) = p" "take (length p) (ppath z) = p"
  obtains cp where "length (p @ cp) < length (ppath a)" "length (p @ cp) < length (ppath z)"
    "take (length (p @ cp)) (tpath a) = p @ cp" "take (length (p @ cp)) (tpath z) = p @ cp"
    "length (p @ cp) = length p + shared_bits (drop (length p) (tpath a)) (drop (length p) (tpath z))"
proof -
  let ?s = "length p"
  define c where "c = shared_bits (ppath a) (ppath z)"
  note ord = honest_order[OF ha hz az, folded c_def]
  have sl: "?s \<le> length (ppath a)" "?s \<le> length (ppath z)" using pa by (metis length_take min.cobounded1)+
  have sc: "?s \<le> c" using lcp_len_ge[OF sl] pa by (simp add: c_def shared_bits_lcp)
  have tk: "take k (tpath x) = take k (ppath x)" if "honest_proof H t x" "k \<le> length (ppath x)" for x k
    using ppath_prefix[OF that(1)] that(2) by (metis min.absorb1 take_take)
  have tkc: "take c (ppath a) = take c (ppath z)" unfolding c_def shared_bits_lcp by (rule lcp_len_take)
  have tlen: "length (ppath a) \<le> length (tpath a)" "length (ppath z) \<le> length (tpath z)"
    by (simp_all add: ppath_def)
  define cp where "cp = drop ?s (take c (ppath a))"
  have pc: "take c (ppath a) = p @ cp" using pa(1) sc append_take_drop_id[of ?s "take c (ppath a)"]
    by (simp add: cp_def min_absorb1)
  hence cl: "c = length (p @ cp)" using ord(3) by (metis length_take less_imp_le min.absorb2)
  have sb: "shared_bits (tpath a) (tpath z) = ?s + shared_bits (drop ?s (tpath a)) (drop ?s (tpath z))"
    unfolding shared_bits_lcp
    by (rule lcp_len_drop) (use sl tlen tk[OF ha sl(1)] tk[OF hz sl(2)] pa in auto)
  show ?thesis
    by (rule that[of cp, folded cl]) (use ord sb tk[OF ha, of c] tk[OF hz, of c] pc tkc in auto)
qed

lemma honest_range_parts:
  assumes hp: "honest_proofs H t proofs" and lo: "Suc lo < hi" "hi \<le> length proofs"
    and p: "\<forall>j. lo \<le> j \<and> j < hi \<longrightarrow> take (length p) (ppath (proofs ! j)) = p"
    and seg: "seg = take (hi - lo) (drop lo proofs)"
  obtains cp i where "0 < i" "i < hi - lo"
    "length (p @ cp) < length (ppath (proofs ! lo))" "length (p @ cp) < length (ppath (proofs ! (hi - 1)))"
    "take (length (p @ cp)) (tpath (proofs ! lo)) = p @ cp"
    "take (length (p @ cp)) (tpath (proofs ! (hi - 1))) = p @ cp"
    "binary_search_by_opt (\<lambda>pp. map_option (\<lambda>b. if \<not> b then Less else Greater)
       (get_at (tpath pp) (length (p @ cp)))) seg = Some (Inl i)"
    "\<forall>x\<in>set (take i seg). take (Suc (length (p @ cp))) (tpath x) = p @ cp @ [False] \<and>
       length (p @ cp) < length (ppath x)"
    "\<forall>x\<in>set (drop i seg). take (Suc (length (p @ cp))) (tpath x) = p @ cp @ [True] \<and>
       length (p @ cp) < length (ppath x)"
proof -
  let ?a = "proofs ! lo" and ?z = "proofs ! (hi - 1)"
  have ha: "honest_proof H t ?a" and hz: "honest_proof H t ?z" using hp lo by auto
  have az: "ppath ?a < ppath ?z"
    using sorted_wrt_nth_less[OF conjunct2[OF hp], of lo "hi - 1"] lo by simp
  obtain cp where cp: "length (p @ cp) < length (ppath ?a)" "length (p @ cp) < length (ppath ?z)"
    "take (length (p @ cp)) (tpath ?a) = p @ cp" "take (length (p @ cp)) (tpath ?z) = p @ cp"
    "length (p @ cp) = length p + shared_bits (drop (length p) (tpath ?a)) (drop (length p) (tpath ?z))"
    by (rule honest_ends[OF ha hz az, of p]) (use p lo in auto)
  have seglen: "length seg = hi - lo" using lo by (simp add: seg)
  have segn: "seg ! j = proofs ! (lo + j)" if "j < hi - lo" for j using that lo by (simp add: seg)
  have srt: "sorted_wrt (\<lambda>x y. tpath x < tpath y) seg"
    unfolding seg by (intro sorted_wrt_take sorted_wrt_drop honest_sorted[OF hp])
  obtain x2 xs where sx: "seg = ?a # x2 # xs"
    using seglen segn[of 0] lo by (cases seg rule: list_cases2) auto
  have "seg \<noteq> []" using sx by simp
  hence lastz: "last seg = ?z" using seglen segn[of "hi - lo - 1"] lo by (simp add: last_conv_nth)
  have tlen: "length (ppath x) \<le> length (tpath x)" for x by (simp add: ppath_def)
  have pre: "take (length p) (tpath ?a) = take (length p) (tpath (last seg))"
    using arg_cong[OF cp(3), of "take (length p)"] arg_cong[OF cp(4), of "take (length p)"] by (simp add: lastz)
  obtain i where i: "binary_search_by_opt (\<lambda>pp. map_option (\<lambda>b. if \<not> b then Less else Greater)
       (get_at (tpath pp) (length (p @ cp)))) seg = Some (Inl i)" "0 < i" "i < length seg"
    "\<forall>x\<in>set (take i seg). take (Suc (length (p @ cp))) (tpath x) =
       take (length (p @ cp)) (tpath ?a) @ [False] \<and> length (p @ cp) < length (tpath x)"
    "\<forall>x\<in>set (drop i seg). take (Suc (length (p @ cp))) (tpath x) =
       take (length (p @ cp)) (tpath ?a) @ [True] \<and> length (p @ cp) < length (tpath x)"
    by (rule range_parts[OF srt sx pre, of "length (p @ cp)"])
       (use cp tlen[of ?a] tlen[of ?z] lastz in auto)
  have long: "length (p @ cp) < length (ppath x)"
    if "x \<in> set seg" "take (Suc (length (p @ cp))) (tpath x) = p @ cp @ [b]" for x b
  proof (rule honest_long[OF _ ha _ cp(1)])
    show "honest_proof H t x" using that(1) hp by (auto simp: seg dest!: in_set_takeD in_set_dropD)
    show "take (length (p @ cp)) (tpath x) = take (length (p @ cp)) (tpath ?a)"
      using arg_cong[OF that(2), of "take (length (p @ cp))"] cp(3) by simp
  qed
  show ?thesis
  proof (rule that[of i cp])
    show "\<forall>x\<in>set (take i seg). take (Suc (length (p @ cp))) (tpath x) = p @ cp @ [False] \<and>
       length (p @ cp) < length (ppath x)"
      using i(4) cp(3) long[OF in_set_takeD] by (metis append.assoc)
    show "\<forall>x\<in>set (drop i seg). take (Suc (length (p @ cp))) (tpath x) = p @ cp @ [True] \<and>
       length (p @ cp) < length (ppath x)"
      using i(5) cp(3) long[OF in_set_dropD] by (metis append.assoc)
  qed (use i cp seglen in auto)
qed

lemma compresses_segment:
  assumes hp: "honest_proofs H t proofs" and "lo < hi" "hi \<le> length proofs"
    and "subtrie t p = Some u" "\<forall>j. lo \<le> j \<and> j < hi \<longrightarrow> take (length p) (ppath (proofs ! j)) = p"
  shows "\<exists>T. compresses H proofs lo hi (length p) T (node_hash H u)"
  using assms(2-)
proof (induction "hi - lo" arbitrary: lo hi p u rule: less_induct)
  case less
  have hon: "honest_proof H t (proofs ! j)" if "j < hi" for j using hp less.prems(2) that by auto
  show ?case
  proof (cases "hi = Suc lo")
    case True
    then show ?thesis
      using compresses_single[OF hon _ refl less.prems(3), of lo] less.prems by auto
  next
    case False
    hence lo: "Suc lo < hi" using less.prems(1) by simp
    let ?a = "proofs ! lo" and ?z = "proofs ! (hi - 1)" and ?seg = "take (hi - lo) (drop lo proofs)"
    obtain cp i where *: "0 < i" "i < hi - lo"
      "length (p @ cp) < length (ppath ?a)" "length (p @ cp) < length (ppath ?z)"
      "take (length (p @ cp)) (tpath ?a) = p @ cp" "take (length (p @ cp)) (tpath ?z) = p @ cp"
      "binary_search_by_opt (\<lambda>pp. map_option (\<lambda>b. if \<not> b then Less else Greater)
         (get_at (tpath pp) (length (p @ cp)))) ?seg = Some (Inl i)"
      "\<forall>x\<in>set (take i ?seg). take (Suc (length (p @ cp))) (tpath x) = p @ cp @ [False] \<and>
         length (p @ cp) < length (ppath x)"
      "\<forall>x\<in>set (drop i ?seg). take (Suc (length (p @ cp))) (tpath x) = p @ cp @ [True] \<and>
         length (p @ cp) < length (ppath x)"
      by (rule honest_range_parts[OF hp lo less.prems(2,4) refl])
    let ?c = "length (p @ cp)"
    have tlen: "length (ppath x) \<le> length (tpath x)" for x by (simp add: ppath_def)
    have mem: "proofs ! j \<in> set (take i ?seg)" if "lo \<le> j" "j < lo + i" for j
    proof -
      have "take i ?seg ! (j - lo) = proofs ! j" "j - lo < length (take i ?seg)" using that *(2) less.prems(2) by auto
      thus ?thesis by (metis nth_mem)
    qed
    have mem': "proofs ! j \<in> set (drop i ?seg)" if "lo + i \<le> j" "j < hi" for j
    proof -
      have "drop i ?seg ! (j - lo - i) = proofs ! j" "j - lo - i < length (drop i ?seg)"
        using that *(2) less.prems(2) by auto
      thus ?thesis by (metis nth_mem)
    qed
    have pos: "take (Suc ?c) (ppath x) = p @ cp @ [b]"
      if "honest_proof H t x" "take (Suc ?c) (tpath x) = p @ cp @ [b]" "?c < length (ppath x)" for x b
      using ppath_prefix[OF that(1)] that(2,3) by (metis Suc_leI min.absorb1 take_take)
    have pa: "take (Suc ?c) (ppath ?a) = p @ cp @ [False]"
      using pos[OF hon[of lo]] *(8) mem[of lo] *(1) lo by auto
    then obtain y where y: "ppath ?a = p @ cp @ False # y"
      using append_take_drop_id[of "Suc ?c" "ppath ?a"] by (metis append.assoc append_Cons append_Nil)
    obtain w where w: "subtrie u cp = Some w" "subtrie w (False # y) \<noteq> None"
      using hon[of lo] lo less.prems(3)
      by (auto simp: honest_proof_def y subtrie_append bind_eq_Some_conv)
    obtain l r where lr: "w = MInt l r" using w(2) by (cases w) auto
    have sub: "subtrie t (p @ cp @ [False]) = Some l" "subtrie t (p @ cp @ [True]) = Some r"
      using less.prems(3) w(1) lr by (simp_all add: subtrie_append)
    have "\<exists>T. compresses H proofs lo (lo + i) (length (p @ cp @ [False])) T (node_hash H l)"
      by (rule less.hyps[OF _ _ _ sub(1)]) (use * mem pos hon less.prems(2) in auto)
    then obtain Tl where Tl: "compresses H proofs lo (lo + i) (Suc ?c) Tl (node_hash H l)" by auto
    have "\<exists>T. compresses H proofs (lo + i) hi (length (p @ cp @ [True])) T (node_hash H r)"
      by (rule less.hyps[OF _ _ _ sub(2)]) (use * mem' pos hon less.prems(2) in auto)
    then obtain Tr where Tr: "compresses H proofs (lo + i) hi (Suc ?c) Tr (node_hash H r)" by auto
    let ?T = "path_siblings H u cp"
    have len: "length ?T = length cp" by (rule path_siblings_length[OF w(1)])
    have sib: "take (?c - length p) (drop (length p) (pp_siblings ?a)) = ?T"
      using hon[of lo] lo path_siblings_length[OF less.prems(3), of H] len
      by (simp add: honest_proof_def y path_siblings_append[OF less.prems(3)] path_siblings_append[OF w(1)])
    have bit: "tpath x ! ?c = b" if "take (Suc ?c) (tpath x) = p @ cp @ [b]" for x b
      using arg_cong[OF that, of "\<lambda>xs. xs ! ?c"] by (simp add: nth_append)
    have bits: "tpath ?a ! ?c = False" "tpath ?z ! ?c = True"
      using bit[of ?a False] bit[of ?z True] *(8,9) mem[of lo] mem'[of "hi - 1"] *(1,2) lo by auto
    have c: "?c < length (tpath ?a)" "?c < length (tpath ?z)" "?c \<le> length (pp_siblings ?a)"
      using *(3,4) tlen[of ?a] tlen[of ?z] ppath_length[OF hon[of lo]] lo by auto
    have "from_path_proofs_loop proofs \<lparr>ppr_lower = lo, ppr_upper = hi, ppr_bit = length p\<rparr> [] stack P S =
        from_path_proofs_loop proofs \<lparr>ppr_lower = lo, ppr_upper = lo + i, ppr_bit = Suc ?c\<rparr> []
          (\<lparr>ppr_lower = lo + i, ppr_upper = hi, ppr_bit = Suc ?c\<rparr> # stack) P (S @ ?T)" for stack P S
      using loop_advances[OF lo less.prems(2), of "length p" ?c "[]"]
        loop_bisects[OF lo less.prems(2) c(1,2) _ *(7)] *(5,6) c bits sib
      by simp
    from compresses_join[OF lo less.prems(2) *(1,2) refl this Tl Tr _ len]
    have "compresses H proofs lo hi (length p) (?T @ Tl @ Tr)
        (path_root H (node_hash H w) cp ?T)"
      using *(8,9) sorted_wrt_take[OF sorted_wrt_drop[OF honest_sorted[OF hp]]] lr by simp
    thus ?thesis unfolding path_root_complete[OF w(1)] by blast
  qed
qed

section \<open>Completeness\<close>

lemma verify_range_terminals:
  assumes "verify_range H s qs sibs off = Some rr" "qs \<noteq> []"
    "sorted_wrt (\<lambda>x y. mpath x < mpath y) qs" "\<forall>q\<in>set qs. take s (mpath q) = p"
  shows "map (\<lambda>v. (vmp_terminal v, vmp_depth v)) (rr_paths rr) = map (\<lambda>q. (mpp_terminal q, mpp_depth q)) qs"
  using assms
proof (induction "length qs" arbitrary: qs s sibs off rr p rule: less_induct)
  case less
  show ?case
  proof (cases "2 \<le> length qs")
    case True
    from verify_range_parts[OF less.prems(1) True less.prems(3,4)] obtain i l r cp where *:
      "0 < i" "i < length qs"
      "verify_range H (Suc (s + length cp)) (take i qs) (drop (length cp) sibs) (off + length cp) = Some l"
      "verify_range H (Suc (s + length cp)) (drop i qs) (drop (length cp + rr_used l) sibs)
         (off + length cp + rr_used l) = Some r"
      "rr = bisection_result H s off (length cp) cp (take (length cp) sibs) l r"
      "\<forall>q\<in>set (take i qs). take (Suc (s + length cp)) (mpath q) = p @ cp @ [False]"
      "\<forall>q\<in>set (drop i qs). take (Suc (s + length cp)) (mpath q) = p @ cp @ [True]" .
    have "map (\<lambda>v. (vmp_terminal v, vmp_depth v)) (rr_paths l) = map (\<lambda>q. (mpp_terminal q, mpp_depth q)) (take i qs)"
      by (rule less.hyps[OF _ *(3) _ sorted_wrt_take[OF less.prems(3)] *(6)]) (use *(1,2) in auto)
    moreover have "map (\<lambda>v. (vmp_terminal v, vmp_depth v)) (rr_paths r) = map (\<lambda>q. (mpp_terminal q, mpp_depth q)) (drop i qs)"
      by (rule less.hyps[OF _ *(4) _ sorted_wrt_drop[OF less.prems(3)] *(7)]) (use *(1,2) in auto)
    moreover have "rr_paths rr = rr_paths l @ rr_paths r" using *(5) by (simp add: bisection_result_def Let_def)
    ultimately show ?thesis by (simp add: take_map[symmetric] drop_map[symmetric])
  next
    case False
    then obtain q where "qs = [q]" using less.prems(2) by (cases qs rule: list_cases2) auto
    then show ?thesis using less.prems(1) by (auto simp: bind_eq_Some_conv Let_def)
  qed
qed

lemma verified_honest:
  assumes H: "node_hasher_laws H" and v: "path_proof_verify H pp (tpath pp) (node_hash H t) = Inr vp"
    and b: "proof_binding H t pp (tpath pp)"
  shows "honest_proof H t pp"
proof -
  have vp: "vp_in_trie H t vp" using verify_in_trie[OF H v b] by simp
  moreover have "vp_key_path vp = ppath pp" "vp_terminal vp = as_leaf_option (pp_terminal pp)"
    "vp_siblings vp = pp_siblings pp" "length (pp_siblings pp) \<le> length (tpath pp)"
    using v by (auto simp: path_proof_verify_def Let_def ppath_def split: if_splits)
  ultimately show ?thesis
    by (cases "pp_terminal pp") (auto simp: vp_in_trie_def honest_proof_def)
qed

text \<open>C6: compressing path proofs loses nothing.  If
  every one of some path proofs verifies against the root for its own path (the hash being
  collision free there) and their positions ascend, then \<open>from_path_proofs\<close> returns a
  multi-proof, which verifies against the same root, with the same terminals at the same
  depths.\<close>
theorem multi_proof_complete:
  assumes "node_hasher_laws H" "proofs \<noteq> []"
    and "\<forall>pp\<in>set proofs. (\<exists>vp. path_proof_verify H pp (tpath pp) (trie_root H kvs) = Inr vp) \<and>
      proof_binding H (mk_trie 0 kvs) pp (tpath pp)"
    and "sorted_wrt (\<lambda>a b. ppath a < ppath b) proofs"
  shows "\<exists>mp vm. from_path_proofs proofs = Some mp \<and>
    multi_proof_verify H mp (trie_root H kvs) = Some (Inr vm) \<and>
    map (\<lambda>v. (vmp_terminal v, vmp_depth v)) (vm_inner vm) =
      map (\<lambda>pp. (pp_terminal pp, length (pp_siblings pp))) proofs"
proof -
  let ?t = "mk_trie 0 kvs" and ?Q = "map mpp_of proofs"
  have "honest_proof H ?t pp" if "pp \<in> set proofs" for pp
    using verified_honest[OF assms(1), of pp ?t] assms(3) that by (auto simp: trie_root_def)
  hence hp: "honest_proofs H ?t proofs" using assms(4) by simp
  have "\<exists>T. compresses H proofs 0 (length proofs) (length ([] :: bits)) T (node_hash H ?t)"
    by (rule compresses_segment[OF hp]) (use assms(2) in auto)
  then obtain T where "compresses H proofs 0 (length proofs) 0 T (node_hash H ?t)" by auto
  hence c: "from_path_proofs_loop proofs \<lparr>ppr_lower = 0, ppr_upper = length proofs, ppr_bit = 0\<rparr> [] stack P S
      = next_range proofs stack (P @ ?Q) (S @ T)"
    "\<exists>rr. verify_range H 0 ?Q (T @ rest) off = Some rr \<and> rr_node rr = node_hash H ?t \<and> rr_used rr = length T"
    for stack P S rest off
    by (simp_all add: compresses_def Let_def)
  have T: "from_path_proofs proofs = Some \<lparr>mp_paths = ?Q, mp_siblings = T\<rparr>"
    using assms(2) by (simp add: from_path_proofs_def c(1) next_range_def)
  obtain rr where rr: "verify_range H 0 ?Q T 0 = Some rr" "rr_node rr = node_hash H ?t" "rr_used rr = length T"
    using c(2)[of "[]" 0] by auto
  have srt: "sorted_wrt (\<lambda>x y. mpath x < mpath y) ?Q" using honest_sorted[OF hp] by (simp add: sorted_wrt_map)
  have "map (\<lambda>v. (vmp_terminal v, vmp_depth v)) (rr_paths rr) = map (\<lambda>q. (mpp_terminal q, mpp_depth q)) ?Q"
    by (rule verify_range_terminals[OF rr(1) _ srt, of "[]"]) (use assms(2) in auto)
  with T rr srt show ?thesis
    by (auto simp: multi_proof_verify_def paths_ordered_sorted trie_root_def mpp_of_def comp_def)
qed

text \<open>Two leaves of the sample trie, and the multi-proof of their paths.\<close>
definition sample_paths :: "path_proof list" where
  "sample_paths = [prove_key sample_hasher (mk_trie 0 sample_kvs) (sample_key 16) tp_new,
                   prove_key sample_hasher (mk_trie 0 sample_kvs) (sample_key 160) tp_new]"

definition sample_multi :: multi_proof where
  "sample_multi = the (from_path_proofs sample_paths)"

definition sample_vm :: verified_multi_proof where
  "sample_vm = projr (the (multi_proof_verify sample_hasher sample_multi (trie_root sample_hasher sample_kvs)))"

theorem multi_proof_complete_witness:
  "\<exists>mp vm. from_path_proofs sample_paths = Some mp \<and>
    multi_proof_verify sample_hasher mp (trie_root sample_hasher sample_kvs) = Some (Inr vm) \<and>
    map (\<lambda>v. (vmp_terminal v, vmp_depth v)) (vm_inner vm) =
      map (\<lambda>pp. (pp_terminal pp, length (pp_siblings pp))) sample_paths"
proof (rule multi_proof_complete[OF sample_hasher_laws])
  show "sample_paths \<noteq> []" by (simp add: sample_paths_def)
  have ex: "(\<exists>x. r = Inr x) = (\<not> isl r)" for r :: "'x + 'y" by (cases r) auto
  show "\<forall>pp\<in>set sample_paths.
      (\<exists>vp. path_proof_verify sample_hasher pp (tpath pp) (trie_root sample_hasher sample_kvs) = Inr vp) \<and>
      proof_binding sample_hasher (mk_trie 0 sample_kvs) pp (tpath pp)"
    unfolding ex by code_simp
  show "sorted_wrt (\<lambda>a b. ppath a < ppath b) sample_paths" by code_simp
qed

lemma sample_multi_verifies:
  "multi_proof_verify sample_hasher sample_multi (trie_root sample_hasher sample_kvs) = Some (Inr sample_vm)"
proof -
  have "(case multi_proof_verify sample_hasher sample_multi (trie_root sample_hasher sample_kvs) of
      Some (Inr vm) \<Rightarrow> True | _ \<Rightarrow> False)" by code_simp
  thus ?thesis unfolding sample_vm_def by (simp split: option.splits sum.splits)
qed

lemma sample_multi_binding: "multi_proof_binding sample_hasher (mk_trie 0 sample_kvs) sample_multi"
  by code_simp

theorem multi_proof_sound_witness:
  "multi_confirm_value sample_vm \<lparr>leaf_key = sample_key 160, leaf_value = sample_value 3\<rparr> = Some (Inr True) \<and>
   multi_confirm_nonexistence sample_vm (sample_key 160) = Some (Inr False)"
proof -
  have k: "length (sample_key 160) = 32" by simp
  have cov: "covered sample_vm (sample_key 160)" by code_simp
  have m: "map_of sample_kvs (sample_key 160) = Some (sample_value 3)" by code_simp
  show ?thesis
    using multi_proof_sound[OF sample_hasher_laws sample_kvs_ok(1) k sample_multi_verifies sample_multi_binding,
      of "sample_value 3"] cov m by simp
qed

theorem multi_proof_index_sound_witness:
  "confirm_value_with_index sample_vm \<lparr>leaf_key = sample_key 160, leaf_value = sample_value 3\<rparr> 1 = Some (Inr True) \<and>
   confirm_nonexistence_with_index sample_vm (sample_key 160) 0 = Some (Inl KeyOutOfScope)"
proof -
  have k: "length (sample_key 160) = 32" by simp
  have i: "0 < length (vm_inner sample_vm)" "1 < length (vm_inner sample_vm)" by code_simp+
  have u: "\<not> key_under (vpath (vm_inner sample_vm ! 0)) (sample_key 160)"
    "key_under (vpath (vm_inner sample_vm ! 1)) (sample_key 160)" by code_simp+
  have m: "map_of sample_kvs (sample_key 160) = Some (sample_value 3)" by code_simp
  show ?thesis
    using multi_proof_index_sound[OF sample_hasher_laws sample_kvs_ok(1) k sample_multi_verifies
        sample_multi_binding i(1), of "sample_value 3"]
      multi_proof_index_sound[OF sample_hasher_laws sample_kvs_ok(1) k sample_multi_verifies
        sample_multi_binding i(2), of "sample_value 3"] u m by simp
qed

end
