(* ===== verification/MultiProofUpdate.thy ===== *)
theory MultiProofUpdate
  imports MultiProofBuild
begin

text \<open>
  The update of the root through a verified multi-proof (\<open>verify_update\<close> of
  \<open>core/src/proof/multi_proof.rs\<close>), for the multi-proof of one path: which siblings it combines the
  updated terminal with, and in which order.
\<close>

section \<open>The multi-proof of one path\<close>

lemma from_one_path_proof:
  "from_path_proofs [pp] =
     Some \<lparr>mp_paths = [\<lparr>mpp_terminal = pp_terminal pp, mpp_depth = length (pp_siblings pp)\<rparr>], mp_siblings = pp_siblings pp\<rparr>"
  by (simp add: from_path_proofs_def from_path_proofs_loop.simps prove_unique_path_remainder_def Let_def slice_simps)

text \<open>What verifying it yields.\<close>
definition lone_multi :: "path_proof \<Rightarrow> node \<Rightarrow> verified_multi_proof" where
  "lone_multi pp root = \<lparr>vm_inner = [\<lparr>vmp_terminal = pp_terminal pp, vmp_depth = length (pp_siblings pp),
     vmp_unique = (0, length (pp_siblings pp))\<rparr>], vm_bisections = [], vm_siblings = pp_siblings pp, vm_root = root\<rparr>"

lemma lone_multi_verifies:
  assumes "path_proof_verify H pp (tpath pp) root = Inr vp" "from_path_proofs [pp] = Some mp"
  shows "multi_proof_verify H mp root = Some (Inr (lone_multi pp root))"
  using assms
  by (auto simp: from_one_path_proof path_proof_verify_def multi_proof_verify_def lone_multi_def Let_def slice_simps split: if_splits)

section \<open>Climbing\<close>

lemma multi_climb_stack:
  assumes "length bs = length ys" "cs_stack cs = rev (zip [1..<Suc (length ys)] ys)"
  shows "multi_climb H bs (length ys) n [] cs =
    Some (fst (update_climb H (zip bs (rev ys)) (length ys) n []), [], cs\<lparr>cs_stack := []\<rparr>)"
  using assms
proof (induction bs arbitrary: ys n cs)
  case Nil
  then show ?case by simp
next
  case (Cons b bs)
  then obtain zs y where ys: "ys = zs @ [y]" "length bs = length zs" by (cases ys rule: rev_cases) auto
  then have st: "cs_stack cs = (length ys, y) # rev (zip [1..<Suc (length zs)] zs)"
    using Cons.prems(2) by (simp add: upt_Suc_append del: upt_Suc)
  show ?case using Cons.IH[OF ys(2), of "cs\<lparr>cs_stack := rev (zip [1..<Suc (length zs)] zs)\<rparr>"] ys st by simp
qed

text \<open>The operations that pass the checks all go to the one path.\<close>
lemma lone_update_ops:
  assumes "length p = length (pp_siblings pp)" "p = take (length p) (tpath pp)" "length p \<le> length (tpath pp)"
    and "check_ops p (us_last_key st) ops = None" "\<forall>op\<in>set ops. length (fst op) = 32"
    and "us_last_terminal st = None \<or> us_last_terminal st = Some 0"
  shows "\<exists>lk lt. multi_update_ops H (lone_multi pp root) st ops =
    Some (Inr (st\<lparr>us_last_key := lk, us_last_terminal := lt, us_working_ops := us_working_ops st @ ops\<rparr>)) \<and> (lt = None \<or> lt = Some 0)"
  using assms(4-)
proof (induction ops arbitrary: st)
  case Nil
  then show ?case by (cases st) auto
next
  case (Cons op ops)
  obtain k v where op: "op = (k, v)" by (cases op)
  let ?t = "hd (vm_inner (lone_multi pp root))"
  from Cons.prems(1) op have chk: "\<not> (case us_last_key st of None \<Rightarrow> False | Some lk \<Rightarrow> lk \<ge> k)"
    "take (length p) (view_bits k) = p" "check_ops p (Some k) ops = None" by (auto split: if_splits)
  have "length p \<le> length (view_bits k)" using chk(2) by (metis length_take min.cobounded1)
  then have "terminal_contains ?t k = Some True"
    using chk(2) assms(1-3) by (simp add: terminal_contains_def lone_multi_def slice_simps)
  then have find: "find_terminal (drop (opt_or (us_last_terminal st) 0) (vm_inner (lone_multi pp root)))
      (opt_or (us_last_terminal st) 0) k = Some (Inr 0)"
    using Cons.prems(3) by (auto simp: opt_or_def lone_multi_def)
  let ?st = "st\<lparr>us_last_key := Some k, us_last_terminal := Some 0, us_working_ops := us_working_ops st @ [op]\<rparr>"
  have "multi_update_op H (lone_multi pp root) st op = Some (Inr ?st)"
    using find chk(1) Cons.prems(3) op by (auto simp: multi_update_op_def and_then_def Let_def split: option.splits)
  moreover obtain lk lt where "multi_update_ops H (lone_multi pp root) ?st ops =
      Some (Inr (?st\<lparr>us_last_key := lk, us_last_terminal := lt, us_working_ops := us_working_ops ?st @ ops\<rparr>))" "lt = None \<or> lt = Some 0"
    using Cons.IH[of ?st] chk(3) Cons.prems(2) by auto
  ultimately show ?case by (auto simp: and_then_def)
qed

text \<open>The update of the one path.\<close>
lemma lone_update:
  assumes "length p = length (pp_siblings pp)" "p = take (length p) (tpath pp)" "length p \<le> length (tpath pp)"
    and "check_ops p None ops = None" "\<forall>op\<in>set ops. length (fst op) = 32"
    and "build_trie H (length p) (leaf_ops_spliced (as_leaf_option (pp_terminal pp)) ops) = Some (n, vs)"
  shows "multi_verify_update H (lone_multi pp root) ops =
    Some (Inr (fst (update_climb H (zip (rev p) (pp_siblings pp)) (length p) n [])))"
proof -
  let ?vm = "lone_multi pp root" and ?m = "length (pp_siblings pp)"
  let ?st = "\<lparr>us_pending = [], us_last_key = None, us_last_terminal = None,
                 us_next_pending = None, us_working_ops = [], us_common = common_siblings_new\<rparr>"
  obtain lk lt where ops: "multi_update_ops H ?vm ?st ops =
      Some (Inr (?st\<lparr>us_last_key := lk, us_last_terminal := lt, us_working_ops := ops\<rparr>))" "lt = None \<or> lt = Some 0"
    using lone_update_ops[OF assms(1-3), of ?st ops H root] assms(4,5) by auto
  let ?cs = "common_siblings_new\<lparr>cs_stack := rev (zip [1..<Suc ?m] (rev (pp_siblings pp))), cs_taken_siblings := ?m,
     cs_terminal_index := 1\<rparr>"
  have adv: "cs_advance ?vm common_siblings_new = Some ?cs"
    by (simp add: cs_advance_def lone_multi_def common_siblings_new_def cs_advance_bisections.simps cs_extend_def slice_simps)
  have "multi_climb H (rev p) ?m n [] ?cs = Some (fst (update_climb H (zip (rev p) (pp_siblings pp)) ?m n []), [], ?cs\<lparr>cs_stack := []\<rparr>)"
    using multi_climb_stack[of "rev p" "rev (pp_siblings pp)" ?cs H n] assms(1) by simp
  moreover have "slice_of (tpath pp) 0 ?m = Some p" using assms(1-3) by (simp add: slice_simps)
  ultimately have compact: "hash_and_compact_terminal H [] (hd (vm_inner ?vm)) None ?cs ops =
      Some (Inr ([(fst (update_climb H (zip (rev p) (pp_siblings pp)) ?m n []), 0)], ?cs\<lparr>cs_stack := []\<rparr>))"
    using assms(1,6) by (simp add: hash_and_compact_terminal_def lone_multi_def Let_def)
  have "get_at (vm_inner ?vm) 0 = Some (hd (vm_inner ?vm))" "get_at (vm_inner ?vm) 1 = None" "length (vm_inner ?vm) = 1"
    by (simp_all add: lone_multi_def get_at_def)
  then show ?thesis unfolding multi_verify_update_def ops
    using adv compact assms(1) ops(2) by (auto simp: and_then_def opt_or_def Let_def)
qed

section \<open>The order of the siblings\<close>

lemma spliced_under:
  assumes "ops_ok ops" "\<forall>l. leaf = Some l \<longrightarrow> length (leaf_key l) = 32 \<and> key_under p (leaf_key l)"
    and "\<forall>op\<in>set ops. key_under p (fst op)"
  shows "share_prefix (length p) (leaf_ops_spliced leaf ops) p"
  unfolding share_prefix_def
proof (intro conjI refl ballI)
  fix kv assume "kv \<in> set (leaf_ops_spliced leaf ops)"
  then have "map_of (leaf_ops_spliced leaf ops) (fst kv) \<noteq> None" by (simp add: map_of_eq_None_iff)
  then have "apply_ops (leaf_map leaf) ops (fst kv) \<noteq> None"
    using leaf_ops_spliced_map[OF assms(1)] assms(2) by simp
  then have "map_of ops (fst kv) \<noteq> None \<or> (\<exists>l. leaf = Some l \<and> fst kv = leaf_key l)"
    by (auto simp: apply_ops_def leaf_map_def split: option.splits if_splits)
  then have "fst kv \<in> fst ` set ops \<or> (\<exists>l. leaf = Some l \<and> fst kv = leaf_key l)"
    by (simp add: map_of_eq_None_iff)
  then show "take (length p) (view_bits (fst kv)) = p"
    using assms(2,3) by (auto simp: key_under_def)
qed

text \<open>C31: \<open>verify_update\<close> of a multi-proof combines the
  updated terminal with the siblings of its path in the reverse of their order.  For every path
  proof that verifies against a root and all operations that pass the checks at its path: the
  multi-proof of this one path verifies, and its update returns the root that the update of the
  path proof returns after the list of its siblings has been reversed, where the siblings are
  listed from the root down.\<close>
theorem multi_update_reverses_siblings:
  assumes "path_proof_verify H pp (tpath pp) root = Inr vp" "from_path_proofs [pp] = Some mp"
    and "check_ops (vp_key_path vp) None ops = None" "ops \<noteq> []" "\<forall>op\<in>set ops. length (fst op) = 32"
    and "\<forall>l. vp_terminal vp = Some l \<longrightarrow> length (leaf_key l) = 32"
  shows "\<exists>vm n. multi_proof_verify H mp root = Some (Inr vm) \<and> multi_verify_update H vm ops = Some (Inr n) \<and>
    verify_update H root [\<lparr>pu_inner = vp\<lparr>vp_siblings := rev (vp_siblings vp)\<rparr>, pu_ops = ops\<rparr>] = Some (Inr n)"
proof -
  let ?p = "vp_key_path vp"
  have vp: "?p = take (length (pp_siblings pp)) (tpath pp)" "length (pp_siblings pp) \<le> length (tpath pp)"
    "vp_terminal vp = as_leaf_option (pp_terminal pp)" "vp_siblings vp = pp_siblings pp" "vp_root vp = root"
    using assms(1) by (auto simp: path_proof_verify_def Let_def split: if_splits)
  have len: "length ?p = length (pp_siblings pp)" using vp(1,2) by simp
  have ok: "ops_ok ops" "\<forall>op\<in>set ops. key_under ?p (fst op)" using check_ops_ok[OF assms(3,5)] by auto
  have leaf: "key_under ?p (leaf_key l)" if "vp_terminal vp = Some l" for l
    using that vp by (cases "pp_terminal pp") (auto simp: key_under_def)
  obtain n vs where b: "build_trie H (length ?p) (leaf_ops_spliced (vp_terminal vp) ops) = Some (n, vs)"
    using build_trie_root[OF leaf_ops_spliced_ok[OF ok(1)] spliced_under[OF ok(1) _ ok(2)]] assms(6) leaf by metis
  let ?n = "fst (update_climb H (zip (rev ?p) (pp_siblings pp)) (length ?p) n [])"
  have "multi_verify_update H (lone_multi pp root) ops = Some (Inr ?n)"
    by (rule lone_update[OF len _ _ assms(3,5)]) (use vp len b in auto)
  moreover have "verify_update H root [\<lparr>pu_inner = vp\<lparr>vp_siblings := rev (vp_siblings vp)\<rparr>, pu_ops = ops\<rparr>] = Some (Inr ?n)"
    using assms(3,4) vp(4,5) b by (simp add: verify_update_def update_loop.simps Let_def split: prod.splits)
  ultimately show ?thesis using lone_multi_verifies[OF assms(1,2)] by blast
qed

text \<open>The path of a key of the sample trie, and a new value for the key.\<close>
definition sample_lone :: path_proof where
  "sample_lone = prove_key sample_hasher (mk_trie 0 sample_kvs) (sample_key 32) tp_new"

definition sample_lone_vp :: verified_path_proof where
  "sample_lone_vp = (case path_proof_verify sample_hasher sample_lone (tpath sample_lone) (trie_root sample_hasher sample_kvs) of
     Inr vp \<Rightarrow> vp)"

definition sample_lone_ops :: "leaf_op list" where
  "sample_lone_ops = [(sample_key 32, Some (sample_value 9))]"

text \<open>There the multi-proof returns a root that is not the root of the updated trie, which the
  path proof returns.\<close>
theorem multi_update_reverses_siblings_witness:
  "\<exists>vm n. multi_proof_verify sample_hasher (the (from_path_proofs [sample_lone])) (trie_root sample_hasher sample_kvs) = Some (Inr vm) \<and>
     multi_verify_update sample_hasher vm sample_lone_ops = Some (Inr n) \<and>
     verify_update sample_hasher (trie_root sample_hasher sample_kvs)
       [\<lparr>pu_inner = sample_lone_vp\<lparr>vp_siblings := rev (vp_siblings sample_lone_vp)\<rparr>, pu_ops = sample_lone_ops\<rparr>] = Some (Inr n) \<and>
     verify_update sample_hasher (trie_root sample_hasher sample_kvs)
       [\<lparr>pu_inner = sample_lone_vp, pu_ops = sample_lone_ops\<rparr>] \<noteq> Some (Inr n)"
proof -
  have "path_proof_verify sample_hasher sample_lone (tpath sample_lone) (trie_root sample_hasher sample_kvs) = Inr sample_lone_vp"
    by code_simp
  moreover have "from_path_proofs [sample_lone] = Some (the (from_path_proofs [sample_lone]))"
    by (simp add: from_one_path_proof)
  moreover have "check_ops (vp_key_path sample_lone_vp) None sample_lone_ops = None" by code_simp
  moreover have "sample_lone_ops \<noteq> []" "\<forall>op\<in>set sample_lone_ops. length (fst op) = 32"
    by (simp_all add: sample_lone_ops_def)
  moreover have "(case vp_terminal sample_lone_vp of Some l \<Rightarrow> length (leaf_key l) = 32 | None \<Rightarrow> True)" by code_simp
  then have "\<forall>l. vp_terminal sample_lone_vp = Some l \<longrightarrow> length (leaf_key l) = 32" by (simp split: option.splits)
  moreover have "verify_update sample_hasher (trie_root sample_hasher sample_kvs)
       [\<lparr>pu_inner = sample_lone_vp\<lparr>vp_siblings := rev (vp_siblings sample_lone_vp)\<rparr>, pu_ops = sample_lone_ops\<rparr>] \<noteq>
     verify_update sample_hasher (trie_root sample_hasher sample_kvs) [\<lparr>pu_inner = sample_lone_vp, pu_ops = sample_lone_ops\<rparr>]"
    by code_simp
  ultimately show ?thesis using multi_update_reverses_siblings by metis
qed

end
