(* ===== verification/PassCells.thy ===== *)
theory PassCells
  imports PageRegions "HOL-Library.AList"
begin

text \<open>
  Regioned access tokens (\<open>nomt/src/rw_pass_cell/mod.rs\<close>).  A domain hands out read and
  write passes; a write pass is split into passes over separated regions, and consuming
  the last of them gives the pass of the parent region back.  The operations are steps of
  one domain, interleaved in any order; passes and shared parents have identifiers from a
  counter, which stand for the pointers.  The invariant gives mutual exclusion: what one
  pass may write no other live pass may access.
\<close>

section \<open>Regions of passes\<close>

text \<open>\<open>UniversalRegion\<close> and the page regions; the type parameter of a pass.  The mixed
  cases, which the types of the source exclude, are false.\<close>
datatype pass_region = UniversalRegion | PageRegion page_region

fun rg_encompasses :: "pass_region \<Rightarrow> pass_region \<Rightarrow> bool" where
  "rg_encompasses UniversalRegion UniversalRegion = True"
| "rg_encompasses (PageRegion r) (PageRegion s) = encompasses r s"
| "rg_encompasses _ _ = False"

fun rg_excludes_unique :: "pass_region \<Rightarrow> pass_region \<Rightarrow> bool" where
  "rg_excludes_unique (PageRegion r) (PageRegion s) = excludes_unique r s"
| "rg_excludes_unique _ _ = False"

fun rg_contains :: "pass_region \<Rightarrow> page_id \<Rightarrow> bool" where
  "rg_contains UniversalRegion _ = True"
| "rg_contains (PageRegion r) p = region_contains r p"

fun rg_contains_exclusive :: "pass_region \<Rightarrow> page_id \<Rightarrow> bool" where
  "rg_contains_exclusive UniversalRegion _ = True"
| "rg_contains_exclusive (PageRegion r) p = contains_exclusive r p"

fun rg_ok :: "pass_region \<Rightarrow> bool" where
  "rg_ok UniversalRegion = True"
| "rg_ok (PageRegion r) = region_ok r"


section \<open>Domains and passes\<close>

record parent_write_pass =
  pw_parent :: "nat option"
  pw_region :: pass_region
  pw_remaining_children :: nat

record write_pass =
  wp_parent :: "nat option"
  wp_consumed :: bool
  wp_region :: pass_region

text \<open>The live passes of a domain.  The lock of the domain is held for writing while a
  write pass is alive and for reading while a read pass is alive.\<close>
record rw_pass_domain =
  pd_parents :: "(nat \<times> parent_write_pass) list"
  pd_writes :: "(nat \<times> write_pass) list"
  pd_reads :: "(nat \<times> pass_region) list"
  pd_next :: nat

definition rw_pass_domain_new :: rw_pass_domain where
  "rw_pass_domain_new = \<lparr>pd_parents = [], pd_writes = [], pd_reads = [], pd_next = 0\<rparr>"

text \<open>\<open>None\<close>: the call blocks.\<close>
definition new_read_pass :: "rw_pass_domain \<Rightarrow> (rw_pass_domain \<times> nat) option" where
  "new_read_pass d =
     (if pd_writes d \<noteq> [] then None
      else Some (d\<lparr>pd_reads := (pd_next d, UniversalRegion) # pd_reads d, pd_next := pd_next d + 1\<rparr>,
                 pd_next d))"

definition new_write_pass :: "rw_pass_domain \<Rightarrow> (rw_pass_domain \<times> nat) option" where
  "new_write_pass d =
     (if pd_writes d \<noteq> [] \<or> pd_reads d \<noteq> [] then None
      else Some (d\<lparr>pd_writes := [(pd_next d, \<lparr>wp_parent = None, wp_consumed = False, wp_region = UniversalRegion\<rparr>)],
                   pd_next := pd_next d + 1\<rparr>, pd_next d))"

text \<open>\<open>fetch_sub(1)\<close> on the shared counter of a parent.\<close>
definition fetch_sub :: "nat \<Rightarrow> (nat \<times> parent_write_pass) list \<Rightarrow> (nat \<times> parent_write_pass) list" where
  "fetch_sub p = map (\<lambda>(k, q). (k, if k = p
     then q\<lparr>pw_remaining_children := (pw_remaining_children q + (2 ^ 64 - 1)) mod 2 ^ 64\<rparr> else q))"

text \<open>\<open>Drop for WritePass\<close>.\<close>
definition drop_write_pass :: "write_pass \<Rightarrow> (nat \<times> parent_write_pass) list \<Rightarrow> (nat \<times> parent_write_pass) list" where
  "drop_write_pass w parents =
     (case wp_parent w of None \<Rightarrow> parents
      | Some p \<Rightarrow> if wp_consumed w then parents else fetch_sub p parents)"

fun all_exclude :: "pass_region list \<Rightarrow> bool" where
  "all_exclude [] = True"
| "all_exclude (r # rs) \<longleftrightarrow> (\<forall>s\<in>set rs. rg_excludes_unique r s) \<and> all_exclude rs"

definition split_n :: "rw_pass_domain \<Rightarrow> nat \<Rightarrow> pass_region list \<Rightarrow> (rw_pass_domain \<times> nat list) option" where
  "split_n d i regions = do {
     w \<leftarrow> map_of (pd_writes d) i;
     let writes = AList.delete i (pd_writes d);
     if regions = [] then
       Some (d\<lparr>pd_writes := writes, pd_parents := drop_write_pass w (pd_parents d)\<rparr>, [])
     else do {
       _ \<leftarrow> assert_that (\<forall>r\<in>set regions. rg_encompasses (wp_region w) r);
       _ \<leftarrow> assert_that (all_exclude regions);
       let n = pd_next d;
       let new_parent = \<lparr>pw_parent = wp_parent w, pw_region = wp_region w, pw_remaining_children = length regions\<rparr>;
       let ids = [n + 1..<n + 1 + length regions];
       let passes = zip ids (map (\<lambda>r. \<lparr>wp_parent = Some n, wp_consumed = False, wp_region = r\<rparr>) regions);
       Some (d\<lparr>pd_writes := passes @ writes,
               pd_parents := (n, new_parent) # drop_write_pass (w\<lparr>wp_parent := None\<rparr>) (pd_parents d),
               pd_next := n + 1 + length regions\<rparr>, ids) } }"

definition consume :: "rw_pass_domain \<Rightarrow> nat \<Rightarrow> (rw_pass_domain \<times> nat option) option" where
  "consume d i = do {
     w \<leftarrow> map_of (pd_writes d) i;
     let writes = AList.delete i (pd_writes d);
     case wp_parent w of
       None \<Rightarrow> Some (d\<lparr>pd_writes := writes, pd_parents := drop_write_pass w (pd_parents d)\<rparr>, None)
     | Some p \<Rightarrow> do {
         q \<leftarrow> map_of (pd_parents d) p;
         let parents = drop_write_pass (w\<lparr>wp_consumed := True\<rparr>) (fetch_sub p (pd_parents d));
         if pw_remaining_children q = 1 then
           Some (d\<lparr>pd_writes := (pd_next d, \<lparr>wp_parent = pw_parent q, wp_consumed = False,
                     wp_region = pw_region q\<rparr>) # writes,
                   pd_parents := parents, pd_next := pd_next d + 1\<rparr>, Some (pd_next d))
         else Some (d\<lparr>pd_writes := writes, pd_parents := parents\<rparr>, None) } }"

definition drop_pass :: "rw_pass_domain \<Rightarrow> nat \<Rightarrow> rw_pass_domain option" where
  "drop_pass d i = do {
     w \<leftarrow> map_of (pd_writes d) i;
     Some (d\<lparr>pd_writes := AList.delete i (pd_writes d), pd_parents := drop_write_pass w (pd_parents d)\<rparr>) }"

definition drop_read :: "rw_pass_domain \<Rightarrow> nat \<Rightarrow> rw_pass_domain" where
  "drop_read d i = d\<lparr>pd_reads := AList.delete i (pd_reads d)\<rparr>"

text \<open>\<open>with_region\<close>, of passes over the universal region only.\<close>
definition write_with_region :: "rw_pass_domain \<Rightarrow> nat \<Rightarrow> page_region \<Rightarrow> rw_pass_domain option" where
  "write_with_region d i r = do {
     w \<leftarrow> map_of (pd_writes d) i;
     _ \<leftarrow> assert_that (wp_region w = UniversalRegion);
     _ \<leftarrow> assert_that (wp_parent w = None);
     Some (d\<lparr>pd_writes := (i, \<lparr>wp_parent = None, wp_consumed = False, wp_region = PageRegion r\<rparr>)
               # AList.delete i (pd_writes d)\<rparr>) }"

definition read_with_region :: "rw_pass_domain \<Rightarrow> nat \<Rightarrow> page_region \<Rightarrow> rw_pass_domain option" where
  "read_with_region d i r = do {
     s \<leftarrow> map_of (pd_reads d) i;
     _ \<leftarrow> assert_that (s = UniversalRegion);
     Some (d\<lparr>pd_reads := (i, PageRegion r) # AList.delete i (pd_reads d)\<rparr>) }"

text \<open>Cells: the provenance check and the region check; \<open>None\<close> is a panic.\<close>
record 'a rw_pass_cell =
  cell_provenance :: nat
  cell_inner :: 'a
  cell_id :: page_id

definition protect_with_id :: "nat \<Rightarrow> 'a \<Rightarrow> page_id \<Rightarrow> 'a rw_pass_cell" where
  "protect_with_id domain inner i = \<lparr>cell_provenance = domain, cell_inner = inner, cell_id = i\<rparr>"

definition check_domain :: "'a rw_pass_cell \<Rightarrow> nat \<Rightarrow> unit option" where
  "check_domain c domain = assert_that (domain = cell_provenance c)"

definition cell_read :: "'a rw_pass_cell \<Rightarrow> nat \<Rightarrow> pass_region \<Rightarrow> 'a option" where
  "cell_read c domain region = do {
     _ \<leftarrow> check_domain c domain;
     _ \<leftarrow> assert_that (rg_contains region (cell_id c));
     Some (cell_inner c) }"

text \<open>The cell after writing \<open>x\<close> through the guard.\<close>
definition cell_write :: "'a rw_pass_cell \<Rightarrow> nat \<Rightarrow> write_pass \<Rightarrow> 'a \<Rightarrow> 'a rw_pass_cell option" where
  "cell_write c domain w x = do {
     _ \<leftarrow> check_domain c domain;
     _ \<leftarrow> assert_that (rg_contains_exclusive (wp_region w) (cell_id c));
     Some (c\<lparr>cell_inner := x\<rparr>) }"

text \<open>An envelope carries a pass to another thread; opening it spins until the flag that
  \<open>into_envelope\<close> has set is seen, \<open>None\<close> while it is not.\<close>
record write_pass_envelope =
  env_inner :: write_pass
  env_sync_flag :: bool

definition into_envelope :: "write_pass \<Rightarrow> write_pass_envelope" where
  "into_envelope w = \<lparr>env_inner = w, env_sync_flag = True\<rparr>"

definition into_inner :: "write_pass_envelope \<Rightarrow> write_pass option" where
  "into_inner e = (if env_sync_flag e then Some (env_inner e) else None)"

text \<open>What the users of a domain may do, in any interleaving.\<close>
inductive pass_step :: "rw_pass_domain \<Rightarrow> rw_pass_domain \<Rightarrow> bool" where
  step_new_read: "new_read_pass d = Some (d', i) \<Longrightarrow> pass_step d d'"
| step_new_write: "new_write_pass d = Some (d', i) \<Longrightarrow> pass_step d d'"
| step_split: "split_n d i rs = Some (d', is) \<Longrightarrow> \<forall>r\<in>set rs. rg_ok r \<Longrightarrow> length rs < 2 ^ 64 \<Longrightarrow> pass_step d d'"
| step_consume: "consume d i = Some (d', r) \<Longrightarrow> pass_step d d'"
| step_drop: "drop_pass d i = Some d' \<Longrightarrow> pass_step d d'"
| step_drop_read: "pass_step d (drop_read d i)"
| step_write_region: "write_with_region d i r = Some d' \<Longrightarrow> region_ok r \<Longrightarrow> pass_step d d'"
| step_read_region: "read_with_region d i r = Some d' \<Longrightarrow> region_ok r \<Longrightarrow> pass_step d d'"

inductive pass_reachable :: "rw_pass_domain \<Rightarrow> bool" where
  reach_new: "pass_reachable rw_pass_domain_new"
| reach_step: "pass_reachable d \<Longrightarrow> pass_step d d' \<Longrightarrow> pass_reachable d'"

interpretation rg: region_laws rg_ok page_id_ok rg_encompasses rg_excludes_unique
  rg_contains rg_contains_exclusive
proof
  fix r s x
  show "rg_excludes_unique r s \<Longrightarrow> rg_excludes_unique s r"
    by (cases r; cases s) (auto intro: pr.excl_commute)
  show "rg_contains_exclusive r x \<Longrightarrow> rg_contains r x"
    by (cases r) (auto intro: pr.write_any)
  assume ok: "rg_ok r" "rg_ok s" "page_id_ok x"
  show "rg_excludes_unique r s \<Longrightarrow> rg_contains_exclusive r x \<Longrightarrow> \<not> rg_contains s x"
    using ok by (cases r; cases s) (auto dest: pr.excl_access)
  show "rg_encompasses r s \<Longrightarrow> rg_contains s x \<Longrightarrow> rg_contains r x"
    using ok by (cases r; cases s) (auto intro: pr.encomp_any)
  show "rg_encompasses r s \<Longrightarrow> rg_contains_exclusive s x \<Longrightarrow> rg_contains_exclusive r x"
    using ok by (cases r; cases s) (auto intro: pr.encomp_write)
qed

section \<open>Trees of holders\<close>

text \<open>A holder is a live pass or a parent with live descendants: its identifier, the
  parent it is accounted to, and its region.\<close>
type_synonym holder = "nat \<times> nat option \<times> pass_region"

definition sep :: "pass_region \<Rightarrow> pass_region \<Rightarrow> bool" where
  "sep r s \<longleftrightarrow> (\<forall>x. page_id_ok x \<longrightarrow>
     (rg_contains_exclusive r x \<longrightarrow> \<not> rg_contains s x) \<and> (rg_contains_exclusive s x \<longrightarrow> \<not> rg_contains r x))"

definition within :: "pass_region \<Rightarrow> pass_region \<Rightarrow> bool" where
  "within r s \<longleftrightarrow> (\<forall>x. page_id_ok x \<longrightarrow>
     (rg_contains r x \<longrightarrow> rg_contains s x) \<and> (rg_contains_exclusive r x \<longrightarrow> rg_contains_exclusive s x))"

lemma sep_commute: "sep r s \<Longrightarrow> sep s r"
  by (auto simp: sep_def)

lemma within_trans: "within r s \<Longrightarrow> within s t \<Longrightarrow> within r t"
  by (auto simp: within_def)

lemma sep_within: "sep r s \<Longrightarrow> within r' r \<Longrightarrow> sep r' s"
  by (auto simp: sep_def within_def)

lemma excludes_sep: "rg_ok r \<Longrightarrow> rg_ok s \<Longrightarrow> rg_excludes_unique r s \<Longrightarrow> sep r s"
  unfolding sep_def using rg.excl_access rg.excl_commute by blast

lemma encompasses_within: "rg_ok r \<Longrightarrow> rg_ok s \<Longrightarrow> rg_encompasses r s \<Longrightarrow> within s r"
  unfolding within_def using rg.encomp_any rg.encomp_write by blast

definition children_of :: "holder set \<Rightarrow> nat \<Rightarrow> holder set" where
  "children_of hs p = {h \<in> hs. fst (snd h) = Some p}"

text \<open>Identifiers are unique, there is one root, a holder lies within an older parent, and
  the children of a parent are separated.\<close>
definition holder_tree :: "holder set \<Rightarrow> bool" where
  "holder_tree hs \<longleftrightarrow> finite hs \<and> inj_on fst hs \<and>
     (\<forall>i j r s. (i, None, r) \<in> hs \<longrightarrow> (j, None, s) \<in> hs \<longrightarrow> i = j) \<and>
     (\<forall>i k r. (i, Some k, r) \<in> hs \<longrightarrow> (\<exists>p' r'. (k, p', r') \<in> hs \<and> k < i \<and> within r r')) \<and>
     (\<forall>i j k r s. (i, Some k, r) \<in> hs \<longrightarrow> (j, Some k, s) \<in> hs \<longrightarrow> i \<noteq> j \<longrightarrow> sep r s)"

lemma holder_treeD:
  assumes "holder_tree hs"
  shows "finite hs" "inj_on fst hs"
    "\<forall>i j r s. (i, None, r) \<in> hs \<longrightarrow> (j, None, s) \<in> hs \<longrightarrow> i = j"
    "\<forall>i k r. (i, Some k, r) \<in> hs \<longrightarrow> (\<exists>p' r'. (k, p', r') \<in> hs \<and> k < i \<and> within r r')"
    "\<forall>i j k r s. (i, Some k, r) \<in> hs \<longrightarrow> (j, Some k, s) \<in> hs \<longrightarrow> i \<noteq> j \<longrightarrow> sep r s"
  by (insert assms, unfold holder_tree_def, (elim conjE, assumption)+)

lemma tree_parent:
  "holder_tree hs \<Longrightarrow> (i, Some k, r) \<in> hs \<Longrightarrow> \<exists>p' r'. (k, p', r') \<in> hs \<and> k < i \<and> within r r'"
  using holder_treeD(4)[of hs] by simp

lemma tree_siblings:
  "holder_tree hs \<Longrightarrow> (i, Some k, r) \<in> hs \<Longrightarrow> (j, Some k, s) \<in> hs \<Longrightarrow> i \<noteq> j \<Longrightarrow> sep r s"
  using holder_treeD(5)[of hs] by simp

lemma tree_root: "holder_tree hs \<Longrightarrow> (i, None, r) \<in> hs \<Longrightarrow> (j, None, s) \<in> hs \<Longrightarrow> i = j"
  using holder_treeD(3)[of hs] by metis

lemma tree_id: "holder_tree hs \<Longrightarrow> (i, x) \<in> hs \<Longrightarrow> (i, y) \<in> hs \<Longrightarrow> x = y"
  using inj_onD[OF holder_treeD(2), of hs "(i, x)" "(i, y)"] by simp

inductive descends :: "holder set \<Rightarrow> nat \<Rightarrow> nat \<Rightarrow> bool" for hs where
  child: "(i, Some k, r) \<in> hs \<Longrightarrow> descends hs k i"
| deeper: "(i, Some k, r) \<in> hs \<Longrightarrow> descends hs a k \<Longrightarrow> descends hs a i"

lemma descends_less: "descends hs a b \<Longrightarrow> holder_tree hs \<Longrightarrow> a < b"
  by (induction rule: descends.induct) (use tree_parent in \<open>blast intro: order.strict_trans\<close>)+

text \<open>A descendant is a child, or below a child.\<close>
lemma descends_child:
  assumes "descends hs a b" "holder_tree hs" "(b, q, s) \<in> hs"
  shows "\<exists>c r. (c, Some a, r) \<in> hs \<and> within s r \<and> c \<le> b"
  using assms
proof (induction arbitrary: q s rule: descends.induct)
  case (child i k r)
  then show ?case using tree_id[OF child(2) child(1) child(3)] by (auto simp: within_def)
next
  case (deeper i k r a)
  obtain p' r' where k: "(k, p', r') \<in> hs" "k < i" "within r r'"
    using tree_parent[OF deeper.prems(1) deeper.hyps(1)] by blast
  have "s = r" using tree_id[OF deeper.prems(1) deeper.hyps(1) deeper.prems(2)] by simp
  with deeper.IH[OF deeper.prems(1) k(1)] k show ?case by (metis within_trans le_trans less_imp_le)
qed

lemma tree_has_root:
  assumes "holder_tree hs" "(i, p, r) \<in> hs"
  shows "\<exists>j s. (j, None, s) \<in> hs \<and> j \<le> i"
  using assms(2)
proof (induction i arbitrary: p r rule: less_induct)
  case (less i)
  show ?case
  proof (cases p)
    case (Some k)
    then obtain p' r' where "(k, p', r') \<in> hs" "k < i"
      using tree_parent[OF assms(1)] less.prems by blast
    with less.IH show ?thesis by (meson le_trans less_imp_le)
  qed (use less.prems in auto)
qed

text \<open>A root without children is alone.\<close>
lemma tree_lone_root:
  assumes t: "holder_tree hs" and r: "(i, None, r) \<in> hs" and c: "children_of hs i = {}"
  shows "hs = {(i, None, r)}"
proof -
  have "j = i \<or> descends hs i j" if "(j, p, s) \<in> hs" for j p s
    using that
  proof (induction j arbitrary: p s rule: less_induct)
    case (less j)
    show ?case
    proof (cases p)
      case None
      then show ?thesis using tree_root[OF t r] less.prems by blast
    next
      case (Some k)
      then obtain p' r' where k: "(k, p', r') \<in> hs" "k < j" using tree_parent[OF t] less.prems by blast
      from less.IH[OF k(2,1)] Some less.prems show ?thesis by (auto intro: descends.intros)
    qed
  qed
  moreover have "\<not> descends hs i j" for j
  proof
    assume "descends hs i j"
    hence "\<exists>c r. (c, Some i, r) \<in> hs" by (induction rule: descends.induct) blast+
    thus False using c by (auto simp: children_of_def)
  qed
  ultimately have "x = (i, None, r)" if "x \<in> hs" for x
    using that tree_id[OF t r] by (cases x) (metis prod.collapse)
  thus ?thesis using r by blast
qed

text \<open>Holders none of which is below the other are separated.\<close>
lemma tree_separated:
  assumes t: "holder_tree hs" and "(i, p, r) \<in> hs" "(j, q, s) \<in> hs" "i < j"
  shows "sep r s \<or> descends hs i j"
  using assms(2-)
proof (induction j arbitrary: q s i p r rule: less_induct)
  case (less j)
  obtain k where k: "q = Some k"
    using tree_has_root[OF t less.prems(1)] tree_root[OF t] less.prems by (cases q) fastforce+
  obtain q' s' where par: "(k, q', s') \<in> hs" "k < j" "within s s'"
    using tree_parent[OF t] less.prems(2) k by blast
  consider "k = i" | "i < k" | "k < i" by linarith
  then show ?case
  proof cases
    case 1
    then show ?thesis using less.prems(2) k by (auto intro: descends.child)
  next
    case 2
    from less.IH[OF par(2) less.prems(1) par(1) 2] show ?thesis
      using sep_within[OF sep_commute par(3)] sep_commute less.prems(2) k by (blast intro: descends.deeper)
  next
    case 3
    from less.IH[OF less.prems(3) par(1) less.prems(1) 3] show ?thesis
    proof
      assume "sep s' r"
      thus ?thesis using sep_within[OF _ par(3)] sep_commute by blast
    next
      assume "descends hs k i"
      from descends_child[OF this t less.prems(1)] obtain c rc where
        c: "(c, Some k, rc) \<in> hs" "within r rc" "c \<le> i" by blast
      have "sep rc s" by (rule tree_siblings[OF t c(1)]) (use less.prems k c(3) in auto)
      thus ?thesis using sep_within c(2) by blast
    qed
  qed
qed

text \<open>A holder without children may leave, be renamed, or get children.\<close>
lemma tree_remove:
  assumes t: "holder_tree hs" and c: "children_of hs i = {}"
  shows "holder_tree (hs - {(i, x)})"
  unfolding holder_tree_def
proof (intro conjI allI impI)
  show "finite (hs - {(i, x)})" using holder_treeD(1)[OF t] by simp
  show "inj_on fst (hs - {(i, x)})" using holder_treeD(2)[OF t] by (rule inj_on_subset) auto
  show "j = k" if "(j, None, r) \<in> hs - {(i, x)}" "(k, None, s) \<in> hs - {(i, x)}" for j k r s
    using tree_root[OF t] that by blast
  show "sep r s" if "(j, Some m, r) \<in> hs - {(i, x)}" "(k, Some m, s) \<in> hs - {(i, x)}" "j \<noteq> k" for j k m r s
    using tree_siblings[OF t] that by blast
  show "\<exists>p' r'. (k, p', r') \<in> hs - {(i, x)} \<and> k < j \<and> within r r'" if h: "(j, Some k, r) \<in> hs - {(i, x)}" for j k r
  proof -
    have "k \<noteq> i" using c h by (auto simp: children_of_def)
    thus ?thesis using tree_parent[OF t, of j k r] h by auto
  qed
qed

lemma tree_insert:
  assumes t: "holder_tree hs" and n: "\<forall>h\<in>hs. fst h < n"
    and root: "\<And>j s. p = None \<Longrightarrow> (j, None, s) \<notin> hs"
    and par: "\<And>k. p = Some k \<Longrightarrow> \<exists>p' r'. (k, p', r') \<in> hs \<and> within r r'"
    and sib: "\<And>j k s. p = Some k \<Longrightarrow> (j, Some k, s) \<in> hs \<Longrightarrow> sep r s"
  shows "holder_tree (insert (n, p, r) hs)"
  unfolding holder_tree_def
proof (intro conjI allI impI)
  show "finite (insert (n, p, r) hs)" using holder_treeD(1)[OF t] by simp
  show "inj_on fst (insert (n, p, r) hs)" using holder_treeD(2)[OF t] n by (auto simp: inj_on_insert)
  show "j = k" if "(j, None, x) \<in> insert (n, p, r) hs" "(k, None, y) \<in> insert (n, p, r) hs" for j k x y
    using tree_root[OF t, of j x k y] that root by auto
  show "sep x y" if "(j, Some m, x) \<in> insert (n, p, r) hs" "(k, Some m, y) \<in> insert (n, p, r) hs" "j \<noteq> k"
    for j k m x y
    using tree_siblings[OF t, of j m x k y] sib[of m] sep_commute that by blast
  show "\<exists>p' r'. (k, p', r') \<in> insert (n, p, r) hs \<and> k < j \<and> within x r'"
    if "(j, Some k, x) \<in> insert (n, p, r) hs" for j k x
  proof (cases "(j, Some k, x) \<in> hs")
    case True
    then show ?thesis using tree_parent[OF t True] by auto
  next
    case False
    hence "j = n" "p = Some k" "x = r" using that by auto
    then show ?thesis using par[of k] n by fastforce
  qed
qed

lemma tree_rename:
  assumes t: "holder_tree hs" and h: "(i, p, r) \<in> hs" and c: "children_of hs i = {}"
    and n: "\<forall>h\<in>hs. fst h < n"
  shows "holder_tree (insert (n, p, r) (hs - {(i, p, r)}))"
proof (rule tree_insert[OF tree_remove[OF t c]])
  show "\<forall>h\<in>hs - {(i, p, r)}. fst h < n" using n by auto
  show "(j, None, s) \<notin> hs - {(i, p, r)}" if "p = None" for j s
    using tree_root[OF t, of i r j s] tree_id[OF t, of i "(p, r)" "(None, s)"] h that by auto
  show "\<exists>p' r'. (k, p', r') \<in> hs - {(i, p, r)} \<and> within r r'" if "p = Some k" for k
    using tree_parent[OF t, of i k r] h that by auto
  show "sep r s" if "p = Some k" "(j, Some k, s) \<in> hs - {(i, p, r)}" for j k s
    using tree_siblings[OF t, of i k r j s] tree_id[OF t, of i "(p, r)" "(Some k, s)"] h that by auto
qed

fun sep_all :: "pass_region list \<Rightarrow> bool" where
  "sep_all [] = True"
| "sep_all (r # rs) \<longleftrightarrow> (\<forall>s\<in>set rs. sep r s) \<and> sep_all rs"

definition child_holders :: "nat \<Rightarrow> nat \<Rightarrow> pass_region list \<Rightarrow> holder set" where
  "child_holders n m rs = set (zip [m..<m + length rs] (map (\<lambda>r. (Some n, r)) rs))"

lemma child_holders_Cons: "child_holders n m (r # rs) = insert (m, Some n, r) (child_holders n (Suc m) rs)"
  by (simp add: child_holders_def upt_conv_Cons del: upt_Suc)

lemma child_holders_mem: "(j, p, r) \<in> child_holders n m rs \<Longrightarrow> m \<le> j \<and> j < m + length rs \<and> p = Some n \<and> r \<in> set rs"
  by (auto simp: child_holders_def set_zip)

lemma tree_add_children:
  assumes "holder_tree hs" "(n, p, r) \<in> hs" "\<forall>h\<in>hs. fst h < m" "\<forall>s\<in>set rs. within s r" "sep_all rs"
    and "\<forall>j s. (j, Some n, s) \<in> hs \<longrightarrow> (\<forall>s'\<in>set rs. sep s s')"
  shows "holder_tree (hs \<union> child_holders n m rs)"
  using assms
proof (induction rs arbitrary: hs m)
  case (Cons s rs)
  have "holder_tree (insert (m, Some n, s) hs)"
    by (rule tree_insert[OF Cons.prems(1,3)]) (use Cons.prems in \<open>auto intro: sep_commute\<close>)
  moreover have "(n, p, r) \<in> insert (m, Some n, s) hs" using Cons.prems(2) by simp
  ultimately have "holder_tree (insert (m, Some n, s) hs \<union> child_holders n (Suc m) rs)"
    using Cons.prems by (intro Cons.IH) (auto simp: less_Suc_eq)
  thus ?case by (simp add: child_holders_Cons Un_commute insert_commute)
qed (simp add: child_holders_def)

section \<open>The invariant of a domain\<close>

definition write_holder :: "nat \<times> write_pass \<Rightarrow> holder" where
  "write_holder iw = (fst iw, wp_parent (snd iw), wp_region (snd iw))"

definition parent_holder :: "nat \<times> parent_write_pass \<Rightarrow> holder" where
  "parent_holder kq = (fst kq, pw_parent (snd kq), pw_region (snd kq))"

definition holders :: "nat set \<Rightarrow> rw_pass_domain \<Rightarrow> holder set" where
  "holders A d = write_holder ` set (pd_writes d) \<union> parent_holder ` {kq \<in> set (pd_parents d). fst kq \<in> A}"

text \<open>\<open>A\<close> is the set of parents that are still waiting for children.\<close>
definition pass_inv :: "nat set \<Rightarrow> rw_pass_domain \<Rightarrow> bool" where
  "pass_inv A d \<longleftrightarrow>
     distinct (map fst (pd_writes d)) \<and> distinct (map fst (pd_parents d)) \<and>
     (\<forall>k. k \<in> fst ` set (pd_writes d) \<longrightarrow> k < pd_next d) \<and>
     (\<forall>k. k \<in> fst ` set (pd_parents d) \<longrightarrow> k < pd_next d) \<and>
     fst ` set (pd_writes d) \<inter> fst ` set (pd_parents d) = {} \<and> A \<subseteq> fst ` set (pd_parents d) \<and>
     holder_tree (holders A d) \<and>
     (\<forall>i p r. (i, p, r) \<in> holders A d \<longrightarrow> rg_ok r) \<and>
     (\<forall>i k r. (i, Some k, r) \<in> holders A d \<longrightarrow> k \<in> A) \<and>
     (\<forall>k q. (k, q) \<in> set (pd_parents d) \<longrightarrow>
        card (children_of (holders A d) k) \<le> pw_remaining_children q) \<and>
     (\<forall>k q. (k, q) \<in> set (pd_parents d) \<longrightarrow> pw_remaining_children q < 2 ^ 64) \<and>
     (\<forall>i w. (i, w) \<in> set (pd_writes d) \<longrightarrow> \<not> wp_consumed w) \<and>
     (pd_reads d \<noteq> [] \<longrightarrow> pd_writes d = [])"

lemma pass_invD:
  assumes "pass_inv A d"
  shows "distinct (map fst (pd_writes d))" "distinct (map fst (pd_parents d))"
    "\<forall>k. k \<in> fst ` set (pd_writes d) \<longrightarrow> k < pd_next d" "\<forall>k. k \<in> fst ` set (pd_parents d) \<longrightarrow> k < pd_next d"
    "fst ` set (pd_writes d) \<inter> fst ` set (pd_parents d) = {}" "A \<subseteq> fst ` set (pd_parents d)"
    "holder_tree (holders A d)"
    "\<forall>i p r. (i, p, r) \<in> holders A d \<longrightarrow> rg_ok r" "\<forall>i k r. (i, Some k, r) \<in> holders A d \<longrightarrow> k \<in> A"
    "\<forall>k q. (k, q) \<in> set (pd_parents d) \<longrightarrow> card (children_of (holders A d) k) \<le> pw_remaining_children q"
    "\<forall>k q. (k, q) \<in> set (pd_parents d) \<longrightarrow> pw_remaining_children q < 2 ^ 64"
    "\<forall>i w. (i, w) \<in> set (pd_writes d) \<longrightarrow> \<not> wp_consumed w"
    "pd_reads d \<noteq> [] \<longrightarrow> pd_writes d = []"
  by (insert assms, unfold pass_inv_def, (elim conjE, assumption)+)

lemma pass_inv_new: "pass_inv {} rw_pass_domain_new"
  by (simp add: pass_inv_def rw_pass_domain_new_def holders_def holder_tree_def)

text \<open>No pass is below another one, so passes are separated.\<close>
lemma pass_inv_separated:
  assumes inv: "pass_inv A d" and i: "(i, v) \<in> set (pd_writes d)" and j: "(j, w) \<in> set (pd_writes d)" and ne: "i \<noteq> j"
  shows "sep (wp_region v) (wp_region w)"
proof -
  have t: "holder_tree (holders A d)" using inv by (simp add: pass_inv_def)
  have hi: "(i, wp_parent v, wp_region v) \<in> holders A d" and hj: "(j, wp_parent w, wp_region w) \<in> holders A d"
    using i j by (force simp: holders_def write_holder_def)+
  have leaf: "\<not> descends (holders A d) a b" if "a \<in> fst ` set (pd_writes d)" for a b
  proof
    assume "descends (holders A d) a b"
    hence "\<exists>c r. (c, Some a, r) \<in> holders A d" by (induction rule: descends.induct) blast+
    hence "a \<in> A" using inv by (fastforce simp: pass_inv_def)
    thus False using inv that by (auto simp: pass_inv_def)
  qed
  have "i \<in> fst ` set (pd_writes d)" "j \<in> fst ` set (pd_writes d)" using i j by force+
  thus ?thesis
    using tree_separated[OF t hi hj] tree_separated[OF t hj hi] leaf sep_commute ne by (meson linorder_neqE_nat)
qed

lemma holders_finite: "finite (holders A d)"
  by (simp add: holders_def)

lemma holders_fst: "h \<in> holders A d \<Longrightarrow> fst h \<in> fst ` set (pd_writes d) \<union> fst ` set (pd_parents d)"
  by (force simp: holders_def write_holder_def parent_holder_def)

lemma write_in_holders: "(i, w) \<in> set (pd_writes d) \<Longrightarrow> (i, wp_parent w, wp_region w) \<in> holders A d"
  by (force simp: holders_def write_holder_def)

lemma write_no_children:
  assumes "pass_inv A d" "i \<in> fst ` set (pd_writes d)"
  shows "children_of (holders A d) i = {}"
  using pass_invD(5,6)[OF assms(1)] pass_invD(9)[OF assms(1)] assms(2) by (force simp: children_of_def)

lemma fetch_sub_holders: "parent_holder ` {kq \<in> set (fetch_sub p ps). fst kq \<in> A} = parent_holder ` {kq \<in> set ps. fst kq \<in> A}"
  by (force simp: fetch_sub_def parent_holder_def image_iff)

lemma fetch_sub_fst [simp]: "map fst (fetch_sub p ps) = map fst ps"
  by (simp add: fetch_sub_def split_def)

lemma drop_write_pass_fst [simp]: "map fst (drop_write_pass w ps) = map fst ps"
  by (simp add: drop_write_pass_def split: option.split)

lemma drop_write_pass_holders:
  "parent_holder ` {kq \<in> set (drop_write_pass w ps). fst kq \<in> A} = parent_holder ` {kq \<in> set ps. fst kq \<in> A}"
  by (simp add: drop_write_pass_def fetch_sub_holders split: option.split)

lemma set_fst_eq: "map fst xs = map fst ys \<Longrightarrow> fst ` set xs = fst ` set ys"
  by (metis set_map)

lemma holders_delete:
  assumes "pass_inv A d" "(i, w) \<in> set (pd_writes d)"
  shows "holders A (d\<lparr>pd_writes := AList.delete i (pd_writes d), pd_parents := drop_write_pass w' (pd_parents d)\<rparr>)
    = holders A d - {(i, wp_parent w, wp_region w)}"
proof -
  let ?h = "(i, wp_parent w, wp_region w)"
  have inj: "w'' = w" if "(i, w'') \<in> set (pd_writes d)" for w''
    using that assms(2) pass_invD(1)[OF assms(1)] by (metis map_of_is_SomeI option.inject)
  have "write_holder ` set (AList.delete i (pd_writes d)) = write_holder ` set (pd_writes d) - {?h}"
    using inj by (auto simp: AList.delete_eq write_holder_def image_iff)
  moreover have "?h \<notin> parent_holder ` {kq \<in> set (pd_parents d). fst kq \<in> A}"
    using pass_invD(5)[OF assms(1)] assms(2) by (force simp: parent_holder_def)
  ultimately show ?thesis by (auto simp: holders_def drop_write_pass_holders)
qed

lemma children_mono: "hs \<subseteq> hs' \<Longrightarrow> children_of hs k \<subseteq> children_of hs' k"
  by (auto simp: children_of_def)

lemma fetch_sub_mem:
  assumes "(k, q) \<in> set (fetch_sub p ps)"
  obtains q0 where "(k, q0) \<in> set ps" "pw_remaining_children q =
    (if k = p then (pw_remaining_children q0 + (2 ^ 64 - 1)) mod 2 ^ 64 else pw_remaining_children q0)"
  using assms that by (auto simp: fetch_sub_def split: if_splits)

text \<open>A live child keeps the counter of its parent positive, so the decrement is exact.\<close>
lemma decrement_exact: "0 < n \<Longrightarrow> n < 2 ^ 64 \<Longrightarrow> (n + (2 ^ 64 - 1)) mod 2 ^ 64 = n - (1::nat)"
proof -
  assume n: "0 < n" "n < 2 ^ 64"
  hence "n + (2 ^ 64 - 1) = (n - 1) + 2 ^ 64" by simp
  thus ?thesis using n by (simp only: mod_add_self2) simp
qed

lemma pass_inv_delete:
  assumes inv: "pass_inv A d" and w: "(i, w) \<in> set (pd_writes d)"
  shows "pass_inv A (d\<lparr>pd_writes := AList.delete i (pd_writes d), pd_parents := drop_write_pass w (pd_parents d)\<rparr>)"
    (is "pass_inv A ?d")
proof -
  let ?hs = "holders A d" and ?h = "(i, wp_parent w, wp_region w)"
  note I = pass_invD[OF inv]
  have hs: "holders A ?d = ?hs - {?h}" by (rule holders_delete[OF inv w])
  have h: "?h \<in> ?hs" by (rule write_in_holders[OF w])
  have sub: "set (AList.delete i (pd_writes d)) \<subseteq> set (pd_writes d)" by (auto simp: AList.delete_eq)
  have fstp: "fst ` set (drop_write_pass w (pd_parents d)) = fst ` set (pd_parents d)"
    by (rule set_fst_eq) simp
  have i: "i \<in> fst ` set (pd_writes d)" using w by force
  have fin: "finite (children_of ?hs k)" for k by (simp add: children_of_def holders_finite)
  have cnt: "card (children_of (?hs - {?h}) k) \<le> pw_remaining_children q \<and> pw_remaining_children q < 2 ^ 64"
    if kq: "(k, q) \<in> set (drop_write_pass w (pd_parents d))" for k q
  proof (cases "wp_parent w = Some k")
    case True
    hence "(k, q) \<in> set (fetch_sub k (pd_parents d))"
      using kq I(12) w by (simp add: drop_write_pass_def split: if_splits)
    then obtain q0 where q0: "(k, q0) \<in> set (pd_parents d)"
      "pw_remaining_children q = (pw_remaining_children q0 + (2 ^ 64 - 1)) mod 2 ^ 64"
      by (rule fetch_sub_mem) auto
    have hk: "?h \<in> children_of ?hs k" using h True by (simp add: children_of_def)
    have "0 < card (children_of ?hs k)" using hk fin card_gt_0_iff by blast
    moreover have r: "card (children_of ?hs k) \<le> pw_remaining_children q0" "pw_remaining_children q0 < 2 ^ 64"
      using q0(1) I(10,11) by blast+
    ultimately have "pw_remaining_children q = pw_remaining_children q0 - 1"
      unfolding q0(2) by (intro decrement_exact) simp_all
    moreover have "children_of (?hs - {?h}) k = children_of ?hs k - {?h}" by (auto simp: children_of_def)
    ultimately show ?thesis using r hk by (simp add: card_Diff_singleton diff_le_mono less_imp_diff_less)
  next
    case False
    then obtain q0 where q0: "(k, q0) \<in> set (pd_parents d)" "pw_remaining_children q = pw_remaining_children q0"
      using kq by (auto simp: drop_write_pass_def split: option.splits if_splits elim: fetch_sub_mem)
    have "card (children_of (?hs - {?h}) k) \<le> card (children_of ?hs k)"
      by (intro card_mono fin children_mono) auto
    also have "\<dots> \<le> pw_remaining_children q0" using I(10) q0(1) by blast
    finally show ?thesis using I(11) q0 by simp
  qed
  have sub': "fst ` set (AList.delete i (pd_writes d)) \<subseteq> fst ` set (pd_writes d)" using sub by blast
  have fields: "pd_writes ?d = AList.delete i (pd_writes d)" "pd_parents ?d = drop_write_pass w (pd_parents d)"
    "pd_reads ?d = pd_reads d" "pd_next ?d = pd_next d" by simp_all
  show ?thesis
    unfolding pass_inv_def hs fields drop_write_pass_fst fstp
  proof (intro conjI)
    show "holder_tree (?hs - {?h})" by (rule tree_remove[OF I(7) write_no_children[OF inv i]])
    show "\<forall>k q. (k, q) \<in> set (drop_write_pass w (pd_parents d)) \<longrightarrow>
        card (children_of (?hs - {?h}) k) \<le> pw_remaining_children q" using cnt by blast
    show "\<forall>k q. (k, q) \<in> set (drop_write_pass w (pd_parents d)) \<longrightarrow> pw_remaining_children q < 2 ^ 64"
      using cnt by blast
    show "\<forall>i' w'. (i', w') \<in> set (AList.delete i (pd_writes d)) \<longrightarrow> \<not> wp_consumed w'" using I(12) sub by blast
    show "pd_reads d \<noteq> [] \<longrightarrow> AList.delete i (pd_writes d) = []" using I(13) by auto
    show "\<forall>i k r. (i, Some k, r) \<in> ?hs - {?h} \<longrightarrow> k \<in> A" using I(9) by blast
    show "\<forall>i p r. (i, p, r) \<in> ?hs - {?h} \<longrightarrow> rg_ok r" using I(8) by blast
    show "\<forall>k. k \<in> fst ` set (AList.delete i (pd_writes d)) \<longrightarrow> k < pd_next d" using I(3) sub' by blast
    show "fst ` set (AList.delete i (pd_writes d)) \<inter> fst ` set (pd_parents d) = {}" using I(5) sub' by blast
  qed (use I(1,2,4,6) in \<open>simp_all add: distinct_delete\<close>)
qed

lemma children_rename:
  assumes "finite hs" "(i, p, r) \<in> hs" "\<forall>h\<in>hs. fst h < n"
  shows "card (children_of (insert (n, p, r) (hs - {(i, p, r)})) k) = card (children_of hs k)"
proof (cases "p = Some k")
  case True
  have m: "(i, p, r) \<in> children_of hs k" "finite (children_of hs k)" "(n, p, r) \<notin> children_of hs k - {(i, p, r)}"
    using assms True by (force simp: children_of_def)+
  have "children_of (insert (n, p, r) (hs - {(i, p, r)})) k = insert (n, p, r) (children_of hs k - {(i, p, r)})"
    using True by (auto simp: children_of_def)
  thus ?thesis using card.remove[OF m(2,1)] m(2,3) by simp
next
  case False
  hence "children_of (insert (n, p, r) (hs - {(i, p, r)})) k = children_of hs k"
    using assms(2) by (auto simp: children_of_def)
  thus ?thesis by simp
qed

lemma holders_below_next: "pass_inv A d \<Longrightarrow> \<forall>h\<in>holders A d. fst h < pd_next d"
  using holders_fst pass_invD(3,4) by blast

lemma pass_inv_regain:
  assumes inv: "pass_inv A d" and q: "(k, q) \<in> set (pd_parents d)" "k \<in> A" and c: "children_of (holders A d) k = {}"
    and reads: "pd_reads d = []"
  shows "pass_inv (A - {k}) (d\<lparr>pd_writes := (pd_next d, \<lparr>wp_parent = pw_parent q, wp_consumed = False,
      wp_region = pw_region q\<rparr>) # pd_writes d, pd_next := pd_next d + 1\<rparr>)" (is "pass_inv ?A ?d")
proof -
  let ?hs = "holders A d" and ?n = "pd_next d" and ?h = "(k, pw_parent q, pw_region q)"
  let ?new = "(pd_next d, pw_parent q, pw_region q)"
  note I = pass_invD[OF inv]
  have h: "?h \<in> ?hs" using q by (force simp: holders_def parent_holder_def)
  have uniq: "q' = q" if "(k, q') \<in> set (pd_parents d)" for q'
    using that q(1) I(2) by (metis map_of_is_SomeI option.inject)
  have "?h \<notin> write_holder ` set (pd_writes d)" using I(5) q(1) by (force simp: write_holder_def)
  moreover have "parent_holder ` {kq \<in> set (pd_parents d). fst kq \<in> ?A} =
      parent_holder ` {kq \<in> set (pd_parents d). fst kq \<in> A} - {?h}"
    using uniq by (auto simp: parent_holder_def image_iff)
  ultimately have hs: "holders ?A ?d = insert ?new (?hs - {?h})"
    by (auto simp: holders_def write_holder_def)
  have new: "\<forall>h\<in>?hs. fst h < ?n" by (rule holders_below_next[OF inv])
  have cnt: "card (children_of (insert ?new (?hs - {?h})) k') = card (children_of ?hs k')" for k'
    by (rule children_rename[OF holders_finite h new])
  have fresh: "?n \<notin> fst ` set (pd_writes d)" "?n \<notin> fst ` set (pd_parents d)" using I(3,4) by blast+
  have fields: "pd_writes ?d = (?n, \<lparr>wp_parent = pw_parent q, wp_consumed = False, wp_region = pw_region q\<rparr>) # pd_writes d"
    "pd_parents ?d = pd_parents d" "pd_reads ?d = pd_reads d" "pd_next ?d = ?n + 1" by simp_all
  show ?thesis
    unfolding pass_inv_def hs fields cnt
  proof (intro conjI)
    show "holder_tree (insert ?new (?hs - {?h}))" by (rule tree_rename[OF I(7) h c new])
    show "\<forall>i p r. (i, p, r) \<in> insert ?new (?hs - {?h}) \<longrightarrow> rg_ok r" using I(8) h by blast
    show "\<forall>i m r. (i, Some m, r) \<in> insert ?new (?hs - {?h}) \<longrightarrow> m \<in> ?A"
    proof (intro allI impI)
      fix i m r assume "(i, Some m, r) \<in> insert ?new (?hs - {?h})"
      then obtain i' where i': "(i', Some m, r) \<in> ?hs" using h by auto
      hence "m \<noteq> k" using c by (auto simp: children_of_def)
      thus "m \<in> ?A" using I(9) i' by blast
    qed
  qed (use I fresh reads in \<open>auto simp: less_Suc_eq\<close>)
qed

lemma all_exclude_sep: "all_exclude rs \<Longrightarrow> \<forall>r\<in>set rs. rg_ok r \<Longrightarrow> sep_all rs"
  by (induction rs) (auto intro: excludes_sep)

lemma card_child_holders: "card (child_holders n m rs) = length rs"
proof -
  have "distinct (zip [m..<m + length rs] (map (\<lambda>r. (Some n, r)) rs))" by (intro distinct_zipI1) simp
  thus ?thesis by (simp add: child_holders_def distinct_card)
qed

lemma children_Un: "children_of (M \<union> C) k = children_of M k \<union> children_of C k"
  by (auto simp: children_of_def)

lemma children_Diff: "children_of (M - C) k = children_of M k - C"
  by (auto simp: children_of_def)

lemma children_none: "(\<And>j s. (j, Some k, s) \<notin> M) \<Longrightarrow> children_of M k = {}"
  by (auto simp: children_of_def)

lemma children_child_holders: "children_of (child_holders n m rs) k = (if k = n then child_holders n m rs else {})"
  by (auto simp: children_of_def dest: child_holders_mem)

lemma set_shuffle: "X \<union> Z = H \<Longrightarrow> (C \<union> X) \<union> insert a Z = insert a H \<union> C"
  by auto

lemma pass_inv_split:
  assumes inv: "pass_inv A d" and w: "(i, w) \<in> set (pd_writes d)" and n: "n = pd_next d"
    and rs: "\<forall>r\<in>set rs. rg_ok r" "length rs < 2 ^ 64"
      "\<forall>r\<in>set rs. rg_encompasses (wp_region w) r" "all_exclude rs"
  shows "pass_inv (insert n A)
    (d\<lparr>pd_writes := zip [n + 1..<n + 1 + length rs]
          (map (\<lambda>r. \<lparr>wp_parent = Some n, wp_consumed = False, wp_region = r\<rparr>) rs) @ AList.delete i (pd_writes d),
       pd_parents := (n, \<lparr>pw_parent = wp_parent w, pw_region = wp_region w,
          pw_remaining_children = length rs\<rparr>) # pd_parents d,
       pd_next := n + 1 + length rs\<rparr>)" (is "pass_inv ?A ?d")
proof -
  let ?hs = "holders A d" and ?h = "(i, wp_parent w, wp_region w)"
  let ?new = "(n, wp_parent w, wp_region w)"
  let ?mid = "insert ?new (?hs - {?h})" and ?ch = "child_holders n (n + 1) rs"
  note I = pass_invD[OF inv]
  have h: "?h \<in> ?hs" by (rule write_in_holders[OF w])
  have below: "\<forall>h\<in>?hs. fst h < n" using holders_below_next[OF inv] n by simp
  have fresh: "n \<notin> fst ` set (pd_writes d)" "n \<notin> fst ` set (pd_parents d)"
    using I(3)[rule_format, of n] I(4)[rule_format, of n] n by auto
  hence nA: "n \<notin> A" using I(6) by blast
  let ?passes = "zip [n + 1..<n + 1 + length rs]
      (map (\<lambda>r. \<lparr>wp_parent = Some n, wp_consumed = False, wp_region = r\<rparr>) rs)"
  have fields: "pd_writes ?d = ?passes @ AList.delete i (pd_writes d)"
    "pd_parents ?d = (n, \<lparr>pw_parent = wp_parent w, pw_region = wp_region w, pw_remaining_children = length rs\<rparr>) # pd_parents d"
    "pd_reads ?d = pd_reads d" "pd_next ?d = n + 1 + length rs" by simp_all
  have e1: "write_holder ` set ?passes = ?ch" by (force simp: child_holders_def write_holder_def set_zip)
  have e2: "parent_holder ` {kq \<in> set (pd_parents ?d). fst kq \<in> ?A} =
      insert ?new (parent_holder ` {kq \<in> set (pd_parents d). fst kq \<in> A})"
    using fresh(2) by (force simp: parent_holder_def)
  have e3: "write_holder ` set (AList.delete i (pd_writes d)) \<union>
      parent_holder ` {kq \<in> set (pd_parents d). fst kq \<in> A} = ?hs - {?h}"
    using holders_delete[OF inv w, of "w\<lparr>wp_parent := None\<rparr>"] by (simp add: holders_def drop_write_pass_def)
  have "holders ?A ?d = (?ch \<union> write_holder ` set (AList.delete i (pd_writes d))) \<union>
      insert ?new (parent_holder ` {kq \<in> set (pd_parents d). fst kq \<in> A})"
    unfolding holders_def e2 by (simp only: fields(1) set_append image_Un e1)
  hence hs: "holders ?A ?d = ?mid \<union> ?ch" by (simp only: set_shuffle[OF e3])
  have up: "\<exists>j'. (j', p, r) \<in> ?hs" if "(j, p, r) \<in> ?mid" for j p r using that h by auto
  have noch: "(j, Some n, s) \<notin> ?mid" for j s using up[of j "Some n" s] I(9) nA by blast
  have mid: "holder_tree ?mid"
    by (rule tree_rename[OF I(7) h write_no_children[OF inv] below]) (use w in force)
  have tree: "holder_tree (?mid \<union> ?ch)"
  proof (rule tree_add_children[OF mid, of n "wp_parent w" "wp_region w"])
    show "\<forall>h\<in>?mid. fst h < n + 1" using below by (simp add: less_Suc_eq)
    have "rg_ok (wp_region w)" using I(8) h by blast
    thus "\<forall>s\<in>set rs. within s (wp_region w)" using encompasses_within[of "wp_region w"] rs(1,3) by simp
    show "sep_all rs" by (rule all_exclude_sep[OF rs(4,1)])
    show "\<forall>j s. (j, Some n, s) \<in> ?mid \<longrightarrow> (\<forall>s'\<in>set rs. sep s s')" using noch by blast
  qed simp
  have chn: "children_of (?mid \<union> ?ch) n = ?ch"
    by (simp add: children_Un children_none[OF noch] children_child_holders del: Un_insert_left)
  have chk: "card (children_of (?mid \<union> ?ch) k) = card (children_of ?hs k)" if "k \<noteq> n" for k
  proof -
    have "children_of (?mid \<union> ?ch) k = children_of ?mid k"
      using that by (simp add: children_Un children_child_holders del: Un_insert_left)
    thus ?thesis using children_rename[OF holders_finite h below] by simp
  qed
  have ids: "k \<in> fst ` set ?passes \<Longrightarrow> n < k \<and> k < n + 1 + length rs" for k
    by (auto simp del: upt_Suc dest: set_zip_leftD)
  have sub: "set (AList.delete i (pd_writes d)) \<subseteq> set (pd_writes d)" by (auto simp: AList.delete_eq)
  have old: "k < n" if "k \<in> fst ` set (pd_writes d) \<union> fst ` set (pd_parents d)" for k using that I(3,4) n by blast
  show ?thesis
    unfolding pass_inv_def hs
  proof (intro conjI)
    show "\<forall>k q. (k, q) \<in> set (pd_parents ?d) \<longrightarrow> card (children_of (?mid \<union> ?ch) k) \<le> pw_remaining_children q"
    proof (intro allI impI)
      fix k q assume kq: "(k, q) \<in> set (pd_parents ?d)"
      show "card (children_of (?mid \<union> ?ch) k) \<le> pw_remaining_children q"
      proof (cases "k = n")
        case True
        hence "pw_remaining_children q = length rs" using kq fresh(2) by force
        thus ?thesis using True chn card_child_holders by simp
      next
        case False
        thus ?thesis using kq I(10) chk[OF False] by auto
      qed
    qed
    show "\<forall>j p r. (j, p, r) \<in> ?mid \<union> ?ch \<longrightarrow> rg_ok r"
    proof (intro allI impI)
      fix j p r assume "(j, p, r) \<in> ?mid \<union> ?ch"
      thus "rg_ok r" using up[of j p r] I(8) rs(1) child_holders_mem[of j p r] by blast
    qed
    show "\<forall>j k r. (j, Some k, r) \<in> ?mid \<union> ?ch \<longrightarrow> k \<in> ?A"
    proof (intro allI impI)
      fix j k r assume "(j, Some k, r) \<in> ?mid \<union> ?ch"
      thus "k \<in> ?A" using up[of j "Some k" r] I(9) child_holders_mem[of j "Some k" r] by blast
    qed
    have del: "fst ` set (AList.delete i (pd_writes d)) \<subseteq> fst ` set (pd_writes d)" using sub by blast
    have ws: "fst ` set (pd_writes ?d) = fst ` set ?passes \<union> fst ` set (AList.delete i (pd_writes d))"
      unfolding fields(1) by (simp only: set_append image_Un)
    have "distinct (map fst ?passes)" by simp
    moreover have "fst ` set ?passes \<inter> fst ` set (AList.delete i (pd_writes d)) = {}"
      using ids old del by (meson UnI1 disjoint_iff less_asym subsetD)
    ultimately show "distinct (map fst (pd_writes ?d))"
      unfolding fields(1) using distinct_delete[OF I(1)] by (simp only: map_append distinct_append set_map)
    show "pd_reads ?d \<noteq> [] \<longrightarrow> pd_writes ?d = []" using I(13) w by auto
    show "\<forall>k. k \<in> fst ` set (pd_writes ?d) \<longrightarrow> k < pd_next ?d"
      unfolding ws fields(4) using ids old del by (meson UnE UnI1 subsetD trans_less_add1 add.assoc)
    show "\<forall>k. k \<in> fst ` set (pd_parents ?d) \<longrightarrow> k < pd_next ?d"
      unfolding fields using old by (auto simp: less_Suc_eq trans_less_add1)
    show "fst ` set (pd_writes ?d) \<inter> fst ` set (pd_parents ?d) = {}"
    proof (rule equals0I)
      fix k assume "k \<in> fst ` set (pd_writes ?d) \<inter> fst ` set (pd_parents ?d)"
      hence k: "k \<in> fst ` set ?passes \<or> k \<in> fst ` set (pd_writes d)" "k = n \<or> k \<in> fst ` set (pd_parents d)"
        unfolding ws fields(2) using del by (auto simp del: upt_Suc)
      from k(1) show False
      proof
        assume "k \<in> fst ` set ?passes"
        hence "n < k" using ids by blast
        moreover have "k \<le> n" using k(2) old[of k] by (meson UnI2 less_imp_le order_refl)
        ultimately show False by simp
      next
        assume w: "k \<in> fst ` set (pd_writes d)"
        hence "k \<noteq> n" using fresh(1) by blast
        thus False using k(2) w I(5) by blast
      qed
    qed
    show "\<forall>j v. (j, v) \<in> set (pd_writes ?d) \<longrightarrow> \<not> wp_consumed v"
      unfolding fields(1) using I(12) sub by (fastforce simp del: upt_Suc dest: set_zip_rightD)
    show "\<forall>k q. (k, q) \<in> set (pd_parents ?d) \<longrightarrow> pw_remaining_children q < 2 ^ 64"
      unfolding fields(2) using I(11) rs(2) by auto
    show "holder_tree (?mid \<union> ?ch)" by (rule tree)
  qed (use I(2,6) fresh in auto)
qed

lemma fetch_sub_keeps:
  assumes "(k, q) \<in> set ps"
  shows "\<exists>q1. (k, q1) \<in> set (fetch_sub p ps) \<and> pw_parent q1 = pw_parent q \<and> pw_region q1 = pw_region q"
proof -
  let ?f = "\<lambda>(k, q). (k, if k = p
     then q\<lparr>pw_remaining_children := (pw_remaining_children q + (2 ^ 64 - 1)) mod 2 ^ 64\<rparr> else q)"
  have "?f (k, q) \<in> set (fetch_sub p ps)" using assms by (simp only: fetch_sub_def set_map imageI)
  thus ?thesis by (auto split: if_splits)
qed

lemma drop_write_pass_keeps:
  assumes "(k, q) \<in> set ps"
  shows "\<exists>q1. (k, q1) \<in> set (drop_write_pass w ps) \<and> pw_parent q1 = pw_parent q \<and> pw_region q1 = pw_region q"
  using assms fetch_sub_keeps by (simp add: drop_write_pass_def split: option.split) blast

lemma card_one_singleton: "x \<in> S \<Longrightarrow> card S \<le> 1 \<Longrightarrow> finite S \<Longrightarrow> S = {x}"
  by (auto simp: card_le_Suc0_iff_eq)

lemma pass_inv_consume:
  assumes inv: "pass_inv A d" and c: "consume d i = Some (d', res)"
  shows "\<exists>A'. pass_inv A' d'"
proof -
  obtain w where w: "map_of (pd_writes d) i = Some w" using c by (auto simp: consume_def bind_eq_Some_conv)
  note wm = map_of_SomeD[OF w]
  let ?d1 = "d\<lparr>pd_writes := AList.delete i (pd_writes d), pd_parents := drop_write_pass w (pd_parents d)\<rparr>"
  note I = pass_invD[OF inv]
  have d1: "pass_inv A ?d1" by (rule pass_inv_delete[OF inv wm])
  show ?thesis
  proof (cases "wp_parent w")
    case None
    then show ?thesis using c w d1 by (auto simp: consume_def Let_def)
  next
    case (Some p)
    then obtain q where q: "map_of (pd_parents d) p = Some q" using c w by (auto simp: consume_def bind_eq_Some_conv Let_def)
    note qm = map_of_SomeD[OF q]
    have eq: "drop_write_pass (w\<lparr>wp_consumed := True\<rparr>) (fetch_sub p (pd_parents d)) = drop_write_pass w (pd_parents d)"
      using Some I(12) wm by (auto simp: drop_write_pass_def)
    show ?thesis
    proof (cases "pw_remaining_children q = 1")
      case False
      then show ?thesis using c w Some q d1 eq by (auto simp: consume_def Let_def)
    next
      case True
      let ?h = "(i, wp_parent w, wp_region w)"
      have h: "?h \<in> holders A d" by (rule write_in_holders[OF wm])
      hence "?h \<in> children_of (holders A d) p" using Some by (simp add: children_of_def)
      moreover have "card (children_of (holders A d) p) \<le> 1" using I(10) qm True by metis
      moreover have "finite (children_of (holders A d) p)" by (simp add: children_of_def holders_finite)
      ultimately have "children_of (holders A d) p = {?h}"
        by (metis card_one_singleton)
      hence ch: "children_of (holders A ?d1) p = {}"
        unfolding holders_delete[OF inv wm] children_Diff by simp
      have pA: "p \<in> A" using I(9) h Some by auto
      obtain q1 where q1: "(p, q1) \<in> set (pd_parents ?d1)" "pw_parent q1 = pw_parent q" "pw_region q1 = pw_region q"
        using drop_write_pass_keeps[OF qm, of w] by auto
      have "pd_reads ?d1 = []" using I(13) wm by auto
      from pass_inv_regain[OF d1 q1(1) pA ch this] have "pass_inv (A - {p}) (?d1\<lparr>pd_writes :=
          (pd_next d, \<lparr>wp_parent = pw_parent q, wp_consumed = False, wp_region = pw_region q\<rparr>)
            # AList.delete i (pd_writes d), pd_next := pd_next d + 1\<rparr>)"
        unfolding q1(2,3) by simp
      moreover have "d' = ?d1\<lparr>pd_writes :=
          (pd_next d, \<lparr>wp_parent = pw_parent q, wp_consumed = False, wp_region = pw_region q\<rparr>)
            # AList.delete i (pd_writes d), pd_next := pd_next d + 1\<rparr>"
        using c w Some q eq True by (cases d) (simp add: consume_def Let_def)
      ultimately show ?thesis by blast
    qed
  qed
qed

lemma holders_empty: "pd_writes d = [] \<Longrightarrow> holders {} d = {}"
  by (simp add: holders_def)

lemma pass_inv_new_write:
  assumes inv: "pass_inv A d" and n: "new_write_pass d = Some (d', i)"
  shows "pass_inv {} d'"
proof -
  have none: "pd_writes d = []" "pd_reads d = []" using n by (auto simp: new_write_pass_def split: if_splits)
  have d': "d' = d\<lparr>pd_writes := [(pd_next d, \<lparr>wp_parent = None, wp_consumed = False, wp_region = UniversalRegion\<rparr>)],
      pd_next := pd_next d + 1\<rparr>" using n none by (auto simp: new_write_pass_def)
  have hs: "holders {} d' = {(pd_next d, None, UniversalRegion)}" by (simp add: d' holders_def write_holder_def)
  note I = pass_invD[OF inv]
  have "pd_next d \<notin> fst ` set (pd_parents d)" using I(4) by blast
  moreover have "children_of {(pd_next d, None, UniversalRegion)} k = {}" for k by (simp add: children_of_def)
  ultimately show ?thesis unfolding pass_inv_def hs using I(2,4,11) none
    by (auto simp: d' holder_tree_def less_Suc_eq)
qed

lemma pass_inv_region:
  assumes inv: "pass_inv A d" and n: "write_with_region d i r = Some d'" and ok: "region_ok r"
  shows "\<exists>A'. pass_inv A' d'"
proof -
  obtain w where w: "map_of (pd_writes d) i = Some w" "wp_parent w = None"
    and d': "d' = d\<lparr>pd_writes := (i, \<lparr>wp_parent = None, wp_consumed = False, wp_region = PageRegion r\<rparr>)
        # AList.delete i (pd_writes d)\<rparr>"
    using n by (auto simp: write_with_region_def bind_eq_Some_conv)
  note I = pass_invD[OF inv] and wm = map_of_SomeD[OF w(1)]
  have i: "i \<in> fst ` set (pd_writes d)" using wm by force
  have "holders A d = {(i, None, wp_region w)}"
    by (rule tree_lone_root[OF I(7) _ write_no_children[OF inv i]]) (use write_in_holders[OF wm] w(2) in simp)
  hence lone: "write_holder ` set (pd_writes d) \<subseteq> {(i, None, wp_region w)}"
    unfolding holders_def by blast
  have "fst ` set (pd_writes d) = {i}"
  proof -
    have "fst ` write_holder ` set (pd_writes d) = fst ` set (pd_writes d)" by (simp add: image_image write_holder_def)
    hence "fst ` set (pd_writes d) \<subseteq> {i}" using image_mono[OF lone, of fst] by simp
    thus ?thesis using i by (metis empty_iff subset_singletonD)
  qed
  hence del: "AList.delete i (pd_writes d) = []" by (force simp: AList.delete_eq filter_empty_conv)
  have hs: "holders {} d' = {(i, None, PageRegion r)}" by (simp add: d' del holders_def write_holder_def)
  have "children_of {(i, None, PageRegion r)} k = {}" for k by (simp add: children_of_def)
  moreover have "pd_reads d = []" using I(13) wm by auto
  ultimately have "pass_inv {} d'" unfolding pass_inv_def hs using I(2,3,4,5,11) i ok
    by (auto simp: d' del holder_tree_def)
  thus ?thesis by blast
qed

lemma pass_inv_reads:
  assumes inv: "pass_inv A d" and "pd_writes d' = pd_writes d" "pd_parents d' = pd_parents d" "pd_next d \<le> pd_next d'"
    and "pd_reads d' \<noteq> [] \<longrightarrow> pd_writes d = []"
  shows "pass_inv A d'"
proof -
  note I = pass_invD[OF inv]
  have "holders A d' = holders A d" using assms(2,3) by (simp add: holders_def)
  moreover have "\<forall>k. k \<in> fst ` set (pd_writes d) \<longrightarrow> k < pd_next d'" "\<forall>k. k \<in> fst ` set (pd_parents d) \<longrightarrow> k < pd_next d'"
    using I(3,4) assms(4) by (meson order.strict_trans2)+
  ultimately show ?thesis unfolding pass_inv_def assms(2,3)
    using I(1,2,5-12) assms(5) by simp
qed

lemma pass_inv_step:
  assumes "pass_step d d'" "pass_inv A d"
  shows "\<exists>A'. pass_inv A' d'"
  using assms
proof (cases rule: pass_step.cases)
  case (step_new_read i)
  hence "pd_writes d = []" "d' = d\<lparr>pd_reads := (pd_next d, UniversalRegion) # pd_reads d, pd_next := pd_next d + 1\<rparr>"
    by (auto simp: new_read_pass_def split: if_splits)
  then show ?thesis using pass_inv_reads[OF assms(2), of d'] by auto
next
  case (step_new_write i)
  then show ?thesis using pass_inv_new_write[OF assms(2)] by blast
next
  case (step_split i rs ids)
  then obtain w where w: "map_of (pd_writes d) i = Some w" by (auto simp: split_n_def bind_eq_Some_conv)
  note wm = map_of_SomeD[OF w]
  show ?thesis
  proof (cases "rs = []")
    case True
    then show ?thesis using step_split w pass_inv_delete[OF assms(2) wm] by (auto simp: split_n_def Let_def)
  next
    case False
    with step_split w have rs: "\<forall>r\<in>set rs. rg_encompasses (wp_region w) r" "all_exclude rs"
      by (auto simp: split_n_def Let_def bind_eq_Some_conv split: if_splits)
    from pass_inv_split[OF assms(2) wm refl step_split(2,3) rs] False step_split(1) w rs show ?thesis
      by (cases d) (auto simp: split_n_def Let_def drop_write_pass_def)
  qed
next
  case (step_consume i r)
  then show ?thesis using pass_inv_consume[OF assms(2)] by blast
next
  case (step_drop i)
  then obtain w where w: "map_of (pd_writes d) i = Some w" by (auto simp: drop_pass_def bind_eq_Some_conv)
  show ?thesis using pass_inv_delete[OF assms(2) map_of_SomeD[OF w]] step_drop w by (auto simp: drop_pass_def)
next
  case (step_drop_read i)
  then show ?thesis using pass_inv_reads[OF assms(2), of d'] pass_invD(13)[OF assms(2)] by (auto simp: drop_read_def)
next
  case (step_write_region i r)
  then show ?thesis using pass_inv_region[OF assms(2)] by blast
next
  case (step_read_region i r)
  then obtain s where s: "map_of (pd_reads d) i = Some s"
    "d' = d\<lparr>pd_reads := (i, PageRegion r) # AList.delete i (pd_reads d)\<rparr>"
    by (auto simp: read_with_region_def bind_eq_Some_conv)
  hence "pd_writes d = []" using pass_invD(13)[OF assms(2)] by auto
  then show ?thesis using pass_inv_reads[OF assms(2), of d'] s(2) by auto
qed

lemma reachable_pass_inv: "pass_reachable d \<Longrightarrow> \<exists>A. pass_inv A d"
  by (induction rule: pass_reachable.induct) (use pass_inv_new pass_inv_step in blast)+


section \<open>Properties\<close>

text \<open>C7: mutual exclusion.  In every state of a domain that
  its users can reach, with passes created, split, consumed, dropped and restricted in any
  order, a page that one live write pass may write cannot be read or written with any
  other live write pass, and no read pass is alive while a write pass is.\<close>
theorem pass_mutual_exclusion:
  assumes "pass_reachable d" "map_of (pd_writes d) i = Some v" "page_id_ok (cell_id c)"
    and "cell_write c dm v x \<noteq> None"
  shows "(\<forall>j w. map_of (pd_writes d) j = Some w \<longrightarrow> j \<noteq> i \<longrightarrow>
      cell_write c dm w y = None \<and> cell_read c dm (wp_region w) = None) \<and> pd_reads d = []"
proof -
  obtain A where inv: "pass_inv A d" using reachable_pass_inv[OF assms(1)] by blast
  have v: "(i, v) \<in> set (pd_writes d)" by (rule map_of_SomeD[OF assms(2)])
  have acc: "rg_contains_exclusive (wp_region v) (cell_id c)"
    using assms(4) by (auto simp: cell_write_def check_domain_def assert_that_def split: if_splits)
  have "\<not> rg_contains (wp_region w) (cell_id c) \<and> \<not> rg_contains_exclusive (wp_region w) (cell_id c)"
    if "map_of (pd_writes d) j = Some w" "j \<noteq> i" for j w
    using pass_inv_separated[OF inv v map_of_SomeD[OF that(1)]] that(2) acc assms(3) rg.write_any
    by (auto simp: sep_def)
  moreover have "pd_reads d = []" using pass_invD(13)[OF inv] v by auto
  ultimately show ?thesis by (auto simp: cell_write_def cell_read_def bind_eq_None_conv assert_that_def)
qed

text \<open>A domain whose write pass is split between two sub-trees of pages.\<close>
definition sample_domain :: rw_pass_domain where
  "sample_domain = fst (the (split_n
     (the (write_with_region (fst (the (new_write_pass rw_pass_domain_new))) 0 region_universe))
     0 [PageRegion (from_page_id [3]), PageRegion (from_page_id [5])]))"

lemma sample_domain_reachable: "pass_reachable sample_domain"
proof -
  let ?d1 = "fst (the (new_write_pass rw_pass_domain_new))"
  let ?d2 = "the (write_with_region ?d1 0 region_universe)"
  let ?rs = "[PageRegion (from_page_id [3]), PageRegion (from_page_id [5])]"
  have "new_write_pass rw_pass_domain_new = Some (?d1, 0)" by code_simp
  hence 1: "pass_reachable ?d1" using reach_new step_new_write reach_step by blast
  have "write_with_region ?d1 0 region_universe = Some ?d2" by code_simp
  moreover have "region_ok region_universe" unfolding region_universe_def by (rule region_ok.subtree) code_simp
  ultimately have 2: "pass_reachable ?d2" using 1 step_write_region reach_step by blast
  have "split_n ?d2 0 ?rs = Some (sample_domain, [2, 3])" by code_simp
  moreover have "region_ok (from_page_id [3])" "region_ok (from_page_id [5])" by (rule region_ok.subtree, code_simp)+
  ultimately show ?thesis using 2 step_split[of ?d2 0 ?rs sample_domain] reach_step by force
qed

theorem pass_mutual_exclusion_witness:
  "cell_write (protect_with_id 7 () [3, 1]) 7 (snd (pd_writes sample_domain ! 1)) () = None \<and> pd_reads sample_domain = []"
proof -
  let ?v = "snd (pd_writes sample_domain ! 0)" and ?w = "snd (pd_writes sample_domain ! 1)"
  let ?c = "protect_with_id 7 () [3, 1]"
  have v: "map_of (pd_writes sample_domain) 2 = Some ?v" by code_simp
  have w: "map_of (pd_writes sample_domain) 3 = Some ?w" by code_simp
  have ok: "page_id_ok (cell_id ?c)" by code_simp
  have "cell_write ?c 7 ?v () \<noteq> None" by code_simp
  from pass_mutual_exclusion[OF sample_domain_reachable v ok this, of "()"] w show ?thesis by simp
qed

text \<open>Consume passes one after another; the passes handed back.\<close>
fun consume_seq :: "rw_pass_domain \<Rightarrow> nat list \<Rightarrow> (rw_pass_domain \<times> nat option list) option" where
  "consume_seq d [] = Some (d, [])"
| "consume_seq d (i # is) = do {
     (d1, r) \<leftarrow> consume d i;
     (d2, rs) \<leftarrow> consume_seq d1 is;
     Some (d2, r # rs) }"

lemma map_of_fetch_sub:
  "map_of (fetch_sub p ps) k = map_option (\<lambda>q. if k = p
     then q\<lparr>pw_remaining_children := (pw_remaining_children q + (2 ^ 64 - 1)) mod 2 ^ 64\<rparr> else q) (map_of ps k)"
  by (induction ps) (auto simp: fetch_sub_def)

lemma consume_siblings:
  assumes "distinct js" "js \<noteq> []"
    and "\<forall>j\<in>set js. \<exists>w. map_of (pd_writes d) j = Some w \<and> wp_parent w = Some p"
    and "map_of (pd_parents d) p = Some q" "pw_remaining_children q = length js" "length js < 2 ^ 64"
  shows "\<exists>d' n. consume_seq d js = Some (d', replicate (length js - 1) None @ [Some n]) \<and>
    map_of (pd_writes d') n = Some \<lparr>wp_parent = pw_parent q, wp_consumed = False, wp_region = pw_region q\<rparr>"
  using assms
proof (induction js arbitrary: d q)
  case (Cons j js)
  obtain w where w: "map_of (pd_writes d) j = Some w" "wp_parent w = Some p" using Cons.prems(3) by auto
  show ?case
  proof (cases "js = []")
    case True
    then show ?thesis using w Cons.prems(4,5) by (simp add: consume_def)
  next
    case False
    let ?ps = "fetch_sub p (pd_parents d)"
    let ?d = "d\<lparr>pd_writes := AList.delete j (pd_writes d), pd_parents := ?ps\<rparr>"
    let ?q = "q\<lparr>pw_remaining_children := length js\<rparr>"
    have c: "consume d j = Some (?d, None)"
      using w Cons.prems(4,5) False by (simp add: consume_def Let_def drop_write_pass_def)
    have "(length (j # js) + (2 ^ 64 - 1)) mod 2 ^ 64 = length js"
      using decrement_exact[of "length (j # js)"] Cons.prems(6) by simp
    hence q: "map_of (pd_parents ?d) p = Some ?q" using Cons.prems(4,5) by (simp add: map_of_fetch_sub)
    have ws: "\<forall>k\<in>set js. \<exists>w. map_of (pd_writes ?d) k = Some w \<and> wp_parent w = Some p"
      using Cons.prems(1,3) by (auto simp: AList.delete_conv')
    have len: "pw_remaining_children ?q = length js" "length js < 2 ^ 64" using Cons.prems(6) by auto
    obtain d' n where "consume_seq ?d js = Some (d', replicate (length js - 1) None @ [Some n])"
      "map_of (pd_writes d') n = Some \<lparr>wp_parent = pw_parent q, wp_consumed = False, wp_region = pw_region q\<rparr>"
      using Cons.IH[OF _ False ws q len] Cons.prems(1) by auto
    moreover have "None # replicate (length js - 1) None = replicate (length js) None"
      using False by (cases js) auto
    ultimately show ?thesis using c by (auto simp: append_Cons[symmetric] simp del: append_Cons)
  qed
qed simp

text \<open>C10: a split can be undone.  After a write pass is split,
  consuming the parts, in any order, gives nothing back until the last of them, which
  gives back a pass with the region and the parent of the pass that was split.\<close>
theorem split_then_consume:
  assumes "map_of (pd_writes d) i = Some w" "split_n d i rs = Some (d', ids)" "rs \<noteq> []" "length rs < 2 ^ 64"
    and "distinct js" "set js = set ids"
  shows "length ids = length rs \<and> (\<exists>d'' n. consume_seq d' js = Some (d'', replicate (length rs - 1) None @ [Some n]) \<and>
    map_of (pd_writes d'') n = Some \<lparr>wp_parent = wp_parent w, wp_consumed = False, wp_region = wp_region w\<rparr>)"
proof -
  let ?n = "pd_next d"
  let ?q = "\<lparr>pw_parent = wp_parent w, pw_region = wp_region w, pw_remaining_children = length rs\<rparr>"
  let ?passes = "zip [?n + 1..<?n + 1 + length rs] (map (\<lambda>r. \<lparr>wp_parent = Some ?n, wp_consumed = False, wp_region = r\<rparr>) rs)"
  have ids: "ids = [?n + 1..<?n + 1 + length rs]" and q: "map_of (pd_parents d') ?n = Some ?q"
    and ws: "pd_writes d' = ?passes @ AList.delete i (pd_writes d)"
    using assms(1-3) by (auto simp: split_n_def Let_def bind_eq_Some_conv simp del: upt_Suc split: if_splits)
  have len: "length ids = length rs" by (simp add: ids del: upt_Suc)
  hence js: "length js = length rs" using assms(5,6) by (metis distinct_card distinct_upt ids)
  have "\<exists>w. map_of (pd_writes d') j = Some w \<and> wp_parent w = Some ?n" if "j \<in> set js" for j
  proof -
    have "j \<in> fst ` set ?passes" using that assms(6) ids by (simp add: image_set del: upt_Suc set_map flip: set_map)
    then obtain v where v: "map_of ?passes j = Some v" by (metis map_of_eq_None_iff not_None_eq)
    hence "wp_parent v = Some ?n" by (auto dest!: map_of_SomeD set_zip_rightD simp del: upt_Suc)
    thus ?thesis using v ws by (auto simp: map_add_def)
  qed
  moreover have "js \<noteq> []" using js assms(3) by auto
  ultimately show ?thesis
    using consume_siblings[OF assms(5) _ _ q] js assms(4) len by simp
qed

theorem split_then_consume_witness:
  "\<exists>d'' n. consume_seq sample_domain [3, 2] = Some (d'', [None, Some n]) \<and>
     map_of (pd_writes d'') n = Some \<lparr>wp_parent = None, wp_consumed = False, wp_region = PageRegion region_universe\<rparr>"
proof -
  let ?d = "the (write_with_region (fst (the (new_write_pass rw_pass_domain_new))) 0 region_universe)"
  let ?rs = "[PageRegion (from_page_id [3]), PageRegion (from_page_id [5])]"
  let ?w = "\<lparr>wp_parent = None, wp_consumed = False, wp_region = PageRegion region_universe\<rparr>"
  have w: "map_of (pd_writes ?d) 0 = Some ?w" by code_simp
  have s: "split_n ?d 0 ?rs = Some (sample_domain, [2, 3])" by code_simp
  show ?thesis using split_then_consume[OF w s, of "[3, 2]"] by (simp add: insert_commute)
qed

end
