(* ===== verification/ByteReaders.thy ===== *)
theory ByteReaders
  imports NomtPrelude "HOL-Library.Sublist"
begin

text \<open>
  Reading records back from bytes.  The locale \<open>byte_codec\<close> is the contract between a
  writer, which prints a value as bytes, and a reader, which steps over a state with some
  bytes left: reading what was printed gives the value and leaves the rest.  From the
  contract follow the round trip of counted sequences and the injectivity of printing.
\<close>

section \<open>Files of pages\<close>

text \<open>\<open>PAGE_SIZE\<close> and \<open>read_page\<close> of \<open>nomt/src/io/mod.rs\<close>, over the bytes of a file:
  \<open>read_exact_at\<close> fails with \<open>UnexpectedEof\<close> past the end.\<close>
definition PAGE_SIZE :: nat where
  "PAGE_SIZE = 4096"

definition read_page :: "bytes \<Rightarrow> nat \<Rightarrow> bytes option" where
  "read_page fl pn = slice_of fl (pn * PAGE_SIZE) (pn * PAGE_SIZE + PAGE_SIZE)"

definition round_up_page :: "nat \<Rightarrow> nat" where
  "round_up_page n = (n + PAGE_SIZE - 1) div PAGE_SIZE * PAGE_SIZE"

lemma round_up_page_ge: "n \<le> round_up_page n"
proof -
  have "n + PAGE_SIZE - 1 < (n + PAGE_SIZE - 1) div PAGE_SIZE * PAGE_SIZE + PAGE_SIZE"
    by (metis PAGE_SIZE_def dividend_less_div_times zero_less_numeral add.commute)
  thus ?thesis by (simp add: round_up_page_def PAGE_SIZE_def)
qed

lemma round_up_page_dvd [simp]: "PAGE_SIZE dvd round_up_page n"
  by (simp add: round_up_page_def)

lemma round_up_page_le: "PAGE_SIZE dvd s \<Longrightarrow> n \<le> s \<Longrightarrow> round_up_page n \<le> s"
proof -
  assume "PAGE_SIZE dvd s" "n \<le> s"
  then obtain k where k: "s = PAGE_SIZE * k" by blast
  have "(n + PAGE_SIZE - 1) div PAGE_SIZE < Suc k"
    using \<open>n \<le> s\<close> k by (intro less_mult_imp_div_less) (simp add: PAGE_SIZE_def)
  hence "(n + PAGE_SIZE - 1) div PAGE_SIZE \<le> k" by simp
  thus ?thesis using k by (simp add: round_up_page_def mult.commute)
qed

text \<open>\<open>write_all_at\<close> of a page: past the end it extends the file.\<close>
definition write_page_at :: "bytes \<Rightarrow> nat \<Rightarrow> bytes \<Rightarrow> bytes" where
  "write_page_at fl pn page =
     take (pn * PAGE_SIZE) (fl @ replicate (pn * PAGE_SIZE - length fl) 0) @ page @
     drop (pn * PAGE_SIZE + length page) fl"

text \<open>A page number inside the file.\<close>
definition in_file :: "bytes \<Rightarrow> nat \<Rightarrow> bool" where
  "in_file fl pn \<longleftrightarrow> pn * PAGE_SIZE + PAGE_SIZE \<le> length fl"

lemma length_write_page [simp]:
  "in_file fl pn \<Longrightarrow> length page = PAGE_SIZE \<Longrightarrow> length (write_page_at fl pn page) = length fl"
  by (auto simp: write_page_at_def in_file_def)

lemma page_position: "pn * PAGE_SIZE \<le> k \<and> k < pn * PAGE_SIZE + PAGE_SIZE \<longleftrightarrow> k div PAGE_SIZE = pn"
proof
  assume "pn * PAGE_SIZE \<le> k \<and> k < pn * PAGE_SIZE + PAGE_SIZE"
  thus "k div PAGE_SIZE = pn" by (intro div_nat_eqI) (auto simp: mult.commute)
next
  assume eq: "k div PAGE_SIZE = pn"
  have "0 < PAGE_SIZE" by (simp add: PAGE_SIZE_def)
  thus "pn * PAGE_SIZE \<le> k \<and> k < pn * PAGE_SIZE + PAGE_SIZE"
    using div_times_less_eq_dividend[of k PAGE_SIZE] dividend_less_div_times[of PAGE_SIZE k] eq by simp
qed

lemma nth_write_page:
  assumes "in_file fl pn" "length page = PAGE_SIZE" "k < length fl"
  shows "write_page_at fl pn page ! k = (if k div PAGE_SIZE = pn then page ! (k mod PAGE_SIZE) else fl ! k)"
proof -
  have le: "pn * PAGE_SIZE \<le> length fl" using assms(1) by (simp add: in_file_def)
  hence eq: "write_page_at fl pn page = take (pn * PAGE_SIZE) fl @ page @ drop (pn * PAGE_SIZE + PAGE_SIZE) fl"
    using assms(2) by (simp add: write_page_at_def)
  have "k - pn * PAGE_SIZE = k mod PAGE_SIZE" if "k div PAGE_SIZE = pn"
    using that by (metis minus_div_mult_eq_mod)
  moreover consider "k < pn * PAGE_SIZE" | "k div PAGE_SIZE = pn" "pn * PAGE_SIZE \<le> k" | "pn * PAGE_SIZE + PAGE_SIZE \<le> k"
    using page_position[of pn k] by linarith
  then have "write_page_at fl pn page ! k =
      (if k div PAGE_SIZE = pn then page ! (k - pn * PAGE_SIZE) else fl ! k)"
  proof cases
    case 1
    then show ?thesis using le page_position[of pn k] by (auto simp: eq nth_append)
  next
    case 2
    have "k - pn * PAGE_SIZE < PAGE_SIZE" using 2 page_position[of pn k] by linarith
    then show ?thesis using 2 le assms(2) by (auto simp: eq nth_append)
  next
    case 3
    then have "\<not> k < pn * PAGE_SIZE" "\<not> k - pn * PAGE_SIZE < PAGE_SIZE" by linarith+
    then have "write_page_at fl pn page ! k = drop (pn * PAGE_SIZE + PAGE_SIZE) fl ! (k - pn * PAGE_SIZE - PAGE_SIZE)"
      using le assms(2) by (simp add: eq nth_append)
    also have "\<dots> = fl ! k" using 3 assms(1,3) by (simp add: in_file_def)
    finally show ?thesis using 3 page_position[of pn k] by auto
  qed
  ultimately show ?thesis by auto
qed

lemma read_page_Some: "in_file fl pn \<Longrightarrow> read_page fl pn = Some (take PAGE_SIZE (drop (pn * PAGE_SIZE) fl))"
  by (simp add: read_page_def in_file_def slice_Some)

lemma read_page_length: "read_page fl pn = Some page \<Longrightarrow> length page = PAGE_SIZE \<and> in_file fl pn"
  by (auto simp: read_page_def slice_eq_Some in_file_def)

lemma read_page_nth: "read_page fl pn = Some page \<Longrightarrow> j < PAGE_SIZE \<Longrightarrow> page ! j = fl ! (pn * PAGE_SIZE + j)"
  by (auto simp: read_page_def slice_eq_Some)

lemma read_write_page:
  assumes "in_file fl pn" "length page = PAGE_SIZE"
  shows "read_page (write_page_at fl pn page) q = (if q = pn then Some page else read_page fl q)"
proof (cases "in_file fl q")
  case False
  then show ?thesis using assms by (auto simp: read_page_def slice_of_def in_file_def)
next
  case True
  let ?f = "write_page_at fl pn page"
  have q: "in_file ?f q" using True assms by (simp add: in_file_def)
  have "take PAGE_SIZE (drop (q * PAGE_SIZE) ?f) = (if q = pn then page else take PAGE_SIZE (drop (q * PAGE_SIZE) fl))"
  proof (rule nth_equalityI)
    show "length (take PAGE_SIZE (drop (q * PAGE_SIZE) ?f)) = length (if q = pn then page else take PAGE_SIZE (drop (q * PAGE_SIZE) fl))"
      using True q assms by (simp add: in_file_def)
    fix j assume "j < length (take PAGE_SIZE (drop (q * PAGE_SIZE) ?f))"
    hence j: "j < PAGE_SIZE" "q * PAGE_SIZE + j < length fl" using assms by auto
    have dm: "(q * PAGE_SIZE + j) div PAGE_SIZE = q" "(q * PAGE_SIZE + j) mod PAGE_SIZE = j" using j(1) by auto
    have "take PAGE_SIZE (drop (q * PAGE_SIZE) ?f) ! j = ?f ! (q * PAGE_SIZE + j)" using j assms by simp
    also have "\<dots> = (if q = pn then page ! j else fl ! (q * PAGE_SIZE + j))"
      using nth_write_page[OF assms j(2)] by (simp only: dm)
    finally show "take PAGE_SIZE (drop (q * PAGE_SIZE) ?f) ! j =
        (if q = pn then page else take PAGE_SIZE (drop (q * PAGE_SIZE) fl)) ! j" using j by simp
  qed
  then show ?thesis using True q by (simp add: read_page_Some)
qed

text \<open>\<open>File::set_len\<close>: extending fills with zeros.\<close>
definition set_len :: "bytes \<Rightarrow> nat \<Rightarrow> bytes" where
  "set_len fl len = take len fl @ replicate (len - length fl) 0"

text \<open>All pages of a file, read until the first failure.\<close>
function read_pages :: "bytes \<Rightarrow> nat \<Rightarrow> bytes" where
  "read_pages fl pn =
     (case read_page fl pn of None \<Rightarrow> [] | Some page \<Rightarrow> page @ read_pages fl (Suc pn))"
  by pat_completeness auto
termination
  by (relation "measure (\<lambda>(fl, pn). length fl - pn * PAGE_SIZE)")
     (auto simp: read_page_def slice_of_def PAGE_SIZE_def split: if_splits)

declare read_pages.simps [simp del]

lemma read_pages_drop: "PAGE_SIZE dvd length fl \<Longrightarrow> read_pages fl pn = drop (pn * PAGE_SIZE) fl"
proof (induction fl pn rule: read_pages.induct)
  case (1 fl pn)
  show ?case
  proof (cases "pn * PAGE_SIZE < length fl")
    case True
    then obtain k where k: "length fl = PAGE_SIZE * k" "pn < k"
      using "1.prems" by (auto simp: dvd_def mult.commute PAGE_SIZE_def)
    hence "pn * PAGE_SIZE + PAGE_SIZE \<le> length fl" by (simp add: PAGE_SIZE_def)
    hence page: "read_page fl pn = Some (take PAGE_SIZE (drop (pn * PAGE_SIZE) fl))"
      by (simp add: read_page_def slice_Some)
    have "read_pages fl pn = take PAGE_SIZE (drop (pn * PAGE_SIZE) fl) @ drop (Suc pn * PAGE_SIZE) fl"
      using "1.IH"[OF page "1.prems"] page by (subst read_pages.simps) simp
    also have "drop (Suc pn * PAGE_SIZE) fl = drop PAGE_SIZE (drop (pn * PAGE_SIZE) fl)"
      by (simp add: add.commute)
    finally show ?thesis by (simp only: append_take_drop_id)
  next
    case False
    hence "read_page fl pn = None" by (simp add: read_page_def slice_of_def PAGE_SIZE_def)
    then show ?thesis using False by (subst read_pages.simps) simp
  qed
qed


section \<open>Readers\<close>

text \<open>\<open>for _ in 0..n\<close> with a reader that may fail.\<close>
fun read_n :: "('s \<Rightarrow> 'e + 'a \<times> 's) \<Rightarrow> nat \<Rightarrow> 's \<Rightarrow> 'e + 'a list \<times> 's" where
  "read_n step 0 s = Inr ([], s)"
| "read_n step (Suc n) s =
     (case step s of Inl e \<Rightarrow> Inl e
      | Inr (x, s') \<Rightarrow> (case read_n step n s' of Inl e \<Rightarrow> Inl e | Inr (xs, s'') \<Rightarrow> Inr (x # xs, s'')))"

text \<open>\<open>?\<close> on a result.\<close>
definition try_bind :: "'e + 'a \<Rightarrow> ('a \<Rightarrow> 'e + 'b) \<Rightarrow> 'e + 'b" where
  "try_bind r f = (case r of Inl e \<Rightarrow> Inl e | Inr x \<Rightarrow> f x)"

lemma try_bind_simps [simp]: "try_bind (Inr x) f = f x" "try_bind (Inl e) f = Inl e"
  by (simp_all add: try_bind_def)

lemma try_bind_cong [fundef_cong]:
  "r = r' \<Longrightarrow> (\<And>x. r' = Inr x \<Longrightarrow> f x = g x) \<Longrightarrow> try_bind r f = try_bind r' g"
  by (auto simp: try_bind_def split: sum.splits)

lemma try_bind_Inr: "try_bind r f = Inr y \<longleftrightarrow> (\<exists>x. r = Inr x \<and> f x = Inr y)"
  by (auto simp: try_bind_def split: sum.splits)

text \<open>Fixed width integers read back what \<open>to_le_bytes\<close> wrote.\<close>
lemma le_u64 [simp]: "word_of_nat (from_le (to_le 8 (unat w))) = (w :: u64)"
  using unsigned_less[of w, where ?'a = nat] by (simp add: from_le_to_le_id)

lemma le_u32 [simp]: "word_of_nat (from_le (to_le 4 (unat w))) = (w :: u32)"
  using unsigned_less[of w, where ?'a = nat] by (simp add: from_le_to_le_id)

lemma strict_prefix_appendD:
  assumes "strict_prefix i (a @ b)" "\<not> strict_prefix i a"
  obtains r where "i = a @ r" "strict_prefix r b"
proof -
  have "prefix i (a @ b)" using assms(1) by (simp add: strict_prefix_def)
  then consider "prefix i a" | r where "i = a @ r" "prefix r b" by (auto simp: prefix_append)
  thus ?thesis
  proof cases
    case 1
    hence "i = a" using assms(2) by (auto simp: strict_prefix_def)
    moreover have "b \<noteq> []" using assms(1) calculation by (auto simp: strict_prefix_def)
    ultimately show ?thesis by (intro that[of "[]"]) (auto simp: strict_prefix_def)
  next
    case 2
    then show ?thesis using assms(1) by (intro that[of r]) (auto simp: strict_prefix_def)
  qed
qed

text \<open>\<open>reads input eof f p x\<close>: run on an input that starts with the bytes \<open>p\<close>, the reader
  \<open>f\<close> returns \<open>x\<close> and consumes \<open>p\<close>; run on a proper prefix of \<open>p\<close>, it reports \<open>eof\<close>.\<close>
definition reads :: "('s \<Rightarrow> bytes) \<Rightarrow> 'e \<Rightarrow> ('s \<Rightarrow> 'e + 'a \<times> 's) \<Rightarrow> bytes \<Rightarrow> 'a \<Rightarrow> bool" where
  "reads input eof f p x \<longleftrightarrow>
     (\<forall>s rest. input s = p @ rest \<longrightarrow> (\<exists>s'. f s = Inr (x, s') \<and> input s' = rest)) \<and>
     (\<forall>s. strict_prefix (input s) p \<longrightarrow> f s = Inl eof)"

lemma readsD1: "reads input eof f p x \<Longrightarrow> input s = p @ rest \<Longrightarrow> \<exists>s'. f s = Inr (x, s') \<and> input s' = rest"
  by (simp add: reads_def)

lemma readsD2: "reads input eof f p x \<Longrightarrow> strict_prefix (input s) p \<Longrightarrow> f s = Inl eof"
  by (simp add: reads_def)

lemma reads_return: "reads input eof (\<lambda>s. Inr (x, s)) [] x"
  by (simp add: reads_def)

lemma reads_bind:
  assumes f: "reads input eof f p x" and g: "reads input eof (g x) q y"
  shows "reads input eof (\<lambda>s. try_bind (f s) (\<lambda>(a, s'). g a s')) (p @ q) y"
proof -
  have "\<exists>s'. try_bind (f s) (\<lambda>(a, s'). g a s') = Inr (y, s') \<and> input s' = rest"
    if "input s = (p @ q) @ rest" for s rest
    using readsD1[OF f, of s "q @ rest"] readsD1[OF g, of _ rest] that by fastforce
  moreover have "try_bind (f s) (\<lambda>(a, s'). g a s') = Inl eof" if pre: "strict_prefix (input s) (p @ q)" for s
  proof (cases "strict_prefix (input s) p")
    case True
    then show ?thesis by (simp add: readsD2[OF f])
  next
    case False
    then obtain r where r: "input s = p @ r" "strict_prefix r q"
      using strict_prefix_appendD[OF pre] by blast
    then show ?thesis using readsD1[OF f r(1)] readsD2[OF g] by auto
  qed
  ultimately show ?thesis by (simp add: reads_def)
qed

text \<open>A step that consumes nothing.\<close>
lemma reads_map:
  assumes "reads input eof f p x"
  shows "reads input eof (\<lambda>s. try_bind (f s) (\<lambda>(a, s'). Inr (h a, s'))) p (h x)"
  using reads_bind[OF assms, of "\<lambda>a s'. Inr (h a, s')", OF reads_return] by simp

locale byte_codec =
  fixes print :: "'a \<Rightarrow> bytes" and step :: "'s \<Rightarrow> 'e + 'a \<times> 's"
    and input :: "'s \<Rightarrow> bytes" and eof :: 'e and ok :: "'a \<Rightarrow> bool"
  assumes reads_printed: "ok x \<Longrightarrow> reads input eof step (print x) x"
begin

lemma reads_many:
  "\<forall>x\<in>set xs. ok x \<Longrightarrow> reads input eof (read_n step (length xs)) (concat (map print xs)) xs"
proof (induction xs)
  case Nil
  then show ?case using reads_return[of input eof "[]"] by (simp add: reads_def)
next
  case (Cons x xs)
  let ?g = "\<lambda>a s'. try_bind (read_n step (length xs) s') (\<lambda>(as, s''). Inr (a # as, s''))"
  have "read_n step (Suc (length xs)) = (\<lambda>s. try_bind (step s) (\<lambda>(a, s'). ?g a s'))"
    by (rule ext) (simp add: try_bind_def)
  moreover have rest: "reads input eof (?g x) (concat (map print xs)) (x # xs)"
    by (rule reads_map) (use Cons in simp)
  have "reads input eof (\<lambda>s. try_bind (step s) (\<lambda>(a, s'). ?g a s')) (print x @ concat (map print xs)) (x # xs)"
    by (rule reads_bind[of _ _ step "print x" x ?g, OF reads_printed rest]) (use Cons.prems in simp)
  ultimately show ?case by (simp only: list.size add_0_right add_Suc_right list.map concat.simps)
qed

text \<open>Printing is injective, whatever follows.\<close>
lemma print_inject:
  assumes "ok x" "ok y" "input s = print x @ r" "print x @ r = print y @ r'"
  shows "x = y \<and> r = r'"
proof -
  obtain s1 where "step s = Inr (x, s1)" "input s1 = r"
    using readsD1[OF reads_printed[OF assms(1)] assms(3)] by blast
  moreover have "input s = print y @ r'" by (simp only: assms(3,4))
  then obtain s2 where "step s = Inr (y, s2)" "input s2 = r'"
    using readsD1[OF reads_printed[OF assms(2)]] by blast
  ultimately show ?thesis by simp
qed

end

end
