(* ===== verification/PageDiffs.thy ===== *)
theory PageDiffs
  imports PageIds ByteReaders
begin

text \<open>
  The bit field of the nodes that changed in a page (\<open>nomt/src/page_diff.rs\<close>) and the bit
  field of the elided children of a page (\<open>nomt/src/merkle/mod.rs\<close>).  A page is a byte
  array that starts with 126 nodes of 32 bytes each.  The last theorem of the first section is
  what the write-ahead log relies on: packing the changed nodes of a page and unpacking
  them over an older version of it gives the new nodes exactly at the changed positions.
\<close>

unbundle bit_operations_syntax

section \<open>Words as bit sets\<close>

text \<open>\<open>u64::trailing_zeros\<close> and \<open>u64::count_ones\<close>.\<close>
definition trailing_zeros :: "u64 \<Rightarrow> nat" where
  "trailing_zeros w = length (takeWhile (\<lambda>i. \<not> bit w i) [0..<64])"

definition count_ones :: "u64 \<Rightarrow> nat" where
  "count_ones w = length (filter (bit w) [0..<64])"

definition bit_mask :: "nat \<Rightarrow> u64" where
  "bit_mask i = push_bit i 1"

lemma bit_bit_mask [simp]: "bit (bit_mask i) j \<longleftrightarrow> i < 64 \<and> j = i"
  by (auto simp: bit_mask_def push_bit_eq_mult bit_exp_iff)

lemma bit_u64_less: "bit (w :: u64) i \<Longrightarrow> i < 64"
  using bit_imp_le_length[of w i] by simp

lemma and_mask_eq: "i < 64 \<Longrightarrow> w AND bit_mask i = bit_mask i \<longleftrightarrow> bit w i"
  by (auto simp: bit_eq_iff[where 'a = u64] bit_and_iff)

lemma bit_or_mask: "bit (w OR bit_mask i) j \<longleftrightarrow> bit w j \<or> i < 64 \<and> j = i"
  by (auto simp: bit_or_iff)

lemma bit_and_not_mask: "bit (w AND NOT (bit_mask i)) j \<longleftrightarrow> bit w j \<and> j \<noteq> i"
  by (auto simp: bit_and_iff bit_not_iff dest: bit_u64_less)

lemma trailing_zeros_split:
  assumes "trailing_zeros w \<noteq> 64"
  shows "trailing_zeros w < 64" "bit w (trailing_zeros w)" "\<forall>i < trailing_zeros w. \<not> bit w i"
proof -
  let ?P = "\<lambda>i. \<not> bit w i"
  have le: "trailing_zeros w \<le> 64"
    using length_takeWhile_le[of ?P "[0..<64]"] by (simp add: trailing_zeros_def)
  with assms show lt: "trailing_zeros w < 64" by simp
  hence "\<not> ?P ([0..<64] ! trailing_zeros w)"
    unfolding trailing_zeros_def by (intro nth_length_takeWhile) simp
  thus "bit w (trailing_zeros w)" using lt by simp
  show "\<forall>i < trailing_zeros w. \<not> bit w i"
  proof (intro allI impI)
    fix i assume i: "i < trailing_zeros w"
    have "takeWhile ?P [0..<64] ! i = [0..<64] ! i"
      by (rule takeWhile_nth) (use i in \<open>simp add: trailing_zeros_def\<close>)
    moreover have "?P (takeWhile ?P [0..<64] ! i)"
      using i set_takeWhileD[OF nth_mem, of i ?P "[0..<64]"] by (simp add: trailing_zeros_def del: upt_Suc)
    ultimately show "\<not> bit w i" using i lt by simp
  qed
qed

lemma trailing_zeros_64: "trailing_zeros w = 64 \<Longrightarrow> filter (bit w) [0..<64] = []"
proof -
  assume "trailing_zeros w = 64"
  hence "takeWhile (\<lambda>i. \<not> bit w i) [0..<64] = [0..<64]"
    by (subst takeWhile_eq_take) (simp add: trailing_zeros_def)
  hence "\<forall>i\<in>set [0..<64]. \<not> bit w i" by (simp only: takeWhile_eq_all_conv)
  thus ?thesis by (simp only: filter_empty_conv)
qed

text \<open>The ones of a word, the lowest first.\<close>
lemma filter_first_one:
  assumes "trailing_zeros w \<noteq> 64"
  shows "filter (bit w) [0..<64] =
         trailing_zeros w # filter (bit (w AND NOT (bit_mask (trailing_zeros w)))) [0..<64]"
proof -
  let ?x = "trailing_zeros w" and ?w = "w AND NOT (bit_mask (trailing_zeros w))"
  note tz = trailing_zeros_split[OF assms]
  have split: "[0..<64] = [0..<?x] @ ?x # [Suc ?x..<64]"
    using tz(1) upt_add_eq_append[of 0 ?x "64 - ?x"] by (simp add: upt_conv_Cons)
  have low: "filter (bit w) [0..<?x] = []" "filter (bit ?w) [0..<?x] = []"
    using tz(3) by (auto simp: filter_empty_conv bit_and_not_mask)
  have high: "filter (bit ?w) [Suc ?x..<64] = filter (bit w) [Suc ?x..<64]"
    by (rule filter_cong) (auto simp: bit_and_not_mask)
  have "\<not> bit ?w ?x" by (simp add: bit_and_not_mask)
  then show ?thesis by (simp add: split low high tz(2) del: upt_Suc)
qed

text \<open>\<open>FastIterOnes\<close>, drained.\<close>
function fast_iter_ones :: "u64 \<Rightarrow> nat list" where
  "fast_iter_ones w =
     (let x = trailing_zeros w in
      if x = 64 then [] else x # fast_iter_ones (w AND NOT (bit_mask x)))"
  by pat_completeness auto
termination
  by (relation "measure count_ones") (auto simp: count_ones_def filter_first_one)

declare fast_iter_ones.simps [simp del]

lemma fast_iter_ones_eq: "fast_iter_ones w = filter (bit w) [0..<64]"
proof (induction w rule: fast_iter_ones.induct)
  case (1 w)
  show ?case
  proof (cases "trailing_zeros w = 64")
    case True
    then show ?thesis by (subst fast_iter_ones.simps) (simp add: trailing_zeros_64 Let_def)
  next
    case False
    then show ?thesis using 1[OF refl False] filter_first_one[OF False]
      by (subst fast_iter_ones.simps) (simp add: Let_def)
  qed
qed


section \<open>Page diffs\<close>

record page_diff =
  changed_nodes0 :: u64
  changed_nodes1 :: u64

definition CLEAR_BIT :: u64 where
  "CLEAR_BIT = push_bit 63 1"

definition page_diff_default :: page_diff where
  "page_diff_default = \<lparr>changed_nodes0 = 0, changed_nodes1 = 0\<rparr>"

text \<open>\<open>self.changed_nodes[word]\<close>.\<close>
definition diff_word :: "page_diff \<Rightarrow> nat \<Rightarrow> u64 option" where
  "diff_word d k = get_at [changed_nodes0 d, changed_nodes1 d] k"

definition diff_changed :: "page_diff \<Rightarrow> nat \<Rightarrow> bool option" where
  "diff_changed d slot_index = do {
     w \<leftarrow> diff_word d (slot_index div 64);
     let mask = bit_mask (slot_index mod 64);
     Some (w AND mask = mask) }"

definition diff_from_bytes :: "bytes \<Rightarrow> page_diff option" where
  "diff_from_bytes bs =
     (let diff = \<lparr>changed_nodes0 = word_of_nat (from_le (take 8 bs)),
                  changed_nodes1 = word_of_nat (from_le (take 8 (drop 8 bs)))\<rparr> in
      if diff_changed diff 126 = Some True \<or> diff_changed diff 127 = Some True then None else Some diff)"

definition set_changed :: "page_diff \<Rightarrow> nat \<Rightarrow> page_diff option" where
  "set_changed d slot_index = do {
     assert_that (slot_index < NODES_PER_PAGE);
     let mask = bit_mask (slot_index mod 64);
     let d = (if slot_index div 64 = 0 then d\<lparr>changed_nodes0 := changed_nodes0 d OR mask\<rparr>
              else d\<lparr>changed_nodes1 := changed_nodes1 d OR mask\<rparr>);
     Some (d\<lparr>changed_nodes1 := changed_nodes1 d AND NOT CLEAR_BIT\<rparr>) }"

definition set_cleared :: "page_diff \<Rightarrow> page_diff" where
  "set_cleared d = d\<lparr>changed_nodes1 := changed_nodes1 d OR CLEAR_BIT\<rparr>"

definition diff_cleared :: "page_diff \<Rightarrow> bool" where
  "diff_cleared d \<longleftrightarrow> changed_nodes1 d AND CLEAR_BIT = CLEAR_BIT"

definition diff_count :: "page_diff \<Rightarrow> nat" where
  "diff_count d = count_ones (changed_nodes0 d) + count_ones (changed_nodes1 d)"

definition diff_as_bytes :: "page_diff \<Rightarrow> bytes" where
  "diff_as_bytes d = to_le 8 (unat (changed_nodes0 d)) @ to_le 8 (unat (changed_nodes1 d))"

definition assert_not_cleared :: "page_diff \<Rightarrow> unit option" where
  "assert_not_cleared d = assert_that (changed_nodes1 d AND push_bit 63 1 = 0)"

definition iter_ones :: "page_diff \<Rightarrow> nat list option" where
  "iter_ones d = do {
     assert_not_cleared d;
     Some (fast_iter_ones (changed_nodes0 d) @ map (\<lambda>i. i + 64) (fast_iter_ones (changed_nodes1 d))) }"

definition pack_changed_nodes :: "page_diff \<Rightarrow> bytes \<Rightarrow> bytes list option" where
  "pack_changed_nodes d page = do {
     assert_not_cleared d;
     ones \<leftarrow> iter_ones d;
     those (map (\<lambda>node_index. slice_of page (node_index * 32) (node_index * 32 + 32)) ones) }"

fun unpack_loop :: "(nat \<times> bytes) list \<Rightarrow> bytes \<Rightarrow> bytes option" where
  "unpack_loop [] page = Some page"
| "unpack_loop ((node_index, node) # rest) page =
     Option.bind (copy_at page (node_index * 32) node) (unpack_loop rest)"

definition unpack_changed_nodes :: "page_diff \<Rightarrow> bytes list \<Rightarrow> bytes \<Rightarrow> bytes option" where
  "unpack_changed_nodes d nodes page = do {
     assert_that (diff_count d = length nodes);
     ones \<leftarrow> iter_ones d;
     unpack_loop (zip ones nodes) page }"

definition diff_join :: "page_diff \<Rightarrow> page_diff \<Rightarrow> page_diff" where
  "diff_join d e = \<lparr>changed_nodes0 = changed_nodes0 d OR changed_nodes0 e,
                    changed_nodes1 = changed_nodes1 d OR changed_nodes1 e\<rparr>"


section \<open>Elided children\<close>

record elided_children = elided :: u64

definition elided_new :: elided_children where
  "elided_new = \<lparr>elided = 0\<rparr>"

definition elided_from_bytes :: "bytes \<Rightarrow> elided_children" where
  "elided_from_bytes raw = \<lparr>elided = word_of_nat (from_le raw)\<rparr>"

definition elided_to_bytes :: "elided_children \<Rightarrow> bytes" where
  "elided_to_bytes e = to_le 8 (unat (elided e))"

definition set_elide :: "elided_children \<Rightarrow> nat \<Rightarrow> bool \<Rightarrow> elided_children" where
  "set_elide e child_page_index elide =
     (if elide then e\<lparr>elided := elided e OR bit_mask child_page_index\<rparr>
      else e\<lparr>elided := elided e AND NOT (bit_mask child_page_index)\<rparr>)"

definition is_elided :: "elided_children \<Rightarrow> nat \<Rightarrow> bool" where
  "is_elided e child_page_index \<longleftrightarrow> drop_bit child_page_index (elided e) AND 1 = 1"


section \<open>Diffs as sets of positions\<close>

text \<open>The abstraction: the set of changed positions.\<close>
definition diff_bit :: "page_diff \<Rightarrow> nat \<Rightarrow> bool" where
  "diff_bit d i \<longleftrightarrow> (if i < 64 then bit (changed_nodes0 d) i else bit (changed_nodes1 d) (i - 64))"

text \<open>Diffs that the log carries: neither of the reserved bits is set.\<close>
definition diff_plain :: "page_diff \<Rightarrow> bool" where
  "diff_plain d \<longleftrightarrow> \<not> diff_bit d 126 \<and> \<not> diff_bit d 127"

lemma diff_bit_less: "diff_bit d i \<Longrightarrow> i < 128"
  by (auto simp: diff_bit_def split: if_splits dest: bit_u64_less)

lemma diff_plain_less: "diff_plain d \<Longrightarrow> diff_bit d i \<Longrightarrow> i < NODES_PER_PAGE"
  using diff_bit_less[of d i]
  by (cases "i = 126 \<or> i = 127") (auto simp: diff_plain_def page_consts)

lemma CLEAR_BIT_mask: "CLEAR_BIT = bit_mask 63"
  by (simp add: CLEAR_BIT_def bit_mask_def)

lemma high_word: "\<not> i < 64 \<Longrightarrow> i < 128 \<Longrightarrow> i div 64 = 1 \<and> i mod 64 = i - (64 :: nat)"
  by (simp add: div_nat_eqI mod_if)

lemma diff_changed_eq: "i < 128 \<Longrightarrow> diff_changed d i = Some (diff_bit d i)"
proof (cases "i < 64")
  case True
  then show ?thesis by (simp add: diff_changed_def diff_word_def get_at_def diff_bit_def and_mask_eq)
next
  case False
  moreover assume "i < 128"
  ultimately have "i div 64 = 1" "i mod 64 = i - 64" using high_word by auto
  moreover have "i - 64 < 64" using \<open>i < 128\<close> by simp
  ultimately show ?thesis using False
    by (simp add: diff_changed_def diff_word_def get_at_def diff_bit_def and_mask_eq)
qed

lemma diff_changed_panics: "128 \<le> i \<Longrightarrow> diff_changed d i = None"
  using div_le_mono[of 128 i 64] by (simp add: diff_changed_def diff_word_def get_at_def)

lemma diff_cleared_eq: "diff_cleared d \<longleftrightarrow> diff_bit d 127"
  by (simp add: diff_cleared_def diff_bit_def CLEAR_BIT_mask and_mask_eq)

lemma and_mask_0: "i < 64 \<Longrightarrow> w AND bit_mask i = 0 \<longleftrightarrow> \<not> bit w i"
  by (auto simp: bit_eq_iff[where 'a = u64] bit_and_iff)

lemma assert_not_cleared_eq: "assert_not_cleared d = assert_that (\<not> diff_bit d 127)"
  using and_mask_0[of 63 "changed_nodes1 d"]
  by (simp only: assert_not_cleared_def diff_bit_def bit_mask_def) simp

lemma diff_eqI: "(\<And>i. i < 128 \<Longrightarrow> diff_bit d i = diff_bit e i) \<Longrightarrow> d = (e :: page_diff)"
proof -
  assume eq: "\<And>i. i < 128 \<Longrightarrow> diff_bit d i = diff_bit e i"
  have "bit (changed_nodes0 d) i = bit (changed_nodes0 e) i" if "i < 64" for i
    using eq[of i] that by (simp add: diff_bit_def)
  moreover have "bit (changed_nodes1 d) i = bit (changed_nodes1 e) i" if "i < 64" for i
    using eq[of "i + 64"] that by (simp add: diff_bit_def)
  ultimately have "changed_nodes0 d = changed_nodes0 e" "changed_nodes1 d = changed_nodes1 e"
    by (auto intro!: bit_word_eqI)
  thus ?thesis by (cases d, cases e) simp
qed

lemma set_changed_bit:
  assumes "set_changed d i = Some d'"
  shows "diff_bit d' j \<longleftrightarrow> (diff_bit d j \<or> j = i) \<and> j \<noteq> 127"
proof -
  have i: "i < 126" using assms by (auto simp: set_changed_def page_consts split: bind_splits)
  show ?thesis
  proof (cases "i < 64")
    case True
    with assms i show ?thesis
      by (auto simp: set_changed_def page_consts diff_bit_def bit_or_mask bit_and_not_mask CLEAR_BIT_mask
               dest: bit_u64_less)
  next
    case False
    with i have "i div 64 = 1" "i mod 64 = i - 64" using high_word[of i] by auto
    with assms i False show ?thesis
      by (auto simp: set_changed_def page_consts diff_bit_def bit_or_mask bit_and_not_mask CLEAR_BIT_mask
               dest: bit_u64_less)
  qed
qed

lemma set_changed_total: "i < NODES_PER_PAGE \<Longrightarrow> \<exists>d'. set_changed d i = Some d'"
  by (simp add: set_changed_def Let_def)

lemma set_cleared_bit: "diff_bit (set_cleared d) j \<longleftrightarrow> diff_bit d j \<or> j = 127"
  by (auto simp: set_cleared_def diff_bit_def bit_or_mask CLEAR_BIT_mask)

lemma diff_join_bit: "diff_bit (diff_join d e) j \<longleftrightarrow> diff_bit d j \<or> diff_bit e j"
  by (auto simp: diff_join_def diff_bit_def bit_or_iff)

lemma filter_shift: "map (\<lambda>i. i + 64) (filter (bit (w::u64)) [0..<64]) = filter (\<lambda>i. bit w (i - 64)) [64..<128]"
proof -
  have "[64..<128] = map (\<lambda>i. i + 64) [0..<64]" by (simp add: map_add_upt)
  thus ?thesis by (simp add: filter_map comp_def del: upt_Suc)
qed

lemma iter_ones_eq:
  assumes "\<not> diff_cleared d"
  shows "iter_ones d = Some (filter (diff_bit d) [0..<128])"
proof -
  have "filter (bit (changed_nodes0 d)) [0..<64] = filter (diff_bit d) [0..<64]"
    by (rule filter_cong) (auto simp: diff_bit_def)
  moreover have "filter (\<lambda>i. bit (changed_nodes1 d) (i - 64)) [64..<128] = filter (diff_bit d) [64..<128]"
    by (rule filter_cong) (auto simp: diff_bit_def)
  moreover have "[0..<128] = [0..<64] @ [64..<128]" using upt_add_eq_append[of 0 64 64] by simp
  ultimately show ?thesis using assms
    by (simp add: iter_ones_def assert_not_cleared_eq diff_cleared_eq fast_iter_ones_eq filter_shift del: upt_Suc)
qed

lemma diff_count_eq: "diff_count d = length (filter (diff_bit d) [0..<128])"
proof -
  have "filter (bit (changed_nodes0 d)) [0..<64] = filter (diff_bit d) [0..<64]"
    by (rule filter_cong) (auto simp: diff_bit_def)
  moreover have "filter (\<lambda>i. bit (changed_nodes1 d) (i - 64)) [64..<128] = filter (diff_bit d) [64..<128]"
    by (rule filter_cong) (auto simp: diff_bit_def)
  moreover have "[0..<128] = [0..<64] @ [64..<128]" using upt_add_eq_append[of 0 64 64] by simp
  ultimately show ?thesis
    using arg_cong[OF filter_shift[of "changed_nodes1 d"], of length]
    by (simp add: diff_count_def count_ones_def del: upt_Suc)
qed

lemma diff_round_trip:
  assumes "diff_plain d"
  shows "diff_from_bytes (diff_as_bytes d) = Some d"
proof -
  have "\<lparr>changed_nodes0 = word_of_nat (from_le (take 8 (diff_as_bytes d))),
          changed_nodes1 = word_of_nat (from_le (take 8 (drop 8 (diff_as_bytes d))))\<rparr> = d"
    by (simp add: diff_as_bytes_def)
  thus ?thesis using assms
    unfolding diff_from_bytes_def Let_def by (simp add: diff_changed_eq diff_plain_def)
qed

lemma diff_as_bytes_length [simp]: "length (diff_as_bytes d) = 16"
  by (simp add: diff_as_bytes_def)

lemma diff_from_bytes_plain: "diff_from_bytes bs = Some d \<Longrightarrow> diff_plain d"
  by (auto simp: diff_from_bytes_def Let_def diff_changed_eq diff_plain_def split: if_splits)


subsection \<open>Packing and unpacking\<close>

text \<open>The node at a position of a page.\<close>
definition node_at :: "bytes \<Rightarrow> nat \<Rightarrow> bytes" where
  "node_at page i = take 32 (drop (i * 32) page)"

lemma those_map_Some: "those (map (\<lambda>x. Some (f x)) xs) = Some (map f xs)"
  by (induction xs) auto

lemma pack_changed_nodes_eq:
  assumes "diff_plain d" "32 * NODES_PER_PAGE \<le> length page"
  shows "pack_changed_nodes d page = Some (map (node_at page) (filter (diff_bit d) [0..<128]))"
proof -
  let ?ones = "filter (diff_bit d) [0..<128]"
  have "map (\<lambda>i. slice_of page (i * 32) (i * 32 + 32)) ?ones = map (\<lambda>i. Some (node_at page i)) ?ones"
  proof (rule map_cong[OF refl])
    fix i assume "i \<in> set ?ones"
    hence "i < NODES_PER_PAGE" using diff_plain_less[OF assms(1)] by simp
    thus "slice_of page (i * 32) (i * 32 + 32) = Some (node_at page i)"
      using assms(2) by (simp add: slice_Some node_at_def)
  qed
  hence "those (map (\<lambda>i. slice_of page (i * 32) (i * 32 + 32)) ?ones) = Some (map (node_at page) ?ones)"
    by (simp only: those_map_Some)
  moreover have "\<not> diff_cleared d" using assms(1) by (simp add: diff_cleared_eq diff_plain_def)
  ultimately show ?thesis
    by (simp add: pack_changed_nodes_def iter_ones_eq assert_not_cleared_eq diff_cleared_eq del: upt_Suc)
qed

lemma copy_at_node:
  assumes "copy_at page (i * 32) node = Some page'" "length node = 32"
  shows "node_at page' j = (if j = i then node else node_at page j)"
proof -
  have in_range: "i * 32 + 32 \<le> length page" using assms by (auto simp: copy_at_def split: if_splits)
  have len: "length page' = length page" using copy_at_length[OF assms(1)] .
  show ?thesis
  proof (rule nth_equalityI)
    show "length (node_at page' j) = length (if j = i then node else node_at page j)"
      using len assms(2) in_range by (simp add: node_at_def)
  next
    fix k assume k: "k < length (node_at page' j)"
    hence k': "k < 32" "j * 32 + k < length page" using len by (auto simp: node_at_def)
    have pos: "i * 32 \<le> j * 32 + k \<and> j * 32 + k < i * 32 + 32 \<longleftrightarrow> j = i" using k'(1) by auto
    have "node_at page' j ! k = page' ! (j * 32 + k)" using k' len by (simp add: node_at_def)
    also have "\<dots> = (if j = i then node ! k else page ! (j * 32 + k))"
      using copy_at_nth[OF assms(1) k'(2)] assms(2) pos by auto
    finally show "node_at page' j ! k = (if j = i then node else node_at page j) ! k"
      using k' by (simp add: node_at_def)
  qed
qed

lemma unpack_loop_nodes:
  assumes "distinct ones" "\<forall>i\<in>set ones. i * 32 + 32 \<le> length page" "\<forall>i. length (f i) = 32 \<or> i \<notin> set ones"
  shows "\<exists>page'. unpack_loop (zip ones (map f ones)) page = Some page' \<and> length page' = length page \<and>
           (\<forall>j. node_at page' j = (if j \<in> set ones then f j else node_at page j)) \<and>
           (\<forall>k < length page. k div 32 \<notin> set ones \<longrightarrow> page' ! k = page ! k)"
  using assms
proof (induction ones arbitrary: page)
  case (Cons i ones)
  have len: "length (f i) = 32" using Cons.prems(3) by auto
  obtain p1 where p1: "copy_at page (i * 32) (f i) = Some p1"
    using Cons.prems(2) len by (simp add: copy_at_def)
  note c = copy_at_node[OF p1 len] copy_at_length[OF p1] copy_at_nth[OF p1]
  obtain p2 where p2: "unpack_loop (zip ones (map f ones)) p1 = Some p2" "length p2 = length p1"
    "\<forall>j. node_at p2 j = (if j \<in> set ones then f j else node_at p1 j)"
    "\<forall>k < length p1. k div 32 \<notin> set ones \<longrightarrow> p2 ! k = p1 ! k"
    using Cons.IH[of p1] Cons.prems c(2) by auto
  have "p2 ! k = page ! k" if "k < length page" "k div 32 \<notin> set (i # ones)" for k
  proof -
    have "\<not> (i * 32 \<le> k \<and> k < i * 32 + 32)" using that(2) by auto
    thus ?thesis using p2(4) c(2,3) that len by auto
  qed
  then show ?case using p1 p2(1,2,3) c(1,2) Cons.prems(1) by (intro exI[of _ p2]) auto
qed auto

lemma node_at_length: "i < NODES_PER_PAGE \<Longrightarrow> 32 * NODES_PER_PAGE \<le> length page \<Longrightarrow> length (node_at page i) = 32"
  by (simp add: node_at_def)

lemma unpack_changed_nodes_eq:
  assumes "diff_plain d" "32 * NODES_PER_PAGE \<le> length page"
    and "\<forall>i. diff_bit d i \<longrightarrow> length (f i) = 32"
  shows "\<exists>page'. unpack_changed_nodes d (map f (filter (diff_bit d) [0..<128])) page = Some page' \<and>
           length page' = length page \<and>
           (\<forall>j. node_at page' j = (if diff_bit d j then f j else node_at page j)) \<and>
           (\<forall>k < length page. \<not> diff_bit d (k div 32) \<longrightarrow> page' ! k = page ! k)"
proof -
  let ?ones = "filter (diff_bit d) [0..<128]"
  have mem: "i \<in> set ?ones \<longleftrightarrow> diff_bit d i" for i using diff_bit_less[of d i] by auto
  have "\<forall>i\<in>set ?ones. i * 32 + 32 \<le> length page"
  proof
    fix i assume "i \<in> set ?ones"
    hence "i < NODES_PER_PAGE" using diff_plain_less[OF assms(1)] mem by blast
    thus "i * 32 + 32 \<le> length page" using assms(2) by simp
  qed
  from unpack_loop_nodes[OF _ this, of f] assms(3)
  obtain page' where "unpack_loop (zip ?ones (map f ?ones)) page = Some page'" "length page' = length page"
    "\<forall>j. node_at page' j = (if j \<in> set ?ones then f j else node_at page j)"
    "\<forall>k < length page. k div 32 \<notin> set ?ones \<longrightarrow> page' ! k = page ! k"
    unfolding mem by (auto simp del: upt_Suc)
  moreover have "\<not> diff_cleared d" using assms(1) by (simp add: diff_cleared_eq diff_plain_def)
  ultimately show ?thesis unfolding mem
    by (simp add: unpack_changed_nodes_def diff_count_eq iter_ones_eq del: upt_Suc)
qed

text \<open>C23
  Replaying a diff: the nodes packed from a new version of a page, unpacked over an old
  version of it, give a page that has the new node at every changed position, the old
  node at every other, and the old bytes behind the nodes.\<close>
theorem unpack_pack:
  assumes "diff_plain d" "32 * NODES_PER_PAGE \<le> length new" "32 * NODES_PER_PAGE \<le> length old"
  shows "\<exists>nodes page. pack_changed_nodes d new = Some nodes \<and> length nodes = diff_count d \<and>
           unpack_changed_nodes d nodes old = Some page \<and> length page = length old \<and>
           (\<forall>i. node_at page i = (if diff_bit d i then node_at new i else node_at old i)) \<and>
           drop (32 * NODES_PER_PAGE) page = drop (32 * NODES_PER_PAGE) old"
proof -
  have "\<forall>i. diff_bit d i \<longrightarrow> length (node_at new i) = 32"
    using diff_plain_less[OF assms(1)] node_at_length[OF _ assms(2)] by blast
  from unpack_changed_nodes_eq[OF assms(1,3) this]
  obtain page where page: "unpack_changed_nodes d (map (node_at new) (filter (diff_bit d) [0..<128])) old = Some page"
    "length page = length old"
    "\<forall>i. node_at page i = (if diff_bit d i then node_at new i else node_at old i)"
    "\<forall>k < length old. \<not> diff_bit d (k div 32) \<longrightarrow> page ! k = old ! k"
    by blast
  have "drop (32 * NODES_PER_PAGE) page = drop (32 * NODES_PER_PAGE) old"
  proof (rule nth_equalityI)
    fix k assume "k < length (drop (32 * NODES_PER_PAGE) page)"
    hence k: "32 * NODES_PER_PAGE + k < length old" using page(2) by simp
    have "\<not> diff_bit d ((32 * NODES_PER_PAGE + k) div 32)"
      using diff_plain_less[OF assms(1), of "(32 * NODES_PER_PAGE + k) div 32"] by auto
    thus "drop (32 * NODES_PER_PAGE) page ! k = drop (32 * NODES_PER_PAGE) old ! k"
      using page(2,4) k by simp
  qed (simp add: page(2))
  then show ?thesis using page(1-3) pack_changed_nodes_eq[OF assms(1,2)] diff_count_eq[of d] by simp
qed


section \<open>Elided children as sets\<close>

definition elided_set :: "elided_children \<Rightarrow> nat set" where
  "elided_set e = {i. bit (elided e) i}"

lemma is_elided_iff: "is_elided e i \<longleftrightarrow> i \<in> elided_set e"
  by (simp add: is_elided_def elided_set_def and_one_eq bit_iff_odd_drop_bit odd_iff_mod_2_eq_one)

lemma elided_set_new: "elided_set elided_new = {}"
  by (simp add: elided_set_def elided_new_def)

lemma set_elide_set:
  "i < 64 \<Longrightarrow> elided_set (set_elide e i b) = (if b then insert i (elided_set e) else elided_set e - {i})"
  by (auto simp: set_elide_def elided_set_def bit_or_mask bit_and_not_mask)

lemma elided_round_trip: "elided_from_bytes (elided_to_bytes e) = e"
  by (simp add: elided_from_bytes_def elided_to_bytes_def)

lemma elided_to_bytes_length [simp]: "length (elided_to_bytes e) = 8"
  by (simp add: elided_to_bytes_def)

theorem unpack_pack_witness:
  "\<exists>nodes page. pack_changed_nodes \<lparr>changed_nodes0 = 5, changed_nodes1 = 1\<rparr> (replicate 4096 7) = Some nodes \<and>
     length nodes = diff_count \<lparr>changed_nodes0 = 5, changed_nodes1 = 1\<rparr> \<and>
     unpack_changed_nodes \<lparr>changed_nodes0 = 5, changed_nodes1 = 1\<rparr> nodes (replicate 4096 0) = Some page \<and>
     node_at page 64 = replicate 32 7 \<and> node_at page 1 = replicate 32 0"
proof -
  have plain: "diff_plain \<lparr>changed_nodes0 = 5, changed_nodes1 = 1\<rparr>"
    by (simp add: diff_plain_def diff_bit_def)
  have bits: "diff_bit \<lparr>changed_nodes0 = 5, changed_nodes1 = 1\<rparr> 64" "\<not> diff_bit \<lparr>changed_nodes0 = 5, changed_nodes1 = 1\<rparr> 1"
    by (simp_all add: diff_bit_def)
  obtain nodes page where np:
    "pack_changed_nodes \<lparr>changed_nodes0 = 5, changed_nodes1 = 1\<rparr> (replicate 4096 7) = Some nodes"
    "length nodes = diff_count \<lparr>changed_nodes0 = 5, changed_nodes1 = 1\<rparr>"
    "unpack_changed_nodes \<lparr>changed_nodes0 = 5, changed_nodes1 = 1\<rparr> nodes (replicate 4096 0) = Some page"
    "\<forall>i. node_at page i = (if diff_bit \<lparr>changed_nodes0 = 5, changed_nodes1 = 1\<rparr> i
                         then node_at (replicate 4096 7) i else node_at (replicate 4096 0) i)"
    using unpack_pack[OF plain, of "replicate 4096 7" "replicate 4096 0"] by (auto simp: page_consts)
  have "node_at page 64 = node_at (replicate 4096 7) 64" "node_at page 1 = node_at (replicate 4096 0) 1"
    by (simp_all only: np(4) bits if_True if_False)
  hence "node_at page 64 = replicate 32 7" "node_at page 1 = replicate 32 0"
    by (simp_all only: node_at_def drop_replicate take_replicate) simp_all
  with np(1-3) show ?thesis by blast
qed

end
