(* ===== verification/WalBlobs.thy ===== *)
theory WalBlobs
  imports PageDiffs
begin

text \<open>
  The write-ahead log of the page store (\<open>nomt/src/bitbox/wal\<close>): the builder that
  appends entries to a growing memory mapping, and the reader that recovery runs over the
  log file.  The builder refines an append-only byte string; the reader reads back what
  the builder wrote, and detects a log that was cut short.
\<close>

section \<open>The builder\<close>

definition WAL_ENTRY_TAG_START :: u8 where "WAL_ENTRY_TAG_START = 1"
definition WAL_ENTRY_TAG_END :: u8 where "WAL_ENTRY_TAG_END = 2"
definition WAL_ENTRY_TAG_CLEAR :: u8 where "WAL_ENTRY_TAG_CLEAR = 3"
definition WAL_ENTRY_TAG_UPDATE :: u8 where "WAL_ENTRY_TAG_UPDATE = 4"

lemmas wal_tags = WAL_ENTRY_TAG_START_def WAL_ENTRY_TAG_END_def WAL_ENTRY_TAG_CLEAR_def WAL_ENTRY_TAG_UPDATE_def

definition MAX_SIZE :: nat where
  "MAX_SIZE = 2 ^ 37"

text \<open>Whether the operating system grants \<open>mmap\<close> of a size and \<open>mremap\<close> from one
  size to another.\<close>
record os_memory =
  grants_mmap :: "nat \<Rightarrow> bool"
  grants_mremap :: "nat \<Rightarrow> nat \<Rightarrow> bool"

datatype wal_grow_error = TooLarge | MmapFailed

text \<open>\<open>Mmap\<close>: the mapped bytes; \<open>size\<close> is their number.\<close>
type_synonym mmap = bytes

definition mmap_new :: "os_memory \<Rightarrow> nat \<Rightarrow> wal_grow_error + mmap" where
  "mmap_new os sz = (if grants_mmap os sz then Inr (replicate sz 0) else Inl MmapFailed)"

definition mmap_resize :: "os_memory \<Rightarrow> mmap \<Rightarrow> nat \<Rightarrow> (bool \<times> mmap) option" where
  "mmap_resize os m new_size = do {
     assert_that (new_size mod PAGE_SIZE = 0);
     Some (if grants_mremap os (length m) new_size
           then (True, take new_size m @ replicate (new_size - length m) 0)
           else (False, m)) }"

record wal_builder =
  wb_mmap :: mmap
  wb_cur :: nat

definition with_initial_size :: "os_memory \<Rightarrow> nat \<Rightarrow> wal_grow_error + wal_builder" where
  "with_initial_size os sz =
     (case mmap_new os sz of Inl e \<Rightarrow> Inl e | Inr m \<Rightarrow> Inr \<lparr>wb_mmap = m, wb_cur = 0\<rparr>)"

definition wal_new :: "os_memory \<Rightarrow> wal_grow_error + wal_builder" where
  "wal_new os = with_initial_size os (2 ^ 30)"

text \<open>\<open>saturating_mul(2)\<close> on \<open>usize\<close>.\<close>
definition sat_double :: "nat \<Rightarrow> nat" where
  "sat_double n = min (n * 2) (2 ^ 64 - 1)"

text \<open>The doubling loop of \<open>grow\<close>.\<close>
partial_function (option) grow_loop :: "nat \<Rightarrow> nat \<Rightarrow> nat option" where
  "grow_loop min_new_size new_size =
     (if new_size < min_new_size \<and> new_size < MAX_SIZE
      then grow_loop min_new_size (sat_double new_size) else Some new_size)"

definition wal_grow :: "os_memory \<Rightarrow> wal_builder \<Rightarrow> nat \<Rightarrow> (wal_grow_error + wal_builder) option" where
  "wal_grow os b min_new_size =
     (if MAX_SIZE \<le> length (wb_mmap b) then Some (Inl TooLarge)
      else do {
        new_size \<leftarrow> grow_loop min_new_size (length (wb_mmap b));
        let new_size = min new_size MAX_SIZE;
        (resized, m) \<leftarrow> mmap_resize os (wb_mmap b) new_size;
        if resized then Some (Inr (b\<lparr>wb_mmap := m\<rparr>))
        else case mmap_new os new_size of
               Inl e \<Rightarrow> Some (Inl e)
             | Inr new_mmap \<Rightarrow> do {
                 m' \<leftarrow> copy_at new_mmap 0 (wb_mmap b);
                 Some (Inr (b\<lparr>wb_mmap := m'\<rparr>)) } })"

text \<open>\<open>write\<close>: a failed growth panics; a copy that leaves the mapping is \<open>None\<close> as well.\<close>
definition wal_write :: "os_memory \<Rightarrow> wal_builder \<Rightarrow> bytes \<Rightarrow> wal_builder option" where
  "wal_write os b bs = do {
     let pos = wb_cur b;
     let new_cur = wb_cur b + length bs;
     assert_that (new_cur < 2 ^ 64);
     b \<leftarrow> (if length (wb_mmap b) \<le> new_cur
           then Option.bind (wal_grow os b new_cur) (\<lambda>r. case r of Inl _ \<Rightarrow> None | Inr b \<Rightarrow> Some b)
           else Some b);
     let b = b\<lparr>wb_cur := new_cur\<rparr>;
     m \<leftarrow> copy_at (wb_mmap b) pos bs;
     Some (b\<lparr>wb_mmap := m\<rparr>) }"

definition write_byte :: "os_memory \<Rightarrow> wal_builder \<Rightarrow> u8 \<Rightarrow> wal_builder option" where
  "write_byte os b x = wal_write os b [x]"

definition write_clear :: "os_memory \<Rightarrow> wal_builder \<Rightarrow> u64 \<Rightarrow> wal_builder option" where
  "write_clear os b bucket_index = do {
     b \<leftarrow> write_byte os b WAL_ENTRY_TAG_CLEAR;
     wal_write os b (to_le 8 (unat bucket_index)) }"

fun write_nodes :: "os_memory \<Rightarrow> wal_builder \<Rightarrow> bytes list \<Rightarrow> wal_builder option" where
  "write_nodes os b [] = Some b"
| "write_nodes os b (changed # rest) = Option.bind (wal_write os b changed) (\<lambda>b. write_nodes os b rest)"

definition write_update ::
  "os_memory \<Rightarrow> wal_builder \<Rightarrow> bytes \<Rightarrow> page_diff \<Rightarrow> bytes list \<Rightarrow> elided_children \<Rightarrow> u64 \<Rightarrow> wal_builder option" where
  "write_update os b page_id diff changed elided_children bucket_index = do {
     b \<leftarrow> write_byte os b WAL_ENTRY_TAG_UPDATE;
     b \<leftarrow> wal_write os b page_id;
     b \<leftarrow> wal_write os b (diff_as_bytes diff);
     b \<leftarrow> write_nodes os b changed;
     b \<leftarrow> wal_write os b (elided_to_bytes elided_children);
     wal_write os b (to_le 8 (unat bucket_index)) }"

definition wal_reset :: "os_memory \<Rightarrow> wal_builder \<Rightarrow> u32 \<Rightarrow> wal_builder option" where
  "wal_reset os b sync_seqn = do {
     let b = b\<lparr>wb_cur := 0\<rparr>;
     b \<leftarrow> write_byte os b WAL_ENTRY_TAG_START;
     wal_write os b (to_le 4 (unat sync_seqn)) }"

definition wal_finalize :: "os_memory \<Rightarrow> wal_builder \<Rightarrow> wal_builder option" where
  "wal_finalize os b = do {
     b \<leftarrow> write_byte os b WAL_ENTRY_TAG_END;
     let len = round_up_page (wb_cur b);
     let count = len - wb_cur b;
     m \<leftarrow> (if 0 < count then copy_at (wb_mmap b) (wb_cur b) (replicate count 0) else Some (wb_mmap b));
     Some (b\<lparr>wb_mmap := m, wb_cur := len\<rparr>) }"

definition wal_as_slice :: "wal_builder \<Rightarrow> bytes" where
  "wal_as_slice b = take (wb_cur b) (wb_mmap b)"


section \<open>The reader\<close>

datatype wal_entry =
    Update (we_page_id: bytes) (we_page_diff: page_diff) (we_changed_nodes: "bytes list")
      (we_elided_children: elided_children) (we_bucket: u64)
  | Clear (we_bucket: u64)

datatype wal_read_error =
    NotPageMultiple | UnexpectedEnd | UnexpectedStartTag u8 | UnknownTag u8 | InvalidPageDiff

record wal_reader =
  wr_wal :: bytes
  wr_offset :: nat
  wr_sync_seqn :: u32

definition wal_read_byte :: "wal_reader \<Rightarrow> wal_read_error + u8 \<times> wal_reader" where
  "wal_read_byte r =
     (if length (wr_wal r) \<le> wr_offset r then Inl UnexpectedEnd
      else Inr (wr_wal r ! wr_offset r, r\<lparr>wr_offset := wr_offset r + 1\<rparr>))"

definition read_buf :: "nat \<Rightarrow> wal_reader \<Rightarrow> wal_read_error + bytes \<times> wal_reader" where
  "read_buf n r =
     (if length (wr_wal r) < wr_offset r + n then Inl UnexpectedEnd
      else Inr (take n (drop (wr_offset r) (wr_wal r)), r\<lparr>wr_offset := wr_offset r + n\<rparr>))"

definition wal_read_u64 :: "wal_reader \<Rightarrow> wal_read_error + u64 \<times> wal_reader" where
  "wal_read_u64 r = try_bind (read_buf 8 r) (\<lambda>(buf, r). Inr (word_of_nat (from_le buf), r))"

definition wal_read_u32 :: "wal_reader \<Rightarrow> wal_read_error + u32 \<times> wal_reader" where
  "wal_read_u32 r = try_bind (read_buf 4 r) (\<lambda>(buf, r). Inr (word_of_nat (from_le buf), r))"

definition read_start :: "wal_reader \<Rightarrow> wal_read_error + wal_reader" where
  "read_start r =
     try_bind (wal_read_byte r) (\<lambda>(entry_tag, r).
       if entry_tag = WAL_ENTRY_TAG_START
       then try_bind (wal_read_u32 r) (\<lambda>(n, r). Inr (r\<lparr>wr_sync_seqn := n\<rparr>))
       else Inl (UnexpectedStartTag entry_tag))"

text \<open>The arms of \<open>match entry_tag\<close> of \<open>read_entry\<close>.\<close>
definition entry_tail :: "u8 \<Rightarrow> wal_reader \<Rightarrow> wal_read_error + wal_entry option \<times> wal_reader" where
  "entry_tail entry_tag r =
      (if entry_tag = WAL_ENTRY_TAG_END then Inr (None, r)
       else if entry_tag = WAL_ENTRY_TAG_CLEAR then
         try_bind (wal_read_u64 r) (\<lambda>(bucket, r). Inr (Some (Clear bucket), r))
       else if entry_tag = WAL_ENTRY_TAG_UPDATE then
         try_bind (read_buf 32 r) (\<lambda>(page_id, r).
         try_bind (read_buf 16 r) (\<lambda>(diff, r).
           case diff_from_bytes diff of
             None \<Rightarrow> Inl InvalidPageDiff
           | Some diff \<Rightarrow>
               try_bind (read_n (read_buf 32) (diff_count diff) r) (\<lambda>(changed_nodes, r).
               try_bind (read_buf 8 r) (\<lambda>(elided, r).
               try_bind (wal_read_u64 r) (\<lambda>(bucket, r).
                 Inr (Some (Update page_id diff changed_nodes (elided_from_bytes elided) bucket), r))))))
       else Inl (UnknownTag entry_tag))"

definition read_entry :: "wal_reader \<Rightarrow> wal_read_error + wal_entry option \<times> wal_reader" where
  "read_entry r = try_bind (wal_read_byte r) (\<lambda>(entry_tag, r). entry_tail entry_tag r)"

definition wal_reader_new :: "bytes \<Rightarrow> wal_read_error + wal_reader" where
  "wal_reader_new wal_file =
     (if length wal_file mod PAGE_SIZE \<noteq> 0 then Inl NotPageMultiple
      else read_start \<lparr>wr_wal = read_pages wal_file 0, wr_offset = 0, wr_sync_seqn = 0\<rparr>)"

text \<open>\<open>while let Some(entry) = wal_reader.read_entry()?\<close> of recovery, collecting the entries.\<close>
definition wal_left :: "wal_reader \<Rightarrow> bytes" where
  "wal_left r = drop (wr_offset r) (wr_wal r)"

lemma wal_read_byte_eq:
  "wal_read_byte r = (case wal_left r of [] \<Rightarrow> Inl UnexpectedEnd | b # _ \<Rightarrow> Inr (b, r\<lparr>wr_offset := wr_offset r + 1\<rparr>))"
proof (cases "wr_offset r < length (wr_wal r)")
  case True
  then show ?thesis by (simp add: wal_read_byte_def wal_left_def Cons_nth_drop_Suc[symmetric])
qed (simp add: wal_read_byte_def wal_left_def)

lemma read_buf_shrinks: "read_buf n r = Inr (x, r') \<Longrightarrow> length (wal_left r') = length (wal_left r) - n \<and> wr_offset r' = wr_offset r + n \<and> wr_wal r' = wr_wal r"
  by (auto simp: read_buf_def wal_left_def split: if_splits)

lemma read_bufs_shrink: "read_n (read_buf n) k r = Inr (xs, r') \<Longrightarrow> wr_offset r \<le> wr_offset r' \<and> wr_wal r' = wr_wal r"
proof (induction k arbitrary: r xs)
  case (Suc k)
  then show ?case by (auto split: sum.splits prod.splits dest!: read_buf_shrinks) fastforce+
qed simp

lemma read_entry_shrinks:
  assumes "read_entry r = Inr (x, r')"
  shows "length (wal_left r') < length (wal_left r)"
proof -
  have byte: "wr_offset r < length (wr_wal r) \<and> wr_offset r1 = wr_offset r + 1 \<and> wr_wal r1 = wr_wal r"
    if "wal_read_byte r = Inr (t, r1)" for t r1
    using that by (auto simp: wal_read_byte_def split: if_splits)
  have u64: "wr_offset s \<le> wr_offset s' \<and> wr_wal s' = wr_wal s" if "wal_read_u64 s = Inr (y, s')" for s s' y
    using that by (auto simp: wal_read_u64_def try_bind_Inr dest!: read_buf_shrinks)
  have buf: "wr_offset s \<le> wr_offset s' \<and> wr_wal s' = wr_wal s" if "read_buf n s = Inr (y, s')" for n s s' y
    using read_buf_shrinks[OF that] by simp
  have "wr_offset r < length (wr_wal r) \<and> wr_offset r < wr_offset r' \<and> wr_wal r' = wr_wal r"
    using assms unfolding read_entry_def entry_tail_def
    by (auto simp: try_bind_Inr split: if_splits option.splits
             dest!: byte u64 buf read_bufs_shrink)
  thus ?thesis by (auto simp: wal_left_def)
qed

function read_entries :: "wal_reader \<Rightarrow> wal_read_error + wal_entry list" where
  "read_entries r =
     (case read_entry r of
        Inl e \<Rightarrow> Inl e
      | Inr (None, r') \<Rightarrow> Inr []
      | Inr (Some entry, r') \<Rightarrow>
          (case read_entries r' of Inl e \<Rightarrow> Inl e | Inr es \<Rightarrow> Inr (entry # es)))"
  by pat_completeness auto
termination
  by (relation "measure (\<lambda>r. length (wal_left r))") (auto dest: read_entry_shrinks)

declare read_entries.simps [simp del]


section \<open>The builder appends\<close>

text \<open>Invariant of the builder: the cursor is inside the mapping, whose size is a positive
  multiple of the page size within the limit.\<close>
definition wb_ok :: "wal_builder \<Rightarrow> bool" where
  "wb_ok b \<longleftrightarrow> wb_cur b \<le> length (wb_mmap b) \<and> PAGE_SIZE dvd length (wb_mmap b) \<and>
     0 < length (wb_mmap b) \<and> length (wb_mmap b) \<le> MAX_SIZE"

text \<open>The operating system grants every mapping up to the limit; \<open>mremap\<close> may fail.\<close>
definition os_grants :: "os_memory \<Rightarrow> bool" where
  "os_grants os \<longleftrightarrow> (\<forall>sz. grants_mmap os sz)"

lemma MAX_SIZE_page: "PAGE_SIZE dvd MAX_SIZE"
  by (simp add: PAGE_SIZE_def MAX_SIZE_def)

lemma sat_double_eq: "n < MAX_SIZE \<Longrightarrow> sat_double n = 2 * n"
  by (simp add: sat_double_def MAX_SIZE_def)

lemma grow_loop_total:
  assumes "0 < n" "PAGE_SIZE dvd n"
  shows "\<exists>n'. grow_loop m n = Some n' \<and> n \<le> n' \<and> (m \<le> n' \<or> MAX_SIZE \<le> n') \<and> PAGE_SIZE dvd n'"
  using assms
proof (induction "MAX_SIZE - n" arbitrary: n rule: less_induct)
  case less
  show ?case
  proof (cases "n < m \<and> n < MAX_SIZE")
    case True
    hence step: "grow_loop m n = grow_loop m (2 * n)" by (subst grow_loop.simps) (simp add: sat_double_eq)
    have "\<exists>n'. grow_loop m (2 * n) = Some n' \<and> 2 * n \<le> n' \<and> (m \<le> n' \<or> MAX_SIZE \<le> n') \<and> PAGE_SIZE dvd n'"
      by (rule less.hyps) (use True less.prems in auto)
    then obtain n' where "grow_loop m (2 * n) = Some n'" "2 * n \<le> n'" "m \<le> n' \<or> MAX_SIZE \<le> n'" "PAGE_SIZE dvd n'"
      by blast
    then show ?thesis unfolding step by (intro exI[of _ n']) simp
  next
    case False
    then show ?thesis using less.prems by (subst grow_loop.simps) auto
  qed
qed

text \<open>Growing keeps the mapped bytes in place and reaches the wanted size or the limit.\<close>
lemma wal_grow_Inr:
  assumes "wb_ok b" "wal_grow os b m = Some (Inr b')"
  shows "\<exists>z. wb_mmap b' = wb_mmap b @ z \<and> wb_cur b' = wb_cur b \<and> wb_ok b' \<and>
             (m \<le> length (wb_mmap b') \<or> length (wb_mmap b') = MAX_SIZE)"
proof -
  let ?n = "length (wb_mmap b)"
  have lt: "?n < MAX_SIZE" using assms(2) by (auto simp: wal_grow_def split: if_splits)
  obtain n' where n': "grow_loop m ?n = Some n'" "?n \<le> n'" "m \<le> n' \<or> MAX_SIZE \<le> n'" "PAGE_SIZE dvd n'"
    using grow_loop_total[of ?n m] assms(1) by (auto simp: wb_ok_def)
  define s where "s = min n' MAX_SIZE"
  have s: "PAGE_SIZE dvd s" "?n \<le> s" "s \<le> MAX_SIZE" "m \<le> s \<or> s = MAX_SIZE"
    using n' lt MAX_SIZE_page by (auto simp: min_def s_def)
  have b': "b' = b\<lparr>wb_mmap := wb_mmap b @ replicate (s - ?n) 0\<rparr>"
    using assms(2) lt n'(1) s(1,2) unfolding wal_grow_def Let_def
    by (auto simp: mmap_resize_def mmap_new_def copy_at_def dvd_eq_mod_eq_0 s_def[symmetric]
             split: if_splits bind_splits)
  moreover have "0 < s" using s(2) assms(1) unfolding wb_ok_def by linarith
  ultimately show ?thesis using s assms(1) by (auto simp: wb_ok_def)
qed

lemma wal_grow_total:
  assumes "wb_ok b" "os_grants os" "length (wb_mmap b) < MAX_SIZE"
  shows "\<exists>b'. wal_grow os b m = Some (Inr b')"
proof -
  let ?n = "length (wb_mmap b)"
  obtain n' where n': "grow_loop m ?n = Some n'" "?n \<le> n'" "PAGE_SIZE dvd n'"
    using grow_loop_total[of ?n m] assms(1) by (auto simp: wb_ok_def)
  have "PAGE_SIZE dvd min n' MAX_SIZE" "?n \<le> min n' MAX_SIZE"
    using n' assms(3) MAX_SIZE_page by (auto simp: min_def)
  then show ?thesis using n'(1) assms(2,3)
    by (simp add: wal_grow_def mmap_resize_def mmap_new_def copy_at_def os_grants_def Let_def dvd_eq_mod_eq_0)
qed

lemma wal_write_Some:
  assumes "wb_ok b" "wal_write os b bs = Some b'"
  shows "wb_ok b' \<and> wal_as_slice b' = wal_as_slice b @ bs \<and> wb_cur b' = wb_cur b + length bs"
proof -
  let ?new = "wb_cur b + length bs"
  obtain b1 where b1: "(if length (wb_mmap b) \<le> ?new
           then Option.bind (wal_grow os b ?new) (\<lambda>r. case r of Inl _ \<Rightarrow> None | Inr b \<Rightarrow> Some b)
           else Some b) = Some b1"
    and copy: "copy_at (wb_mmap b1) (wb_cur b) bs = Some (wb_mmap b')" and cur: "wb_cur b' = ?new"
    using assms(2) by (auto simp: wal_write_def Let_def bind_eq_Some_conv)
  have grown: "\<exists>z. wb_mmap b1 = wb_mmap b @ z \<and> wb_ok b1"
  proof (cases "length (wb_mmap b) \<le> ?new")
    case True
    then have "wal_grow os b ?new = Some (Inr b1)"
      using b1 by (auto split: bind_splits sum.splits)
    from wal_grow_Inr[OF assms(1) this] show ?thesis by blast
  qed (use b1 assms(1) in auto)
  have len: "length (wb_mmap b') = length (wb_mmap b1)" using copy_at_length[OF copy] .
  have fit: "?new \<le> length (wb_mmap b1)"
    and mem: "wb_mmap b' = take (wb_cur b) (wb_mmap b1) @ bs @ drop ?new (wb_mmap b1)"
    using copy by (auto simp: copy_at_def split: if_splits)
  have "take (wb_cur b) (wb_mmap b1) = take (wb_cur b) (wb_mmap b)" using grown assms(1) by (auto simp: wb_ok_def)
  then show ?thesis using fit mem grown len cur by (auto simp: wb_ok_def wal_as_slice_def)
qed

lemma wal_write_total:
  assumes "wb_ok b" "os_grants os" "wb_cur b + length bs < MAX_SIZE"
  shows "\<exists>b'. wal_write os b bs = Some b'"
proof -
  let ?new = "wb_cur b + length bs"
  have lim: "?new < 2 ^ 64" using assms(3) by (simp add: MAX_SIZE_def)
  show ?thesis
  proof (cases "length (wb_mmap b) \<le> ?new")
    case True
    hence "length (wb_mmap b) < MAX_SIZE" using assms(3) by simp
    then obtain b1 where b1: "wal_grow os b ?new = Some (Inr b1)" using wal_grow_total[OF assms(1,2)] by blast
    have "?new \<le> length (wb_mmap b1)" using wal_grow_Inr[OF assms(1) b1] assms(3) by auto
    then show ?thesis using True lim b1 by (simp add: wal_write_def Let_def copy_at_def)
  next
    case False
    then show ?thesis using lim by (simp add: wal_write_def Let_def copy_at_def)
  qed
qed


text \<open>\<open>writes os f p\<close>: the builder operation \<open>f\<close> appends \<open>p\<close> when it returns, and returns
  when the log stays below the size limit and mappings are granted.\<close>
definition writes :: "os_memory \<Rightarrow> (wal_builder \<Rightarrow> wal_builder option) \<Rightarrow> bytes \<Rightarrow> bool" where
  "writes os f p \<longleftrightarrow>
     (\<forall>b b'. wb_ok b \<longrightarrow> f b = Some b' \<longrightarrow> wb_ok b' \<and> wal_as_slice b' = wal_as_slice b @ p) \<and>
     (\<forall>b. wb_ok b \<longrightarrow> os_grants os \<longrightarrow> length (wal_as_slice b) + length p < MAX_SIZE \<longrightarrow> (\<exists>b'. f b = Some b'))"

lemma wal_as_slice_length: "wb_ok b \<Longrightarrow> length (wal_as_slice b) = wb_cur b"
  by (simp add: wb_ok_def wal_as_slice_def)

lemma writesD1: "writes os f p \<Longrightarrow> wb_ok b \<Longrightarrow> f b = Some b' \<Longrightarrow> wb_ok b' \<and> wal_as_slice b' = wal_as_slice b @ p"
  by (simp add: writes_def)

lemma writesD2:
  "writes os f p \<Longrightarrow> wb_ok b \<Longrightarrow> os_grants os \<Longrightarrow> length (wal_as_slice b) + length p < MAX_SIZE \<Longrightarrow> \<exists>b'. f b = Some b'"
  by (simp add: writes_def)

lemma writes_write [intro]: "writes os (\<lambda>b. wal_write os b bs) bs"
  unfolding writes_def using wal_write_Some wal_write_total by (simp add: wal_as_slice_length)

lemma writes_byte [intro]: "writes os (\<lambda>b. write_byte os b x) [x]"
  unfolding write_byte_def by (rule writes_write)

lemma writes_skip: "writes os Some []"
  by (simp add: writes_def)

lemma writes_bind:
  assumes "writes os f p" "writes os g q"
  shows "writes os (\<lambda>b. Option.bind (f b) g) (p @ q)"
proof -
  have "wb_ok b' \<and> wal_as_slice b' = wal_as_slice b @ p @ q"
    if "wb_ok b" "Option.bind (f b) g = Some b'" for b b'
    using that writesD1[OF assms(1), of b] writesD1[OF assms(2), of _ b'] by (auto simp: bind_eq_Some_conv)
  moreover have "\<exists>b'. Option.bind (f b) g = Some b'"
    if h: "wb_ok b" "os_grants os" "length (wal_as_slice b) + length (p @ q) < MAX_SIZE" for b
  proof -
    obtain b1 where b1: "f b = Some b1" using writesD2[OF assms(1) h(1,2)] h(3) by auto
    show ?thesis using writesD1[OF assms(1) h(1) b1] writesD2[OF assms(2) _ h(2), of b1] h(3) b1 by auto
  qed
  ultimately show ?thesis by (simp add: writes_def)
qed

lemma writes_nodes: "writes os (\<lambda>b. write_nodes os b nodes) (concat nodes)"
proof (induction nodes)
  case (Cons n nodes)
  show ?case using writes_bind[OF writes_write Cons, of n] by simp
qed (simp add: writes_skip)


section \<open>Log entries as bytes\<close>

fun print_entry :: "wal_entry \<Rightarrow> bytes" where
  "print_entry (Clear bucket) = [WAL_ENTRY_TAG_CLEAR] @ to_le 8 (unat bucket)"
| "print_entry (Update page_id diff changed elided_children bucket) =
     [WAL_ENTRY_TAG_UPDATE] @ page_id @ diff_as_bytes diff @ concat changed @
     elided_to_bytes elided_children @ to_le 8 (unat bucket)"

text \<open>The call that logs an entry.\<close>
fun write_entry :: "os_memory \<Rightarrow> wal_builder \<Rightarrow> wal_entry \<Rightarrow> wal_builder option" where
  "write_entry os b (Clear bucket) = write_clear os b bucket"
| "write_entry os b (Update page_id diff changed elided_children bucket) =
     write_update os b page_id diff changed elided_children bucket"

fun write_entries :: "os_memory \<Rightarrow> wal_builder \<Rightarrow> wal_entry list \<Rightarrow> wal_builder option" where
  "write_entries os b [] = Some b"
| "write_entries os b (e # es) = Option.bind (write_entry os b e) (\<lambda>b. write_entries os b es)"

text \<open>One sync: \<open>reset\<close>, the entries, \<open>finalize\<close>.\<close>
definition wal_build :: "os_memory \<Rightarrow> wal_builder \<Rightarrow> u32 \<Rightarrow> wal_entry list \<Rightarrow> wal_builder option" where
  "wal_build os b sync_seqn es = do {
     b \<leftarrow> wal_reset os b sync_seqn;
     b \<leftarrow> write_entries os b es;
     wal_finalize os b }"

text \<open>The entries the page store logs.\<close>
fun entry_ok :: "wal_entry \<Rightarrow> bool" where
  "entry_ok (Clear bucket) \<longleftrightarrow> True"
| "entry_ok (Update page_id diff changed elided_children bucket) \<longleftrightarrow>
     length page_id = 32 \<and> diff_plain diff \<and> length changed = diff_count diff \<and>
     (\<forall>n\<in>set changed. length n = 32)"

lemma writes_entry: "writes os (\<lambda>b. write_entry os b e) (print_entry e)"
proof (cases e)
  case (Update page_id diff changed elided_children bucket)
  show ?thesis unfolding Update write_entry.simps print_entry.simps write_update_def
    by (intro writes_bind writes_byte writes_write writes_nodes)
next
  case (Clear bucket)
  show ?thesis unfolding Clear write_entry.simps print_entry.simps write_clear_def
    by (intro writes_bind writes_byte writes_write)
qed

lemma writes_entries: "writes os (\<lambda>b. write_entries os b es) (concat (map print_entry es))"
proof (induction es)
  case (Cons e es)
  show ?case using writes_bind[OF writes_entry Cons, of e] by simp
qed (simp add: writes_skip)

lemma wal_finalize_Some:
  assumes "wb_ok b" "wal_finalize os b = Some b'"
  shows "wb_ok b' \<and> PAGE_SIZE dvd length (wal_as_slice b') \<and>
         (\<exists>k. wal_as_slice b' = wal_as_slice b @ [WAL_ENTRY_TAG_END] @ replicate k 0)"
proof -
  obtain b1 where b1: "write_byte os b WAL_ENTRY_TAG_END = Some b1"
    and b': "wb_cur b' = round_up_page (wb_cur b1)"
      "(if 0 < round_up_page (wb_cur b1) - wb_cur b1
        then copy_at (wb_mmap b1) (wb_cur b1) (replicate (round_up_page (wb_cur b1) - wb_cur b1) 0)
        else Some (wb_mmap b1)) = Some (wb_mmap b')"
    using assms(2) by (auto simp: wal_finalize_def Let_def bind_eq_Some_conv)
  have ok1: "wb_ok b1" "wal_as_slice b1 = wal_as_slice b @ [WAL_ENTRY_TAG_END]"
    using writesD1[OF writes_byte assms(1) b1] by auto
  let ?k = "round_up_page (wb_cur b1) - wb_cur b1"
  have ge: "wb_cur b1 \<le> round_up_page (wb_cur b1)" by (rule round_up_page_ge)
  have le: "round_up_page (wb_cur b1) \<le> length (wb_mmap b1)"
    using ok1(1) by (intro round_up_page_le) (auto simp: wb_ok_def)
  have "wal_as_slice b' = wal_as_slice b1 @ replicate ?k 0 \<and> length (wb_mmap b') = length (wb_mmap b1)"
  proof (cases "0 < ?k")
    case True
    hence "wb_mmap b' = take (wb_cur b1) (wb_mmap b1) @ replicate ?k 0 @ drop (round_up_page (wb_cur b1)) (wb_mmap b1)"
      using b'(2) ge le by (simp add: copy_at_def)
    thus ?thesis using b'(1) ge le by (simp add: wal_as_slice_def)
  next
    case False
    thus ?thesis using b' ge by (simp add: wal_as_slice_def)
  qed
  moreover have "wb_ok b'" using calculation ok1(1) b'(1) le by (simp add: wb_ok_def)
  moreover have "PAGE_SIZE dvd length (wal_as_slice b')"
    using b'(1) wal_as_slice_length[OF calculation(2)] by simp
  ultimately show ?thesis using ok1(2) by auto
qed

lemma wal_finalize_total:
  assumes "wb_ok b" "os_grants os" "length (wal_as_slice b) + 1 < MAX_SIZE"
  shows "\<exists>b'. wal_finalize os b = Some b'"
proof -
  obtain b1 where b1: "write_byte os b WAL_ENTRY_TAG_END = Some b1"
    using writesD2[OF writes_byte assms(1,2)] assms(3) by auto
  have "wb_ok b1" using writesD1[OF writes_byte assms(1) b1] by simp
  hence "round_up_page (wb_cur b1) \<le> length (wb_mmap b1)"
    by (intro round_up_page_le) (auto simp: wb_ok_def)
  then show ?thesis using b1 round_up_page_ge[of "wb_cur b1"]
    by (simp add: wal_finalize_def Let_def copy_at_def)
qed

text \<open>The bytes of a log before the padding.\<close>
definition wal_text :: "u32 \<Rightarrow> wal_entry list \<Rightarrow> bytes" where
  "wal_text sync_seqn es =
     ([WAL_ENTRY_TAG_START] @ to_le 4 (unat sync_seqn)) @ concat (map print_entry es) @ [WAL_ENTRY_TAG_END]"

lemma wal_reset_reset: "wal_reset os b n = wal_reset os (b\<lparr>wb_cur := 0\<rparr>) n"
  by (simp add: wal_reset_def)

lemma writes_reset: "writes os (\<lambda>b. Option.bind (write_byte os b WAL_ENTRY_TAG_START) (\<lambda>b. wal_write os b (to_le 4 (unat n))))
   ([WAL_ENTRY_TAG_START] @ to_le 4 (unat n))"
  by (intro writes_bind writes_byte writes_write)

lemma wal_build_Some:
  assumes "wb_ok b" "wal_build os b n es = Some b'"
  shows "wb_ok b' \<and> PAGE_SIZE dvd length (wal_as_slice b') \<and> (\<exists>k. wal_as_slice b' = wal_text n es @ replicate k 0)"
proof -
  obtain b1 b2 where b: "wal_reset os b n = Some b1" "write_entries os b1 es = Some b2" "wal_finalize os b2 = Some b'"
    using assms(2) by (auto simp: wal_build_def bind_eq_Some_conv)
  have ok0: "wb_ok (b\<lparr>wb_cur := 0\<rparr>)" "wal_as_slice (b\<lparr>wb_cur := 0\<rparr>) = []"
    using assms(1) by (simp_all add: wb_ok_def wal_as_slice_def)
  have 1: "wb_ok b1 \<and> wal_as_slice b1 = [WAL_ENTRY_TAG_START] @ to_le 4 (unat n)"
    using writesD1[OF writes_reset ok0(1), of os n b1] b(1) ok0(2) by (simp add: wal_reset_def)
  have 2: "wb_ok b2 \<and> wal_as_slice b2 = wal_as_slice b1 @ concat (map print_entry es)"
    using writesD1[OF writes_entries _ b(2)] 1 by blast
  from wal_finalize_Some[OF _ b(3)] 1 2 show ?thesis by (auto simp: wal_text_def)
qed

lemma wal_build_total:
  assumes "wb_ok b" "os_grants os" "length (wal_text n es) < MAX_SIZE"
  shows "\<exists>b'. wal_build os b n es = Some b'"
proof -
  have ok0: "wb_ok (b\<lparr>wb_cur := 0\<rparr>)" "wal_as_slice (b\<lparr>wb_cur := 0\<rparr>) = []"
    using assms(1) by (simp_all add: wb_ok_def wal_as_slice_def)
  obtain b1 where b1: "wal_reset os b n = Some b1"
    using writesD2[OF writes_reset ok0(1) assms(2), of n] ok0(2) assms(3)
    by (auto simp: wal_reset_def wal_text_def)
  have 1: "wb_ok b1" "wal_as_slice b1 = [WAL_ENTRY_TAG_START] @ to_le 4 (unat n)"
    using writesD1[OF writes_reset ok0(1), of os n b1] b1 ok0(2) by (simp_all add: wal_reset_def)
  obtain b2 where b2: "write_entries os b1 es = Some b2"
    using writesD2[OF writes_entries 1(1) assms(2), of es] 1(2) assms(3) by (auto simp: wal_text_def)
  have 2: "wb_ok b2" "wal_as_slice b2 = wal_as_slice b1 @ concat (map print_entry es)"
    using writesD1[OF writes_entries 1(1) b2] by auto
  obtain b3 where "wal_finalize os b2 = Some b3"
    using wal_finalize_total[OF 2(1) assms(2)] 1(2) 2(2) assms(3) by (auto simp: wal_text_def)
  then show ?thesis using b1 b2 by (simp add: wal_build_def)
qed


section \<open>Reading the log back\<close>

lemma wal_left_advance: "wal_left (r\<lparr>wr_offset := wr_offset r + n\<rparr>) = drop n (wal_left r)"
  by (simp add: wal_left_def add.commute)

lemma wal_left_seqn [simp]: "wal_left (r\<lparr>wr_sync_seqn := n\<rparr>) = wal_left r"
  by (simp add: wal_left_def)

lemma read_buf_eq:
  "wr_offset r \<le> length (wr_wal r) \<Longrightarrow>
   read_buf n r = (if length (wal_left r) < n then Inl UnexpectedEnd
                   else Inr (take n (wal_left r), r\<lparr>wr_offset := wr_offset r + n\<rparr>))"
  by (auto simp: read_buf_def wal_left_def)

text \<open>Fixed size buffers, bytes and integers.\<close>
lemma reads_buf: "0 < n \<Longrightarrow> length x = n \<Longrightarrow> reads wal_left UnexpectedEnd (read_buf n) x x"
proof (unfold reads_def, intro conjI allI impI)
  fix r rest assume x: "0 < n" "length x = n" and left: "wal_left r = x @ rest"
  hence "wr_offset r \<le> length (wr_wal r)" "\<not> length (wal_left r) < n"
    by (auto simp: wal_left_def intro: ccontr)
  thus "\<exists>r'. read_buf n r = Inr (x, r') \<and> wal_left r' = rest"
    using x left by (simp add: read_buf_eq wal_left_advance)
next
  fix r assume x: "0 < n" "length x = n" and left: "strict_prefix (wal_left r) x"
  hence "length (wal_left r) < n" using prefix_length_less by fastforce
  thus "read_buf n r = Inl UnexpectedEnd" by (auto simp: read_buf_def wal_left_def)
qed

lemma reads_byte: "reads wal_left UnexpectedEnd wal_read_byte [x] x"
  using wal_left_advance[of _ 1] by (auto simp: reads_def wal_read_byte_eq strict_prefix_def prefix_Cons split: list.splits)

lemma reads_u64: "reads wal_left UnexpectedEnd wal_read_u64 (to_le 8 (unat w)) w"
  using reads_map[OF reads_buf[of 8 "to_le 8 (unat w)"], of "\<lambda>b. word_of_nat (from_le b) :: u64"]
  by (simp add: wal_read_u64_def[abs_def])

lemma reads_u32: "reads wal_left UnexpectedEnd wal_read_u32 (to_le 4 (unat w)) w"
  using reads_map[OF reads_buf[of 4 "to_le 4 (unat w)"], of "\<lambda>b. word_of_nat (from_le b) :: u32"]
  by (simp add: wal_read_u32_def[abs_def])

interpretation node_codec: byte_codec "\<lambda>x. x" "read_buf 32" wal_left UnexpectedEnd "\<lambda>x. length x = 32"
  by unfold_locales (simp add: reads_buf)

lemma read_entry_tail: "read_entry = (\<lambda>r. try_bind (wal_read_byte r) (\<lambda>(t, r). entry_tail t r))"
  by (rule ext) (simp add: read_entry_def)

fun print_item :: "wal_entry option \<Rightarrow> bytes" where
  "print_item None = [WAL_ENTRY_TAG_END]"
| "print_item (Some e) = print_entry e"

lemma print_item_nonempty: "print_item i \<noteq> []"
proof (cases i)
  case (Some e)
  then show ?thesis by (cases e) simp_all
qed simp

lemma reads_clear_tail:
  "reads wal_left UnexpectedEnd (entry_tail WAL_ENTRY_TAG_CLEAR) (to_le 8 (unat w)) (Some (Clear w))"
  using reads_map[OF reads_u64[of w], of "\<lambda>b. Some (Clear b)"]
  by (simp add: entry_tail_def[abs_def] wal_tags)

lemma reads_update_tail:
  assumes "entry_ok (Update page_id diff changed el w)"
  shows "reads wal_left UnexpectedEnd (entry_tail WAL_ENTRY_TAG_UPDATE)
           (page_id @ diff_as_bytes diff @ concat changed @ elided_to_bytes el @ to_le 8 (unat w))
           (Some (Update page_id diff changed el w))"
proof -
  let ?R = "reads wal_left UnexpectedEnd"
  let ?g5 = "\<lambda>pid d ch e r. try_bind (wal_read_u64 r) (\<lambda>(bucket, r). Inr (Some (Update pid d ch (elided_from_bytes e) bucket), r))"
  let ?g4 = "\<lambda>pid d ch r. try_bind (read_buf 8 r) (\<lambda>(e, r). ?g5 pid d ch e r)"
  let ?g3 = "\<lambda>pid d r. try_bind (read_n (read_buf 32) (diff_count d) r) (\<lambda>(ch, r). ?g4 pid d ch r)"
  let ?g2 = "\<lambda>pid bs r. case diff_from_bytes bs of None \<Rightarrow> Inl InvalidPageDiff | Some d \<Rightarrow> ?g3 pid d r"
  let ?g1 = "\<lambda>pid r. try_bind (read_buf 16 r) (\<lambda>(bs, r). ?g2 pid bs r)"
  let ?res = "Some (Update page_id diff changed el w)"
  have ok: "length page_id = 32" "diff_plain diff" "length changed = diff_count diff" "\<forall>n\<in>set changed. length n = 32"
    using assms by auto
  have "?R (?g5 page_id diff changed (elided_to_bytes el)) (to_le 8 (unat w)) ?res"
    using reads_map[OF reads_u64[of w], of "\<lambda>b. Some (Update page_id diff changed el b)"]
    by (simp add: elided_round_trip)
  hence "?R (?g4 page_id diff changed) (elided_to_bytes el @ to_le 8 (unat w)) ?res"
    by (intro reads_bind[where g = "?g5 page_id diff changed", OF reads_buf]) simp_all
  hence "?R (?g3 page_id diff) (concat changed @ elided_to_bytes el @ to_le 8 (unat w)) ?res"
    using node_codec.reads_many[OF ok(4)] ok(3)
    by (intro reads_bind[where g = "?g4 page_id diff"]) simp_all
  hence "?R (?g2 page_id (diff_as_bytes diff)) (concat changed @ elided_to_bytes el @ to_le 8 (unat w)) ?res"
    using diff_round_trip[OF ok(2)] by simp
  hence "?R (?g1 page_id) (diff_as_bytes diff @ concat changed @ elided_to_bytes el @ to_le 8 (unat w)) ?res"
    by (intro reads_bind[where g = "?g2 page_id", OF reads_buf]) simp_all
  hence "?R (\<lambda>r. try_bind (read_buf 32 r) (\<lambda>(pid, r). ?g1 pid r))
     (page_id @ diff_as_bytes diff @ concat changed @ elided_to_bytes el @ to_le 8 (unat w)) ?res"
    using ok(1) by (intro reads_bind[where g = ?g1, OF reads_buf]) simp_all
  thus ?thesis by (simp add: entry_tail_def[abs_def] wal_tags)
qed

lemma reads_item:
  assumes "pred_option entry_ok i"
  shows "reads wal_left UnexpectedEnd read_entry (print_item i) i"
proof -
  have tail: "reads wal_left UnexpectedEnd (entry_tail (hd (print_item i))) (tl (print_item i)) i"
  proof (cases i)
    case None
    have "entry_tail WAL_ENTRY_TAG_END = (\<lambda>r. Inr (None, r))" by (rule ext) (simp add: entry_tail_def)
    thus ?thesis using None reads_return[of wal_left UnexpectedEnd "None :: wal_entry option"] by simp
  next
    case (Some e)
    thus ?thesis using assms reads_clear_tail reads_update_tail by (cases e) simp_all
  qed
  have "print_item i = [hd (print_item i)] @ tl (print_item i)"
    using print_item_nonempty[of i] by simp
  thus ?thesis using reads_bind[where g = entry_tail, OF reads_byte tail] by (simp add: read_entry_tail)
qed

interpretation entry_codec: byte_codec print_item read_entry wal_left UnexpectedEnd "pred_option entry_ok"
  by unfold_locales (rule reads_item)


lemma reads_entry: "entry_ok e \<Longrightarrow> reads wal_left UnexpectedEnd read_entry (print_entry e) (Some e)"
  using entry_codec.reads_printed[of "Some e"] by simp

lemma read_entries_text:
  assumes "\<forall>e\<in>set es. entry_ok e" "wal_left r = (concat (map print_entry es) @ [WAL_ENTRY_TAG_END]) @ rest"
  shows "read_entries r = Inr es"
  using assms
proof (induction es arbitrary: r)
  case Nil
  have "\<exists>r'. read_entry r = Inr (None, r') \<and> wal_left r' = rest"
    using readsD1[OF entry_codec.reads_printed[of None], of r rest] Nil.prems by simp
  then show ?case by (subst read_entries.simps) auto
next
  case (Cons e es)
  have "entry_ok e" using Cons.prems(1) by simp
  then obtain r' where r': "read_entry r = Inr (Some e, r')"
    "wal_left r' = (concat (map print_entry es) @ [WAL_ENTRY_TAG_END]) @ rest"
    using readsD1[OF reads_entry, of e r "(concat (map print_entry es) @ [WAL_ENTRY_TAG_END]) @ rest"] Cons.prems(2)
    by auto
  have "read_entries r' = Inr es" using Cons.IH[OF _ r'(2)] Cons.prems(1) by simp
  then show ?case using r'(1) by (subst read_entries.simps) simp
qed

lemma read_entries_torn:
  assumes "\<forall>e\<in>set es. entry_ok e" "strict_prefix (wal_left r) (concat (map print_entry es) @ [WAL_ENTRY_TAG_END])"
  shows "read_entries r = Inl UnexpectedEnd"
  using assms
proof (induction es arbitrary: r)
  case Nil
  then have "read_entry r = Inl UnexpectedEnd"
    using readsD2[OF entry_codec.reads_printed[of None], of r] by simp
  then show ?case by (subst read_entries.simps) simp
next
  case (Cons e es)
  have e: "reads wal_left UnexpectedEnd read_entry (print_entry e) (Some e)"
    using Cons.prems(1) by (intro reads_entry) simp
  have pre: "strict_prefix (wal_left r) (print_entry e @ concat (map print_entry es) @ [WAL_ENTRY_TAG_END])"
    using Cons.prems(2) by simp
  show ?case
  proof (cases "strict_prefix (wal_left r) (print_entry e)")
    case True
    then show ?thesis using readsD2[OF e] by (subst read_entries.simps) simp
  next
    case False
    then obtain rest where rest: "wal_left r = print_entry e @ rest"
      "strict_prefix rest (concat (map print_entry es) @ [WAL_ENTRY_TAG_END])"
      using strict_prefix_appendD[OF pre] by blast
    obtain r' where r': "read_entry r = Inr (Some e, r')" "wal_left r' = rest"
      using readsD1[OF e rest(1)] by blast
    have "read_entries r' = Inl UnexpectedEnd" using Cons.IH[of r'] Cons.prems(1) rest(2) r'(2) by simp
    then show ?thesis using r'(1) by (subst read_entries.simps) simp
  qed
qed

text \<open>The header, read as a reader of the remaining state.\<close>
definition start_reader :: "wal_reader \<Rightarrow> wal_read_error + u32 \<times> wal_reader" where
  "start_reader r =
     try_bind (wal_read_byte r) (\<lambda>(t, r). if t = WAL_ENTRY_TAG_START then wal_read_u32 r else Inl (UnexpectedStartTag t))"

lemma reads_start: "reads wal_left UnexpectedEnd start_reader ([WAL_ENTRY_TAG_START] @ to_le 4 (unat n)) n"
  unfolding start_reader_def
  by (rule reads_bind[where g = "\<lambda>t r. if t = WAL_ENTRY_TAG_START then wal_read_u32 r else Inl (UnexpectedStartTag t)", OF reads_byte])
     (simp add: reads_u32)

lemma read_start_reader: "read_start r = try_bind (start_reader r) (\<lambda>(n, r). Inr (r\<lparr>wr_sync_seqn := n\<rparr>))"
  by (auto simp: read_start_def start_reader_def try_bind_def split: sum.splits)

lemma wal_reader_new_pages:
  "PAGE_SIZE dvd length f \<Longrightarrow> wal_reader_new f = read_start \<lparr>wr_wal = f, wr_offset = 0, wr_sync_seqn = 0\<rparr>"
  by (simp add: wal_reader_new_def read_pages_drop dvd_eq_mod_eq_0[symmetric])

lemma wal_left_init [simp]: "wal_left \<lparr>wr_wal = f, wr_offset = 0, wr_sync_seqn = n\<rparr> = f"
  by (simp add: wal_left_def)

lemma wal_file_read:
  assumes "\<forall>e\<in>set es. entry_ok e" "PAGE_SIZE dvd length f" "f = wal_text n es @ rest"
  shows "\<exists>r. wal_reader_new f = Inr r \<and> wr_sync_seqn r = n \<and> read_entries r = Inr es"
proof -
  let ?r0 = "\<lparr>wr_wal = f, wr_offset = 0, wr_sync_seqn = 0\<rparr>"
  have "wal_left ?r0 = ([WAL_ENTRY_TAG_START] @ to_le 4 (unat n)) @ (concat (map print_entry es) @ [WAL_ENTRY_TAG_END]) @ rest"
    using assms(3) by (simp add: wal_text_def)
  then obtain r1 where r1: "start_reader ?r0 = Inr (n, r1)"
    "wal_left r1 = (concat (map print_entry es) @ [WAL_ENTRY_TAG_END]) @ rest"
    using readsD1[OF reads_start] by blast
  have "read_entries (r1\<lparr>wr_sync_seqn := n\<rparr>) = Inr es"
    by (rule read_entries_text[OF assms(1)]) (use r1(2) in simp)
  then show ?thesis using r1(1) assms(2) by (simp add: wal_reader_new_pages read_start_reader)
qed

text \<open>C21
  A sync's log survives the disk: whatever builder is reused, when mappings are granted and
  the log stays below 128 GiB, building the log of a list of entries returns, its length is
  a multiple of the page size, and the reader opened on those bytes finds the sync sequence
  number and returns exactly the entries.\<close>
theorem wal_round_trip:
  assumes "wb_ok b" "os_grants os" "\<forall>e\<in>set es. entry_ok e" "length (wal_text n es) < MAX_SIZE"
  shows "\<exists>b' r. wal_build os b n es = Some b' \<and> wb_ok b' \<and> PAGE_SIZE dvd length (wal_as_slice b') \<and>
           wal_reader_new (wal_as_slice b') = Inr r \<and> wr_sync_seqn r = n \<and> read_entries r = Inr es"
proof -
  obtain b' where b': "wal_build os b n es = Some b'" using wal_build_total[OF assms(1,2,4)] by blast
  then obtain k where ok: "wb_ok b'" "PAGE_SIZE dvd length (wal_as_slice b')" "wal_as_slice b' = wal_text n es @ replicate k 0"
    using wal_build_Some[OF assms(1)] by blast
  with b' wal_file_read[OF assms(3) ok(2,3)] show ?thesis by blast
qed

text \<open>C22
  A torn log is never replayed in part: any cut of a log before its end tag is refused,
  either by its size or with an unexpected end while reading.\<close>
theorem torn_log_detected:
  assumes "wb_ok b" "wal_build os b n es = Some b'" "\<forall>e\<in>set es. entry_ok e" "k < length (wal_text n es)"
  shows "try_bind (wal_reader_new (take k (wal_as_slice b'))) read_entries
           = Inl (if PAGE_SIZE dvd k then UnexpectedEnd else NotPageMultiple)"
proof -
  obtain j where tx: "wal_as_slice b' = wal_text n es @ replicate j 0"
    using wal_build_Some[OF assms(1,2)] by blast
  let ?f = "take k (wal_as_slice b')"
  have f: "?f = take k (wal_text n es)" "length ?f = k" using tx assms(4) by simp_all
  have cut: "strict_prefix ?f (wal_text n es)"
    unfolding f(1) strict_prefix_def using assms(4) take_is_prefix[of k "wal_text n es"] by (metis length_take min.absorb4 nat_neq_iff)
  show ?thesis
  proof (cases "PAGE_SIZE dvd k")
    case False
    then show ?thesis using f(2) by (simp add: wal_reader_new_def dvd_eq_mod_eq_0)
  next
    case True
    let ?r0 = "\<lparr>wr_wal = ?f, wr_offset = 0, wr_sync_seqn = 0\<rparr>"
    let ?head = "[WAL_ENTRY_TAG_START] @ to_le 4 (unat n)" and ?tail = "concat (map print_entry es) @ [WAL_ENTRY_TAG_END]"
    have new: "wal_reader_new ?f = read_start ?r0" using True f(2) by (intro wal_reader_new_pages) simp
    have pre: "strict_prefix (wal_left ?r0) (?head @ ?tail)" using cut by (simp add: wal_text_def)
    show ?thesis
    proof (cases "strict_prefix (wal_left ?r0) ?head")
      case True
      then have "start_reader ?r0 = Inl UnexpectedEnd" by (rule readsD2[OF reads_start])
      then show ?thesis using new \<open>PAGE_SIZE dvd k\<close> by (simp add: read_start_reader)
    next
      case False
      then obtain rest where rest: "wal_left ?r0 = ?head @ rest" "strict_prefix rest ?tail"
        using strict_prefix_appendD[OF pre] by blast
      obtain r1 where r1: "start_reader ?r0 = Inr (n, r1)" "wal_left r1 = rest"
        using readsD1[OF reads_start rest(1)] by blast
      have "read_entries (r1\<lparr>wr_sync_seqn := n\<rparr>) = Inl UnexpectedEnd"
        by (rule read_entries_torn[OF assms(3)]) (use r1(2) rest(2) in simp)
      then show ?thesis using new r1(1) \<open>PAGE_SIZE dvd k\<close> by (simp add: read_start_reader)
    qed
  qed
qed

subsection \<open>Sample logs\<close>

definition sample_os :: os_memory where
  "sample_os = \<lparr>grants_mmap = (\<lambda>_. True), grants_mremap = (\<lambda>_ _. False)\<rparr>"

definition sample_builder :: wal_builder where
  "sample_builder = \<lparr>wb_mmap = replicate 4096 0, wb_cur = 9\<rparr>"

definition sample_log :: "wal_entry list" where
  "sample_log = [Clear 7, Update (replicate 32 1) \<lparr>changed_nodes0 = 5, changed_nodes1 = 0\<rparr>
     [replicate 32 8, replicate 32 9] \<lparr>elided = 3\<rparr> 11]"

lemma sample_os_grants: "os_grants sample_os"
  by (simp add: os_grants_def sample_os_def)

lemma sample_builder_ok: "wb_ok sample_builder"
  by (simp add: wb_ok_def sample_builder_def PAGE_SIZE_def MAX_SIZE_def)

lemma sample_log_ok: "\<forall>e\<in>set sample_log. entry_ok e"
proof -
  have "diff_count \<lparr>changed_nodes0 = 5, changed_nodes1 = 0\<rparr> = 2" by code_simp
  thus ?thesis by (simp add: sample_log_def diff_plain_def diff_bit_def)
qed

lemma sample_log_short: "length (wal_text n sample_log) = 144"
  by (simp add: wal_text_def sample_log_def)

theorem wal_round_trip_witness:
  "\<exists>b' r. wal_build sample_os sample_builder 3 sample_log = Some b' \<and>
     wal_reader_new (wal_as_slice b') = Inr r \<and> wr_sync_seqn r = 3 \<and> read_entries r = Inr sample_log"
  using wal_round_trip[OF sample_builder_ok sample_os_grants sample_log_ok, of 3] sample_log_short[of 3]
  by (auto simp: MAX_SIZE_def)

theorem torn_log_detected_witness:
  "\<exists>b'. wal_build sample_os sample_builder 3 sample_log = Some b' \<and>
     try_bind (wal_reader_new (take 100 (wal_as_slice b'))) read_entries = Inl NotPageMultiple \<and>
     try_bind (wal_reader_new (take 0 (wal_as_slice b'))) read_entries = Inl UnexpectedEnd"
proof -
  obtain b' where b': "wal_build sample_os sample_builder 3 sample_log = Some b'"
    using wal_build_total[OF sample_builder_ok sample_os_grants, of 3 sample_log] sample_log_short[of 3]
    by (auto simp: MAX_SIZE_def)
  show ?thesis
    using torn_log_detected[OF sample_builder_ok b' sample_log_ok, of 100]
      torn_log_detected[OF sample_builder_ok b' sample_log_ok, of 0] b' sample_log_short[of 3]
    by (auto simp: PAGE_SIZE_def)
qed

end
