(* ===== verification/HashTables.thy ===== *)
theory HashTables
  imports PageDiffs
begin

text \<open>
  The hash table of pages (\<open>nomt/src/bitbox\<close>): the map of one metadata byte per bucket
  (\<open>meta_map.rs\<close>), the layout of the table file (\<open>ht_file.rs\<close>), triangular probing,
  bucket allocation and page loads (\<open>mod.rs\<close>, with the loop of \<open>Store::load_page\<close>).  The
  hash function of page ids is a parameter.  The lemmas show that an allocated page is
  found again, that allocation and removal of other pages keep it findable, and when
  probing does not end.
\<close>

section \<open>The meta map\<close>

definition EMPTY :: u8 where "EMPTY = 0"
definition TOMBSTONE :: u8 where "TOMBSTONE = 127"
definition FULL_MASK :: u8 where "FULL_MASK = 128"

definition full_entry :: "u64 \<Rightarrow> u8" where
  "full_entry h = ucast (drop_bit 57 h) XOR FULL_MASK"

record meta_map =
  mm_buckets :: nat
  mm_bitvec :: bytes

definition meta_from_bytes :: "bytes \<Rightarrow> nat \<Rightarrow> meta_map option" where
  "meta_from_bytes meta_bytes buckets = do {
     assert_that (length meta_bytes mod 4096 = 0);
     Some \<lparr>mm_buckets = buckets, mm_bitvec = meta_bytes\<rparr> }"

definition full_count :: "meta_map \<Rightarrow> nat" where
  "full_count m = length (filter (\<lambda>x. x AND FULL_MASK \<noteq> 0) (mm_bitvec m))"

definition meta_len :: "meta_map \<Rightarrow> nat" where
  "meta_len m = mm_buckets m"

text \<open>\<open>self.bitvec[bucket] = x\<close>.\<close>
definition put_meta :: "meta_map \<Rightarrow> nat \<Rightarrow> u8 \<Rightarrow> meta_map option" where
  "put_meta m bucket x =
     (if bucket < length (mm_bitvec m) then Some (m\<lparr>mm_bitvec := (mm_bitvec m)[bucket := x]\<rparr>) else None)"

definition set_full :: "meta_map \<Rightarrow> nat \<Rightarrow> u64 \<Rightarrow> meta_map option" where
  "set_full m bucket h = put_meta m bucket (full_entry h)"

definition set_tombstone :: "meta_map \<Rightarrow> nat \<Rightarrow> meta_map option" where
  "set_tombstone m bucket = put_meta m bucket TOMBSTONE"

definition hint_empty :: "meta_map \<Rightarrow> nat \<Rightarrow> bool option" where
  "hint_empty m bucket = map_option (\<lambda>x. x = EMPTY) (get_at (mm_bitvec m) bucket)"

definition hint_tombstone :: "meta_map \<Rightarrow> nat \<Rightarrow> bool option" where
  "hint_tombstone m bucket = map_option (\<lambda>x. x = TOMBSTONE) (get_at (mm_bitvec m) bucket)"

definition hint_not_match :: "meta_map \<Rightarrow> nat \<Rightarrow> u64 \<Rightarrow> bool option" where
  "hint_not_match m bucket raw_hash = map_option (\<lambda>x. x \<noteq> full_entry raw_hash) (get_at (mm_bitvec m) bucket)"

definition meta_page_index :: "nat \<Rightarrow> nat" where
  "meta_page_index bucket = bucket div 4096"

definition meta_page_slice :: "meta_map \<Rightarrow> nat \<Rightarrow> bytes option" where
  "meta_page_slice m page_index = slice_of (mm_bitvec m) (page_index * 4096) (page_index * 4096 + 4096)"


section \<open>The table file\<close>

record ht_offsets = data_page_offset :: nat

definition data_page_index :: "ht_offsets \<Rightarrow> nat \<Rightarrow> nat" where
  "data_page_index off ix = data_page_offset off + ix"

definition meta_bytes_index :: "ht_offsets \<Rightarrow> nat \<Rightarrow> nat" where
  "meta_bytes_index off ix = ix"

text \<open>Additions of page counts wrap around at 32 bits.\<close>
definition num_meta_byte_pages :: "u32 \<Rightarrow> u32" where
  "num_meta_byte_pages num_pages = (num_pages + 4095) div word_of_nat PAGE_SIZE"

definition expected_file_len :: "u32 \<Rightarrow> nat" where
  "expected_file_len num_pages = unat (num_meta_byte_pages num_pages + num_pages) * PAGE_SIZE"

datatype ht_open_error = UnexpectedFileLength | ReadFailed

fun read_meta_pages :: "bytes \<Rightarrow> nat list \<Rightarrow> bytes option" where
  "read_meta_pages fl [] = Some []"
| "read_meta_pages fl (pn # pns) = do {
     page \<leftarrow> read_page fl pn;
     rest \<leftarrow> read_meta_pages fl pns;
     Some (page @ rest) }"

definition ht_open :: "u32 \<Rightarrow> bytes \<Rightarrow> (ht_open_error + ht_offsets \<times> meta_map) option" where
  "ht_open num_pages ht =
     (if length ht \<noteq> expected_file_len num_pages then Some (Inl UnexpectedFileLength)
      else let n = unat (num_meta_byte_pages num_pages) in
        case read_meta_pages ht [0..<n] of
          None \<Rightarrow> Some (Inl ReadFailed)
        | Some meta_bytes \<Rightarrow> do {
            m \<leftarrow> meta_from_bytes meta_bytes (unat num_pages);
            Some (Inr (\<lparr>data_page_offset = n\<rparr>, m)) })"

text \<open>Zeroing a file by writing chunks of four pages from its start.\<close>
function zero_loop :: "bytes \<Rightarrow> nat \<Rightarrow> nat \<Rightarrow> bytes option" where
  "zero_loop fl pos remaining =
     (if remaining = 0 then Some fl
      else let len = min remaining (PAGE_SIZE * 4) in
           Option.bind (copy_at fl pos (replicate len 0)) (\<lambda>fl. zero_loop fl (pos + len) (remaining - len)))"
  by pat_completeness auto
termination
  by (relation "measure (\<lambda>(_, _, r). r)") (auto simp: PAGE_SIZE_def)

declare zero_loop.simps [simp del]

definition resize_and_zero_file :: "bytes \<Rightarrow> nat \<Rightarrow> bytes option" where
  "resize_and_zero_file fl len = zero_loop (set_len fl len) 0 len"

text \<open>\<open>resize_and_prealloc\<close> on Linux; whether the file system is a \<open>tmpfs\<close> and whether
  \<open>fallocate\<close> with a zero range succeeds are parameters.\<close>
definition resize_and_prealloc :: "bool \<Rightarrow> bool \<Rightarrow> bytes \<Rightarrow> nat \<Rightarrow> bool \<Rightarrow> bytes option" where
  "resize_and_prealloc is_tmpfs falloc_ok fl len preallocate =
     (if \<not> preallocate then Some (set_len fl len)
      else if is_tmpfs then Some (set_len fl len)
      else if falloc_ok then Some (replicate len 0 @ drop len fl)
      else resize_and_zero_file fl len)"

text \<open>\<open>create\<close>: the table file and the log file, given what the table file held before.\<close>
definition ht_create :: "bool \<Rightarrow> bool \<Rightarrow> bytes \<Rightarrow> u32 \<Rightarrow> bool \<Rightarrow> bytes option" where
  "ht_create is_tmpfs falloc_ok old num_pages preallocate =
     (let page_count = num_pages + num_meta_byte_pages num_pages in
      resize_and_prealloc is_tmpfs falloc_ok old (unat page_count * PAGE_SIZE) preallocate)"


section \<open>Probing\<close>

text \<open>\<open>xxhash3_64::oneshot_with_seed\<close>.\<close>
type_synonym xxh = "u64 \<Rightarrow> bytes \<Rightarrow> u64"

definition hash_raw_page_id :: "xxh \<Rightarrow> bytes \<Rightarrow> bytes \<Rightarrow> u64" where
  "hash_raw_page_id xxh pid seed = xxh (word_of_nat (from_be (take 8 seed))) pid"

definition hash_page_id :: "xxh \<Rightarrow> page_id \<Rightarrow> bytes \<Rightarrow> u64" where
  "hash_page_id xxh pid seed = hash_raw_page_id xxh (page_id_encode pid) seed"

record probe_sequence =
  ps_hash :: u64
  ps_bucket :: u64
  ps_step :: u64

datatype probe_result = PossibleHit u64 | EmptyBucket u64 | TombstoneBucket u64

definition probe_new :: "xxh \<Rightarrow> page_id \<Rightarrow> meta_map \<Rightarrow> bytes \<Rightarrow> probe_sequence option" where
  "probe_new xxh pid m seed = do {
     let h = hash_page_id xxh pid seed;
     assert_that (meta_len m \<noteq> 0);
     Some \<lparr>ps_hash = h, ps_bucket = h mod word_of_nat (meta_len m), ps_step = 0\<rparr> }"

text \<open>The move to the next bucket.\<close>
definition probe_advance :: "meta_map \<Rightarrow> probe_sequence \<Rightarrow> probe_sequence" where
  "probe_advance m ps =
     ps\<lparr>ps_bucket := (ps_bucket ps + ps_step ps) mod word_of_nat (meta_len m), ps_step := ps_step ps + 1\<rparr>"

text \<open>What the loop does at a bucket: \<open>Some None\<close> is \<open>continue\<close>.\<close>
definition probe_here :: "meta_map \<Rightarrow> probe_sequence \<Rightarrow> probe_result option option" where
  "probe_here m ps = do {
     let bucket = unat (ps_bucket ps);
     e \<leftarrow> hint_empty m bucket;
     if e then Some (Some (EmptyBucket (ps_bucket ps)))
     else do {
       t \<leftarrow> hint_tombstone m bucket;
       if t then Some (Some (TombstoneBucket (ps_bucket ps)))
       else do {
         nm \<leftarrow> hint_not_match m bucket (ps_hash ps);
         Some (if nm then None else Some (PossibleHit (ps_bucket ps))) } } }"

text \<open>\<open>ProbeSequence::next\<close>; its loop may not end.\<close>
partial_function (option) probe_next :: "meta_map \<Rightarrow> probe_sequence \<Rightarrow> (probe_result \<times> probe_sequence) option" where
  "probe_next m ps =
     (let ps' = probe_advance m ps in
      Option.bind (probe_here m ps') (\<lambda>r. case r of None \<Rightarrow> probe_next m ps' | Some x \<Rightarrow> Some (x, ps')))"

text \<open>The attempts of \<open>allocate_bucket\<close>.\<close>
fun allocate_loop :: "nat \<Rightarrow> meta_map \<Rightarrow> probe_sequence \<Rightarrow> (u64 option \<times> meta_map) option" where
  "allocate_loop 0 m ps = Some (None, m)"
| "allocate_loop (Suc n) m ps = do {
     (r, ps) \<leftarrow> probe_next m ps;
     case r of
       PossibleHit _ \<Rightarrow> allocate_loop n m ps
     | TombstoneBucket bucket \<Rightarrow> do {
         m \<leftarrow> set_full m (unat bucket) (ps_hash ps);
         Some (Some bucket, m) }
     | EmptyBucket bucket \<Rightarrow> do {
         m \<leftarrow> set_full m (unat bucket) (ps_hash ps);
         Some (Some bucket, m) } }"

definition allocate_bucket :: "xxh \<Rightarrow> page_id \<Rightarrow> meta_map \<Rightarrow> bytes \<Rightarrow> (u64 option \<times> meta_map) option" where
  "allocate_bucket xxh pid m seed = do {
     ps \<leftarrow> probe_new xxh pid m seed;
     allocate_loop 9999 m ps }"

datatype page_load_state = Pending | Submitted

record page_load =
  pl_page_id :: page_id
  pl_probe_sequence :: probe_sequence
  pl_state :: page_load_state

definition start_load :: "xxh \<Rightarrow> meta_map \<Rightarrow> bytes \<Rightarrow> page_id \<Rightarrow> page_load option" where
  "start_load xxh m seed pid = do {
     ps \<leftarrow> probe_new xxh pid m seed;
     Some \<lparr>pl_page_id = pid, pl_probe_sequence = ps, pl_state = Pending\<rparr> }"

partial_function (option) probe_loop :: "meta_map \<Rightarrow> probe_sequence \<Rightarrow> (u64 option \<times> probe_sequence) option" where
  "probe_loop m ps =
     Option.bind (probe_next m ps) (\<lambda>(r, ps). case r of
        TombstoneBucket _ \<Rightarrow> probe_loop m ps
      | EmptyBucket _ \<Rightarrow> Some (None, ps)
      | PossibleHit bucket \<Rightarrow> Some (Some bucket, ps))"

text \<open>\<open>PageLoader::probe\<close>: the page number it asks the I/O pool to read, or \<open>None\<close> for \<open>false\<close>.\<close>
definition load_probe :: "meta_map \<Rightarrow> ht_offsets \<Rightarrow> page_load \<Rightarrow> (nat option \<times> page_load) option" where
  "load_probe m off load = do {
     (b, ps) \<leftarrow> probe_loop m (pl_probe_sequence load);
     let load = load\<lparr>pl_probe_sequence := ps\<rparr>;
     Some (case b of None \<Rightarrow> (None, load)
           | Some bucket \<Rightarrow> (Some (data_page_index off (unat bucket)), load\<lparr>pl_state := Submitted\<rparr>)) }"

definition needs_completion :: "page_load \<Rightarrow> bool" where
  "needs_completion load \<longleftrightarrow> pl_state load = Submitted"

definition try_complete :: "page_load \<Rightarrow> bytes \<Rightarrow> ((bytes \<times> u64) option \<times> page_load) option" where
  "try_complete load page = do {
     assert_that (needs_completion load);
     if drop (PAGE_SIZE - 32) page = page_id_encode (pl_page_id load)
     then Some (Some (page, ps_bucket (pl_probe_sequence load)), load)
     else Some (None, load\<lparr>pl_state := Pending\<rparr>) }"

text \<open>\<open>Store::load_page\<close> over the bytes of the table file; a failed read is \<open>None\<close>.\<close>
partial_function (option) load_loop :: "meta_map \<Rightarrow> ht_offsets \<Rightarrow> bytes \<Rightarrow> page_load \<Rightarrow> (bytes \<times> u64) option option" where
  "load_loop m off ht load =
     Option.bind (load_probe m off load) (\<lambda>(pn, load). case pn of
        None \<Rightarrow> Some None
      | Some pn \<Rightarrow>
          Option.bind (read_page ht pn) (\<lambda>page.
          Option.bind (try_complete load page) (\<lambda>(res, load). case res of
             Some x \<Rightarrow> Some (Some x)
           | None \<Rightarrow> load_loop m off ht load)))"

definition load_page :: "xxh \<Rightarrow> bytes \<Rightarrow> meta_map \<Rightarrow> ht_offsets \<Rightarrow> bytes \<Rightarrow> page_id \<Rightarrow> (bytes \<times> u64) option option" where
  "load_page xxh seed m off ht pid = Option.bind (start_load xxh m seed pid) (load_loop m off ht)"

end
