(* ===== verification/HashTableFacts.thy ===== *)
theory HashTableFacts
  imports HashTables
begin

text \<open>
  Correctness of the hash table of pages: the table refines a finite map from page ids to
  buckets, the layout of the table file is read back after creation, and probing a table
  that is full of other pages does not end.
\<close>

section \<open>Metadata bytes\<close>

lemma full_entry_top_bit: "bit (full_entry h) 7"
proof -
  have "\<not> bit h 64" using bit_imp_le_length[of h 64] by auto
  thus ?thesis by (simp add: full_entry_def FULL_MASK_def bit_xor_iff bit_ucast_iff bit_drop_bit_eq)
qed

lemma full_entry_kinds [simp]:
  "full_entry h \<noteq> EMPTY" "full_entry h \<noteq> TOMBSTONE" "EMPTY \<noteq> full_entry h" "TOMBSTONE \<noteq> full_entry h"
  "TOMBSTONE \<noteq> EMPTY" "EMPTY \<noteq> TOMBSTONE"
  using full_entry_top_bit[of h] by (auto simp: EMPTY_def TOMBSTONE_def)

text \<open>A table with at least one bucket, whose metadata covers its buckets.\<close>
definition meta_ok :: "meta_map \<Rightarrow> bool" where
  "meta_ok m \<longleftrightarrow> 0 < mm_buckets m \<and> mm_buckets m \<le> length (mm_bitvec m) \<and> mm_buckets m < 2 ^ 64"

abbreviation meta_at :: "meta_map \<Rightarrow> u64 \<Rightarrow> u8" where
  "meta_at m b \<equiv> mm_bitvec m ! unat b"

abbreviation advances :: "meta_map \<Rightarrow> nat \<Rightarrow> probe_sequence \<Rightarrow> probe_sequence" where
  "advances m k \<equiv> (probe_advance m ^^ k)"

lemma advance_hash [simp]: "ps_hash (probe_advance m ps) = ps_hash ps"
  by (simp add: probe_advance_def)

lemma advances_hash [simp]: "ps_hash (advances m k ps) = ps_hash ps"
  by (induction k) auto

lemma advances_Suc: "advances m (Suc k) ps = advances m k (probe_advance m ps)"
  by (simp add: funpow_swap1)

lemma advance_in_range: "meta_ok m \<Longrightarrow> unat (ps_bucket (probe_advance m ps)) < mm_buckets m"
  by (simp add: probe_advance_def meta_len_def meta_ok_def unat_mod_distrib unat_of_nat)

lemma advances_in_range: "meta_ok m \<Longrightarrow> unat (ps_bucket (advances m (Suc k) ps)) < mm_buckets m"
  by (simp add: advance_in_range)

lemma probe_here_eq:
  assumes "meta_ok m" "unat (ps_bucket ps) < mm_buckets m"
  shows "probe_here m ps =
    Some (if meta_at m (ps_bucket ps) = EMPTY then Some (EmptyBucket (ps_bucket ps))
          else if meta_at m (ps_bucket ps) = TOMBSTONE then Some (TombstoneBucket (ps_bucket ps))
          else if meta_at m (ps_bucket ps) \<noteq> full_entry (ps_hash ps) then None
          else Some (PossibleHit (ps_bucket ps)))"
  using assms
  by (auto simp: probe_here_def hint_empty_def hint_tombstone_def hint_not_match_def get_at_def meta_ok_def Let_def)

lemma probe_next_unfold:
  assumes "meta_ok m"
  shows "probe_next m ps =
    (let ps' = probe_advance m ps; x = meta_at m (ps_bucket ps') in
     if x = EMPTY then Some (EmptyBucket (ps_bucket ps'), ps')
     else if x = TOMBSTONE then Some (TombstoneBucket (ps_bucket ps'), ps')
     else if x \<noteq> full_entry (ps_hash ps) then probe_next m ps'
     else Some (PossibleHit (ps_bucket ps'), ps'))"
  by (subst probe_next.simps) (simp add: probe_here_eq[OF assms advance_in_range[OF assms]] Let_def)


section \<open>Probing that does not end\<close>

text \<open>The iterations of \<open>ProbeSequence::next\<close> that pass on to the next bucket.\<close>
fun probe_steps :: "nat \<Rightarrow> meta_map \<Rightarrow> probe_sequence \<Rightarrow> probe_sequence option" where
  "probe_steps 0 m ps = Some ps"
| "probe_steps (Suc k) m ps =
     (case probe_here m (probe_advance m ps) of Some None \<Rightarrow> probe_steps k m (probe_advance m ps) | _ \<Rightarrow> None)"

text \<open>Every bucket is full, with another tag than the wanted one.\<close>
definition all_others :: "meta_map \<Rightarrow> u64 \<Rightarrow> bool" where
  "all_others m h \<longleftrightarrow> (\<forall>b < mm_buckets m. mm_bitvec m ! b \<noteq> EMPTY \<and> mm_bitvec m ! b \<noteq> TOMBSTONE \<and>
     mm_bitvec m ! b \<noteq> full_entry h)"

lemma probe_steps_forever:
  assumes "meta_ok m" "all_others m (ps_hash ps)"
  shows "\<exists>ps'. probe_steps k m ps = Some ps'"
  using assms(2)
proof (induction k arbitrary: ps)
  case (Suc k)
  have "probe_here m (probe_advance m ps) = Some None"
    using probe_here_eq[OF assms(1) advance_in_range[OF assms(1)], of ps] Suc.prems
      advance_in_range[OF assms(1), of ps] by (simp add: all_others_def)
  then show ?case using Suc.IH[of "probe_advance m ps"] Suc.prems by simp
qed simp

lemma probe_next_diverges:
  assumes "meta_ok m" "all_others m (ps_hash ps)"
  shows "probe_next m ps = None"
proof (rule ccontr)
  assume "probe_next m ps \<noteq> None"
  then obtain y where y: "probe_next m ps = Some y" by auto
  have "meta_ok m \<longrightarrow> \<not> all_others m (ps_hash ps)"
  proof (rule probe_next.raw_induct[where P = "\<lambda>m ps y. meta_ok m \<longrightarrow> \<not> all_others m (ps_hash ps)", OF _ y])
    fix f :: "meta_map \<Rightarrow> probe_sequence \<Rightarrow> (probe_result \<times> probe_sequence) option" and m ps y
    assume IH: "\<And>m ps y. f m ps = Some y \<Longrightarrow> meta_ok m \<longrightarrow> \<not> all_others m (ps_hash ps)"
      and body: "(let ps' = probe_advance m ps
        in Option.bind (probe_here m ps') (\<lambda>r. case r of None \<Rightarrow> f m ps' | Some x \<Rightarrow> Some (x, ps'))) = Some y"
    show "meta_ok m \<longrightarrow> \<not> all_others m (ps_hash ps)"
    proof (intro impI notI)
      assume ok: "meta_ok m" and oth: "all_others m (ps_hash ps)"
      have "probe_here m (probe_advance m ps) = Some None"
        using probe_here_eq[OF ok advance_in_range[OF ok], of ps] oth
          advance_in_range[OF ok, of ps] by (simp add: all_others_def)
      hence "f m (probe_advance m ps) = Some y" using body by (simp add: Let_def)
      from IH[OF this] ok oth show False by simp
    qed
  qed
  with assms show False by blast
qed

text \<open>C32
  In a table whose buckets are all full with other tags than that of a page, neither
  loading the page nor allocating a bucket for it returns: every iteration of
  \<open>ProbeSequence::next\<close> moves on without panicking, so the limit of attempts of
  \<open>allocate_bucket\<close> is never reached.\<close>
theorem probing_a_full_table_never_ends:
  assumes "meta_ok m" "all_others m (hash_page_id xxh pid seed)"
  shows "\<exists>ps. probe_new xxh pid m seed = Some ps \<and> (\<forall>k. \<exists>ps'. probe_steps k m ps = Some ps') \<and>
           allocate_bucket xxh pid m seed = None \<and> load_page xxh seed m off ht pid = None"
proof -
  obtain ps where ps: "probe_new xxh pid m seed = Some ps" "ps_hash ps = hash_page_id xxh pid seed"
    using assms(1) by (auto simp: probe_new_def meta_ok_def meta_len_def Let_def)
  have oth: "all_others m (ps_hash ps)" using assms(2) ps(2) by simp
  have next_none: "probe_next m ps = None" by (rule probe_next_diverges[OF assms(1) oth])
  hence "allocate_loop 9999 m ps = None" by (simp add: eval_nat_numeral)
  moreover have "probe_loop m ps = None" using next_none by (subst probe_loop.simps) simp
  ultimately show ?thesis using ps(1) probe_steps_forever[OF assms(1) oth]
    by (auto simp: allocate_bucket_def load_page_def start_load_def load_probe_def load_loop.simps)
qed



section \<open>The table as a map\<close>

text \<open>The last 32 bytes of a page hold its label.\<close>
definition page_label :: "bytes \<Rightarrow> bytes" where
  "page_label page = drop (PAGE_SIZE - 32) page"

definition probe_start :: "xxh \<Rightarrow> bytes \<Rightarrow> meta_map \<Rightarrow> page_id \<Rightarrow> probe_sequence" where
  "probe_start xxh seed m pid =
     \<lparr>ps_hash = hash_page_id xxh pid seed,
      ps_bucket = hash_page_id xxh pid seed mod word_of_nat (meta_len m), ps_step = 0\<rparr>"

lemma probe_new_start: "meta_ok m \<Longrightarrow> probe_new xxh pid m seed = Some (probe_start xxh seed m pid)"
  by (simp add: probe_new_def probe_start_def meta_ok_def meta_len_def Let_def)

text \<open>A bucket is on the probe path of a page: no empty bucket comes before it.\<close>
definition on_path :: "meta_map \<Rightarrow> probe_sequence \<Rightarrow> u64 \<Rightarrow> bool" where
  "on_path m ps b \<longleftrightarrow> (\<exists>k. ps_bucket (advances m (Suc k) ps) = b \<and>
     (\<forall>j < k. meta_at m (ps_bucket (advances m (Suc j) ps)) \<noteq> EMPTY))"

text \<open>The invariant of the table with respect to the map from its pages to their buckets:
  every page is on its probe path, in a bucket with the tag of its hash and under its label,
  every full bucket belongs to a page, and no two pages share a label.\<close>
definition table_inv :: "xxh \<Rightarrow> bytes \<Rightarrow> meta_map \<Rightarrow> ht_offsets \<Rightarrow> bytes \<Rightarrow> (page_id \<rightharpoonup> u64) \<Rightarrow> bool" where
  "table_inv xxh seed m off ht tab \<longleftrightarrow>
     meta_ok m \<and> (\<forall>b < mm_buckets m. in_file ht (data_page_index off b)) \<and>
     (\<forall>pid b. tab pid = Some b \<longrightarrow>
        unat b < mm_buckets m \<and> on_path m (probe_start xxh seed m pid) b \<and>
        meta_at m b = full_entry (hash_page_id xxh pid seed) \<and>
        (\<exists>page. read_page ht (data_page_index off (unat b)) = Some page \<and> page_label page = page_id_encode pid)) \<and>
     (\<forall>b. unat b < mm_buckets m \<longrightarrow> meta_at m b \<noteq> EMPTY \<longrightarrow> meta_at m b \<noteq> TOMBSTONE \<longrightarrow> (\<exists>pid. tab pid = Some b)) \<and>
     inj_on page_id_encode (dom tab)"

lemma table_invD:
  assumes "table_inv xxh seed m off ht tab"
  shows "meta_ok m" "b < mm_buckets m \<Longrightarrow> in_file ht (data_page_index off b)"
    "tab pid = Some u \<Longrightarrow> unat u < mm_buckets m"
    "tab pid = Some u \<Longrightarrow> on_path m (probe_start xxh seed m pid) u"
    "tab pid = Some u \<Longrightarrow> meta_at m u = full_entry (hash_page_id xxh pid seed)"
    "tab pid = Some u \<Longrightarrow> \<exists>page. read_page ht (data_page_index off (unat u)) = Some page \<and> page_label page = page_id_encode pid"
    "unat u < mm_buckets m \<Longrightarrow> meta_at m u \<noteq> EMPTY \<Longrightarrow> meta_at m u \<noteq> TOMBSTONE \<Longrightarrow> \<exists>pid. tab pid = Some u"
    "inj_on page_id_encode (dom tab)"
  using assms by (auto simp: table_inv_def)

subsection \<open>Page loads\<close>

lemma probe_loop_skip:
  assumes "meta_ok m" "meta_at m (ps_bucket (probe_advance m ps)) \<noteq> EMPTY"
    "meta_at m (ps_bucket (probe_advance m ps)) \<noteq> full_entry (ps_hash ps)"
  shows "probe_loop m ps = probe_loop m (probe_advance m ps)"
proof (cases "meta_at m (ps_bucket (probe_advance m ps)) = TOMBSTONE")
  case True
  then show ?thesis using assms by (subst probe_loop.simps) (simp add: probe_next_unfold[OF assms(1), of ps] Let_def)
next
  case False
  then have "probe_next m ps = probe_next m (probe_advance m ps)"
    using assms by (subst probe_next_unfold[OF assms(1)]) (simp add: Let_def)
  then show ?thesis by (subst (1 2) probe_loop.simps) simp
qed

lemma load_probe_skip:
  assumes "probe_loop m (pl_probe_sequence load) = probe_loop m ps"
  shows "load_loop m off ht load = load_loop m off ht (load\<lparr>pl_probe_sequence := ps\<rparr>)"
proof -
  have "load_probe m off load = load_probe m off (load\<lparr>pl_probe_sequence := ps\<rparr>)"
    using assms by (simp add: load_probe_def)
  then show ?thesis by (subst (1 2) load_loop.simps) simp
qed

lemma load_loop_hit:
  assumes "meta_ok m" "ps = probe_advance m (pl_probe_sequence load)"
    "meta_at m (ps_bucket ps) = full_entry (ps_hash ps)"
    "read_page ht (data_page_index off (unat (ps_bucket ps))) = Some page"
  shows "load_loop m off ht load =
     (if page_label page = page_id_encode (pl_page_id load) then Some (Some (page, ps_bucket ps))
      else load_loop m off ht (load\<lparr>pl_probe_sequence := ps, pl_state := Pending\<rparr>))"
proof -
  have "probe_next m (pl_probe_sequence load) = Some (PossibleHit (ps_bucket ps), ps)"
    using assms(1-3) by (subst probe_next_unfold) (simp_all add: Let_def)
  hence "probe_loop m (pl_probe_sequence load) = Some (Some (ps_bucket ps), ps)"
    by (subst probe_loop.simps) simp
  hence "load_probe m off load = Some (Some (data_page_index off (unat (ps_bucket ps))),
           load\<lparr>pl_probe_sequence := ps, pl_state := Submitted\<rparr>)"
    by (simp add: load_probe_def)
  then show ?thesis using assms(4)
    by (subst load_loop.simps) (simp add: try_complete_def needs_completion_def page_label_def)
qed

lemma load_loop_finds:
  assumes "meta_ok m" "\<forall>b < mm_buckets m. in_file ht (data_page_index off b)"
    and "ps_bucket (advances m (Suc k) (pl_probe_sequence load)) = b"
    and "\<forall>j < k. meta_at m (ps_bucket (advances m (Suc j) (pl_probe_sequence load))) \<noteq> EMPTY"
    and "meta_at m b = full_entry (ps_hash (pl_probe_sequence load))"
    and "read_page ht (data_page_index off (unat b)) = Some page" "page_label page = page_id_encode (pl_page_id load)"
    and "\<And>b' page'. unat b' < mm_buckets m \<Longrightarrow> meta_at m b' = full_entry (ps_hash (pl_probe_sequence load)) \<Longrightarrow>
        read_page ht (data_page_index off (unat b')) = Some page' \<Longrightarrow>
        page_label page' = page_id_encode (pl_page_id load) \<Longrightarrow> b' = b"
  shows "load_loop m off ht load = Some (Some (page, b))"
  using assms(3-)
proof (induction k arbitrary: load)
  case 0
  then show ?case using load_loop_hit[OF assms(1) refl, of load ht off page] by simp
next
  case (Suc k)
  let ?ps = "probe_advance m (pl_probe_sequence load)"
  have rng: "unat (ps_bucket ?ps) < mm_buckets m" by (rule advance_in_range[OF assms(1)])
  have tail: "load_loop m off ht l = Some (Some (page, b))"
    if "pl_probe_sequence l = ?ps" "pl_page_id l = pl_page_id load" for l
    using Suc.prems by (intro Suc.IH) (auto simp: that advances_Suc simp del: funpow.simps)
  have nonempty: "meta_at m (ps_bucket ?ps) \<noteq> EMPTY" using Suc.prems(2) by (auto dest: spec[of _ 0])
  show ?case
  proof (cases "meta_at m (ps_bucket ?ps) = full_entry (ps_hash (pl_probe_sequence load))")
    case False
    then have "probe_loop m (pl_probe_sequence load) = probe_loop m ?ps"
      using nonempty by (intro probe_loop_skip assms(1)) auto
    from load_probe_skip[OF this] show ?thesis using tail[of "load\<lparr>pl_probe_sequence := ?ps\<rparr>"] by simp
  next
    case True
    obtain p' where p': "read_page ht (data_page_index off (unat (ps_bucket ?ps))) = Some p'"
      using assms(2) rng read_page_Some by blast
    have hit: "load_loop m off ht load =
     (if page_label p' = page_id_encode (pl_page_id load) then Some (Some (p', ps_bucket ?ps))
      else load_loop m off ht (load\<lparr>pl_probe_sequence := ?ps, pl_state := Pending\<rparr>))"
      using True p' by (intro load_loop_hit[OF assms(1) refl]) simp_all
    show ?thesis
    proof (cases "page_label p' = page_id_encode (pl_page_id load)")
      case True
      then have "ps_bucket ?ps = b" using Suc.prems(6)[OF rng _ p'] \<open>meta_at m (ps_bucket ?ps) = _\<close> by blast
      then show ?thesis using hit p' Suc.prems(4) True by simp
    next
      case False
      then show ?thesis using hit tail[of "load\<lparr>pl_probe_sequence := ?ps, pl_state := Pending\<rparr>"] by simp
    qed
  qed
qed

lemma load_loop_empty:
  assumes "meta_ok m" "meta_at m (ps_bucket (probe_advance m (pl_probe_sequence load))) = EMPTY"
  shows "load_loop m off ht load = Some None"
proof -
  let ?ps = "probe_advance m (pl_probe_sequence load)"
  have "probe_next m (pl_probe_sequence load) = Some (EmptyBucket (ps_bucket ?ps), ?ps)"
    using assms(2) by (subst probe_next_unfold[OF assms(1)]) (simp add: Let_def)
  then have "probe_loop m (pl_probe_sequence load) = Some (None, ?ps)" by (subst probe_loop.simps) simp
  then show ?thesis by (subst load_loop.simps) (simp add: load_probe_def)
qed

lemma load_loop_absent:
  assumes "meta_ok m" "\<forall>b < mm_buckets m. in_file ht (data_page_index off b)"
    and "meta_at m (ps_bucket (advances m (Suc k) (pl_probe_sequence load))) = EMPTY"
    and "\<And>b' page'. unat b' < mm_buckets m \<Longrightarrow> meta_at m b' = full_entry (ps_hash (pl_probe_sequence load)) \<Longrightarrow>
        read_page ht (data_page_index off (unat b')) = Some page' \<Longrightarrow>
        page_label page' \<noteq> page_id_encode (pl_page_id load)"
  shows "load_loop m off ht load = Some None"
  using assms(3-)
proof (induction k arbitrary: load)
  case 0
  then show ?case by (intro load_loop_empty[OF assms(1)]) simp
next
  case (Suc k)
  let ?ps = "probe_advance m (pl_probe_sequence load)"
  have rng: "unat (ps_bucket ?ps) < mm_buckets m" by (rule advance_in_range[OF assms(1)])
  have tail: "load_loop m off ht l = Some None"
    if "pl_probe_sequence l = ?ps" "pl_page_id l = pl_page_id load" for l
    using Suc.prems by (intro Suc.IH) (auto simp: that advances_Suc simp del: funpow.simps)
  consider (empty) "meta_at m (ps_bucket ?ps) = EMPTY"
    | (hit) "meta_at m (ps_bucket ?ps) = full_entry (ps_hash (pl_probe_sequence load))"
    | (skip) "meta_at m (ps_bucket ?ps) \<noteq> EMPTY" "meta_at m (ps_bucket ?ps) \<noteq> full_entry (ps_hash (pl_probe_sequence load))"
    by blast
  then show ?case
  proof cases
    case empty
    then show ?thesis by (rule load_loop_empty[OF assms(1)])
  next
    case hit
    obtain p' where p': "read_page ht (data_page_index off (unat (ps_bucket ?ps))) = Some p'"
      using assms(2) rng read_page_Some by blast
    have "page_label p' \<noteq> page_id_encode (pl_page_id load)" using Suc.prems(2)[OF rng hit p'] .
    then show ?thesis
      using load_loop_hit[OF assms(1) refl, of load ht off p'] hit p'
        tail[of "load\<lparr>pl_probe_sequence := ?ps, pl_state := Pending\<rparr>"] by simp
  next
    case skip
    from load_probe_skip[OF probe_loop_skip[OF assms(1) skip]]
    show ?thesis using tail[of "load\<lparr>pl_probe_sequence := ?ps\<rparr>"] by simp
  qed
qed


lemma load_page_loop:
  "meta_ok m \<Longrightarrow> load_page xxh seed m off ht pid =
     load_loop m off ht \<lparr>pl_page_id = pid, pl_probe_sequence = probe_start xxh seed m pid, pl_state = Pending\<rparr>"
  by (simp add: load_page_def start_load_def probe_new_start)

lemma probe_start_hash [simp]: "ps_hash (probe_start xxh seed m pid) = hash_page_id xxh pid seed"
  by (simp add: probe_start_def)

text \<open>A full bucket under the label of a page is the bucket of that page.\<close>
lemma table_label_owner:
  assumes inv: "table_inv xxh seed m off ht tab" and inj: "inj_on page_id_encode (insert pid (dom tab))"
    and b: "unat b < mm_buckets m" "meta_at m b = full_entry h"
      "read_page ht (data_page_index off (unat b)) = Some page" "page_label page = page_id_encode pid"
  shows "tab pid = Some b"
proof -
  obtain q where q: "tab q = Some b" using table_invD(7)[OF inv b(1)] b(2) by auto
  have "page_label page = page_id_encode q" using table_invD(6)[OF inv q] b(3) by auto
  then have "pid = q" using b(4) inj q by (auto simp: inj_on_def)
  with q show ?thesis by simp
qed

lemma load_page_stored:
  assumes inv: "table_inv xxh seed m off ht tab" and tab: "tab pid = Some b"
    and page: "read_page ht (data_page_index off (unat b)) = Some page"
  shows "load_page xxh seed m off ht pid = Some (Some (page, b))"
proof -
  let ?l = "\<lparr>pl_page_id = pid, pl_probe_sequence = probe_start xxh seed m pid, pl_state = Pending\<rparr>"
  note D = table_invD[OF inv]
  obtain k where k: "ps_bucket (advances m (Suc k) (probe_start xxh seed m pid)) = b"
    "\<forall>j < k. meta_at m (ps_bucket (advances m (Suc j) (probe_start xxh seed m pid))) \<noteq> EMPTY"
    using D(4)[OF tab] by (auto simp: on_path_def)
  have lab: "page_label page = page_id_encode pid" using D(6)[OF tab] page by auto
  have inj: "inj_on page_id_encode (insert pid (dom tab))" using D(8) tab by (simp add: insert_absorb domI)
  have "load_loop m off ht ?l = Some (Some (page, b))"
  proof (rule load_loop_finds[OF D(1)])
    show "\<forall>b < mm_buckets m. in_file ht (data_page_index off b)" using D(2) by blast
    show "b' = b" if "unat b' < mm_buckets m" "meta_at m b' = full_entry (ps_hash (pl_probe_sequence ?l))"
      "read_page ht (data_page_index off (unat b')) = Some page'" "page_label page' = page_id_encode (pl_page_id ?l)"
      for b' page'
      using table_label_owner[OF inv inj that(1,2,3)] that(4) tab by simp
  qed (use k lab page D(5)[OF tab] in simp_all)
  then show ?thesis by (simp add: load_page_loop[OF D(1)])
qed

lemma load_page_absent:
  assumes inv: "table_inv xxh seed m off ht tab" and "tab pid = None"
    and inj: "inj_on page_id_encode (insert pid (dom tab))"
    and empty: "meta_at m (ps_bucket (advances m (Suc k) (probe_start xxh seed m pid))) = EMPTY"
  shows "load_page xxh seed m off ht pid = Some None"
proof -
  let ?l = "\<lparr>pl_page_id = pid, pl_probe_sequence = probe_start xxh seed m pid, pl_state = Pending\<rparr>"
  note D = table_invD[OF inv]
  have "load_loop m off ht ?l = Some None"
  proof (rule load_loop_absent[OF D(1)])
    show "\<forall>b < mm_buckets m. in_file ht (data_page_index off b)" using D(2) by blast
    show "page_label page' \<noteq> page_id_encode (pl_page_id ?l)" if "unat b' < mm_buckets m"
      "meta_at m b' = full_entry (ps_hash (pl_probe_sequence ?l))"
      "read_page ht (data_page_index off (unat b')) = Some page'" for b' page'
      using table_label_owner[OF inv inj that] assms(2) by auto
  qed (use empty in simp)
  then show ?thesis by (simp add: load_page_loop[OF D(1)])
qed


subsection \<open>Allocation and removal\<close>

text \<open>A changed metadata byte.\<close>
definition with_meta :: "meta_map \<Rightarrow> u64 \<Rightarrow> u8 \<Rightarrow> meta_map" where
  "with_meta m b x = m\<lparr>mm_bitvec := (mm_bitvec m)[unat b := x]\<rparr>"

lemma with_meta_simps [simp]:
  "mm_buckets (with_meta m b x) = mm_buckets m" "meta_len (with_meta m b x) = meta_len m"
  "meta_ok (with_meta m b x) = meta_ok m" "probe_advance (with_meta m b x) = probe_advance m"
  "probe_start xxh seed (with_meta m b x) pid = probe_start xxh seed m pid"
  by (simp_all add: with_meta_def meta_len_def meta_ok_def probe_start_def probe_advance_def fun_eq_iff)

lemma meta_at_with_meta:
  "meta_ok m \<Longrightarrow> unat b < mm_buckets m \<Longrightarrow> meta_at (with_meta m b x) c = (if c = b then x else meta_at m c)"
  by (auto simp: with_meta_def meta_ok_def nth_list_update dest: unsigned_word_eqI)

lemma put_meta_eq: "meta_ok m \<Longrightarrow> unat b < mm_buckets m \<Longrightarrow> put_meta m (unat b) x = Some (with_meta m b x)"
  by (auto simp: put_meta_def meta_ok_def with_meta_def)

lemma on_path_with_meta:
  "meta_ok m \<Longrightarrow> unat b < mm_buckets m \<Longrightarrow> x \<noteq> EMPTY \<Longrightarrow> on_path m ps c \<Longrightarrow> on_path (with_meta m b x) ps c"
  unfolding on_path_def by (metis meta_at_with_meta with_meta_simps(4))

text \<open>What \<open>ProbeSequence::next\<close> returns.\<close>
lemma probe_next_Some:
  assumes "meta_ok m" "probe_next m ps = Some (r, ps')"
  shows "\<exists>k. ps' = advances m (Suc k) ps \<and> probe_here m ps' = Some (Some r) \<and>
    (\<forall>j < k. meta_at m (ps_bucket (advances m (Suc j) ps)) \<noteq> EMPTY)"
proof -
  let ?P = "\<lambda>m ps (y :: probe_result \<times> probe_sequence). meta_ok m \<longrightarrow>
    (\<exists>k. snd y = advances m (Suc k) ps \<and> probe_here m (snd y) = Some (Some (fst y)) \<and>
      (\<forall>j < k. meta_at m (ps_bucket (advances m (Suc j) ps)) \<noteq> EMPTY))"
  have "?P m ps (r, ps')"
  proof (rule probe_next.raw_induct[where P = ?P, OF _ assms(2)])
    fix f :: "meta_map \<Rightarrow> probe_sequence \<Rightarrow> (probe_result \<times> probe_sequence) option" and m ps y
    assume IH: "\<And>m ps y. f m ps = Some y \<Longrightarrow> ?P m ps y"
      and body: "(let ps' = probe_advance m ps
        in Option.bind (probe_here m ps') (\<lambda>r. case r of None \<Rightarrow> f m ps' | Some x \<Rightarrow> Some (x, ps'))) = Some y"
    show "?P m ps y"
    proof
      assume ok: "meta_ok m"
      obtain r where r: "probe_here m (probe_advance m ps) = Some r" using body by (auto simp: Let_def bind_eq_Some_conv)
      show "\<exists>k. snd y = advances m (Suc k) ps \<and> probe_here m (snd y) = Some (Some (fst y)) \<and>
              (\<forall>j < k. meta_at m (ps_bucket (advances m (Suc j) ps)) \<noteq> EMPTY)"
      proof (cases r)
        case (Some x)
        then show ?thesis using body r by (intro exI[of _ 0]) (auto simp: Let_def)
      next
        case None
        then have "f m (probe_advance m ps) = Some y" using body r by (simp add: Let_def)
        then obtain k where k: "snd y = advances m (Suc k) (probe_advance m ps)"
          "probe_here m (snd y) = Some (Some (fst y))"
          "\<forall>j < k. meta_at m (ps_bucket (advances m (Suc j) (probe_advance m ps))) \<noteq> EMPTY"
          using IH ok by blast
        have first: "meta_at m (ps_bucket (probe_advance m ps)) \<noteq> EMPTY"
          using probe_here_eq[OF ok advance_in_range[OF ok], of ps] r None by (auto split: if_splits)
        have "\<forall>j < Suc k. meta_at m (ps_bucket (advances m (Suc j) ps)) \<noteq> EMPTY"
          using first k(3) by (auto simp: less_Suc_eq_0_disj advances_Suc simp del: funpow.simps(2))
        then show ?thesis using k(1,2) by (intro exI[of _ "Suc k"]) (simp add: advances_Suc del: funpow.simps)
      qed
    qed
  qed
  then show ?thesis using assms(1) by simp
qed

lemma on_path_trans:
  assumes "\<forall>j \<le> k. meta_at m (ps_bucket (advances m (Suc j) ps)) \<noteq> EMPTY" "on_path m (advances m (Suc k) ps) b"
  shows "on_path m ps b"
proof -
  obtain i where i: "ps_bucket (advances m (Suc i) (advances m (Suc k) ps)) = b"
    "\<forall>j < i. meta_at m (ps_bucket (advances m (Suc j) (advances m (Suc k) ps))) \<noteq> EMPTY"
    using assms(2) by (auto simp: on_path_def)
  have add: "advances m (Suc j) (advances m (Suc k) ps) = advances m (Suc (j + Suc k)) ps" for j
    by (simp only: funpow_add comp_apply add_Suc[symmetric])
  have "meta_at m (ps_bucket (advances m (Suc j) ps)) \<noteq> EMPTY" if "j < i + Suc k" for j
  proof (cases "j \<le> k")
    case False
    then obtain d where "j = d + Suc k" using less_imp_Suc_add[of k j] by (auto simp: add.commute)
    then show ?thesis using i(2) that add[of d] by auto
  qed (use assms(1) in blast)
  then show ?thesis unfolding on_path_def using i(1) add[of i] by (intro exI[of _ "i + Suc k"]) auto
qed

lemma allocate_loop_Some:
  assumes "meta_ok m" "allocate_loop n m ps = Some (Some b, m')"
  shows "unat b < mm_buckets m \<and> (meta_at m b = EMPTY \<or> meta_at m b = TOMBSTONE) \<and> on_path m ps b \<and>
         m' = with_meta m b (full_entry (ps_hash ps))"
  using assms(2)
proof (induction n arbitrary: ps)
  case (Suc n)
  obtain r ps' where nx: "probe_next m ps = Some (r, ps')"
    using Suc.prems by (auto simp: bind_eq_Some_conv)
  obtain k where k: "ps' = advances m (Suc k) ps" "probe_here m ps' = Some (Some r)"
    "\<forall>j < k. meta_at m (ps_bucket (advances m (Suc j) ps)) \<noteq> EMPTY"
    using probe_next_Some[OF assms(1) nx] by blast
  have rng: "unat (ps_bucket ps') < mm_buckets m" using k(1) advances_in_range[OF assms(1)] by blast
  note here = probe_here_eq[OF assms(1) rng] k(2)
  have path: "on_path m ps (ps_bucket ps')" unfolding on_path_def using k(1,3) by blast
  show ?case
  proof (cases r)
    case (PossibleHit c)
    then have full: "meta_at m (ps_bucket ps') \<noteq> EMPTY" using here by (auto split: if_splits)
    have rec: "allocate_loop n m ps' = Some (Some b, m')" using Suc.prems nx PossibleHit by simp
    have "\<forall>j \<le> k. meta_at m (ps_bucket (advances m (Suc j) ps)) \<noteq> EMPTY"
      using k(1,3) full by (metis le_less)
    from on_path_trans[OF this] Suc.IH[OF rec] k(1) show ?thesis by auto
  next
    case (EmptyBucket c)
    then have "c = ps_bucket ps'" "meta_at m c = EMPTY" using here by (auto split: if_splits)
    then show ?thesis using Suc.prems nx EmptyBucket path rng k(1)
      by (auto simp: set_full_def put_meta_eq[OF assms(1)])
  next
    case (TombstoneBucket c)
    then have "c = ps_bucket ps'" "meta_at m c = TOMBSTONE" using here by (auto split: if_splits)
    then show ?thesis using Suc.prems nx TombstoneBucket path rng k(1)
      by (auto simp: set_full_def put_meta_eq[OF assms(1)])
  qed
qed simp


lemma with_meta_path_keep:
  assumes "table_inv xxh seed m off ht tab" "unat b < mm_buckets m" "x \<noteq> EMPTY" "tab pid = Some c" "c \<noteq> b"
  shows "on_path (with_meta m b x) (probe_start xxh seed m pid) c \<and>
         meta_at (with_meta m b x) c = full_entry (hash_page_id xxh pid seed)"
  using on_path_with_meta[OF table_invD(1)[OF assms(1)] assms(2,3) table_invD(4)[OF assms(1,4)]]
    meta_at_with_meta[OF table_invD(1)[OF assms(1)] assms(2)] table_invD(5)[OF assms(1,4)] assms(5) by simp

lemma data_pages_distinct: "data_page_index off b = data_page_index off c \<longleftrightarrow> b = c"
  by (simp add: data_page_index_def)

text \<open>A page of the table, or one that is about to be, written to its bucket.\<close>
lemma read_written_page:
  assumes "in_file ht (data_page_index off (unat b))" "length page = PAGE_SIZE"
  shows "read_page (write_page_at ht (data_page_index off (unat b)) page) (data_page_index off (unat c)) =
         (if c = b then Some page else read_page ht (data_page_index off (unat c)))"
  using read_write_page[OF assms] by (auto simp: data_pages_distinct dest: unsigned_word_eqI)

lemma in_file_write: "in_file ht pn \<Longrightarrow> length page = PAGE_SIZE \<Longrightarrow> in_file (write_page_at ht pn page) q = in_file ht q"
  by (simp add: in_file_def)

lemma table_insert:
  assumes inv: "table_inv xxh seed m off ht tab" and fresh: "tab pid = None"
    and inj: "inj_on page_id_encode (insert pid (dom tab))"
    and alloc: "allocate_bucket xxh pid m seed = Some (Some b, m')"
    and page: "length page = PAGE_SIZE" "page_label page = page_id_encode pid"
  shows "table_inv xxh seed m' off (write_page_at ht (data_page_index off (unat b)) page) (tab(pid \<mapsto> b))"
proof -
  note D = table_invD[OF inv]
  have "allocate_loop 9999 m (probe_start xxh seed m pid) = Some (Some b, m')"
    using alloc by (simp add: allocate_bucket_def probe_new_start[OF D(1)])
  from allocate_loop_Some[OF D(1) this]
  have b: "unat b < mm_buckets m" "meta_at m b = EMPTY \<or> meta_at m b = TOMBSTONE"
    "on_path m (probe_start xxh seed m pid) b"
    and m': "m' = with_meta m b (full_entry (hash_page_id xxh pid seed))" by simp_all
  have free: "tab q \<noteq> Some b" for q
  proof
    assume "tab q = Some b"
    from D(5)[OF this] b(2) show False by auto
  qed
  note infile = D(2)[OF b(1)]
  note at = meta_at_with_meta[OF D(1) b(1)]
  have keep: "on_path m' (probe_start xxh seed m q) c \<and> meta_at m' c = full_entry (hash_page_id xxh q seed)"
    if "tab q = Some c" for q c
    using with_meta_path_keep[OF inv b(1) full_entry_kinds(1) that] free[of q] that m' by auto
  have new: "on_path m' (probe_start xxh seed m' pid) b" unfolding m' using on_path_with_meta[OF D(1) b(1) _ b(3)] by simp
  show ?thesis unfolding table_inv_def
  proof (intro conjI allI impI)
    show "meta_ok m'" using D(1) m' by simp
    show "in_file (write_page_at ht (data_page_index off (unat b)) page) (data_page_index off c)" if "c < mm_buckets m'" for c
      using that D(2)[of c] m' by (simp add: in_file_write[OF infile page(1)])
    fix q c assume q: "(tab(pid \<mapsto> b)) q = Some c"
    show "unat c < mm_buckets m'" using q D(3) b(1) m' by (auto split: if_splits)
    show "on_path m' (probe_start xxh seed m' q) c"
      using q new keep m' by (auto split: if_splits)
    show "meta_at m' c = full_entry (hash_page_id xxh q seed)"
    proof (cases "q = pid")
      case True
      then show ?thesis using q at[of _ b] m' by simp
    next
      case False
      then show ?thesis using q keep[of q c] by simp
    qed
    show "\<exists>p. read_page (write_page_at ht (data_page_index off (unat b)) page) (data_page_index off (unat c)) = Some p \<and>
            page_label p = page_id_encode q"
      using q page D(6) free by (auto simp: read_written_page[OF infile page(1)] split: if_splits)
  next
    fix c assume c: "unat c < mm_buckets m'" "meta_at m' c \<noteq> EMPTY" "meta_at m' c \<noteq> TOMBSTONE"
    show "\<exists>q. (tab(pid \<mapsto> b)) q = Some c"
    proof (cases "c = b")
      case False
      then obtain q where "tab q = Some c" using c D(7)[of c] at m' by auto
      then show ?thesis using fresh by (intro exI[of _ q]) auto
    qed auto
  next
    show "inj_on page_id_encode (dom (tab(pid \<mapsto> b)))" using inj by simp
  qed
qed

lemma table_inj:
  assumes inv: "table_inv xxh seed m off ht tab" and "tab q = Some b" "tab pid = Some b"
  shows "q = pid"
proof -
  have "page_id_encode q = page_id_encode pid"
    using table_invD(6)[OF inv assms(2)] table_invD(6)[OF inv assms(3)] by auto
  thus ?thesis using inj_onD[OF table_invD(8)[OF inv]] assms(2,3) by blast
qed

lemma table_overwrite:
  assumes inv: "table_inv xxh seed m off ht tab" and tab: "tab pid = Some b"
    and page: "length page = PAGE_SIZE" "page_label page = page_id_encode pid"
  shows "table_inv xxh seed m off (write_page_at ht (data_page_index off (unat b)) page) tab"
proof -
  note D = table_invD[OF inv]
  note infile = D(2)[OF D(3)[OF tab]]
  have same: "q = pid" if "tab q = Some b" for q using table_inj[OF inv that tab] .
  show ?thesis unfolding table_inv_def
    using D(1-5,7,8) D(6) page same
    by (auto simp: in_file_write[OF infile page(1)] read_written_page[OF infile page(1)])
qed

lemma table_remove:
  assumes inv: "table_inv xxh seed m off ht tab" and tab: "tab pid = Some b"
    and tomb: "set_tombstone m (unat b) = Some m'"
  shows "table_inv xxh seed m' off ht (tab(pid := None))"
proof -
  note D = table_invD[OF inv]
  note rng = D(3)[OF tab]
  have m': "m' = with_meta m b TOMBSTONE" using tomb by (simp add: set_tombstone_def put_meta_eq[OF D(1) rng])
  have other: "c \<noteq> b" if "tab q = Some c" "q \<noteq> pid" for q c using table_inj[OF inv _ tab] that by blast
  note at = meta_at_with_meta[OF D(1) rng, of TOMBSTONE] and keep = with_meta_path_keep[OF inv rng, of TOMBSTONE]
  show ?thesis unfolding table_inv_def
  proof (intro conjI allI impI)
    show "meta_ok m'" using D(1) m' by simp
    show "in_file ht (data_page_index off c)" if "c < mm_buckets m'" for c using that D(2)[of c] m' by simp
    fix q c assume "(tab(pid := None)) q = Some c"
    hence q: "tab q = Some c" "q \<noteq> pid" by (auto split: if_splits)
    show "unat c < mm_buckets m'" using q D(3) m' by simp
    show "on_path m' (probe_start xxh seed m' q) c" using keep[of q c] q other[OF q] m' by simp
    show "meta_at m' c = full_entry (hash_page_id xxh q seed)" using keep[of q c] q other[OF q] m' by simp
    show "\<exists>p. read_page ht (data_page_index off (unat c)) = Some p \<and> page_label p = page_id_encode q" using D(6)[OF q(1)] .
  next
    fix c assume c: "unat c < mm_buckets m'" "meta_at m' c \<noteq> EMPTY" "meta_at m' c \<noteq> TOMBSTONE"
    hence "c \<noteq> b" using at m' by auto
    then obtain q where "tab q = Some c" using c D(7)[of c] at m' by auto
    then show "\<exists>q. (tab(pid := None)) q = Some c" using tab \<open>c \<noteq> b\<close> by (intro exI[of _ q]) auto
  next
    show "inj_on page_id_encode (dom (tab(pid := None)))" using D(8) by (rule inj_on_subset) auto
  qed
qed


section \<open>Refinement of a map of pages\<close>

text \<open>The changes of a sync: a page that gets a bucket, a page rewritten in its bucket, a
  page that is cleared; each with the calls that apply it to the table.\<close>
datatype table_op = Insert_page page_id bytes | Overwrite_page page_id bytes | Clear_page page_id

type_synonym table = "meta_map \<times> bytes \<times> (page_id \<rightharpoonup> u64)"

fun table_step :: "xxh \<Rightarrow> bytes \<Rightarrow> ht_offsets \<Rightarrow> table_op \<Rightarrow> table \<Rightarrow> table option" where
  "table_step xxh seed off (Insert_page pid page) (m, ht, tab) =
     (case allocate_bucket xxh pid m seed of
        Some (Some b, m') \<Rightarrow> Some (m', write_page_at ht (data_page_index off (unat b)) page, tab(pid \<mapsto> b))
      | _ \<Rightarrow> None)"
| "table_step xxh seed off (Overwrite_page pid page) (m, ht, tab) =
     (case tab pid of None \<Rightarrow> None
      | Some b \<Rightarrow> Some (m, write_page_at ht (data_page_index off (unat b)) page, tab))"
| "table_step xxh seed off (Clear_page pid) (m, ht, tab) =
     (case tab pid of None \<Rightarrow> None
      | Some b \<Rightarrow> map_option (\<lambda>m'. (m', ht, tab(pid := None))) (set_tombstone m (unat b)))"

fun table_run :: "xxh \<Rightarrow> bytes \<Rightarrow> ht_offsets \<Rightarrow> table_op list \<Rightarrow> table \<Rightarrow> table option" where
  "table_run xxh seed off [] t = Some t"
| "table_run xxh seed off (x # xs) t = Option.bind (table_step xxh seed off x t) (table_run xxh seed off xs)"

text \<open>The same changes on a map from page ids to pages, within a set of ids.\<close>
fun pages_step :: "table_op \<Rightarrow> (page_id \<rightharpoonup> bytes) \<Rightarrow> (page_id \<rightharpoonup> bytes) option" where
  "pages_step (Insert_page pid page) ps = (if pid \<in> dom ps then None else Some (ps(pid \<mapsto> page)))"
| "pages_step (Overwrite_page pid page) ps = (if pid \<in> dom ps then Some (ps(pid \<mapsto> page)) else None)"
| "pages_step (Clear_page pid) ps = (if pid \<in> dom ps then Some (ps(pid := None)) else None)"

fun pages_run :: "table_op list \<Rightarrow> (page_id \<rightharpoonup> bytes) \<Rightarrow> (page_id \<rightharpoonup> bytes) option" where
  "pages_run [] ps = Some ps"
| "pages_run (x # xs) ps = Option.bind (pages_step x ps) (pages_run xs)"

fun op_page_ok :: "table_op \<Rightarrow> bool" where
  "op_page_ok (Insert_page pid page) \<longleftrightarrow> length page = PAGE_SIZE \<and> page_label page = page_id_encode pid"
| "op_page_ok (Overwrite_page pid page) \<longleftrightarrow> length page = PAGE_SIZE \<and> page_label page = page_id_encode pid"
| "op_page_ok (Clear_page pid) \<longleftrightarrow> True"

fun op_page_id :: "table_op \<Rightarrow> page_id" where
  "op_page_id (Insert_page pid page) = pid"
| "op_page_id (Overwrite_page pid page) = pid"
| "op_page_id (Clear_page pid) = pid"

text \<open>The pages a table holds.\<close>
definition table_pages :: "ht_offsets \<Rightarrow> table \<Rightarrow> page_id \<rightharpoonup> bytes" where
  "table_pages off = (\<lambda>(m, ht, tab) pid. Option.bind (tab pid) (\<lambda>b. read_page ht (data_page_index off (unat b))))"

definition table_ok :: "xxh \<Rightarrow> bytes \<Rightarrow> ht_offsets \<Rightarrow> table \<Rightarrow> bool" where
  "table_ok xxh seed off = (\<lambda>(m, ht, tab). table_inv xxh seed m off ht tab)"

lemma table_pages_dom: "table_inv xxh seed m off ht tab \<Longrightarrow> dom (table_pages off (m, ht, tab)) = dom tab"
  using table_invD(6) by (fastforce simp: table_pages_def dom_def bind_eq_Some_conv)

lemma table_step_refines:
  assumes "table_ok xxh seed off t" "op_page_ok x" "inj_on page_id_encode S" "dom (table_pages off t) \<subseteq> S" "op_page_id x \<in> S"
    "table_step xxh seed off x t = Some t'" "pages_step x (table_pages off t) = Some ps'"
  shows "table_ok xxh seed off t' \<and> table_pages off t' = ps' \<and> dom ps' \<subseteq> S"
proof -
  obtain m ht tab where t: "t = (m, ht, tab)" by (cases t)
  have inv: "table_inv xxh seed m off ht tab" using assms(1) t by (simp add: table_ok_def)
  note D = table_invD[OF inv]
  note dom = table_pages_dom[OF inv]
  note distinct = table_inj[OF inv]
  show ?thesis
  proof (cases x)
    case (Insert_page pid page)
    obtain b m' where b: "allocate_bucket xxh pid m seed = Some (Some b, m')"
      and t': "t' = (m', write_page_at ht (data_page_index off (unat b)) page, tab(pid \<mapsto> b))"
      using assms(6) by (auto simp: Insert_page t split: option.splits prod.splits)
    have pid: "tab pid = None" and ps': "ps' = (table_pages off t)(pid \<mapsto> page)"
      using assms(7) dom by (auto simp: Insert_page t split: if_splits)
    have inj: "inj_on page_id_encode (insert pid (dom tab))"
      by (rule inj_on_subset[OF assms(3)]) (use assms(4,5) dom in \<open>auto simp: Insert_page t\<close>)
    have inv': "table_inv xxh seed m' off (write_page_at ht (data_page_index off (unat b)) page) (tab(pid \<mapsto> b))"
      using table_insert[OF inv pid inj b] assms(2) by (simp add: Insert_page)
    have "meta_at m b = EMPTY \<or> meta_at m b = TOMBSTONE" and rng: "unat b < mm_buckets m"
      using b allocate_loop_Some[OF D(1)] by (auto simp: allocate_bucket_def probe_new_start[OF D(1)])
    hence free: "tab q \<noteq> Some b" for q using D(5)[of q b] by auto
    have "table_pages off t' = ps'"
    proof
      fix q show "table_pages off t' q = ps' q"
        using free[of q] read_written_page[OF D(2)[OF rng], of page] assms(2)
        by (cases "tab q") (auto simp: t' ps' t table_pages_def Insert_page)
    qed
    then show ?thesis using inv' t' ps' assms(4,5) by (auto simp: table_ok_def Insert_page)
  next
    case (Overwrite_page pid page)
    obtain b where b: "tab pid = Some b" and t': "t' = (m, write_page_at ht (data_page_index off (unat b)) page, tab)"
      using assms(6) by (auto simp: Overwrite_page t split: option.splits)
    have ps': "ps' = (table_pages off t)(pid \<mapsto> page)"
      using assms(7) by (auto simp: Overwrite_page t split: if_splits)
    have "table_pages off t' = ps'"
    proof
      fix q show "table_pages off t' q = ps' q"
        using b distinct[of q b pid] read_written_page[OF D(2)[OF D(3)[OF b]], of page] assms(2)
        by (cases "tab q") (auto simp: t' ps' t table_pages_def Overwrite_page)
    qed
    then show ?thesis using table_overwrite[OF inv b] t' ps' assms(2,4,5) by (auto simp: table_ok_def Overwrite_page)
  next
    case (Clear_page pid)
    obtain b m' where b: "tab pid = Some b" "set_tombstone m (unat b) = Some m'" and t': "t' = (m', ht, tab(pid := None))"
      using assms(6) by (auto simp: Clear_page t split: option.splits)
    have ps': "ps' = (table_pages off t)(pid := None)"
      using assms(7) by (auto simp: Clear_page t split: if_splits)
    have "table_pages off t' = ps'" by (rule ext) (simp add: t' ps' t table_pages_def)
    then show ?thesis using table_remove[OF inv b] t' ps' assms(4) by (auto simp: table_ok_def)
  qed
qed

text \<open>C18
  The hash table implements a map from page ids to pages: from a table that satisfies the
  invariant, any sequence of insertions, rewrites and removals that the map allows leaves a
  table that satisfies it and holds exactly the pages of the map; and loading a page of the
  map returns its bytes.\<close>
theorem table_refines_pages:
  assumes "table_ok xxh seed off t" "\<forall>x\<in>set xs. op_page_ok x"
    and "inj_on page_id_encode (dom (table_pages off t) \<union> op_page_id ` set xs)"
    and "table_run xxh seed off xs t = Some t'" "pages_run xs (table_pages off t) = Some ps'"
  shows "table_ok xxh seed off t' \<and> table_pages off t' = ps' \<and>
    (case t' of (m, ht, tab) \<Rightarrow>
      \<forall>pid page. ps' pid = Some page \<longrightarrow> (\<exists>b. load_page xxh seed m off ht pid = Some (Some (page, b))))"
proof -
  let ?S = "dom (table_pages off t) \<union> op_page_id ` set xs"
  have run: "table_ok xxh seed off t' \<and> table_pages off t' = ps'"
    if "\<forall>x\<in>set ys. op_page_ok x \<and> op_page_id x \<in> ?S" "table_ok xxh seed off u" "dom (table_pages off u) \<subseteq> ?S"
      "table_run xxh seed off ys u = Some t'" "pages_run ys (table_pages off u) = Some ps'" for ys u
    using that
  proof (induction ys arbitrary: u)
    case (Cons y ys)
    obtain u1 ps1 where 1: "table_step xxh seed off y u = Some u1" "table_run xxh seed off ys u1 = Some t'"
      "pages_step y (table_pages off u) = Some ps1" "pages_run ys ps1 = Some ps'"
      using Cons.prems(4,5) by (auto simp: bind_eq_Some_conv)
    have "table_ok xxh seed off u1 \<and> table_pages off u1 = ps1 \<and> dom ps1 \<subseteq> ?S"
      using Cons.prems(1) by (intro table_step_refines[OF Cons.prems(2) _ assms(3) Cons.prems(3) _ 1(1,3)]) auto
    then show ?case using Cons.IH[of u1] Cons.prems(1) 1(2,4) by auto
  qed simp
  have final: "table_ok xxh seed off t' \<and> table_pages off t' = ps'" by (rule run[of xs t]) (use assms in auto)
  obtain m ht tab where t': "t' = (m, ht, tab)" by (cases t')
  have inv: "table_inv xxh seed m off ht tab" using final t' by (simp add: table_ok_def)
  have "\<exists>b. load_page xxh seed m off ht pid = Some (Some (page, b))" if pg: "ps' pid = Some page" for pid page
  proof -
    obtain b where "tab pid = Some b" "read_page ht (data_page_index off (unat b)) = Some page"
      using final pg t' by (auto simp: table_pages_def bind_eq_Some_conv)
    then show ?thesis using load_page_stored[OF inv] by blast
  qed
  then show ?thesis using final t' by simp
qed



section \<open>Creating and opening a table\<close>

lemma zero_loop_eq:
  "pos + remaining \<le> length fl \<Longrightarrow>
   zero_loop fl pos remaining = Some (take pos fl @ replicate remaining 0 @ drop (pos + remaining) fl)"
proof (induction fl pos remaining rule: zero_loop.induct)
  case (1 fl pos remaining)
  show ?case
  proof (cases "remaining = 0")
    case True
    then show ?thesis by (subst zero_loop.simps) simp
  next
    case False
    define len where "len = min remaining (PAGE_SIZE * 4)"
    let ?fl = "take pos fl @ replicate len 0 @ drop (pos + len) fl"
    have le: "len \<le> remaining" by (simp add: len_def)
    have copy: "copy_at fl pos (replicate len 0) = Some ?fl" using "1.prems" le by (simp add: copy_at_def)
    have "zero_loop fl pos remaining = zero_loop ?fl (pos + len) (remaining - len)"
      using False copy by (subst zero_loop.simps) (simp add: Let_def len_def[symmetric])
    also have "\<dots> = Some (take (pos + len) ?fl @ replicate (remaining - len) 0 @ drop (pos + len + (remaining - len)) ?fl)"
      unfolding len_def by (rule "1.IH"[OF False refl copy[unfolded len_def]]) (use "1.prems" in simp)
    also have "take (pos + len) ?fl = take pos fl @ replicate len 0" using "1.prems" le by simp
    also have "drop (pos + len + (remaining - len)) ?fl = drop (pos + remaining) fl"
      using "1.prems" le by (simp add: add.commute)
    finally show ?thesis using le replicate_add[of len "remaining - len" "0 :: u8"] by simp
  qed
qed

lemma ht_create_zeros:
  "ht_create is_tmpfs falloc_ok [] n preallocate = Some (replicate (unat (n + num_meta_byte_pages n) * PAGE_SIZE) 0)"
  by (simp add: ht_create_def Let_def resize_and_prealloc_def resize_and_zero_file_def set_len_def zero_loop_eq)

lemma read_meta_pages_zeros:
  "\<forall>pn\<in>set pns. pn < k \<Longrightarrow> read_meta_pages (replicate (k * PAGE_SIZE) 0) pns = Some (replicate (length pns * PAGE_SIZE) 0)"
proof (induction pns)
  case (Cons pn pns)
  have "pn * PAGE_SIZE + PAGE_SIZE \<le> k * PAGE_SIZE" using Cons.prems by (simp add: PAGE_SIZE_def)
  then have "read_page (replicate (k * PAGE_SIZE) 0) pn = Some (replicate PAGE_SIZE 0)"
    by (auto simp: read_page_def slice_of_def)
  then show ?case using Cons by (simp add: replicate_add)
qed simp

text \<open>The number of metadata pages, for tables whose page numbers fit.\<close>
definition fits_table :: "u32 \<Rightarrow> bool" where
  "fits_table n \<longleftrightarrow> 0 < n \<and> unat n + (unat n + 4095) div PAGE_SIZE < 2 ^ 32 \<and> unat n + 4095 < 2 ^ 32"

lemma unat_meta_pages: "fits_table n \<Longrightarrow> unat (num_meta_byte_pages n) = (unat n + 4095) div PAGE_SIZE"
  by (simp add: num_meta_byte_pages_def fits_table_def unat_div_distrib unat_add_lem[THEN iffD1] PAGE_SIZE_def)

lemma unat_page_count: "fits_table n \<Longrightarrow> unat (n + num_meta_byte_pages n) = unat n + (unat n + 4095) div PAGE_SIZE"
  using unat_meta_pages[of n] by (simp add: fits_table_def unat_add_lem[THEN iffD1])

text \<open>C33
  A table file created over an empty file, with or without preallocation, is opened with the
  requested number of buckets, all of them empty, and satisfies the table invariant with no
  pages.\<close>
theorem created_table_opens:
  assumes "fits_table n"
  shows "\<exists>ht off m. ht_create is_tmpfs falloc_ok [] n preallocate = Some ht \<and> ht_open n ht = Some (Inr (off, m)) \<and>
     mm_buckets m = unat n \<and> full_count m = 0 \<and> table_inv xxh seed m off ht Map.empty"
proof -
  let ?k = "(unat n + 4095) div PAGE_SIZE"
  let ?ht = "replicate ((unat n + ?k) * PAGE_SIZE) (0 :: u8)"
  let ?m = "\<lparr>mm_buckets = unat n, mm_bitvec = replicate (?k * PAGE_SIZE) 0\<rparr>"
  have len: "expected_file_len n = (unat n + ?k) * PAGE_SIZE"
    using unat_page_count[OF assms] by (simp add: expected_file_len_def add.commute)
  have bits: "read_meta_pages ?ht [0..<?k] = Some (replicate (?k * PAGE_SIZE) 0)"
    using read_meta_pages_zeros[of "[0..<?k]" "unat n + ?k"] by simp
  have open_eq: "ht_open n ?ht = Some (Inr (\<lparr>data_page_offset = ?k\<rparr>, ?m))"
    using len bits unat_meta_pages[OF assms] by (simp add: ht_open_def Let_def meta_from_bytes_def PAGE_SIZE_def)
  have pos: "0 < unat n" using assms by (simp add: fits_table_def word_less_nat_alt)
  have "unat n + 4095 < ?k * PAGE_SIZE + PAGE_SIZE" using dividend_less_div_times[of PAGE_SIZE "unat n + 4095"]
    by (simp add: PAGE_SIZE_def)
  hence cover: "unat n \<le> ?k * PAGE_SIZE" by (simp add: PAGE_SIZE_def)
  have "unat n < 2 ^ 64" using unsigned_less[of n, where ?'a = nat] by simp
  hence "meta_ok ?m" using pos cover by (simp add: meta_ok_def)
  moreover have "in_file ?ht (?k + b)" if "b < unat n" for b
    using that by (simp add: in_file_def PAGE_SIZE_def)
  moreover have "mm_bitvec ?m ! b = EMPTY" if "b < unat n" for b
    using that cover by (simp add: EMPTY_def)
  ultimately have "table_inv xxh seed ?m \<lparr>data_page_offset = ?k\<rparr> ?ht Map.empty"
    by (simp add: table_inv_def data_page_index_def)
  moreover have "full_count ?m = 0" by (simp add: full_count_def)
  moreover have "ht_create is_tmpfs falloc_ok [] n preallocate = Some ?ht"
    using ht_create_zeros unat_page_count[OF assms] by simp
  ultimately show ?thesis using open_eq by auto
qed

theorem created_table_opens_witness:
  "\<exists>ht off m. ht_create False False [] 5 True = Some ht \<and> ht_open 5 ht = Some (Inr (off, m)) \<and>
     mm_buckets m = 5 \<and> full_count m = 0 \<and> table_inv (\<lambda>_ _. 0) [] m off ht Map.empty"
  using created_table_opens[of 5 False False True "\<lambda>_ _. 0" "[]"] by (simp add: fits_table_def PAGE_SIZE_def)

theorem probing_a_full_table_never_ends_witness:
  "\<exists>ps. probe_new (\<lambda>_ _. 0) [1] \<lparr>mm_buckets = 2, mm_bitvec = replicate 4096 255\<rparr> [] = Some ps \<and>
     allocate_bucket (\<lambda>_ _. 0) [1] \<lparr>mm_buckets = 2, mm_bitvec = replicate 4096 255\<rparr> [] = None"
  using probing_a_full_table_never_ends[of "\<lparr>mm_buckets = 2, mm_bitvec = replicate 4096 255\<rparr>" "\<lambda>_ _. 0" "[1]" "[]" "\<lparr>data_page_offset = 1\<rparr>" "[]"]
  by (auto simp: meta_ok_def all_others_def EMPTY_def TOMBSTONE_def full_entry_def FULL_MASK_def hash_page_id_def hash_raw_page_id_def)

definition sample_page :: bytes where
  "sample_page = replicate 4064 7 @ page_id_encode [1]"

definition sample_table :: table where
  "sample_table = (\<lparr>mm_buckets = 1, mm_bitvec = replicate 4096 0\<rparr>, replicate 8192 0, Map.empty)"

definition sample_off :: ht_offsets where
  "sample_off = \<lparr>data_page_offset = 1\<rparr>"

lemma sample_table_ok: "table_ok (\<lambda>_ _. 0) [] sample_off sample_table"
  by (simp add: table_ok_def sample_table_def table_inv_def meta_ok_def in_file_def data_page_index_def sample_off_def
        PAGE_SIZE_def EMPTY_def)

lemma sample_page_ok: "length sample_page = PAGE_SIZE" "page_label sample_page = page_id_encode [1]"
  by (simp_all add: sample_page_def page_label_def PAGE_SIZE_def page_id_encode_def)

lemma sample_allocates:
  "allocate_bucket (\<lambda>_ _. 0) [1] \<lparr>mm_buckets = 1, mm_bitvec = replicate 4096 0\<rparr> [] =
     Some (Some 0, with_meta \<lparr>mm_buckets = 1, mm_bitvec = replicate 4096 0\<rparr> 0 (full_entry 0))"
proof -
  let ?m = "\<lparr>mm_buckets = 1, mm_bitvec = replicate 4096 0\<rparr>"
  have ok: "meta_ok ?m" by (simp add: meta_ok_def)
  let ?ps = "probe_start (\<lambda>_ _. 0) [] ?m [1]"
  have "ps_bucket (probe_advance ?m ?ps) = 0" by (simp add: probe_advance_def meta_len_def)
  hence nx: "probe_next ?m ?ps = Some (EmptyBucket 0, probe_advance ?m ?ps)"
    by (subst probe_next_unfold[OF ok]) (simp add: Let_def EMPTY_def)
  have "allocate_loop (Suc k) ?m ?ps = Some (Some 0, with_meta ?m 0 (full_entry 0))" for k
  proof -
    have hash: "ps_hash (probe_advance ?m ?ps) = 0" by (simp add: hash_page_id_def hash_raw_page_id_def)
    have "put_meta ?m (unat (0 :: u64)) x = Some (with_meta ?m 0 x)" for x by (rule put_meta_eq[OF ok]) simp
    then show ?thesis unfolding allocate_loop.simps nx Option.bind.bind_lunit prod.case probe_result.case set_full_def hash
      by simp
  qed
  from this[of 9998] have "allocate_loop 9999 ?m ?ps = Some (Some 0, with_meta ?m 0 (full_entry 0))" by simp
  then show ?thesis unfolding allocate_bucket_def probe_new_start[OF ok] Option.bind.bind_lunit .
qed

theorem table_refines_pages_witness:
  "\<exists>m ht tab. table_run (\<lambda>_ _. 0) [] sample_off [Insert_page [1] sample_page] sample_table = Some (m, ht, tab) \<and>
     (\<exists>b. load_page (\<lambda>_ _. 0) [] m sample_off ht [1] = Some (Some (sample_page, b)))"
proof -
  let ?off = sample_off and ?ops = "[Insert_page [1] sample_page]"
  have empty: "table_pages ?off sample_table = Map.empty" by (rule ext) (simp add: table_pages_def sample_table_def)
  obtain t' where t': "table_run (\<lambda>_ _. 0) [] ?off ?ops sample_table = Some t'"
    using sample_allocates by (auto simp: sample_table_def)
  have run: "pages_run ?ops (table_pages ?off sample_table) = Some [[1] \<mapsto> sample_page]" by (simp add: empty)
  have inj: "inj_on page_id_encode (dom (table_pages ?off sample_table) \<union> op_page_id ` set ?ops)" by (simp add: empty)
  have "\<forall>x\<in>set ?ops. op_page_ok x" using sample_page_ok by simp
  from table_refines_pages[OF sample_table_ok this inj t' run] t' show ?thesis
    by (cases t') auto
qed

end
