(* ===== verification/BitboxSync.thy ===== *)
theory BitboxSync
  imports HashTableFacts WalBlobs
begin

text \<open>
  A sync of the page store (\<open>nomt/src/bitbox/mod.rs\<close>, \<open>writeout.rs\<close>): preparing the log and
  the table pages from the dirty pages of a commit, writing them out, and recovering from the
  log when the store is opened after a crash.  Placeholders for buckets that are shared
  between overlays live in a heap of cells.
\<close>

section \<open>Dirty pages\<close>

text \<open>\<open>SharedMaybeBucketIndex\<close>: a cell of the heap; \<open>u64::MAX\<close> stands for no bucket.\<close>
type_synonym bucket_heap = "nat \<Rightarrow> u64"

definition NONE_PATTERN :: u64 where
  "NONE_PATTERN = - 1"

definition smbi_encode :: "u64 option \<Rightarrow> u64" where
  "smbi_encode bucket = (case bucket of None \<Rightarrow> NONE_PATTERN | Some x \<Rightarrow> x)"

definition smbi_set :: "bucket_heap \<Rightarrow> nat \<Rightarrow> u64 \<Rightarrow> bucket_heap" where
  "smbi_set heap cell bucket = heap(cell := bucket)"

definition smbi_get :: "bucket_heap \<Rightarrow> nat \<Rightarrow> u64 option" where
  "smbi_get heap cell = (let val = heap cell in if val = NONE_PATTERN then None else Some val)"

datatype bucket_info = Known u64 | FreshWithNoDependents | FreshOrDependent nat

record dirty_page =
  dp_page :: bytes
  dp_diff :: page_diff
  dp_bucket :: bucket_info

text \<open>\<open>read_elided_children\<close> of \<open>page_cache.rs\<close>.\<close>
definition read_elided_children :: "bytes \<Rightarrow> elided_children" where
  "read_elided_children page = elided_from_bytes (take 8 (drop (PAGE_SIZE - 32 - 8) page))"


section \<open>Preparing a sync\<close>

record sync_state =
  ss_meta :: meta_map
  ss_wal :: wal_builder
  ss_heap :: bucket_heap
  ss_changed_meta :: "nat list"
  ss_ht_pages :: "(nat \<times> bytes) list"
  ss_cache :: "(page_id \<times> (bytes \<times> u64) option) list"
  ss_delta :: int

datatype bucket_exhaustion = BucketExhaustion

text \<open>The bucket of a page that is not cleared: whether the meta map changed, the bucket,
  and the meta map and heap after a possible allocation.\<close>
definition resolve_bucket ::
  "xxh \<Rightarrow> bytes \<Rightarrow> page_id \<Rightarrow> bucket_info \<Rightarrow> meta_map \<Rightarrow> bucket_heap \<Rightarrow>
   (bucket_exhaustion + bool \<times> u64 \<times> meta_map \<times> bucket_heap) option" where
  "resolve_bucket xxh seed pid info m heap =
     (case info of
        Known bucket \<Rightarrow> Some (Inr (False, bucket, m, heap))
      | FreshWithNoDependents \<Rightarrow> do {
          (r, m) \<leftarrow> allocate_bucket xxh pid m seed;
          Some (case r of None \<Rightarrow> Inl BucketExhaustion | Some bucket \<Rightarrow> Inr (True, bucket, m, heap)) }
      | FreshOrDependent cell \<Rightarrow>
          (case smbi_get heap cell of
             Some bucket \<Rightarrow> Some (Inr (False, bucket, m, heap))
           | None \<Rightarrow> do {
               (r, m) \<leftarrow> allocate_bucket xxh pid m seed;
               Some (case r of None \<Rightarrow> Inl BucketExhaustion
                     | Some bucket \<Rightarrow> Inr (True, bucket, m, smbi_set heap cell bucket)) }))"

text \<open>The bucket of a cleared page, which must exist.\<close>
definition cleared_bucket :: "bucket_info \<Rightarrow> bucket_heap \<Rightarrow> u64 option" where
  "cleared_bucket info heap =
     (case info of Known bucket \<Rightarrow> Some bucket | FreshOrDependent cell \<Rightarrow> smbi_get heap cell
      | FreshWithNoDependents \<Rightarrow> None)"

definition prepare_cleared :: "os_memory \<Rightarrow> page_id \<Rightarrow> dirty_page \<Rightarrow> sync_state \<Rightarrow> sync_state option" where
  "prepare_cleared os pid dirty st = do {
     bucket \<leftarrow> cleared_bucket (dp_bucket dirty) (ss_heap st);
     m \<leftarrow> set_tombstone (ss_meta st) (unat bucket);
     wal \<leftarrow> write_clear os (ss_wal st) bucket;
     Some (st\<lparr>ss_meta := m, ss_wal := wal,
              ss_changed_meta := List.insert (meta_page_index (unat bucket)) (ss_changed_meta st),
              ss_cache := ss_cache st @ [(pid, None)],
              ss_delta := ss_delta st - 1\<rparr>) }"

definition prepare_updated ::
  "os_memory \<Rightarrow> xxh \<Rightarrow> bytes \<Rightarrow> ht_offsets \<Rightarrow> page_id \<Rightarrow> dirty_page \<Rightarrow> sync_state \<Rightarrow> (bucket_exhaustion + sync_state) option" where
  "prepare_updated os xxh seed off pid dirty st = do {
     r \<leftarrow> resolve_bucket xxh seed pid (dp_bucket dirty) (ss_meta st) (ss_heap st);
     case r of Inl e \<Rightarrow> Some (Inl e)
     | Inr (meta_map_changed, bucket, m, heap) \<Rightarrow> do {
         let h = hash_page_id xxh pid seed;
         m \<leftarrow> (if meta_map_changed then set_full m (unat bucket) h else Some m);
         changed \<leftarrow> pack_changed_nodes (dp_diff dirty) (dp_page dirty);
         wal \<leftarrow> write_update os (ss_wal st) (page_id_encode pid) (dp_diff dirty) changed
                  (read_elided_children (dp_page dirty)) bucket;
         Some (Inr (st\<lparr>ss_meta := m, ss_wal := wal, ss_heap := heap,
           ss_changed_meta := (if meta_map_changed
             then List.insert (meta_page_index (unat bucket)) (ss_changed_meta st) else ss_changed_meta st),
           ss_ht_pages := ss_ht_pages st @ [(data_page_index off (unat bucket), dp_page dirty)],
           ss_cache := ss_cache st @ [(pid, Some (dp_page dirty, bucket))],
           ss_delta := (if meta_map_changed then ss_delta st + 1 else ss_delta st)\<rparr>)) } }"

definition prepare_change ::
  "os_memory \<Rightarrow> xxh \<Rightarrow> bytes \<Rightarrow> ht_offsets \<Rightarrow> page_id \<times> dirty_page \<Rightarrow> sync_state \<Rightarrow> (bucket_exhaustion + sync_state) option" where
  "prepare_change os xxh seed off = (\<lambda>(pid, dirty) st.
     if diff_cleared (dp_diff dirty) then map_option Inr (prepare_cleared os pid dirty st)
     else prepare_updated os xxh seed off pid dirty st)"

fun prepare_changes ::
  "os_memory \<Rightarrow> xxh \<Rightarrow> bytes \<Rightarrow> ht_offsets \<Rightarrow> (page_id \<times> dirty_page) list \<Rightarrow> sync_state \<Rightarrow> (bucket_exhaustion + sync_state) option" where
  "prepare_changes os xxh seed off [] st = Some (Inr st)"
| "prepare_changes os xxh seed off (c # cs) st =
     Option.bind (prepare_change os xxh seed off c st) (\<lambda>r. case r of
        Inl e \<Rightarrow> Some (Inl e) | Inr st \<Rightarrow> prepare_changes os xxh seed off cs st)"

text \<open>The changed metadata pages; the set is iterated in insertion order here.\<close>
fun changed_meta_pages :: "ht_offsets \<Rightarrow> meta_map \<Rightarrow> nat list \<Rightarrow> (nat \<times> bytes) list option" where
  "changed_meta_pages off m [] = Some []"
| "changed_meta_pages off m (ix # ixs) = do {
     page \<leftarrow> meta_page_slice m ix;
     rest \<leftarrow> changed_meta_pages off m ixs;
     Some ((meta_bytes_index off ix, page) # rest) }"

text \<open>\<open>fetch_sub\<close> and \<open>fetch_add\<close> on the counter of occupied buckets.\<close>
definition adjust_occupied :: "u64 \<Rightarrow> int \<Rightarrow> u64" where
  "adjust_occupied occupied delta =
     (if delta < 0 then occupied - word_of_int \<bar>delta\<bar>
      else if 0 < delta then occupied + word_of_int delta else occupied)"

definition sync_start :: "meta_map \<Rightarrow> wal_builder \<Rightarrow> bucket_heap \<Rightarrow> sync_state" where
  "sync_start m wal heap = \<lparr>ss_meta = m, ss_wal = wal, ss_heap = heap, ss_changed_meta = [], ss_ht_pages = [],
     ss_cache = [], ss_delta = 0\<rparr>"

definition prepare_sync ::
  "os_memory \<Rightarrow> xxh \<Rightarrow> bytes \<Rightarrow> ht_offsets \<Rightarrow> bool \<Rightarrow> u32 \<Rightarrow> (page_id \<times> dirty_page) list \<Rightarrow>
   meta_map \<Rightarrow> wal_builder \<Rightarrow> bucket_heap \<Rightarrow> u64 \<Rightarrow> (bucket_exhaustion + sync_state \<times> u64) option" where
  "prepare_sync os xxh seed off debug sync_seqn changes m builder heap occupied = do {
     wal \<leftarrow> wal_reset os builder sync_seqn;
     r \<leftarrow> prepare_changes os xxh seed off changes (sync_start m wal heap);
     case r of Inl e \<Rightarrow> Some (Inl e)
     | Inr st \<Rightarrow> do {
         meta_pages \<leftarrow> changed_meta_pages off (ss_meta st) (ss_changed_meta st);
         let ht_pages = ss_ht_pages st @ meta_pages;
         let sorted_pages = sort_key fst ht_pages;
         assert_that (debug \<longrightarrow> distinct (map fst ht_pages));
         let st = st\<lparr>ss_ht_pages := (if debug then sorted_pages else ht_pages)\<rparr>;
         wal \<leftarrow> wal_finalize os (ss_wal st);
         Some (Inr (st\<lparr>ss_wal := wal\<rparr>, adjust_occupied occupied (ss_delta st))) } }"


section \<open>Writing out\<close>

text \<open>\<open>write_ht\<close>: the pages are submitted in the order of their numbers.\<close>
definition write_ht :: "bytes \<Rightarrow> (nat \<times> bytes) list \<Rightarrow> bytes" where
  "write_ht ht pages = fold (\<lambda>(pn, page) ht. write_page_at ht pn page) (sort_key fst pages) ht"

text \<open>\<open>write_wal\<close> and \<open>truncate_wal\<close>: the contents of the log file afterwards.\<close>
definition write_wal :: "bytes \<Rightarrow> bytes \<Rightarrow> bytes" where
  "write_wal wal_file wal_blob = write_page_at [] 0 wal_blob"

definition truncate_wal :: "bytes \<Rightarrow> bytes" where
  "truncate_wal wal_file = take 0 wal_file"


section \<open>Recovery\<close>

datatype recover_error = WalError wal_read_error | ReadPageFailed | MismatchedCount

record recover_state =
  rs_ht :: bytes
  rs_meta :: meta_map
  rs_changed :: "nat list"

text \<open>Patching a page with a logged update: the nodes, the label, the elided children.\<close>
definition patch_page :: "bytes \<Rightarrow> page_diff \<Rightarrow> bytes list \<Rightarrow> elided_children \<Rightarrow> bytes \<Rightarrow> bytes option" where
  "patch_page pid diff changed ec page = do {
     page \<leftarrow> unpack_changed_nodes diff changed page;
     page \<leftarrow> copy_at page (PAGE_SIZE - 32) pid;
     copy_at page (PAGE_SIZE - 32 - 8) (elided_to_bytes ec) }"

fun recover_entry ::
  "xxh \<Rightarrow> bytes \<Rightarrow> ht_offsets \<Rightarrow> wal_entry \<Rightarrow> recover_state \<Rightarrow> (recover_error + recover_state) option" where
  "recover_entry xxh seed off (Clear bucket) st = do {
     m \<leftarrow> set_tombstone (rs_meta st) (unat bucket);
     Some (Inr (st\<lparr>rs_meta := m,
       rs_changed := List.insert (meta_page_index (unat bucket)) (rs_changed st)\<rparr>)) }"
| "recover_entry xxh seed off (Update pid diff changed ec bucket) st = do {
     let h = hash_raw_page_id xxh pid seed;
     meta_map_changed \<leftarrow> hint_not_match (rs_meta st) (unat bucket) h;
     m \<leftarrow> (if meta_map_changed then set_full (rs_meta st) (unat bucket) h else Some (rs_meta st));
     let st = st\<lparr>rs_meta := m,
       rs_changed := (if meta_map_changed
         then List.insert (meta_page_index (unat bucket)) (rs_changed st) else rs_changed st)\<rparr>;
     let pn = data_page_index off (unat bucket);
     (case read_page (rs_ht st) pn of
        None \<Rightarrow> Some (Inl ReadPageFailed)
      | Some page \<Rightarrow>
          if diff_count diff \<noteq> length changed then Some (Inl MismatchedCount)
          else do {
            page \<leftarrow> patch_page pid diff changed ec page;
            Some (Inr (st\<lparr>rs_ht := write_page_at (rs_ht st) pn page\<rparr>)) }) }"

text \<open>\<open>while let Some(entry) = wal_reader.read_entry()?\<close>.\<close>
function recover_loop ::
  "xxh \<Rightarrow> bytes \<Rightarrow> ht_offsets \<Rightarrow> wal_reader \<Rightarrow> recover_state \<Rightarrow> (recover_error + recover_state) option" where
  "recover_loop xxh seed off r st =
     (case read_entry r of
        Inl e \<Rightarrow> Some (Inl (WalError e))
      | Inr (None, r') \<Rightarrow> Some (Inr st)
      | Inr (Some entry, r') \<Rightarrow>
          Option.bind (recover_entry xxh seed off entry st) (\<lambda>res. case res of
             Inl e \<Rightarrow> Some (Inl e) | Inr st \<Rightarrow> recover_loop xxh seed off r' st))"
  by pat_completeness auto
termination
  by (relation "measure (\<lambda>(_, _, _, r, _). length (wal_left r))") (auto dest: read_entry_shrinks)

declare recover_loop.simps [simp del]

fun write_meta_pages :: "ht_offsets \<Rightarrow> meta_map \<Rightarrow> nat list \<Rightarrow> bytes \<Rightarrow> bytes option" where
  "write_meta_pages off m [] ht = Some ht"
| "write_meta_pages off m (ix # ixs) ht = do {
     page \<leftarrow> meta_page_slice m ix;
     write_meta_pages off m ixs (write_page_at ht (meta_bytes_index off ix) page) }"

text \<open>\<open>recover\<close>: the table file, the meta map and the log file afterwards.\<close>
definition recover ::
  "xxh \<Rightarrow> bytes \<Rightarrow> ht_offsets \<Rightarrow> u32 \<Rightarrow> bytes \<Rightarrow> bytes \<Rightarrow> meta_map \<Rightarrow> (recover_error + bytes \<times> meta_map \<times> bytes) option" where
  "recover xxh seed off sync_seqn ht wal_file m =
     (case wal_reader_new wal_file of
        Inl e \<Rightarrow> Some (Inl (WalError e))
      | Inr r \<Rightarrow>
          if wr_sync_seqn r \<noteq> sync_seqn then Some (Inr (ht, m, truncate_wal wal_file))
          else Option.bind (recover_loop xxh seed off r \<lparr>rs_ht = ht, rs_meta = m, rs_changed = []\<rparr>) (\<lambda>res.
            case res of Inl e \<Rightarrow> Some (Inl e)
            | Inr st \<Rightarrow> do {
                ht \<leftarrow> write_meta_pages off (rs_meta st) (rs_changed st) (rs_ht st);
                Some (Inr (ht, rs_meta st, truncate_wal wal_file)) }))"

record bitbox_db =
  db_store :: ht_offsets
  db_seed :: bytes
  db_meta_map :: meta_map
  db_wal_builder :: wal_builder
  db_occupied :: nat
  db_capacity :: nat

datatype db_open_error = StoreError ht_open_error | RecoverFailed recover_error | BuilderFailed wal_grow_error

text \<open>\<open>DB::open\<close>: the database, the table file and the log file.\<close>
definition db_open ::
  "os_memory \<Rightarrow> xxh \<Rightarrow> u32 \<Rightarrow> u32 \<Rightarrow> bytes \<Rightarrow> bytes \<Rightarrow> bytes \<Rightarrow> (db_open_error + bitbox_db \<times> bytes \<times> bytes) option" where
  "db_open os xxh sync_seqn num_pages seed ht wal_file = do {
     r \<leftarrow> ht_open num_pages ht;
     case r of Inl e \<Rightarrow> Some (Inl (StoreError e))
     | Inr (store, m) \<Rightarrow> do {
         rec \<leftarrow> (if 0 < length wal_file then recover xxh seed store sync_seqn ht wal_file m
                 else Some (Inr (ht, m, wal_file)));
         case rec of Inl e \<Rightarrow> Some (Inl (RecoverFailed e))
         | Inr (ht, m, wal_file) \<Rightarrow>
             (case wal_new os of Inl e \<Rightarrow> Some (Inl (BuilderFailed e))
              | Inr builder \<Rightarrow>
                  Some (Inr (\<lparr>db_store = store, db_seed = seed, db_meta_map = m, db_wal_builder = builder,
                              db_occupied = full_count m, db_capacity = meta_len m\<rparr>, ht, wal_file))) } }"

end
