(* ===== verification/BitboxCrash.thy ===== *)
theory BitboxCrash
  imports BitboxSync
begin

text \<open>
  Crash safety of the page store.  While the table pages of a sync are written out, a crash
  may leave any byte of the table file old or new.  Recovery from the log of the sync then
  gives the file that the complete write-out would have given, at every byte the log covers,
  and leaves the other bytes alone.
\<close>

text \<open>\<open>?\<close> on a computation that may panic.\<close>
lemma bind_Inr_conv:
  "Option.bind x (\<lambda>r. case r of Inl e \<Rightarrow> Some (Inl e) | Inr s \<Rightarrow> f s) = Some (Inr y) \<longleftrightarrow>
   (\<exists>s. x = Some (Inr s) \<and> f s = Some (Inr y))"
proof (cases x)
  case (Some r)
  then show ?thesis by (cases r) auto
qed simp

section \<open>Patched pages\<close>

text \<open>The bytes of a page that a logged update sets: the changed nodes, the elided children
  and the label.\<close>
definition logged_byte :: "page_diff \<Rightarrow> nat \<Rightarrow> bool" where
  "logged_byte diff j \<longleftrightarrow> j < 32 * NODES_PER_PAGE \<and> diff_bit diff (j div 32) \<or> PAGE_SIZE - 32 - 8 \<le> j"

abbreviation packed :: "page_diff \<Rightarrow> bytes \<Rightarrow> bytes list" where
  "packed diff page \<equiv> map (node_at page) (filter (diff_bit diff) [0..<128])"

lemma page_nodes_fit: "length page = PAGE_SIZE \<Longrightarrow> 32 * NODES_PER_PAGE \<le> length page"
  by (simp add: PAGE_SIZE_def page_consts)

lemma node_at_nth: "length page = PAGE_SIZE \<Longrightarrow> j < 32 * NODES_PER_PAGE \<Longrightarrow> node_at page (j div 32) ! (j mod 32) = page ! j"
  by (simp add: node_at_def PAGE_SIZE_def page_consts)

lemma elided_read_back: "length page = PAGE_SIZE \<Longrightarrow>
    elided_to_bytes (read_elided_children page) = take 8 (drop (PAGE_SIZE - 32 - 8) page)"
proof -
  assume len: "length page = PAGE_SIZE"
  let ?bs = "take 8 (drop (PAGE_SIZE - 32 - 8) page)"
  have l8: "length ?bs = 8" using len by (simp add: PAGE_SIZE_def)
  have "from_le ?bs < 2 ^ 64" using from_le_bound[of ?bs] l8 by simp
  hence "unat (word_of_nat (from_le ?bs) :: u64) = from_le ?bs" by (simp add: unat_of_nat)
  thus ?thesis using to_le_from_le[of ?bs] l8
    by (simp add: read_elided_children_def elided_from_bytes_def elided_to_bytes_def)
qed

lemma patch_page_eq:
  assumes diff: "diff_plain diff" and new: "length new = PAGE_SIZE" and old: "length old = PAGE_SIZE"
    and label: "page_label new = pid"
  shows "\<exists>page. patch_page pid diff (packed diff new) (read_elided_children new) old = Some page \<and>
     length page = PAGE_SIZE \<and> (\<forall>j < PAGE_SIZE. page ! j = (if logged_byte diff j then new ! j else old ! j))"
proof -
  have nodes32: "\<forall>i. diff_bit diff i \<longrightarrow> length (node_at new i) = 32"
    using diff_plain_less[OF diff] node_at_length[OF _ page_nodes_fit[OF new]] by blast
  obtain p1 where p1: "unpack_changed_nodes diff (packed diff new) old = Some p1" "length p1 = length old"
    "\<forall>j. node_at p1 j = (if diff_bit diff j then node_at new j else node_at old j)"
    "\<forall>k < length old. \<not> diff_bit diff (k div 32) \<longrightarrow> p1 ! k = old ! k"
    using unpack_changed_nodes_eq[OF diff page_nodes_fit[OF old] nodes32] by blast
  have len_pid: "length pid = 32" using label new by (auto simp: page_label_def PAGE_SIZE_def)
  obtain p2 where p2: "copy_at p1 (PAGE_SIZE - 32) pid = Some p2"
    using p1(2) old len_pid by (simp add: copy_at_def PAGE_SIZE_def)
  let ?ec = "elided_to_bytes (read_elided_children new)"
  have l2: "length p2 = PAGE_SIZE" using copy_at_length[OF p2] p1(2) old by simp
  obtain p3 where p3: "copy_at p2 (PAGE_SIZE - 32 - 8) ?ec = Some p3"
    using l2 by (simp add: copy_at_def PAGE_SIZE_def)
  have l3: "length p3 = PAGE_SIZE" using copy_at_length[OF p3] l2 by simp
  have "p3 ! j = (if logged_byte diff j then new ! j else old ! j)" if j: "j < PAGE_SIZE" for j
  proof -
    have 3: "p3 ! j = (if PAGE_SIZE - 32 - 8 \<le> j \<and> j < PAGE_SIZE - 32 then new ! j else p2 ! j)"
      using copy_at_nth[OF p3, of j] j l2 new
      by (auto simp: elided_read_back[OF new] PAGE_SIZE_def)
    have 2: "p2 ! j = (if PAGE_SIZE - 32 \<le> j then new ! j else p1 ! j)"
      using copy_at_nth[OF p2, of j] j p1(2) old len_pid label new
      by (auto simp: page_label_def PAGE_SIZE_def)
    have 1: "p1 ! j = (if diff_bit diff (j div 32) then new ! j else old ! j)" if "j < 32 * NODES_PER_PAGE"
      using p1(3) node_at_nth[OF _ that, of p1] node_at_nth[OF _ that, of old] node_at_nth[OF new that] p1(2) old by metis
    have "\<not> diff_bit diff (j div 32)" if "\<not> j < 32 * NODES_PER_PAGE"
      using diff_plain_less[OF diff, of "j div 32"] that by auto
    hence 0: "p1 ! j = old ! j" if "\<not> j < 32 * NODES_PER_PAGE" using p1(4) j old that by simp
    show ?thesis using 0 1 2 3
      by (cases "j < 32 * NODES_PER_PAGE") (auto simp: logged_byte_def PAGE_SIZE_def page_consts)
  qed
  then show ?thesis using p1(1) p2 p3 l3 by (auto simp: patch_page_def)
qed


section \<open>Replaying the metadata\<close>

text \<open>The effect of the log on the metadata bytes.\<close>
fun replay_meta :: "xxh \<Rightarrow> bytes \<Rightarrow> wal_entry list \<Rightarrow> bytes \<Rightarrow> bytes" where
  "replay_meta xxh seed [] bv = bv"
| "replay_meta xxh seed (e # es) bv = replay_meta xxh seed es (case e of
      Clear b \<Rightarrow> bv[unat b := TOMBSTONE]
    | Update pid _ _ _ b \<Rightarrow> bv[unat b := full_entry (hash_raw_page_id xxh pid seed)])"

lemma replay_meta_length [simp]: "length (replay_meta xxh seed es bv) = length bv"
  by (induction es arbitrary: bv) (auto split: wal_entry.splits)

lemma replay_meta_untouched: "i \<notin> (\<lambda>e. unat (we_bucket e)) ` set es \<Longrightarrow> replay_meta xxh seed es bv ! i = bv ! i"
  by (induction es arbitrary: bv) (auto split: wal_entry.splits)

lemma replay_meta_touched:
  "i \<in> (\<lambda>e. unat (we_bucket e)) ` set es \<Longrightarrow> length bv = length bv' \<Longrightarrow> i < length bv \<Longrightarrow>
   replay_meta xxh seed es bv ! i = replay_meta xxh seed es bv' ! i"
proof (induction es arbitrary: bv bv')
  case (Cons e es)
  let ?v = "case e of Clear _ \<Rightarrow> TOMBSTONE | Update pid _ _ _ _ \<Rightarrow> full_entry (hash_raw_page_id xxh pid seed)"
  have step: "replay_meta xxh seed (e # es) b = replay_meta xxh seed es (b[unat (we_bucket e) := ?v])" for b
    by (cases e) simp_all
  show ?case
  proof (cases "i \<in> (\<lambda>e. unat (we_bucket e)) ` set es")
    case True
    show ?thesis unfolding step by (rule Cons.IH[OF True]) (use Cons.prems(2,3) in simp_all)
  next
    case False
    then have "i = unat (we_bucket e)" using Cons.prems(1) by auto
    then show ?thesis unfolding step replay_meta_untouched[OF False] using Cons.prems(2,3) by simp
  qed
qed simp

text \<open>Replaying over bytes that are old or new gives the new bytes.\<close>
lemma replay_meta_torn:
  assumes "length f = length bv" "\<forall>i < length bv. f ! i = bv ! i \<or> f ! i = replay_meta xxh seed es bv ! i"
  shows "replay_meta xxh seed es f = replay_meta xxh seed es bv"
proof (rule nth_equalityI)
  fix i assume "i < length (replay_meta xxh seed es f)"
  hence i: "i < length bv" using assms(1) by simp
  show "replay_meta xxh seed es f ! i = replay_meta xxh seed es bv ! i"
  proof (cases "i \<in> (\<lambda>e. unat (we_bucket e)) ` set es")
    case True
    then show ?thesis using replay_meta_touched[OF True assms(1)] assms(1) i by simp
  next
    case False
    then show ?thesis using replay_meta_untouched[OF False] assms(2) i by metis
  qed
qed (simp add: assms(1))



section \<open>What preparing a sync logs\<close>

text \<open>A dirty page as the store hands it over: a whole page, either cleared or with the
  reserved bits of its diff unset and the label of its page id.\<close>
fun change_ok :: "page_id \<times> dirty_page \<Rightarrow> bool" where
  "change_ok (pid, d) \<longleftrightarrow> length (dp_page d) = PAGE_SIZE \<and>
     (diff_cleared (dp_diff d) \<or> diff_plain (dp_diff d) \<and> page_label (dp_page d) = page_id_encode pid)"

text \<open>A page that is rewritten in the bucket it already has is in the table: the metadata
  byte of the bucket is the tag of the page.\<close>
fun known_ok :: "xxh \<Rightarrow> bytes \<Rightarrow> page_id \<times> dirty_page \<Rightarrow> sync_state \<Rightarrow> bool" where
  "known_ok xxh seed (pid, d) st \<longleftrightarrow> diff_cleared (dp_diff d) \<or>
     (case resolve_bucket xxh seed pid (dp_bucket d) (ss_meta st) (ss_heap st) of
        Some (Inr (False, b, _, _)) \<Rightarrow> unat b < mm_buckets (ss_meta st) \<and>
           mm_bitvec (ss_meta st) ! unat b = full_entry (hash_page_id xxh pid seed)
      | _ \<Rightarrow> True)"

fun changes_ok :: "os_memory \<Rightarrow> xxh \<Rightarrow> bytes \<Rightarrow> ht_offsets \<Rightarrow> (page_id \<times> dirty_page) list \<Rightarrow> sync_state \<Rightarrow> bool" where
  "changes_ok os xxh seed off [] st \<longleftrightarrow> True"
| "changes_ok os xxh seed off (c # cs) st \<longleftrightarrow> change_ok c \<and> known_ok xxh seed c st \<and>
     (case prepare_change os xxh seed off c st of Some (Inr st') \<Rightarrow> changes_ok os xxh seed off cs st' | _ \<Rightarrow> True)"

fun change_entry :: "page_id \<times> dirty_page \<Rightarrow> u64 \<Rightarrow> wal_entry" where
  "change_entry (pid, d) b = (if diff_cleared (dp_diff d) then Clear b
     else Update (page_id_encode pid) (dp_diff d) (packed (dp_diff d) (dp_page d)) (read_elided_children (dp_page d)) b)"

fun change_pages :: "ht_offsets \<Rightarrow> page_id \<times> dirty_page \<Rightarrow> u64 \<Rightarrow> (nat \<times> bytes) list" where
  "change_pages off (pid, d) b = (if diff_cleared (dp_diff d) then [] else [(data_page_index off (unat b), dp_page d)])"

fun change_cache :: "page_id \<times> dirty_page \<Rightarrow> u64 \<Rightarrow> page_id \<times> (bytes \<times> u64) option" where
  "change_cache (pid, d) b = (pid, if diff_cleared (dp_diff d) then None else Some (dp_page d, b))"

lemma change_entry_bucket [simp]: "we_bucket (change_entry c b) = b"
  by (cases c) simp

lemma page_label_length: "length page = PAGE_SIZE \<Longrightarrow> length (page_label page) = 32"
  by (simp add: page_label_def PAGE_SIZE_def)

lemma change_entry_ok: "change_ok c \<Longrightarrow> entry_ok (change_entry c b)"
proof (cases c)
  case (Pair pid d)
  assume ok: "change_ok c"
  show ?thesis
  proof (cases "diff_cleared (dp_diff d)")
    case False
    hence d: "diff_plain (dp_diff d)" "length (dp_page d) = PAGE_SIZE" "length (page_id_encode pid) = 32"
      using ok Pair page_label_length[of "dp_page d"] by auto
    have "length (node_at (dp_page d) i) = 32" if "diff_bit (dp_diff d) i" for i
      using diff_plain_less[OF d(1) that] node_at_length[OF _ page_nodes_fit[OF d(2)]] by blast
    then show ?thesis using False d by (simp add: Pair diff_count_eq del: upt_Suc)
  qed (simp add: Pair)
qed

lemma resolve_bucket_cases:
  assumes "resolve_bucket xxh seed pid info m heap = Some (Inr (ch, b, m', heap'))"
  shows "if ch then allocate_bucket xxh pid m seed = Some (Some b, m') else m' = m"
  using assms by (auto simp: resolve_bucket_def split: bucket_info.splits option.splits bind_splits)

lemma allocate_bucket_Some:
  assumes "meta_ok m" "allocate_bucket xxh pid m seed = Some (Some b, m')"
  shows "unat b < mm_buckets m" "m' = with_meta m b (full_entry (hash_page_id xxh pid seed))"
  using allocate_loop_Some[OF assms(1), of 9999 "probe_start xxh seed m pid"] assms(2)
  by (auto simp: allocate_bucket_def probe_new_start[OF assms(1)])

text \<open>What one step records.\<close>
definition step_records :: "os_memory \<Rightarrow> xxh \<Rightarrow> bytes \<Rightarrow> ht_offsets \<Rightarrow> page_id \<times> dirty_page \<Rightarrow> u64 \<Rightarrow> sync_state \<Rightarrow> sync_state \<Rightarrow> bool" where
  "step_records os xxh seed off c b st st' \<longleftrightarrow>
     write_entry os (ss_wal st) (change_entry c b) = Some (ss_wal st') \<and>
     mm_bitvec (ss_meta st') = replay_meta xxh seed [change_entry c b] (mm_bitvec (ss_meta st)) \<and>
     mm_buckets (ss_meta st') = mm_buckets (ss_meta st) \<and> unat b < length (mm_bitvec (ss_meta st)) \<and>
     (diff_cleared (dp_diff (snd c)) \<or> unat b < mm_buckets (ss_meta st)) \<and>
     ss_ht_pages st' = ss_ht_pages st @ change_pages off c b \<and>
     ss_cache st' = ss_cache st @ [change_cache c b] \<and>
     (set (ss_changed_meta st') = set (ss_changed_meta st) \<and> mm_bitvec (ss_meta st') = mm_bitvec (ss_meta st) \<or>
      set (ss_changed_meta st') = insert (unat b div 4096) (set (ss_changed_meta st))) \<and>
     (distinct (ss_changed_meta st) \<longrightarrow> distinct (ss_changed_meta st'))"

lemma step_records_length:
  "step_records os xxh seed off c b st st' \<Longrightarrow> length (mm_bitvec (ss_meta st')) = length (mm_bitvec (ss_meta st))"
  unfolding step_records_def by (metis replay_meta_length)

lemma prepare_cleared_records:
  assumes "prepare_cleared os pid d st = Some st'" "diff_cleared (dp_diff d)"
  shows "\<exists>b. step_records os xxh seed off (pid, d) b st st'"
proof -
  obtain b m wal where b: "set_tombstone (ss_meta st) (unat b) = Some m" "write_clear os (ss_wal st) b = Some wal"
    and st': "st' = st\<lparr>ss_meta := m, ss_wal := wal,
              ss_changed_meta := List.insert (meta_page_index (unat b)) (ss_changed_meta st),
              ss_cache := ss_cache st @ [(pid, None)], ss_delta := ss_delta st - 1\<rparr>"
    using assms(1) by (auto simp: prepare_cleared_def bind_eq_Some_conv)
  have "unat b < length (mm_bitvec (ss_meta st))" "m = (ss_meta st)\<lparr>mm_bitvec := (mm_bitvec (ss_meta st))[unat b := TOMBSTONE]\<rparr>"
    using b(1) by (auto simp: set_tombstone_def put_meta_def split: if_splits)
  then show ?thesis using b(2) assms(2) st'
    by (intro exI[of _ b]) (simp add: step_records_def meta_page_index_def)
qed

lemma prepare_updated_records:
  assumes run: "prepare_updated os xxh seed off pid d st = Some (Inr st')" and ncl: "\<not> diff_cleared (dp_diff d)"
    and ok: "change_ok (pid, d)" "known_ok xxh seed (pid, d) st" "meta_ok (ss_meta st)"
  shows "\<exists>b. step_records os xxh seed off (pid, d) b st st'"
proof -
  let ?h = "hash_page_id xxh pid seed" and ?m = "ss_meta st"
  obtain ch b m heap where r: "resolve_bucket xxh seed pid (dp_bucket d) (ss_meta st) (ss_heap st) = Some (Inr (ch, b, m, heap))"
  proof -
    obtain r0 where r0: "resolve_bucket xxh seed pid (dp_bucket d) (ss_meta st) (ss_heap st) = Some r0"
      using run by (auto simp: prepare_updated_def bind_eq_Some_conv)
    obtain q where "r0 = Inr q" using run r0 by (cases r0) (auto simp: prepare_updated_def)
    then show ?thesis using r0 that by (cases q) auto
  qed
  obtain m2 changed wal where s: "(if ch then set_full m (unat b) ?h else Some m) = Some m2"
    "pack_changed_nodes (dp_diff d) (dp_page d) = Some changed"
    "write_update os (ss_wal st) (page_id_encode pid) (dp_diff d) changed (read_elided_children (dp_page d)) b = Some wal"
    and st': "st' = st\<lparr>ss_meta := m2, ss_wal := wal, ss_heap := heap,
           ss_changed_meta := (if ch then List.insert (meta_page_index (unat b)) (ss_changed_meta st) else ss_changed_meta st),
           ss_ht_pages := ss_ht_pages st @ [(data_page_index off (unat b), dp_page d)],
           ss_cache := ss_cache st @ [(pid, Some (dp_page d, b))],
           ss_delta := (if ch then ss_delta st + 1 else ss_delta st)\<rparr>"
    using run r by (auto simp: prepare_updated_def Let_def bind_eq_Some_conv)
  have plain: "diff_plain (dp_diff d)" "length (dp_page d) = PAGE_SIZE" using ok(1) ncl by auto
  have ch: "changed = packed (dp_diff d) (dp_page d)"
    using s(2) pack_changed_nodes_eq[OF plain(1) page_nodes_fit[OF plain(2)]] by simp
  have meta: "unat b < mm_buckets ?m \<and> mm_buckets m2 = mm_buckets ?m \<and>
      mm_bitvec m2 = (mm_bitvec ?m)[unat b := full_entry ?h] \<and> (\<not> ch \<longrightarrow> mm_bitvec m2 = mm_bitvec ?m)"
  proof (cases ch)
    case True
    from allocate_bucket_Some[OF ok(3)] resolve_bucket_cases[OF r] True
    have a: "unat b < mm_buckets ?m" "m = with_meta ?m b (full_entry ?h)" by auto
    have "m2 = with_meta m b (full_entry ?h)"
      using s(1) True a ok(3) put_meta_eq[of m b "full_entry ?h"] by (simp add: set_full_def)
    then show ?thesis using a True by (simp add: with_meta_def)
  next
    case False
    have "unat b < mm_buckets ?m \<and> mm_bitvec ?m ! unat b = full_entry ?h"
      using ok(2) r False ncl by simp
    moreover have "m2 = ?m" using resolve_bucket_cases[OF r] s(1) False by simp
    ultimately show ?thesis using False list_update_id[of "mm_bitvec ?m" "unat b"] by auto
  qed
  moreover have "unat b < length (mm_bitvec ?m)" using meta ok(3) by (simp add: meta_ok_def)
  ultimately show ?thesis using s(3) ch ncl st'
    by (intro exI[of _ b]) (auto simp: step_records_def meta_page_index_def hash_page_id_def)
qed

lemma prepare_change_records:
  assumes "prepare_change os xxh seed off c st = Some (Inr st')"
    and "change_ok c" "known_ok xxh seed c st" "meta_ok (ss_meta st)"
  shows "\<exists>b. step_records os xxh seed off c b st st' \<and> meta_ok (ss_meta st')"
proof -
  obtain pid d where c: "c = (pid, d)" by (cases c)
  have "\<exists>b. step_records os xxh seed off (pid, d) b st st'"
  proof (cases "diff_cleared (dp_diff d)")
    case True
    then have "prepare_cleared os pid d st = Some st'" using assms(1) c by (auto simp: prepare_change_def)
    then show ?thesis using prepare_cleared_records True by blast
  next
    case False
    then have "prepare_updated os xxh seed off pid d st = Some (Inr st')" using assms(1) c by (simp add: prepare_change_def)
    then show ?thesis using prepare_updated_records False assms(2-4) c by blast
  qed
  then obtain b where b: "step_records os xxh seed off c b st st'" using c by blast
  then have "meta_ok (ss_meta st')" using assms(4) step_records_length[OF b] by (simp add: step_records_def meta_ok_def)
  then show ?thesis using b by blast
qed

text \<open>What a whole run records.\<close>
definition run_records ::
  "os_memory \<Rightarrow> xxh \<Rightarrow> bytes \<Rightarrow> ht_offsets \<Rightarrow> (page_id \<times> dirty_page) list \<Rightarrow> u64 list \<Rightarrow> sync_state \<Rightarrow> sync_state \<Rightarrow> bool" where
  "run_records os xxh seed off cs bs st st' \<longleftrightarrow> length bs = length cs \<and>
     write_entries os (ss_wal st) (map2 change_entry cs bs) = Some (ss_wal st') \<and>
     mm_bitvec (ss_meta st') = replay_meta xxh seed (map2 change_entry cs bs) (mm_bitvec (ss_meta st)) \<and>
     mm_buckets (ss_meta st') = mm_buckets (ss_meta st) \<and> (\<forall>b\<in>set bs. unat b < length (mm_bitvec (ss_meta st))) \<and>
     (\<forall>(c, b)\<in>set (zip cs bs). diff_cleared (dp_diff (snd c)) \<or> unat b < mm_buckets (ss_meta st)) \<and>
     ss_ht_pages st' = ss_ht_pages st @ concat (map2 (change_pages off) cs bs) \<and>
     ss_cache st' = ss_cache st @ map2 change_cache cs bs \<and>
     (\<forall>i < length (mm_bitvec (ss_meta st)). mm_bitvec (ss_meta st') ! i = mm_bitvec (ss_meta st) ! i \<or> i div 4096 \<in> set (ss_changed_meta st')) \<and>
     set (ss_changed_meta st) \<subseteq> set (ss_changed_meta st') \<and>
     set (ss_changed_meta st') \<subseteq> set (ss_changed_meta st) \<union> (\<lambda>b. unat b div 4096) ` set bs \<and>
     (distinct (ss_changed_meta st) \<longrightarrow> distinct (ss_changed_meta st'))"

lemma replay_meta_Cons: "replay_meta xxh seed (e # es) bv = replay_meta xxh seed es (replay_meta xxh seed [e] bv)"
  by simp

lemma run_records_Nil: "run_records os xxh seed off [] [] st st"
  by (simp add: run_records_def)

lemma run_records_Cons:
  assumes s: "step_records os xxh seed off c b st st1" and r: "run_records os xxh seed off cs bs st1 st'"
  shows "run_records os xxh seed off (c # cs) (b # bs) st st'"
proof -
  let ?bv = "\<lambda>s. mm_bitvec (ss_meta s)"
  note S = s[unfolded step_records_def] and R = r[unfolded run_records_def]
  note len = step_records_length[OF s]
  have touched: "?bv st1 ! i = ?bv st ! i \<or> i div 4096 \<in> set (ss_changed_meta st1)" for i
  proof (cases "i = unat b")
    case True
    then show ?thesis using S by auto
  next
    case False
    then have "?bv st1 ! i = ?bv st ! i" using S replay_meta_untouched[of i "[change_entry c b]" xxh seed "?bv st"] by simp
    then show ?thesis ..
  qed
  have "?bv st' ! i = ?bv st ! i \<or> i div 4096 \<in> set (ss_changed_meta st')" if "i < length (?bv st)" for i
    using R len touched[of i] that by (metis subsetD)
  moreover have "?bv st' = replay_meta xxh seed (map2 change_entry (c # cs) (b # bs)) (?bv st)"
    using R S replay_meta_Cons[of xxh seed "change_entry c b" "map2 change_entry cs bs" "?bv st"] by simp
  moreover have "set (ss_changed_meta st') \<subseteq> set (ss_changed_meta st) \<union> (\<lambda>b. unat b div 4096) ` set (b # bs)"
    "set (ss_changed_meta st) \<subseteq> set (ss_changed_meta st')"
    using R S by auto
  ultimately show ?thesis using R S len unfolding run_records_def by simp
qed

lemma prepare_changes_records:
  assumes "prepare_changes os xxh seed off cs st = Some (Inr st')" "changes_ok os xxh seed off cs st" "meta_ok (ss_meta st)"
  shows "\<exists>bs. run_records os xxh seed off cs bs st st'"
  using assms
proof (induction cs arbitrary: st)
  case Nil
  then have "st' = st" by simp
  then show ?case using run_records_Nil by blast
next
  case (Cons c cs)
  obtain st1 where st1: "prepare_change os xxh seed off c st = Some (Inr st1)" "prepare_changes os xxh seed off cs st1 = Some (Inr st')"
    using Cons.prems(1) by (auto simp: bind_Inr_conv)
  have ok: "change_ok c" "known_ok xxh seed c st" "changes_ok os xxh seed off cs st1" using Cons.prems(2) st1(1) by auto
  obtain b where b: "step_records os xxh seed off c b st st1" "meta_ok (ss_meta st1)"
    using prepare_change_records[OF st1(1) ok(1,2) Cons.prems(3)] by blast
  obtain bs where "run_records os xxh seed off cs bs st1 st'" using Cons.IH[OF st1(2) ok(3) b(2)] by blast
  then show ?case using run_records_Cons[OF b(1)] by blast
qed



section \<open>What recovery replays\<close>

fun recover_list :: "xxh \<Rightarrow> bytes \<Rightarrow> ht_offsets \<Rightarrow> wal_entry list \<Rightarrow> recover_state \<Rightarrow> (recover_error + recover_state) option" where
  "recover_list xxh seed off [] st = Some (Inr st)"
| "recover_list xxh seed off (e # es) st =
     Option.bind (recover_entry xxh seed off e st) (\<lambda>res. case res of
        Inl e \<Rightarrow> Some (Inl e) | Inr st \<Rightarrow> recover_list xxh seed off es st)"

lemma recover_loop_list: "read_entries r = Inr es \<Longrightarrow> recover_loop xxh seed off r st = recover_list xxh seed off es st"
proof (induction r arbitrary: es st rule: read_entries.induct)
  case (1 r)
  obtain x r' where x: "read_entry r = Inr (x, r')"
    using "1.prems" by (subst (asm) read_entries.simps) (auto split: sum.splits)
  show ?case
  proof (cases x)
    case None
    then have "es = []" using "1.prems" x by (subst (asm) read_entries.simps) simp
    then show ?thesis using x None by (subst recover_loop.simps) simp
  next
    case (Some e)
    obtain es' where es': "read_entries r' = Inr es'" "es = e # es'"
      using "1.prems" x Some by (subst (asm) read_entries.simps) (auto split: sum.splits)
    have "recover_loop xxh seed off r' = recover_list xxh seed off es'"
      by (rule ext) (rule "1.IH"[OF x refl Some es'(1)])
    then show ?thesis using x Some es'(2) by (subst recover_loop.simps) simp
  qed
qed

text \<open>The bytes of the table file that a logged change sets.\<close>
fun covers :: "ht_offsets \<Rightarrow> page_id \<times> dirty_page \<Rightarrow> u64 \<Rightarrow> nat \<Rightarrow> bool" where
  "covers off (pid, d) b k \<longleftrightarrow> \<not> diff_cleared (dp_diff d) \<and> k div PAGE_SIZE = data_page_index off (unat b) \<and>
     logged_byte (dp_diff d) (k mod PAGE_SIZE)"

abbreviation change_byte :: "page_id \<times> dirty_page \<Rightarrow> nat \<Rightarrow> u8" where
  "change_byte c k \<equiv> dp_page (snd c) ! (k mod PAGE_SIZE)"

definition replay_records :: "xxh \<Rightarrow> bytes \<Rightarrow> ht_offsets \<Rightarrow> (page_id \<times> dirty_page) list \<Rightarrow> u64 list \<Rightarrow> recover_state \<Rightarrow> recover_state \<Rightarrow> bool" where
  "replay_records xxh seed off cs bs st st' \<longleftrightarrow>
     mm_bitvec (rs_meta st') = replay_meta xxh seed (map2 change_entry cs bs) (mm_bitvec (rs_meta st)) \<and>
     mm_buckets (rs_meta st') = mm_buckets (rs_meta st) \<and> length (rs_ht st') = length (rs_ht st) \<and>
     (\<forall>k < length (rs_ht st). (\<forall>(c, b)\<in>set (zip cs bs). covers off c b k \<longrightarrow> rs_ht st' ! k = change_byte c k) \<and>
        ((\<forall>(c, b)\<in>set (zip cs bs). \<not> covers off c b k) \<longrightarrow> rs_ht st' ! k = rs_ht st ! k)) \<and>
     (\<forall>i < length (mm_bitvec (rs_meta st)). mm_bitvec (rs_meta st') ! i = mm_bitvec (rs_meta st) ! i \<or> i div 4096 \<in> set (rs_changed st')) \<and>
     set (rs_changed st) \<subseteq> set (rs_changed st') \<and>
     set (rs_changed st') \<subseteq> set (rs_changed st) \<union> (\<lambda>b. unat b div 4096) ` set bs"

lemma replay_recordsD:
  assumes "replay_records xxh seed off cs bs st st'"
  shows "mm_bitvec (rs_meta st') = replay_meta xxh seed (map2 change_entry cs bs) (mm_bitvec (rs_meta st))"
    "mm_buckets (rs_meta st') = mm_buckets (rs_meta st)" "length (rs_ht st') = length (rs_ht st)"
    "k < length (rs_ht st) \<Longrightarrow> (c, b) \<in> set (zip cs bs) \<Longrightarrow> covers off c b k \<Longrightarrow> rs_ht st' ! k = change_byte c k"
    "k < length (rs_ht st) \<Longrightarrow> \<forall>(c, b)\<in>set (zip cs bs). \<not> covers off c b k \<Longrightarrow> rs_ht st' ! k = rs_ht st ! k"
    "i < length (mm_bitvec (rs_meta st)) \<Longrightarrow> mm_bitvec (rs_meta st') ! i = mm_bitvec (rs_meta st) ! i \<or> i div 4096 \<in> set (rs_changed st')"
    "set (rs_changed st) \<subseteq> set (rs_changed st')"
    "set (rs_changed st') \<subseteq> set (rs_changed st) \<union> (\<lambda>b. unat b div 4096) ` set bs"
    "length (mm_bitvec (rs_meta st')) = length (mm_bitvec (rs_meta st))"
  using assms unfolding replay_records_def by (blast+, simp)

lemma recover_change:
  assumes "change_ok c" "unat b < length (mm_bitvec (rs_meta st))" "diff_cleared (dp_diff (snd c)) \<or> in_file (rs_ht st) (data_page_index off (unat b))"
  shows "\<exists>st'. recover_entry xxh seed off (change_entry c b) st = Some (Inr st') \<and> replay_records xxh seed off [c] [b] st st'"
proof -
  obtain pid d where c: "c = (pid, d)" by (cases c)
  show ?thesis
  proof (cases "diff_cleared (dp_diff d)")
    case True
    then show ?thesis using assms(2)
      by (auto simp: c set_tombstone_def put_meta_def replay_records_def meta_page_index_def nth_list_update)
  next
    case False
    let ?m = "rs_meta st" and ?h = "hash_raw_page_id xxh (page_id_encode pid) seed" and ?pn = "data_page_index off (unat b)"
    have d: "diff_plain (dp_diff d)" "length (dp_page d) = PAGE_SIZE" "page_label (dp_page d) = page_id_encode pid"
      using assms(1) False c by auto
    have infile: "in_file (rs_ht st) ?pn" using assms(3) False c by simp
    define old where "old = take PAGE_SIZE (drop (?pn * PAGE_SIZE) (rs_ht st))"
    have old: "read_page (rs_ht st) ?pn = Some old" using read_page_Some[OF infile] by (simp add: old_def)
    obtain page where page: "patch_page (page_id_encode pid) (dp_diff d) (packed (dp_diff d) (dp_page d))
        (read_elided_children (dp_page d)) old = Some page" "length page = PAGE_SIZE"
      "\<forall>j < PAGE_SIZE. page ! j = (if logged_byte (dp_diff d) j then dp_page d ! j else old ! j)"
      using patch_page_eq[OF d(1,2) _ d(3)] read_page_length[OF old] by blast
    let ?ch = "mm_bitvec ?m ! unat b \<noteq> full_entry ?h"
    define m' where "m' = (if ?ch then ?m\<lparr>mm_bitvec := (mm_bitvec ?m)[unat b := full_entry ?h]\<rparr> else ?m)"
    have m': "mm_bitvec m' = (mm_bitvec ?m)[unat b := full_entry ?h]" "mm_buckets m' = mm_buckets ?m"
      by (auto simp: m'_def list_update_same_conv assms(2) eq_commute[of "mm_bitvec ?m"])
    define ix where "ix = (if ?ch then List.insert (unat b div 4096) (rs_changed st) else rs_changed st)"
    let ?st' = "\<lparr>rs_ht = write_page_at (rs_ht st) ?pn page, rs_meta = m', rs_changed = ix\<rparr>"
    have "recover_entry xxh seed off (change_entry c b) st = Some (Inr ?st')"
      using assms(2) False old page(1) diff_count_eq[of "dp_diff d"]
      by (simp add: c hint_not_match_def get_at_def set_full_def put_meta_def Let_def m'_def ix_def meta_page_index_def del: upt_Suc)
    moreover have "write_page_at (rs_ht st) ?pn page ! k =
        (if covers off c b k then change_byte c k else rs_ht st ! k)" if k: "k < length (rs_ht st)" for k
    proof (cases "k div PAGE_SIZE = ?pn")
      case True
      have kk: "k mod PAGE_SIZE < PAGE_SIZE" "?pn * PAGE_SIZE + k mod PAGE_SIZE = k"
        using True div_mult_mod_eq[of k PAGE_SIZE] by (auto simp: PAGE_SIZE_def)
      have "old ! (k mod PAGE_SIZE) = rs_ht st ! k" using read_page_nth[OF old kk(1)] kk(2) by simp
      then show ?thesis using nth_write_page[OF infile page(2) k] True page(3) kk(1) False c by simp
    next
      case False
      then show ?thesis using nth_write_page[OF infile page(2) k] c by simp
    qed
    moreover have "set ix \<subseteq> set (rs_changed st) \<union> {unat b div 4096}" "set (rs_changed st) \<subseteq> set ix"
      by (auto simp: ix_def)
    moreover have "mm_bitvec m' ! i = mm_bitvec ?m ! i \<or> i div 4096 \<in> set ix" for i
      by (cases "i = unat b") (auto simp: m'_def ix_def)
    ultimately show ?thesis using m' False page(2) infile
      by (intro exI[of _ ?st']) (simp add: replay_records_def c)
  qed
qed

lemma covers_page: "covers off c b k \<Longrightarrow> (k div PAGE_SIZE, dp_page (snd c)) \<in> set (change_pages off c b)"
  by (cases c) auto

lemma pages_of_zip: "(c, b) \<in> set (zip cs bs) \<Longrightarrow> set (change_pages off c b) \<subseteq> set (concat (map2 (change_pages off) cs bs))"
proof -
  assume "(c, b) \<in> set (zip cs bs)"
  hence "change_pages off c b \<in> set (map2 (change_pages off) cs bs)"
    unfolding set_map by (rule rev_image_eqI) simp
  thus ?thesis unfolding set_concat by (rule UN_upper)
qed

lemma replay_records_Cons:
  assumes s: "replay_records xxh seed off [c] [b] st st1" and r: "replay_records xxh seed off cs bs st1 st'"
    and len: "length cs = length bs" and dis: "distinct (map fst (concat (map2 (change_pages off) (c # cs) (b # bs))))"
  shows "replay_records xxh seed off (c # cs) (b # bs) st st'"
proof -
  let ?bv = "\<lambda>s. mm_bitvec (rs_meta s)"
  note S = replay_recordsD[OF s] and R = replay_recordsD[OF r]
  have alone: "\<not> covers off c' b' k" if "covers off c b k" "(c', b') \<in> set (zip cs bs)" for c' b' k
  proof
    assume cov: "covers off c' b' k"
    have "k div PAGE_SIZE \<in> fst ` set (concat (map2 (change_pages off) cs bs))"
      using rev_image_eqI[OF subsetD[OF pages_of_zip[OF that(2)] covers_page[OF cov]], of "k div PAGE_SIZE" fst] by simp
    moreover have "k div PAGE_SIZE \<in> fst ` set (change_pages off c b)"
      using rev_image_eqI[OF covers_page[OF that(1)], of "k div PAGE_SIZE" fst] by simp
    moreover have "fst ` set (change_pages off c b) \<inter> fst ` set (concat (map2 (change_pages off) cs bs)) = {}"
      using dis by (simp del: set_concat)
    ultimately show False by blast
  qed
  have ht: "(\<forall>(c', b')\<in>set (zip (c # cs) (b # bs)). covers off c' b' k \<longrightarrow> rs_ht st' ! k = change_byte c' k) \<and>
        ((\<forall>(c', b')\<in>set (zip (c # cs) (b # bs)). \<not> covers off c' b' k) \<longrightarrow> rs_ht st' ! k = rs_ht st ! k)"
    if k: "k < length (rs_ht st)" for k
  proof (cases "covers off c b k")
    case True
    have "rs_ht st1 ! k = change_byte c k" using S(4)[OF k _ True] by (simp del: covers.simps)
    moreover have none: "\<forall>(c', b')\<in>set (zip cs bs). \<not> covers off c' b' k" using alone[OF True] by blast
    have "rs_ht st' ! k = rs_ht st1 ! k" using R(5)[OF _ none] k S(3) by simp
    ultimately have "rs_ht st' ! k = change_byte c k" by simp
    then show ?thesis using True none by (simp del: covers.simps) blast
  next
    case False
    have "rs_ht st1 ! k = rs_ht st ! k" using S(5)[OF k] False by (simp del: covers.simps)
    moreover have k1: "k < length (rs_ht st1)" using k S(3) by simp
    ultimately show ?thesis using False R(4)[OF k1] R(5)[OF k1] by (simp del: covers.simps) blast
  qed
  have changed: "?bv st' ! i = ?bv st ! i \<or> i div 4096 \<in> set (rs_changed st')" if "i < length (?bv st)" for i
    using R(6)[of i] S(6)[of i] S(9) R(7) that by auto
  have meta: "?bv st' = replay_meta xxh seed (map2 change_entry (c # cs) (b # bs)) (?bv st)"
    using R(1) S(1) replay_meta_Cons[of xxh seed "change_entry c b" "map2 change_entry cs bs" "?bv st"] by simp
  have ixs: "set (rs_changed st') \<subseteq> set (rs_changed st) \<union> (\<lambda>b. unat b div 4096) ` set (b # bs)"
    "set (rs_changed st) \<subseteq> set (rs_changed st')"
    using R(7,8) S(7,8) by auto
  have sizes: "mm_buckets (rs_meta st') = mm_buckets (rs_meta st)" "length (rs_ht st') = length (rs_ht st)"
    using R(2,3) S(2,3) by simp_all
  show ?thesis unfolding replay_records_def
  proof (intro conjI meta sizes ixs)
    show "\<forall>k < length (rs_ht st). (\<forall>(c', b')\<in>set (zip (c # cs) (b # bs)). covers off c' b' k \<longrightarrow> rs_ht st' ! k = change_byte c' k) \<and>
        ((\<forall>(c', b')\<in>set (zip (c # cs) (b # bs)). \<not> covers off c' b' k) \<longrightarrow> rs_ht st' ! k = rs_ht st ! k)"
      by (intro allI impI, rule ht)
    show "\<forall>i < length (?bv st). ?bv st' ! i = ?bv st ! i \<or> i div 4096 \<in> set (rs_changed st')"
      by (intro allI impI, rule changed)
  qed
qed

lemma recover_changes:
  assumes "\<forall>c\<in>set cs. change_ok c" "length cs = length bs" "\<forall>b\<in>set bs. unat b < length (mm_bitvec (rs_meta st))"
    "\<forall>(c, b)\<in>set (zip cs bs). diff_cleared (dp_diff (snd c)) \<or> in_file (rs_ht st) (data_page_index off (unat b))"
    "distinct (map fst (concat (map2 (change_pages off) cs bs)))"
  shows "\<exists>st'. recover_list xxh seed off (map2 change_entry cs bs) st = Some (Inr st') \<and> replay_records xxh seed off cs bs st st'"
  using assms(2,1,3-)
proof (induction cs bs arbitrary: st rule: list_induct2)
  case Nil
  then show ?case by (simp add: replay_records_def)
next
  case (Cons c cs b bs)
  obtain st1 where st1: "recover_entry xxh seed off (change_entry c b) st = Some (Inr st1)"
    "replay_records xxh seed off [c] [b] st st1"
    using recover_change[of c b st off xxh seed] Cons.prems by auto
  note lbv = replay_recordsD(3,9)[OF st1(2)]
  have "\<exists>st'. recover_list xxh seed off (map2 change_entry cs bs) st1 = Some (Inr st') \<and> replay_records xxh seed off cs bs st1 st'"
    by (rule Cons.IH) (use Cons.prems lbv in \<open>auto simp: in_file_def\<close>)
  then obtain st' where "recover_list xxh seed off (map2 change_entry cs bs) st1 = Some (Inr st')"
    "replay_records xxh seed off cs bs st1 st'" by blast
  then show ?case using st1 replay_records_Cons[OF st1(2) _ Cons.hyps Cons.prems(4)] by auto
qed



section \<open>Writing pages\<close>

lemma page_in_meta: "k div PAGE_SIZE < n \<longleftrightarrow> k < n * PAGE_SIZE"
  by (simp add: PAGE_SIZE_def div_less_iff_less_mult)

lemma page_slice_nth:
  assumes "k < length xs"
  shows "take PAGE_SIZE (drop (k div PAGE_SIZE * PAGE_SIZE) xs) ! (k mod PAGE_SIZE) = xs ! k"
proof -
  have k: "k mod PAGE_SIZE < PAGE_SIZE" "k div PAGE_SIZE * PAGE_SIZE + k mod PAGE_SIZE = k" by (simp_all add: PAGE_SIZE_def)
  have "k div PAGE_SIZE * PAGE_SIZE \<le> length xs" using assms k(2) by linarith
  then have "take PAGE_SIZE (drop (k div PAGE_SIZE * PAGE_SIZE) xs) ! (k mod PAGE_SIZE) = xs ! (k div PAGE_SIZE * PAGE_SIZE + k mod PAGE_SIZE)"
    using k(1) by (simp only: nth_take nth_drop)
  thus ?thesis by (simp only: k(2))
qed

lemma fold_write_pages:
  assumes "distinct (map fst ps)" "\<forall>(pn, page)\<in>set ps. in_file ht pn \<and> length page = PAGE_SIZE"
  defines "ht' \<equiv> fold (\<lambda>(pn, page) ht. write_page_at ht pn page) ps ht"
  shows "length ht' = length ht \<and>
    (\<forall>k < length ht. ht' ! k = (case map_of ps (k div PAGE_SIZE) of None \<Rightarrow> ht ! k | Some page \<Rightarrow> page ! (k mod PAGE_SIZE)))"
  using assms(1,2) unfolding ht'_def
proof (induction ps arbitrary: ht)
  case (Cons x ps)
  obtain pn page where x: "x = (pn, page)" by (cases x)
  have p: "in_file ht pn" "length page = PAGE_SIZE" using Cons.prems(2) x by auto
  let ?ht1 = "write_page_at ht pn page"
  have len: "length ?ht1 = length ht" using p by simp
  have IH: "length (fold (\<lambda>(pn, page) ht. write_page_at ht pn page) ps ?ht1) = length ?ht1 \<and>
    (\<forall>k < length ?ht1. fold (\<lambda>(pn, page) ht. write_page_at ht pn page) ps ?ht1 ! k =
       (case map_of ps (k div PAGE_SIZE) of None \<Rightarrow> ?ht1 ! k | Some page \<Rightarrow> page ! (k mod PAGE_SIZE)))"
    by (rule Cons.IH) (use Cons.prems p in \<open>auto simp: in_file_def\<close>)
  have "map_of ps pn = None" using Cons.prems(1) x by (auto simp: map_of_eq_None_iff)
  then show ?case using IH len nth_write_page[OF p] x by (auto split: option.splits)
qed simp

lemma distinct_sort_keys: "distinct (map fst (sort_key fst ps)) = distinct (map fst ps)"
  by (simp add: distinct_map)

lemma map_of_sort_key: "distinct (map fst ps) \<Longrightarrow> map_of (sort_key fst ps) = map_of ps"
  by (subst map_of_inject_set) (simp_all add: distinct_sort_keys)

lemma write_ht_nth:
  assumes "distinct (map fst ps)" "\<forall>(pn, page)\<in>set ps. in_file ht pn \<and> length page = PAGE_SIZE"
  shows "length (write_ht ht ps) = length ht"
    "k < length ht \<Longrightarrow> write_ht ht ps ! k =
       (case map_of ps (k div PAGE_SIZE) of None \<Rightarrow> ht ! k | Some page \<Rightarrow> page ! (k mod PAGE_SIZE))"
  using fold_write_pages[of "sort_key fst ps" ht] assms
  by (simp_all add: write_ht_def distinct_sort_keys map_of_sort_key)

lemma meta_page_slice_eq:
  assumes "length (mm_bitvec m) = n * PAGE_SIZE" "ix < n"
  shows "meta_page_slice m ix = Some (take PAGE_SIZE (drop (ix * PAGE_SIZE) (mm_bitvec m)))"
    "length (take PAGE_SIZE (drop (ix * PAGE_SIZE) (mm_bitvec m))) = PAGE_SIZE"
proof -
  have "ix * PAGE_SIZE + PAGE_SIZE \<le> n * PAGE_SIZE" using assms(2) mult_le_mono1[of "Suc ix" n PAGE_SIZE] by simp
  then show "meta_page_slice m ix = Some (take PAGE_SIZE (drop (ix * PAGE_SIZE) (mm_bitvec m)))"
    "length (take PAGE_SIZE (drop (ix * PAGE_SIZE) (mm_bitvec m))) = PAGE_SIZE"
    using assms(1) by (simp_all add: meta_page_slice_def slice_Some PAGE_SIZE_def)
qed

lemma changed_meta_pages_eq:
  assumes "length (mm_bitvec m) = n * PAGE_SIZE" "\<forall>ix\<in>set ixs. ix < n"
  shows "changed_meta_pages off m ixs = Some (map (\<lambda>ix. (ix, take PAGE_SIZE (drop (ix * PAGE_SIZE) (mm_bitvec m)))) ixs)"
  using assms(2)
proof (induction ixs)
  case (Cons ix ixs)
  then show ?case using meta_page_slice_eq(1)[OF assms(1), of ix] by (simp add: meta_bytes_index_def)
qed simp

lemma write_meta_pages_nth:
  assumes "length (mm_bitvec m) = n * PAGE_SIZE" "\<forall>ix\<in>set ixs. ix < n" "n * PAGE_SIZE \<le> length ht"
  shows "\<exists>ht'. write_meta_pages off m ixs ht = Some ht' \<and> length ht' = length ht \<and>
     (\<forall>k < length ht. ht' ! k = (if k div PAGE_SIZE \<in> set ixs then mm_bitvec m ! k else ht ! k))"
  using assms(2,3)
proof (induction ixs arbitrary: ht)
  case (Cons ix ixs)
  let ?page = "take PAGE_SIZE (drop (ix * PAGE_SIZE) (mm_bitvec m))"
  have ix: "ix < n" using Cons.prems(1) by simp
  note slice = meta_page_slice_eq[OF assms(1) ix]
  have room: "ix * PAGE_SIZE + PAGE_SIZE \<le> n * PAGE_SIZE" using ix mult_le_mono1[of "Suc ix" n PAGE_SIZE] by simp
  have infile: "in_file ht ix" using room Cons.prems(2) by (simp add: in_file_def)
  let ?ht1 = "write_page_at ht ix ?page"
  have len: "length ?ht1 = length ht" using infile slice(2) by simp
  obtain ht' where ht': "write_meta_pages off m ixs ?ht1 = Some ht'" "length ht' = length ?ht1"
    "\<forall>k < length ?ht1. ht' ! k = (if k div PAGE_SIZE \<in> set ixs then mm_bitvec m ! k else ?ht1 ! k)"
    using Cons.IH[of ?ht1] Cons.prems len by auto
  have "?ht1 ! k = (if k div PAGE_SIZE = ix then mm_bitvec m ! k else ht ! k)" if "k < length ht" for k
  proof (cases "k div PAGE_SIZE = ix")
    case True
    have "k < length (mm_bitvec m)" using True ix assms(1) by (simp add: page_in_meta[symmetric])
    from page_slice_nth[OF this] have "?page ! (k mod PAGE_SIZE) = mm_bitvec m ! k" by (simp only: True)
    then show ?thesis using nth_write_page[OF infile slice(2) that] True by simp
  next
    case False
    then show ?thesis using nth_write_page[OF infile slice(2) that] by simp
  qed
  then show ?case using ht' slice(1) len by (auto simp: meta_bytes_index_def)
qed simp


section \<open>Recovery after a crash\<close>

text \<open>The layout of the table file: the metadata pages come first and agree with the meta
  map, then the data pages.\<close>
definition ht_layout :: "ht_offsets \<Rightarrow> meta_map \<Rightarrow> bytes \<Rightarrow> bool" where
  "ht_layout off m ht \<longleftrightarrow> meta_ok m \<and> length (mm_bitvec m) = data_page_offset off * PAGE_SIZE \<and>
     length (mm_bitvec m) \<le> length ht \<and> take (length (mm_bitvec m)) ht = mm_bitvec m \<and>
     (\<forall>b < mm_buckets m. in_file ht (data_page_index off b))"

text \<open>A file caught while it is rewritten: every byte is old or new.\<close>
definition torn :: "bytes \<Rightarrow> bytes \<Rightarrow> bytes \<Rightarrow> bool" where
  "torn old new f \<longleftrightarrow> length f = length old \<and> (\<forall>k < length old. f ! k = old ! k \<or> f ! k = new ! k)"

text \<open>The bytes of the table file that a sync logs: the metadata, and the logged bytes of the
  pages that the sync writes to their buckets.\<close>
definition logged_in :: "ht_offsets \<Rightarrow> (page_id \<times> dirty_page) list \<Rightarrow> (page_id \<times> (bytes \<times> u64) option) list \<Rightarrow> nat \<Rightarrow> bool" where
  "logged_in off changes cache k \<longleftrightarrow> k div PAGE_SIZE < data_page_offset off \<or>
     list_ex (\<lambda>(c, (_, x)). case x of None \<Rightarrow> False | Some (_, b) \<Rightarrow> covers off c b k) (zip changes cache)"

lemma logged_in_zip:
  "length cs = length bs \<Longrightarrow> logged_in off cs (map2 change_cache cs bs) k \<longleftrightarrow>
     k div PAGE_SIZE < data_page_offset off \<or> (\<exists>(c, b)\<in>set (zip cs bs). covers off c b k)"
proof (induction cs bs rule: list_induct2)
  case (Cons c cs b bs)
  obtain pid d where c: "c = (pid, d)" by (cases c)
  then show ?case using Cons.IH by (auto simp: logged_in_def)
qed (simp add: logged_in_def)

lemma change_pages_data: "(pn, page) \<in> set (concat (map2 (change_pages off) cs bs)) \<Longrightarrow> data_page_offset off \<le> pn"
  by (auto simp: data_page_index_def elim!: change_pages.elims split: if_splits)

lemma changes_ok_all:
  "changes_ok os xxh seed off cs st \<Longrightarrow> prepare_changes os xxh seed off cs st = Some (Inr st') \<Longrightarrow> \<forall>c\<in>set cs. change_ok c"
proof (induction cs arbitrary: st)
  case (Cons c cs)
  obtain st1 where st1: "prepare_change os xxh seed off c st = Some (Inr st1)" "prepare_changes os xxh seed off cs st1 = Some (Inr st')"
    using Cons.prems(2) by (auto simp: bind_Inr_conv)
  then show ?case using Cons.IH[of st1] Cons.prems(1) by auto
qed simp


text \<open>What the store relies on when it prepares a sync.\<close>
definition sync_ok ::
  "os_memory \<Rightarrow> xxh \<Rightarrow> bytes \<Rightarrow> ht_offsets \<Rightarrow> u32 \<Rightarrow> (page_id \<times> dirty_page) list \<Rightarrow> meta_map \<Rightarrow> wal_builder \<Rightarrow> bucket_heap \<Rightarrow> bool" where
  "sync_ok os xxh seed off n changes m builder heap \<longleftrightarrow> wb_ok builder \<and>
     (case wal_reset os builder n of None \<Rightarrow> False | Some wal \<Rightarrow> changes_ok os xxh seed off changes (sync_start m wal heap))"

definition meta_slices :: "meta_map \<Rightarrow> nat list \<Rightarrow> (nat \<times> bytes) list" where
  "meta_slices m ixs = map (\<lambda>ix. (ix, take PAGE_SIZE (drop (ix * PAGE_SIZE) (mm_bitvec m)))) ixs"

lemma prepare_sync_Inr:
  assumes "prepare_sync os xxh seed off debug n cs m builder heap occ = Some (Inr (st, occ'))"
  obtains wal st1 mp wal2 where "wal_reset os builder n = Some wal"
    "prepare_changes os xxh seed off cs (sync_start m wal heap) = Some (Inr st1)"
    "changed_meta_pages off (ss_meta st1) (ss_changed_meta st1) = Some mp"
    "debug \<longrightarrow> distinct (map fst (ss_ht_pages st1 @ mp))" "wal_finalize os (ss_wal st1) = Some wal2"
    "st = st1\<lparr>ss_ht_pages := (if debug then sort_key fst (ss_ht_pages st1 @ mp) else ss_ht_pages st1 @ mp), ss_wal := wal2\<rparr>"
proof -
  obtain wal where w: "wal_reset os builder n = Some wal"
    using assms by (auto simp: prepare_sync_def bind_eq_Some_conv)
  obtain r where r: "prepare_changes os xxh seed off cs (sync_start m wal heap) = Some r"
    using assms w by (auto simp: prepare_sync_def bind_eq_Some_conv)
  obtain st1 where st1: "r = Inr st1" using assms w r by (cases r) (auto simp: prepare_sync_def)
  obtain mp where mp: "changed_meta_pages off (ss_meta st1) (ss_changed_meta st1) = Some mp"
    using assms w r st1 by (auto simp: prepare_sync_def bind_eq_Some_conv)
  have dis: "debug \<longrightarrow> distinct (map fst (ss_ht_pages st1 @ mp))"
    using assms w r st1 mp by (auto simp: prepare_sync_def Let_def bind_eq_Some_conv)
  obtain wal2 where w2: "wal_finalize os (ss_wal st1) = Some wal2"
    using assms w r st1 mp dis by (auto simp: prepare_sync_def Let_def bind_eq_Some_conv)
  have "st = st1\<lparr>ss_ht_pages := (if debug then sort_key fst (ss_ht_pages st1 @ mp) else ss_ht_pages st1 @ mp), ss_wal := wal2\<rparr>"
    using assms w r st1 mp dis w2 by (simp add: prepare_sync_def Let_def bind_eq_Some_conv)
  with w r st1 mp dis w2 show thesis using that by blast
qed

text \<open>What a prepared sync consists of, in terms of the buckets of its changes.\<close>
lemma prepare_sync_parts:
  assumes "prepare_sync os xxh seed off True n cs m builder heap occ = Some (Inr (st, occ'))"
    and "sync_ok os xxh seed off n cs m builder heap" "ht_layout off m old"
  obtains bs ixs where "length cs = length bs" "\<forall>c\<in>set cs. change_ok c"
    "wal_build os builder n (map2 change_entry cs bs) = Some (ss_wal st)"
    "mm_bitvec (ss_meta st) = replay_meta xxh seed (map2 change_entry cs bs) (mm_bitvec m)"
    "mm_buckets (ss_meta st) = mm_buckets m"
    "\<forall>b\<in>set bs. unat b < length (mm_bitvec m)"
    "\<forall>(c, b)\<in>set (zip cs bs). diff_cleared (dp_diff (snd c)) \<or> unat b < mm_buckets m"
    "ss_cache st = map2 change_cache cs bs"
    "\<forall>i < length (mm_bitvec m). mm_bitvec (ss_meta st) ! i = mm_bitvec m ! i \<or> i div 4096 \<in> set ixs"
    "\<forall>ix\<in>set ixs. ix < data_page_offset off"
    "ss_ht_pages st = sort_key fst (concat (map2 (change_pages off) cs bs) @ meta_slices (ss_meta st) ixs)"
    "distinct (map fst (concat (map2 (change_pages off) cs bs) @ meta_slices (ss_meta st) ixs))"
proof -
  note lay = assms(3)[unfolded ht_layout_def]
  obtain wal st1 mp wal2 where w: "wal_reset os builder n = Some wal"
    and run: "prepare_changes os xxh seed off cs (sync_start m wal heap) = Some (Inr st1)"
    and mp: "changed_meta_pages off (ss_meta st1) (ss_changed_meta st1) = Some mp"
    and dis: "distinct (map fst (ss_ht_pages st1 @ mp))" and w2: "wal_finalize os (ss_wal st1) = Some wal2"
    and st: "st = st1\<lparr>ss_ht_pages := sort_key fst (ss_ht_pages st1 @ mp), ss_wal := wal2\<rparr>"
    by (rule prepare_sync_Inr[OF assms(1)]) simp
  have ok: "changes_ok os xxh seed off cs (sync_start m wal heap)" using assms(2) w by (simp add: sync_ok_def)
  have start: "ss_meta (sync_start m wal heap) = m" "ss_wal (sync_start m wal heap) = wal"
    "ss_ht_pages (sync_start m wal heap) = []" "ss_cache (sync_start m wal heap) = []"
    "ss_changed_meta (sync_start m wal heap) = []" by (simp_all add: sync_start_def)
  obtain bs where "run_records os xxh seed off cs bs (sync_start m wal heap) st1"
    using prepare_changes_records[OF run ok] lay start by auto
  note R = this[unfolded run_records_def start]
  have lb: "length (mm_bitvec (ss_meta st1)) = data_page_offset off * PAGE_SIZE" using R lay by simp
  have ixs: "ix < data_page_offset off" if ixm: "ix \<in> set (ss_changed_meta st1)" for ix
  proof -
    have "set (ss_changed_meta st1) \<subseteq> (\<lambda>b. unat b div 4096) ` set bs" using R by simp
    then obtain b where b: "b \<in> set bs" "ix = unat b div 4096" using ixm by blast
    have "unat b < data_page_offset off * 4096" using R lay b(1) by (simp add: PAGE_SIZE_def)
    then show ?thesis using b(2) by (simp add: less_mult_imp_div_less)
  qed
  have slices: "mp = meta_slices (ss_meta st1) (ss_changed_meta st1)"
    using mp changed_meta_pages_eq[OF lb, of "ss_changed_meta st1"] ixs by (simp add: meta_slices_def)
  have build: "wal_build os builder n (map2 change_entry cs bs) = Some (ss_wal st)"
    using w R w2 st by (simp add: wal_build_def)
  show thesis
  proof (rule that[of bs "ss_changed_meta st1"])
    show "\<forall>c\<in>set cs. change_ok c" by (rule changes_ok_all[OF ok run])
    show "\<forall>ix\<in>set (ss_changed_meta st1). ix < data_page_offset off" using ixs by blast
    show "ss_ht_pages st = sort_key fst (concat (map2 (change_pages off) cs bs) @ meta_slices (ss_meta st) (ss_changed_meta st1))"
      using R st slices by simp
    show "distinct (map fst (concat (map2 (change_pages off) cs bs) @ meta_slices (ss_meta st) (ss_changed_meta st1)))"
      using R st slices dis by (simp del: set_concat map_map)
    show "wal_build os builder n (map2 change_entry cs bs) = Some (ss_wal st)" by (rule build)
    have "\<forall>i < length (mm_bitvec m). mm_bitvec (ss_meta st1) ! i = mm_bitvec m ! i \<or> i div 4096 \<in> set (ss_changed_meta st1)"
      using R by blast
    then show "\<forall>i < length (mm_bitvec m). mm_bitvec (ss_meta st) ! i = mm_bitvec m ! i \<or> i div 4096 \<in> set (ss_changed_meta st1)"
      using st by simp
  qed (use R st in \<open>simp_all del: set_concat\<close>)
qed


lemma change_pages_ok:
  assumes "\<forall>c\<in>set cs. change_ok c" "\<forall>b < mm_buckets m. in_file ht (data_page_index off b)"
    "\<forall>(c, b)\<in>set (zip cs bs). diff_cleared (dp_diff (snd c)) \<or> unat b < mm_buckets m"
    "(pn, page) \<in> set (concat (map2 (change_pages off) cs bs))"
  shows "in_file ht pn \<and> length page = PAGE_SIZE"
proof -
  obtain c b where cb: "(c, b) \<in> set (zip cs bs)" "(pn, page) \<in> set (change_pages off c b)" using assms(4) by auto
  obtain pid d where c: "c = (pid, d)" by (cases c)
  have "change_ok c" using set_zip_leftD[OF cb(1)] assms(1) by blast
  moreover have "diff_cleared (dp_diff d) \<or> unat b < mm_buckets m" using bspec[OF assms(3) cb(1)] c by simp
  ultimately show ?thesis using cb(2) assms(2) c by (auto split: if_splits)
qed

lemma ht_layout_nth: "ht_layout off m old \<Longrightarrow> k < length (mm_bitvec m) \<Longrightarrow> old ! k = mm_bitvec m ! k"
  unfolding ht_layout_def by (metis nth_take)

text \<open>The file after a complete write-out.\<close>
lemma written_out:
  assumes lay: "ht_layout off m old" and len: "length cs = length bs" and ok: "\<forall>c\<in>set cs. change_ok c"
    and rng: "\<forall>(c, b)\<in>set (zip cs bs). diff_cleared (dp_diff (snd c)) \<or> unat b < mm_buckets m"
    and bv: "length (mm_bitvec m') = length (mm_bitvec m)"
      "\<forall>i < length (mm_bitvec m). mm_bitvec m' ! i = mm_bitvec m ! i \<or> i div 4096 \<in> set ixs"
    and ixs: "\<forall>ix\<in>set ixs. ix < data_page_offset off"
    and dis: "distinct (map fst (concat (map2 (change_pages off) cs bs) @ meta_slices m' ixs))"
  defines "new \<equiv> write_ht old (sort_key fst (concat (map2 (change_pages off) cs bs) @ meta_slices m' ixs))"
  shows "length new = length old"
    "k < length old \<Longrightarrow> (c, b) \<in> set (zip cs bs) \<Longrightarrow> covers off c b k \<Longrightarrow> new ! k = change_byte c k"
    "k < length (mm_bitvec m) \<Longrightarrow> new ! k = mm_bitvec m' ! k"
proof -
  let ?data = "concat (map2 (change_pages off) cs bs)" and ?N = "data_page_offset off"
  let ?ps = "?data @ meta_slices m' ixs"
  note L = lay[unfolded ht_layout_def]
  have lbv: "length (mm_bitvec m') = ?N * PAGE_SIZE" using bv(1) L by simp
  have inN: "in_file old ix" if "ix < ?N" for ix
    using that L mult_le_mono1[of "Suc ix" ?N PAGE_SIZE] by (simp add: in_file_def)
  have pages: "\<forall>(pn, page)\<in>set (sort_key fst ?ps). in_file old pn \<and> length page = PAGE_SIZE"
    using change_pages_ok[OF ok _ rng] L ixs inN meta_page_slice_eq(2)[OF lbv]
    by (auto simp: meta_slices_def simp del: set_concat length_take length_drop)
  have dis': "distinct (map fst (sort_key fst ?ps))" using dis by (simp only: distinct_sort_keys)
  note W = write_ht_nth[OF dis' pages]
  show "length new = length old" unfolding new_def by (rule W(1))
  have nth: "new ! k = (case map_of ?ps (k div PAGE_SIZE) of None \<Rightarrow> old ! k | Some page \<Rightarrow> page ! (k mod PAGE_SIZE))"
    if "k < length old" for k
    unfolding new_def using W(2)[OF that] map_of_sort_key[OF dis] by simp
  show "new ! k = change_byte c k" if k: "k < length old" "(c, b) \<in> set (zip cs bs)" "covers off c b k"
  proof -
    have "(k div PAGE_SIZE, dp_page (snd c)) \<in> set ?data"
      using subsetD[OF pages_of_zip[OF k(2)] covers_page[OF k(3)]] .
    hence "(k div PAGE_SIZE, dp_page (snd c)) \<in> set ?ps" by (simp del: set_concat)
    hence "map_of ?ps (k div PAGE_SIZE) = Some (dp_page (snd c))" using dis by (intro map_of_is_SomeI)
    thus ?thesis using nth[OF k(1)] by simp
  qed
  show "new ! k = mm_bitvec m' ! k" if k: "k < length (mm_bitvec m)"
  proof -
    have kN: "k div PAGE_SIZE < ?N" "k < length old" using k L by (simp_all add: page_in_meta)
    have nodata: "map_of ?data (k div PAGE_SIZE) = None"
    proof (rule ccontr)
      assume "map_of ?data (k div PAGE_SIZE) \<noteq> None"
      then obtain page where "(k div PAGE_SIZE, page) \<in> set ?data" using map_of_SomeD by fastforce
      from change_pages_data[OF this] kN(1) show False by simp
    qed
    have meta: "map_of (meta_slices m' ixs) x = (if x \<in> set ixs then Some (take PAGE_SIZE (drop (x * PAGE_SIZE) (mm_bitvec m'))) else None)" for x
      unfolding meta_slices_def by (induction ixs) auto
    have old: "old ! k = mm_bitvec m ! k" by (rule ht_layout_nth[OF lay k])
    show ?thesis
    proof (cases "k div PAGE_SIZE \<in> set ixs")
      case True
      have "new ! k = take PAGE_SIZE (drop (k div PAGE_SIZE * PAGE_SIZE) (mm_bitvec m')) ! (k mod PAGE_SIZE)"
        using nth[OF kN(2)] nodata True by (simp add: map_add_def meta)
      also have "\<dots> = mm_bitvec m' ! k" by (rule page_slice_nth) (use k bv(1) in simp)
      finally show ?thesis .
    next
      case False
      then show ?thesis using nth[OF kN(2)] nodata old bv(2) k by (auto simp: map_add_def meta PAGE_SIZE_def)
    qed
  qed
qed


text \<open>The file after replaying the changes and writing the changed metadata pages.\<close>
lemma replayed_file:
  assumes "replay_records xxh seed off cs bs \<lparr>rs_ht = f, rs_meta = mf, rs_changed = []\<rparr> st'"
    and len: "length (mm_bitvec mf) = data_page_offset off * PAGE_SIZE" "length (mm_bitvec mf) \<le> length f"
      "mm_bitvec mf = take (length (mm_bitvec mf)) f"
    and bs: "\<forall>b\<in>set bs. unat b < length (mm_bitvec mf)"
  obtains f' where "write_meta_pages off (rs_meta st') (rs_changed st') (rs_ht st') = Some f'" "length f' = length f"
    "\<And>k c b. k < length f \<Longrightarrow> (c, b) \<in> set (zip cs bs) \<Longrightarrow> covers off c b k \<Longrightarrow> f' ! k = change_byte c k"
    "\<And>k. k < length f \<Longrightarrow> data_page_offset off \<le> k div PAGE_SIZE \<Longrightarrow> \<forall>(c, b)\<in>set (zip cs bs). \<not> covers off c b k \<Longrightarrow> f' ! k = f ! k"
    "\<And>k. k < length (mm_bitvec mf) \<Longrightarrow> f' ! k = replay_meta xxh seed (map2 change_entry cs bs) (mm_bitvec mf) ! k"
proof -
  note R = replay_recordsD[OF assms(1), simplified]
  let ?N = "data_page_offset off"
  have lbv: "length (mm_bitvec (rs_meta st')) = ?N * PAGE_SIZE" using R(9) len(1) by simp
  have ixs: "\<forall>ix\<in>set (rs_changed st'). ix < ?N"
  proof
    fix ix assume "ix \<in> set (rs_changed st')"
    then obtain b where "b \<in> set bs" "ix = unat b div PAGE_SIZE" using R(8) by (auto simp: PAGE_SIZE_def)
    then show "ix < ?N" using bs len(1) by (simp add: page_in_meta)
  qed
  obtain f' where f': "write_meta_pages off (rs_meta st') (rs_changed st') (rs_ht st') = Some f'"
    "length f' = length (rs_ht st')"
    "\<forall>k < length (rs_ht st'). f' ! k = (if k div PAGE_SIZE \<in> set (rs_changed st') then mm_bitvec (rs_meta st') ! k else rs_ht st' ! k)"
    using write_meta_pages_nth[OF lbv ixs, of "rs_ht st'" off] R(3) len(1,2) by auto
  have data_page: "?N \<le> k div PAGE_SIZE" if "covers off c b k" for c b k
    using that by (cases c) (simp add: data_page_index_def)
  show thesis
  proof (rule that[OF f'(1)])
    show "length f' = length f" using f'(2) R(3) by simp
    show "f' ! k = change_byte c k" if "k < length f" "(c, b) \<in> set (zip cs bs)" "covers off c b k" for k c b
      using f'(3) R(3) R(4)[OF that(1) that(2) that(3)] data_page[OF that(3)] ixs that(1) by (auto simp: not_less[symmetric] simp del: covers.simps)
    show "f' ! k = f ! k" if "k < length f" "?N \<le> k div PAGE_SIZE" "\<forall>(c, b)\<in>set (zip cs bs). \<not> covers off c b k" for k
      using f'(3) R(3) R(5)[OF that(1) that(3)] ixs that(1,2) by (auto simp: not_less[symmetric] simp del: covers.simps)
    show "f' ! k = replay_meta xxh seed (map2 change_entry cs bs) (mm_bitvec mf) ! k" if k: "k < length (mm_bitvec mf)" for k
    proof -
      have kf: "k < length f" using k len(2) by simp
      have "\<not> ?N \<le> k div PAGE_SIZE" using k len(1) by (simp add: page_in_meta not_le)
      then have none: "\<forall>(c, b)\<in>set (zip cs bs). \<not> covers off c b k" using data_page by blast
      have "rs_ht st' ! k = f ! k" using R(5)[OF kf none] .
      also have "f ! k = mm_bitvec mf ! k" using len(3) k by (metis nth_take)
      finally have old: "rs_ht st' ! k = mm_bitvec mf ! k" .
      show ?thesis using f'(3) kf R(3) R(6)[OF k] R(1) old by (auto simp: PAGE_SIZE_def)
    qed
  qed
qed

text \<open>C11
  A sync is crash safe once its log is on disk.  Let a sync be prepared from a table file
  that agrees with the meta map, and let a crash catch the file with every byte old or new.
  Opening the log recovers a file that has the new byte at every byte the log covers and is
  untouched elsewhere, returns the meta map of the prepared sync, and empties the log; when
  old and new file only differ in bytes that the log covers, the recovered file is the new
  file.\<close>
theorem recovery_completes_the_sync:
  assumes "prepare_sync os xxh seed off True n cs m builder heap occ = Some (Inr (st, occ'))"
    and "sync_ok os xxh seed off n cs m builder heap" "ht_layout off m old"
    and "torn old (write_ht old (ss_ht_pages st)) f"
  shows "\<exists>f'. recover xxh seed off n f (wal_as_slice (ss_wal st)) (m\<lparr>mm_bitvec := take (length (mm_bitvec m)) f\<rparr>) =
        Some (Inr (f', ss_meta st, [])) \<and> length f' = length old \<and>
      (\<forall>k < length old. f' ! k = (if logged_in off cs (ss_cache st) k then write_ht old (ss_ht_pages st) ! k else f ! k)) \<and>
      ((\<forall>k < length old. old ! k = write_ht old (ss_ht_pages st) ! k \<or> logged_in off cs (ss_cache st) k) \<longrightarrow>
       f' = write_ht old (ss_ht_pages st))"
proof -
  let ?new = "write_ht old (ss_ht_pages st)" and ?N = "data_page_offset off"
  let ?mf = "m\<lparr>mm_bitvec := take (length (mm_bitvec m)) f\<rparr>"
  obtain bs ixs where P: "length cs = length bs" "\<forall>c\<in>set cs. change_ok c"
    "wal_build os builder n (map2 change_entry cs bs) = Some (ss_wal st)"
    "mm_bitvec (ss_meta st) = replay_meta xxh seed (map2 change_entry cs bs) (mm_bitvec m)"
    "mm_buckets (ss_meta st) = mm_buckets m"
    "\<forall>b\<in>set bs. unat b < length (mm_bitvec m)"
    "\<forall>(c, b)\<in>set (zip cs bs). diff_cleared (dp_diff (snd c)) \<or> unat b < mm_buckets m"
    "ss_cache st = map2 change_cache cs bs"
    "\<forall>i < length (mm_bitvec m). mm_bitvec (ss_meta st) ! i = mm_bitvec m ! i \<or> i div 4096 \<in> set ixs"
    "\<forall>ix\<in>set ixs. ix < ?N"
    "ss_ht_pages st = sort_key fst (concat (map2 (change_pages off) cs bs) @ meta_slices (ss_meta st) ixs)"
    "distinct (map fst (concat (map2 (change_pages off) cs bs) @ meta_slices (ss_meta st) ixs))"
    by (rule prepare_sync_parts[OF assms(1-3)])
  let ?es = "map2 change_entry cs bs"
  note L = assms(3)[unfolded ht_layout_def]
  have lst: "length (mm_bitvec (ss_meta st)) = length (mm_bitvec m)" using P(4) by simp
  note W = written_out[OF assms(3) P(1,2,7) lst P(9,10,12), folded P(11)]
  have lf: "length f = length old" using assms(4) by (simp add: torn_def)
  have lmf: "length (mm_bitvec ?mf) = length (mm_bitvec m)" using L lf by simp
  have "wb_ok builder" using assms(2) by (simp add: sync_ok_def)
  then obtain j where blob: "PAGE_SIZE dvd length (wal_as_slice (ss_wal st))" "wal_as_slice (ss_wal st) = wal_text n ?es @ replicate j 0"
    using wal_build_Some[OF _ P(3)] by blast
  have "\<forall>e\<in>set ?es. entry_ok e" using P(2) change_entry_ok by (auto dest!: set_zip_leftD)
  from wal_file_read[OF this blob] obtain r where r: "wal_reader_new (wal_as_slice (ss_wal st)) = Inr r"
    "wr_sync_seqn r = n" "read_entries r = Inr ?es" by blast
  let ?s0 = "\<lparr>rs_ht = f, rs_meta = ?mf, rs_changed = []\<rparr>"
  have inf: "\<forall>(c, b)\<in>set (zip cs bs). diff_cleared (dp_diff (snd c)) \<or> in_file f (data_page_index off (unat b))"
    using P(7) L lf by (fastforce simp: in_file_def)
  have dbs: "\<forall>b\<in>set bs. unat b < length (mm_bitvec ?mf)" using P(6) by (simp only: lmf)
  have dis: "distinct (map fst (concat (map2 (change_pages off) cs bs)))" using P(12) by (simp only: map_append distinct_append)
  obtain st' where st': "recover_list xxh seed off ?es ?s0 = Some (Inr st')" "replay_records xxh seed off cs bs ?s0 st'"
    using recover_changes[OF P(2,1) _ _ dis, of ?s0 xxh seed, unfolded recover_state.select_convs, OF dbs inf] by blast
  have tk: "mm_bitvec ?mf = take (length (mm_bitvec ?mf)) f" using L lf by simp
  obtain f' where f': "write_meta_pages off (rs_meta st') (rs_changed st') (rs_ht st') = Some f'" "length f' = length f"
    "\<And>k c b. k < length f \<Longrightarrow> (c, b) \<in> set (zip cs bs) \<Longrightarrow> covers off c b k \<Longrightarrow> f' ! k = change_byte c k"
    "\<And>k. k < length f \<Longrightarrow> ?N \<le> k div PAGE_SIZE \<Longrightarrow> \<forall>(c, b)\<in>set (zip cs bs). \<not> covers off c b k \<Longrightarrow> f' ! k = f ! k"
    "\<And>k. k < length (mm_bitvec ?mf) \<Longrightarrow> f' ! k = replay_meta xxh seed ?es (mm_bitvec ?mf) ! k"
    by (rule replayed_file[OF st'(2) _ _ tk dbs]) (use L lf in simp_all)
  have "mm_bitvec ?mf ! i = mm_bitvec m ! i \<or> mm_bitvec ?mf ! i = replay_meta xxh seed ?es (mm_bitvec m) ! i"
    if i: "i < length (mm_bitvec m)" for i
  proof -
    have "f ! i = old ! i \<or> f ! i = ?new ! i" using assms(4) i L by (simp add: torn_def)
    then show ?thesis using ht_layout_nth[OF assms(3) i] W(3)[OF i] P(4) i by simp
  qed
  then have replay: "replay_meta xxh seed ?es (mm_bitvec ?mf) = replay_meta xxh seed ?es (mm_bitvec m)"
    using replay_meta_torn[OF lmf] by blast
  have meta': "rs_meta st' = ss_meta st"
    using replay_recordsD(1,2)[OF st'(2)] P(4,5) replay by simp
  have bytes: "f' ! k = (if logged_in off cs (ss_cache st) k then ?new ! k else f ! k)" if k: "k < length old" for k
  proof -
    have log: "logged_in off cs (ss_cache st) k \<longleftrightarrow> k div PAGE_SIZE < ?N \<or> (\<exists>(c, b)\<in>set (zip cs bs). covers off c b k)"
      unfolding P(8) by (rule logged_in_zip[OF P(1)])
    consider (meta) "k div PAGE_SIZE < ?N" | (data) c b where "(c, b) \<in> set (zip cs bs)" "covers off c b k"
      | (none) "?N \<le> k div PAGE_SIZE" "\<forall>(c, b)\<in>set (zip cs bs). \<not> covers off c b k"
      by (fastforce simp del: covers.simps)
    then show ?thesis
    proof cases
      case meta
      then have km: "k < length (mm_bitvec m)" using L by (simp add: page_in_meta)
      then show ?thesis using f'(5)[of k] lmf replay W(3)[OF km] P(4) meta log by simp
    next
      case data
      then show ?thesis using f'(3)[OF _ data] W(2)[OF k data] log k lf by (auto simp del: covers.simps)
    next
      case none
      then have "\<not> logged_in off cs (ss_cache st) k" using log by (auto simp del: covers.simps)
      then show ?thesis using f'(4)[OF _ none] k lf by simp
    qed
  qed
  have final: "f' = ?new" if "\<forall>k < length old. old ! k = ?new ! k \<or> logged_in off cs (ss_cache st) k"
  proof (rule nth_equalityI)
    show "length f' = length ?new" using f'(2) lf W(1) by simp
    fix k assume "k < length f'"
    then have k: "k < length old" using f'(2) lf by simp
    have "f ! k = old ! k \<or> f ! k = ?new ! k" using assms(4) k by (simp add: torn_def)
    moreover have "old ! k = ?new ! k \<or> logged_in off cs (ss_cache st) k" using that k by blast
    ultimately show "f' ! k = ?new ! k" using bytes[OF k] by (auto split: if_splits)
  qed
  have "recover xxh seed off n f (wal_as_slice (ss_wal st)) ?mf = Some (Inr (f', ss_meta st, []))"
    using r f'(1) meta' st'(1) recover_loop_list[OF r(3), of xxh seed off ?s0] by (simp add: recover_def truncate_wal_def)
  then show ?thesis using bytes final f'(2) lf by (intro exI[of _ f'] conjI) auto
qed



subsection \<open>A sample sync\<close>

definition sample_meta :: meta_map where
  "sample_meta = \<lparr>mm_buckets = 1, mm_bitvec = replicate 4096 0\<rparr>"

definition sample_dirty :: dirty_page where
  "sample_dirty = \<lparr>dp_page = sample_page, dp_diff = \<lparr>changed_nodes0 = 1, changed_nodes1 = 0\<rparr>, dp_bucket = FreshWithNoDependents\<rparr>"

lemma sample_dirty_plain: "diff_plain (dp_diff sample_dirty)" "\<not> diff_cleared (dp_diff sample_dirty)"
  by (simp_all add: sample_dirty_def diff_plain_def diff_bit_def diff_cleared_eq)

lemma sample_count: "diff_count \<lparr>changed_nodes0 = 1, changed_nodes1 = 0\<rparr> = 1"
  by code_simp

lemma sample_change_ok: "change_ok ([1], sample_dirty)"
  using sample_dirty_plain sample_page_ok by (simp add: sample_dirty_def)

lemma sample_layout: "ht_layout sample_off sample_meta (replicate 8192 0)"
  by (simp add: ht_layout_def sample_off_def sample_meta_def meta_ok_def in_file_def data_page_index_def PAGE_SIZE_def)

lemma sample_resolve:
  "resolve_bucket (\<lambda>_ _. 0) [] [1] FreshWithNoDependents sample_meta heap =
     Some (Inr (True, 0, with_meta sample_meta 0 (full_entry 0), heap))"
  using sample_allocates by (simp add: resolve_bucket_def sample_meta_def)

lemma sample_set_full: "set_full (with_meta sample_meta 0 (full_entry 0)) 0 0 = Some (with_meta sample_meta 0 (full_entry 0))"
  by (simp add: set_full_def put_meta_def with_meta_def sample_meta_def)

lemma print_entry_length:
  "entry_ok e \<Longrightarrow> length (print_entry e) = (case e of Clear _ \<Rightarrow> 9 | Update _ diff _ _ _ \<Rightarrow> 65 + 32 * diff_count diff)"
proof (cases e)
  case (Update pid diff changed ec b)
  assume "entry_ok e"
  then have "length pid = 32" "length changed = diff_count diff" "\<forall>x\<in>set changed. length x = 32" using Update by auto
  moreover have "length (concat changed) = 32 * length changed" if "\<forall>x\<in>set changed. length x = 32" for changed :: "bytes list"
    using that by (induction changed) auto
  ultimately show ?thesis using Update by simp
qed simp

lemma sample_sync:
  "\<exists>st. prepare_sync sample_os (\<lambda>_ _. 0) [] sample_off True 3 [([1], sample_dirty)] sample_meta sample_builder (\<lambda>_. 0) 0 = Some (Inr (st, 1)) \<and>
     sync_ok sample_os (\<lambda>_ _. 0) [] sample_off 3 [([1], sample_dirty)] sample_meta sample_builder (\<lambda>_. 0)"
proof -
  let ?e = "change_entry ([1], sample_dirty) 0"
  have "length (wal_text 3 [?e]) < MAX_SIZE"
  proof -
    have count: "diff_count (dp_diff sample_dirty) = 1" using sample_count by (simp add: sample_dirty_def)
    have "length (print_entry ?e) = 65 + 32 * diff_count (dp_diff sample_dirty)"
      using print_entry_length[OF change_entry_ok[OF sample_change_ok, of 0]] sample_dirty_plain(2)
      by (simp del: upt_Suc print_entry.simps change_ok.simps)
    then have "length (wal_text 3 [?e]) = 103" unfolding count
      by (simp only: wal_text_def list.map concat.simps append_Nil2 length_append to_le_length list.size)
    then show ?thesis by (simp only: MAX_SIZE_def) simp
  qed
  then obtain b3 where "wal_build sample_os sample_builder 3 [?e] = Some b3"
    using wal_build_total[OF sample_builder_ok sample_os_grants] by blast
  then obtain b1 b2 where b: "wal_reset sample_os sample_builder 3 = Some b1" "write_entry sample_os b1 ?e = Some b2"
    "wal_finalize sample_os b2 = Some b3"
    by (auto simp: wal_build_def bind_eq_Some_conv simp del: change_entry.simps)
  have hash: "hash_page_id (\<lambda>_ _. 0) [1] [] = 0" by (simp add: hash_page_id_def hash_raw_page_id_def)
  have pack: "pack_changed_nodes (dp_diff sample_dirty) (dp_page sample_dirty) = Some (packed (dp_diff sample_dirty) (dp_page sample_dirty))"
    by (rule pack_changed_nodes_eq[OF sample_dirty_plain(1) page_nodes_fit]) (simp add: sample_dirty_def sample_page_ok)
  have bucket: "dp_bucket sample_dirty = FreshWithNoDependents" by (simp add: sample_dirty_def)
  let ?m = "with_meta sample_meta 0 (full_entry 0)"
  let ?st = "(sync_start sample_meta b1 (\<lambda>_. 0))\<lparr>ss_meta := ?m, ss_wal := b2, ss_changed_meta := [0],
     ss_ht_pages := [(1, dp_page sample_dirty)], ss_cache := [([1], Some (dp_page sample_dirty, 0))], ss_delta := 1\<rparr>"
  have change: "prepare_change sample_os (\<lambda>_ _. 0) [] sample_off ([1], sample_dirty) (sync_start sample_meta b1 (\<lambda>_. 0)) = Some (Inr ?st)"
    using b(2) sample_dirty_plain(2) pack
    by (simp add: prepare_change_def prepare_updated_def bucket sync_start_def sample_resolve sample_set_full hash Let_def
          meta_page_index_def data_page_index_def sample_off_def del: upt_Suc)
  have slice: "changed_meta_pages sample_off ?m [0] = Some [(0, take 4096 (mm_bitvec ?m))]"
    by (simp add: meta_page_slice_def slice_of_def meta_bytes_index_def with_meta_def sample_meta_def)
  have "sync_ok sample_os (\<lambda>_ _. 0) [] sample_off 3 [([1], sample_dirty)] sample_meta sample_builder (\<lambda>_. 0)"
    using b(1) change sample_change_ok sample_builder_ok
    by (simp add: sync_ok_def sync_start_def bucket sample_resolve del: change_ok.simps)
  then show ?thesis using b(1,3) change slice
    by (simp add: prepare_sync_def Let_def adjust_occupied_def)
qed

theorem recovery_completes_the_sync_witness:
  "\<exists>st f'. prepare_sync sample_os (\<lambda>_ _. 0) [] sample_off True 3 [([1], sample_dirty)] sample_meta sample_builder (\<lambda>_. 0) 0 = Some (Inr (st, 1)) \<and>
     recover (\<lambda>_ _. 0) [] sample_off 3 (replicate 8192 0) (wal_as_slice (ss_wal st)) sample_meta = Some (Inr (f', ss_meta st, []))"
proof -
  obtain st where st: "prepare_sync sample_os (\<lambda>_ _. 0) [] sample_off True 3 [([1], sample_dirty)] sample_meta sample_builder (\<lambda>_. 0) 0 = Some (Inr (st, 1))"
    and ok: "sync_ok sample_os (\<lambda>_ _. 0) [] sample_off 3 [([1], sample_dirty)] sample_meta sample_builder (\<lambda>_. 0)"
    using sample_sync by blast
  have torn: "torn (replicate 8192 0) (write_ht (replicate 8192 0) (ss_ht_pages st)) (replicate 8192 0)"
    by (simp add: torn_def)
  have "sample_meta\<lparr>mm_bitvec := take (length (mm_bitvec sample_meta)) (replicate 8192 0)\<rparr> = sample_meta"
    by (simp add: sample_meta_def)
  then show ?thesis using recovery_completes_the_sync[OF st ok sample_layout torn] st by auto
qed

end
