(* ===== verification/StoreMeta.thy ===== *)
theory StoreMeta
  imports ByteReaders
begin

text \<open>
  The metadata file, \<open>nomt/src/store/meta.rs\<close>: its fixed 64-byte layout, the checks made
  when a store is opened, and reading and writing its page.
\<close>

section \<open>Layout\<close>

definition META_MAGIC :: bytes where "META_MAGIC = [78, 79, 77, 84]"
definition META_VERSION :: u32 where "META_VERSION = 1"
definition META_SIZE :: nat where "META_SIZE = 64"

record meta =
  mt_magic :: bytes
  mt_version :: u32
  mt_ln_freelist_pn :: u32
  mt_ln_bump :: u32
  mt_bbn_freelist_pn :: u32
  mt_bbn_bump :: u32
  mt_sync_seqn :: u32
  mt_bitbox_num_pages :: u32
  mt_bitbox_seed :: bytes
  mt_rollback_start_live :: u64
  mt_rollback_end_live :: u64

text \<open>The array types of the fields.\<close>
definition meta_ok :: "meta \<Rightarrow> bool" where
  "meta_ok m \<longleftrightarrow> length (mt_magic m) = 4 \<and> length (mt_bitbox_seed m) = 16"

definition meta_create_new :: "bytes \<Rightarrow> u32 \<Rightarrow> meta" where
  "meta_create_new seed num_pages =
     \<lparr>mt_magic = META_MAGIC, mt_version = META_VERSION, mt_ln_freelist_pn = 0, mt_ln_bump = 1,
      mt_bbn_freelist_pn = 0, mt_bbn_bump = 1, mt_sync_seqn = 0, mt_bitbox_num_pages = num_pages,
      mt_bitbox_seed = seed, mt_rollback_start_live = 0, mt_rollback_end_live = 0\<rparr>"

definition meta_encode_to :: "meta \<Rightarrow> bytes \<Rightarrow> bytes option" where
  "meta_encode_to m buf = do {
     assert_that (META_SIZE \<le> length buf);
     buf \<leftarrow> copy_at buf 0 (mt_magic m);
     buf \<leftarrow> copy_at buf 4 (to_le 4 (unat (mt_version m)));
     buf \<leftarrow> copy_at buf 8 (to_le 4 (unat (mt_ln_freelist_pn m)));
     buf \<leftarrow> copy_at buf 12 (to_le 4 (unat (mt_ln_bump m)));
     buf \<leftarrow> copy_at buf 16 (to_le 4 (unat (mt_bbn_freelist_pn m)));
     buf \<leftarrow> copy_at buf 20 (to_le 4 (unat (mt_bbn_bump m)));
     buf \<leftarrow> copy_at buf 24 (to_le 4 (unat (mt_sync_seqn m)));
     buf \<leftarrow> copy_at buf 28 (to_le 4 (unat (mt_bitbox_num_pages m)));
     buf \<leftarrow> copy_at buf 32 (mt_bitbox_seed m);
     buf \<leftarrow> copy_at buf 48 (to_le 8 (unat (mt_rollback_start_live m)));
     copy_at buf 56 (to_le 8 (unat (mt_rollback_end_live m))) }"

definition u32_at :: "bytes \<Rightarrow> nat \<Rightarrow> u32 option" where
  "u32_at buf i = map_option (\<lambda>b. word_of_nat (from_le b)) (slice_of buf i (i + 4))"

definition u64_at :: "bytes \<Rightarrow> nat \<Rightarrow> u64 option" where
  "u64_at buf i = map_option (\<lambda>b. word_of_nat (from_le b)) (slice_of buf i (i + 8))"

definition meta_decode :: "bytes \<Rightarrow> meta option" where
  "meta_decode buf = do {
     assert_that (META_SIZE \<le> length buf);
     magic \<leftarrow> slice_of buf 0 4;
     version \<leftarrow> u32_at buf 4;
     ln_freelist_pn \<leftarrow> u32_at buf 8;
     ln_bump \<leftarrow> u32_at buf 12;
     bbn_freelist_pn \<leftarrow> u32_at buf 16;
     bbn_bump \<leftarrow> u32_at buf 20;
     sync_seqn \<leftarrow> u32_at buf 24;
     bitbox_num_pages \<leftarrow> u32_at buf 28;
     bitbox_seed \<leftarrow> slice_of buf 32 48;
     rollback_start_live \<leftarrow> u64_at buf 48;
     rollback_end_live \<leftarrow> u64_at buf 56;
     Some \<lparr>mt_magic = magic, mt_version = version, mt_ln_freelist_pn = ln_freelist_pn,
       mt_ln_bump = ln_bump, mt_bbn_freelist_pn = bbn_freelist_pn, mt_bbn_bump = bbn_bump,
       mt_sync_seqn = sync_seqn, mt_bitbox_num_pages = bitbox_num_pages,
       mt_bitbox_seed = bitbox_seed, mt_rollback_start_live = rollback_start_live,
       mt_rollback_end_live = rollback_end_live\<rparr> }"

section \<open>Validation\<close>

datatype meta_error = InvalidMagic bytes | InvalidVersion | VersionTooNew u32 | HalfNilRange u64 u64

text \<open>The errors \<open>validate\<close> collects; it succeeds when there are none.\<close>
definition meta_errors :: "meta \<Rightarrow> meta_error list" where
  "meta_errors m =
     (if mt_magic m \<noteq> META_MAGIC then [InvalidMagic (mt_magic m)] else []) @
     (if mt_version m < 1 then [InvalidVersion]
      else if mt_version m > META_VERSION then [VersionTooNew (mt_version m)] else []) @
     (if (mt_rollback_start_live m = 0) \<noteq> (mt_rollback_end_live m = 0)
      then [HalfNilRange (mt_rollback_start_live m) (mt_rollback_end_live m)] else [])"

definition meta_validate :: "meta \<Rightarrow> meta_error list + unit" where
  "meta_validate m = (if meta_errors m = [] then Inr () else Inl (meta_errors m))"

section \<open>The metadata file\<close>

text \<open>\<open>Meta::read\<close>: \<open>Some None\<close> is the error of a failed read.\<close>
definition meta_read :: "bytes \<Rightarrow> meta option option" where
  "meta_read fd =
     (case read_page fd 0 of
        None \<Rightarrow> Some None
      | Some page \<Rightarrow> do {
          buf \<leftarrow> slice_of page 0 META_SIZE;
          m \<leftarrow> meta_decode buf;
          Some (Some m) })"

text \<open>\<open>Meta::write\<close>; the contents of the allocated page are arbitrary.\<close>
definition meta_write :: "bytes \<Rightarrow> bytes \<Rightarrow> meta \<Rightarrow> bytes option" where
  "meta_write page fd m = do {
     buf \<leftarrow> slice_of page 0 META_SIZE;
     buf \<leftarrow> meta_encode_to m buf;
     page \<leftarrow> copy_at page 0 buf;
     Some (write_page_at fd 0 page) }"

section \<open>Round trips\<close>

text \<open>The bytes of an encoded metadata block, field by field.\<close>
definition meta_bytes :: "meta \<Rightarrow> bytes" where
  "meta_bytes m = mt_magic m @ to_le 4 (unat (mt_version m)) @ to_le 4 (unat (mt_ln_freelist_pn m)) @
     to_le 4 (unat (mt_ln_bump m)) @ to_le 4 (unat (mt_bbn_freelist_pn m)) @ to_le 4 (unat (mt_bbn_bump m)) @
     to_le 4 (unat (mt_sync_seqn m)) @ to_le 4 (unat (mt_bitbox_num_pages m)) @ mt_bitbox_seed m @
     to_le 8 (unat (mt_rollback_start_live m)) @ to_le 8 (unat (mt_rollback_end_live m))"

lemma meta_bytes_length: "meta_ok m \<Longrightarrow> length (meta_bytes m) = META_SIZE"
  by (simp add: meta_bytes_def meta_ok_def META_SIZE_def)

lemma meta_encode_bytes:
  assumes "meta_ok m" "META_SIZE \<le> length buf"
  shows "meta_encode_to m buf = Some (meta_bytes m @ drop META_SIZE buf)"
  using assms
  by (simp add: meta_encode_to_def meta_bytes_def meta_ok_def META_SIZE_def slice_simps)

lemma meta_decode_bytes:
  assumes "meta_ok m"
  shows "meta_decode (meta_bytes m @ rest) = Some m"
  using assms
  by (simp add: meta_decode_def meta_bytes_def meta_ok_def META_SIZE_def slice_simps u32_at_def u64_at_def)

lemma to_le_word:
  assumes "length b = n" "8 * n = LENGTH('a::len)"
  shows "to_le n (unat (word_of_nat (from_le b) :: 'a word)) = b"
proof -
  have "(2::nat) ^ LENGTH('a) = 256 ^ n" unfolding assms(2)[symmetric] by (simp add: power_mult)
  thus ?thesis
    using from_le_bound[of b] to_le_from_le[of b] assms(1)
    by (simp add: unsigned_of_nat take_bit_nat_eq_self)
qed

lemma le_take_append: "take n xs @ take m (drop n xs) @ ys = take (n + m) xs @ ys"
  by (simp add: take_add)

lemma meta_bytes_decode:
  assumes "meta_decode buf = Some m"
  shows "meta_ok m \<and> take META_SIZE buf = meta_bytes m"
proof -
  have len: "64 \<le> length buf" using assms by (cases "64 \<le> length buf") (simp_all add: meta_decode_def META_SIZE_def)
  have "m = \<lparr>mt_magic = take 4 buf, mt_version = word_of_nat (from_le (take 4 (drop 4 buf))),
      mt_ln_freelist_pn = word_of_nat (from_le (take 4 (drop 8 buf))),
      mt_ln_bump = word_of_nat (from_le (take 4 (drop 12 buf))),
      mt_bbn_freelist_pn = word_of_nat (from_le (take 4 (drop 16 buf))),
      mt_bbn_bump = word_of_nat (from_le (take 4 (drop 20 buf))),
      mt_sync_seqn = word_of_nat (from_le (take 4 (drop 24 buf))),
      mt_bitbox_num_pages = word_of_nat (from_le (take 4 (drop 28 buf))),
      mt_bitbox_seed = take 16 (drop 32 buf),
      mt_rollback_start_live = word_of_nat (from_le (take 8 (drop 48 buf))),
      mt_rollback_end_live = word_of_nat (from_le (take 8 (drop 56 buf)))\<rparr>"
    using assms len by (simp add: meta_decode_def META_SIZE_def slice_simps u32_at_def u64_at_def)
  moreover have "take 64 buf = take 4 buf @ take 4 (drop 4 buf) @ take 4 (drop 8 buf) @ take 4 (drop 12 buf) @
      take 4 (drop 16 buf) @ take 4 (drop 20 buf) @ take 4 (drop 24 buf) @ take 4 (drop 28 buf) @
      take 16 (drop 32 buf) @ take 8 (drop 48 buf) @ take 8 (drop 56 buf)"
    using take_add[of 56 8 buf] by (simp add: le_take_append)
  ultimately show ?thesis
    using len by (simp add: meta_ok_def meta_bytes_def META_SIZE_def to_le_word)
qed

lemma write_page_0: "length page = PAGE_SIZE \<Longrightarrow> write_page_at fd 0 page = page @ drop PAGE_SIZE fd"
  by (simp add: write_page_at_def)

lemma meta_write_bytes:
  assumes "meta_ok m" "length page = PAGE_SIZE"
  shows "meta_write page fd m = Some (meta_bytes m @ drop META_SIZE page @ drop PAGE_SIZE fd)"
  using assms meta_bytes_length[OF assms(1)]
  by (simp add: meta_write_def meta_encode_bytes META_SIZE_def PAGE_SIZE_def slice_simps write_page_0[unfolded PAGE_SIZE_def])

lemma meta_validate_iff:
  "meta_validate m = Inr () \<longleftrightarrow> mt_magic m = META_MAGIC \<and> mt_version m = META_VERSION \<and>
     (mt_rollback_start_live m = 0 \<longleftrightarrow> mt_rollback_end_live m = 0)"
proof -
  have "(\<not> v < 1 \<and> \<not> META_VERSION < v) \<longleftrightarrow> v = META_VERSION" for v :: u32
    using linorder_less_linear[of v META_VERSION] by (auto simp: META_VERSION_def)
  thus ?thesis by (auto simp: meta_validate_def meta_errors_def)
qed

text \<open>C35: whatever the page buffer and the file held, the metadata
  written to the file is what is read back from it, and it passes validation exactly when it
  has the magic, the supported version and a live range with both ends nil or neither.\<close>
theorem meta_read_write:
  assumes "meta_ok m" "length page = PAGE_SIZE"
  shows "\<exists>fd'. meta_write page fd m = Some fd' \<and> meta_read fd' = Some (Some m) \<and>
    (meta_validate m = Inr () \<longleftrightarrow> mt_magic m = META_MAGIC \<and> mt_version m = 1 \<and>
      (mt_rollback_start_live m = 0 \<longleftrightarrow> mt_rollback_end_live m = 0))"
proof -
  let ?fd = "meta_bytes m @ drop META_SIZE page @ drop PAGE_SIZE fd"
  have len: "length (meta_bytes m) = META_SIZE" "META_SIZE \<le> PAGE_SIZE"
    using meta_bytes_length[OF assms(1)] by (simp_all add: META_SIZE_def PAGE_SIZE_def)
  have "read_page ?fd 0 = Some (meta_bytes m @ drop META_SIZE page)"
    using assms(2) len by (simp add: read_page_def slice_simps)
  hence "meta_read ?fd = Some (Some m)"
    using len meta_decode_bytes[OF assms(1), of "[]"] by (simp add: meta_read_def slice_simps)
  thus ?thesis
    using meta_write_bytes[OF assms, of fd] meta_validate_iff[of m] by (simp add: META_VERSION_def)
qed

theorem meta_read_write_witness:
  "\<exists>fd'. meta_write (replicate PAGE_SIZE 170) [] (meta_create_new (replicate 16 7) 64) = Some fd' \<and>
    meta_read fd' = Some (Some (meta_create_new (replicate 16 7) 64)) \<and>
    meta_validate (meta_create_new (replicate 16 7) 64) = Inr ()"
  using meta_read_write[of "meta_create_new (replicate 16 7) 64" "replicate PAGE_SIZE 170" "[]"]
  by (auto simp: meta_ok_def meta_create_new_def META_MAGIC_def META_VERSION_def)

text \<open>C36: on every file, reading the metadata does not panic; it fails
  exactly when the file has no full page, and otherwise returns a value with the array lengths
  of its fields whose encoding is the block that was read.\<close>
theorem meta_read_typed:
  "case meta_read fd of
     None \<Rightarrow> False
   | Some None \<Rightarrow> length fd < PAGE_SIZE
   | Some (Some m) \<Rightarrow> PAGE_SIZE \<le> length fd \<and> meta_ok m \<and> meta_encode_to m (take META_SIZE fd) = Some (take META_SIZE fd)"
proof (cases "length fd < PAGE_SIZE")
  case True
  then show ?thesis by (simp add: meta_read_def read_page_def slice_of_def)
next
  case False
  hence len: "META_SIZE \<le> length fd" by (simp add: META_SIZE_def PAGE_SIZE_def)
  have "meta_read fd = Option.bind (meta_decode (take META_SIZE fd)) (\<lambda>m. Some (Some m))"
    using False by (simp add: meta_read_def read_page_def slice_simps META_SIZE_def PAGE_SIZE_def min_def)
  moreover have "meta_decode (take META_SIZE fd) \<noteq> None"
    using len by (simp add: meta_decode_def META_SIZE_def slice_simps u32_at_def u64_at_def)
  then obtain m where m: "meta_decode (take META_SIZE fd) = Some m" by blast
  ultimately show ?thesis
    using False len meta_bytes_decode[OF m] by (simp add: meta_encode_bytes meta_bytes_length)
qed

end
