(* ===== verification/SegmentFiles.thy ===== *)
theory SegmentFiles
  imports ByteReaders
begin

text \<open>
  Segment files of the rollback log: their names, \<open>nomt/src/seglog/segment_filename.rs\<close>, and
  the records in them, \<open>nomt/src/seglog/segment_rw.rs\<close>.
\<close>

section \<open>File names\<close>

text \<open>Decimal digits, as \<open>{:0>10}\<close> prints them.\<close>
fun decimal :: "nat \<Rightarrow> string" where
  "decimal n = (if n < 10 then [char_of (48 + n)] else decimal (n div 10) @ [char_of (48 + n mod 10)])"

declare decimal.simps [simp del]

definition segment_filename :: "string \<Rightarrow> u32 \<Rightarrow> string" where
  "segment_filename pre segment_id =
     (let ds = decimal (unat segment_id) in pre @ ''.'' @ replicate (10 - length ds) CHR ''0'' @ ds @ ''.log'')"

definition is_digit :: "char \<Rightarrow> bool" where
  "is_digit c \<longleftrightarrow> 48 \<le> (of_char c :: nat) \<and> (of_char c :: nat) \<le> 57"

definition digits_value :: "string \<Rightarrow> nat" where
  "digits_value = foldl (\<lambda>v c. v * 10 + (of_char c - 48)) 0"

text \<open>\<open>str::parse::<u32>\<close>: an optional plus sign and decimal digits in the range.\<close>
definition parse_u32 :: "string \<Rightarrow> u32 option" where
  "parse_u32 s =
     (let ds = (if 1 < length s \<and> hd s = CHR ''+'' then tl s else s) in
      if ds \<noteq> [] \<and> list_all is_digit ds \<and> digits_value ds < 2 ^ 32
      then Some (word_of_nat (digits_value ds)) else None)"

definition strip_prefix :: "'a list \<Rightarrow> 'a list \<Rightarrow> 'a list option" where
  "strip_prefix p s = (if take (length p) s = p then Some (drop (length p) s) else None)"

definition strip_suffix :: "'a list \<Rightarrow> 'a list \<Rightarrow> 'a list option" where
  "strip_suffix p s = map_option rev (strip_prefix (rev p) (rev s))"

datatype filename_error = MissingPrefix | MissingSuffix | MissingDot | NotTenDigits | BadNumber

definition segment_parse :: "string \<Rightarrow> string \<Rightarrow> (filename_error + u32) option" where
  "segment_parse pre filename = do {
     assert_that (pre \<noteq> []);
     Some (case strip_prefix pre filename of None \<Rightarrow> Inl MissingPrefix
       | Some without_prefix \<Rightarrow> (case strip_suffix ''.log'' without_prefix of None \<Rightarrow> Inl MissingSuffix
       | Some without_suffix \<Rightarrow> (case strip_prefix ''.'' without_suffix of None \<Rightarrow> Inl MissingDot
       | Some segment_id_str \<Rightarrow>
           if length segment_id_str \<noteq> 10 then Inl NotTenDigits
           else (case parse_u32 segment_id_str of None \<Rightarrow> Inl BadNumber | Some i \<Rightarrow> Inr i)))) }"

lemma strip_prefix_append [simp]: "strip_prefix p (p @ s) = Some s"
  by (simp add: strip_prefix_def)

lemma strip_suffix_append [simp]: "strip_suffix p (s @ p) = Some s"
  by (simp add: strip_suffix_def)

lemma of_char_digit: "d < 10 \<Longrightarrow> (of_char (char_of (48 + d)) :: nat) = 48 + d"
  by simp

lemma digits_value_snoc: "digits_value (ds @ [c]) = digits_value ds * 10 + (of_char c - 48)"
  by (simp add: digits_value_def)

lemma digits_value_zeros: "digits_value (replicate n CHR ''0'' @ ds) = digits_value ds"
  by (induction n) (simp_all add: digits_value_def)

lemma decimal_spec:
  "decimal n \<noteq> [] \<and> list_all is_digit (decimal n) \<and> digits_value (decimal n) = n"
proof (induction n rule: decimal.induct)
  case (1 n)
  show ?case
  proof (cases "n < 10")
    case True
    have "decimal n = [char_of (48 + n)]" using True by (subst decimal.simps) simp
    then show ?thesis using of_char_digit[OF True] True by (simp add: is_digit_def digits_value_def)
  next
    case False
    have "decimal n = decimal (n div 10) @ [char_of (48 + n mod 10)]" using False by (subst decimal.simps) simp
    moreover have "n mod 10 < 10" by simp
    ultimately show ?thesis
      using "1.IH"[OF False] of_char_digit[of "n mod 10"] by (simp add: is_digit_def digits_value_snoc)
  qed
qed

lemma decimal_length: "n < 10 ^ k \<Longrightarrow> 0 < k \<Longrightarrow> length (decimal n) \<le> k"
proof (induction n arbitrary: k rule: decimal.induct)
  case (1 n)
  show ?case
  proof (cases "n < 10")
    case True
    then show ?thesis using "1.prems" by (subst decimal.simps) simp
  next
    case False
    with "1.prems" obtain j where j: "k = Suc j" "0 < j" by (cases k) (auto, cases "k - 1", auto)
    have "n div 10 < 10 ^ j" using "1.prems"(1) j(1) by (simp add: less_mult_imp_div_less mult.commute)
    then show ?thesis using "1.IH"[OF False _ j(2)] False j(1) by (subst decimal.simps) simp
  qed
qed

lemma padded_length: "length (replicate (10 - length (decimal (unat i))) CHR ''0'' @ decimal (unat (i :: u32))) = 10"
proof -
  have "unat i < 10 ^ 10" using unsigned_less[of i, where ?'a = nat] by simp
  thus ?thesis using decimal_length[of "unat i" 10] by simp
qed

lemma parse_padded: "parse_u32 (replicate n CHR ''0'' @ decimal (unat i)) = Some (i :: u32)"
proof -
  let ?s = "replicate n CHR ''0'' @ decimal (unat i)"
  have all: "list_all is_digit ?s" "?s \<noteq> []" "digits_value ?s = unat i"
    using decimal_spec[of "unat i"] by (auto simp: digits_value_zeros list_all_iff is_digit_def)
  hence "is_digit (hd ?s)" by (cases ?s) auto
  hence "hd ?s \<noteq> CHR ''+''" by (auto simp: is_digit_def)
  thus ?thesis using all unsigned_less[of i, where ?'a = nat] by (simp add: parse_u32_def Let_def)
qed

lemma segment_parse_parts:
  assumes "pre \<noteq> []" "length ds = 10" "parse_u32 ds = Some i"
  shows "segment_parse pre (pre @ (''.'' @ ds) @ ''.log'') = Some (Inr i)"
proof -
  have "strip_suffix ''.log'' ((''.'' @ ds) @ ''.log'') = Some (''.'' @ ds)" by (rule strip_suffix_append)
  moreover have "strip_prefix ''.'' (''.'' @ ds) = Some ds" by (rule strip_prefix_append)
  ultimately show ?thesis using assms by (simp add: segment_parse_def)
qed

lemma segment_parse_filename: "pre \<noteq> [] \<Longrightarrow> segment_parse pre (segment_filename pre i) = Some (Inr i)"
  using segment_parse_parts[OF _ padded_length[of i] parse_padded[of _ i]]
  by (simp add: segment_filename_def Let_def)

lemma segment_filename_inject:
  assumes "pre \<noteq> []" "segment_filename pre i = segment_filename pre j"
  shows "i = j"
proof -
  let ?d = "\<lambda>i. replicate (10 - length (decimal (unat i))) CHR ''0'' @ decimal (unat i)"
  have "?d i = ?d j" using assms(2) by (simp add: segment_filename_def Let_def)
  thus ?thesis using parse_padded[of _ i] parse_padded[of _ j] by (metis option.inject)
qed

text \<open>Digit strings of one length are told apart by their values.\<close>
lemma digit_inject:
  assumes "is_digit c" "is_digit d" "(of_char c :: nat) - 48 = of_char d - 48"
  shows "c = d"
proof -
  have "(of_char c :: nat) = of_char d" using assms unfolding is_digit_def by linarith
  then show ?thesis by simp
qed

lemma digits_value_inject:
  "length xs = length ys \<Longrightarrow> list_all is_digit xs \<Longrightarrow> list_all is_digit ys \<Longrightarrow>
     digits_value xs = digits_value ys \<Longrightarrow> xs = ys"
proof (induction xs arbitrary: ys rule: rev_induct)
  case (snoc c xs)
  then obtain zs d where ys: "ys = zs @ [d]" "length xs = length zs" by (cases ys rule: rev_cases) auto
  have dg: "is_digit c" "is_digit d" using snoc.prems ys(1) by simp_all
  then have "(of_char c :: nat) - 48 < 10" "(of_char d :: nat) - 48 < 10" by (auto simp: is_digit_def)
  moreover have sum: "digits_value xs * 10 + (of_char c - 48) = digits_value zs * 10 + (of_char d - 48)"
    using snoc.prems(4) ys(1) by (simp add: digits_value_snoc)
  ultimately have eq: "digits_value xs = digits_value zs" by linarith
  with sum have "(of_char c :: nat) - 48 = of_char d - 48" by simp
  then show ?case using eq snoc.IH[OF ys(2)] snoc.prems(2,3) ys(1) digit_inject[OF dg] by simp
qed simp

definition padded :: "u32 \<Rightarrow> string" where
  "padded i = replicate (10 - length (decimal (unat i))) CHR ''0'' @ decimal (unat i)"

lemma padded_spec: "length (padded i) = 10" "list_all is_digit (padded i)" "digits_value (padded i) = unat i"
  using padded_length[of i] decimal_spec[of "unat i"]
  by (auto simp: padded_def digits_value_zeros list_all_iff is_digit_def)

lemma unat_digits: "digits_value ds < 2 ^ 32 \<Longrightarrow> unat (word_of_nat (digits_value ds) :: u32) = digits_value ds"
  by (simp add: unsigned_of_nat take_bit_nat_eq_self)

lemma parse_ten:
  assumes "length s = 10"
  shows "parse_u32 s = Some i \<longleftrightarrow> s = padded i \<or>
    (\<exists>ds. s = CHR ''+'' # ds \<and> length ds = 9 \<and> list_all is_digit ds \<and> digits_value ds = unat i)"
proof (cases "hd s = CHR ''+''")
  case True
  then obtain ds where s: "s = CHR ''+'' # ds" "length ds = 9" using assms by (cases s) auto
  have "s \<noteq> padded i" using padded_spec(2)[of i] s(1) by (cases "padded i") (auto simp: is_digit_def)
  moreover have "parse_u32 s = Some i \<longleftrightarrow> list_all is_digit ds \<and> digits_value ds = unat i"
    using s unat_digits[of ds] unsigned_less[of i, where ?'a = nat] by (auto simp: parse_u32_def Let_def)
  ultimately show ?thesis using s by auto
next
  case False
  then have "parse_u32 s = Some i \<longleftrightarrow> list_all is_digit s \<and> digits_value s = unat i"
    using assms unat_digits[of s] unsigned_less[of i, where ?'a = nat] by (auto simp: parse_u32_def Let_def)
  also have "\<dots> \<longleftrightarrow> s = padded i"
    using digits_value_inject[of s "padded i"] padded_spec[of i] assms by auto
  finally show ?thesis using False by auto
qed

lemma strip_prefix_Some: "strip_prefix p s = Some r \<longleftrightarrow> s = p @ r"
  by (auto simp: strip_prefix_def) (metis append_take_drop_id)

lemma strip_suffix_Some: "strip_suffix p s = Some r \<longleftrightarrow> s = r @ p"
  by (auto simp: strip_suffix_def strip_prefix_Some rev_swap)

lemma segment_parse_Some:
  "segment_parse pre name = Some (Inr i) \<longleftrightarrow>
     pre \<noteq> [] \<and> (\<exists>s. name = pre @ ''.'' @ s @ ''.log'' \<and> length s = 10 \<and> parse_u32 s = Some i)"
proof
  assume "segment_parse pre name = Some (Inr i)"
  then show "pre \<noteq> [] \<and> (\<exists>s. name = pre @ ''.'' @ s @ ''.log'' \<and> length s = 10 \<and> parse_u32 s = Some i)"
    by (auto simp: segment_parse_def bind_eq_Some_conv strip_prefix_Some strip_suffix_Some split: option.splits if_splits)
next
  assume "pre \<noteq> [] \<and> (\<exists>s. name = pre @ ''.'' @ s @ ''.log'' \<and> length s = 10 \<and> parse_u32 s = Some i)"
  then show "segment_parse pre name = Some (Inr i)" using segment_parse_parts[of pre _ i] by auto
qed

lemma segment_parse_ten:
  "segment_parse pre name = Some (Inr i) \<longleftrightarrow>
     pre \<noteq> [] \<and> (\<exists>s. name = pre @ ''.'' @ s @ ''.log'' \<and> length s = 10 \<and> (s = padded i \<or>
       (\<exists>ds. s = CHR ''+'' # ds \<and> length ds = 9 \<and> list_all is_digit ds \<and> digits_value ds = unat i)))"
  unfolding segment_parse_Some using parse_ten[of _ i] by blast

text \<open>C37: which file names are segments, and of which id.
  For every prefix that is not empty, every name and every id: parsing never panics; the name parses
  to the id exactly when it is the name that \<open>format\<close> gives to this id, or the prefix, a dot, a
  plus sign and nine digits with the value of the id, and \<open>.log\<close>.  So the name of a
  segment parses back to its id, and segments with different ids have different names.\<close>
theorem segment_filename_round_trip:
  assumes "pre \<noteq> []"
  shows "segment_parse pre name \<noteq> None \<and>
    (segment_parse pre name = Some (Inr i) \<longleftrightarrow> name = segment_filename pre i \<or>
       (\<exists>ds. name = pre @ ''.+'' @ ds @ ''.log'' \<and> length ds = 9 \<and> list_all is_digit ds \<and> digits_value ds = unat i)) \<and>
    (segment_filename pre i = segment_filename pre j \<longleftrightarrow> i = j)"
proof -
  have "segment_filename pre i = pre @ ''.'' @ padded i @ ''.log''"
    by (simp add: segment_filename_def padded_def Let_def)
  then have "segment_parse pre name = Some (Inr i) \<longleftrightarrow> name = segment_filename pre i \<or>
      (\<exists>ds. name = pre @ ''.+'' @ ds @ ''.log'' \<and> length ds = 9 \<and> list_all is_digit ds \<and> digits_value ds = unat i)"
    using segment_parse_ten[of pre name i] assms padded_spec(1)[of i] by auto
  moreover have "segment_parse pre name \<noteq> None" using assms by (simp add: segment_parse_def)
  moreover have "segment_filename pre i = segment_filename pre j \<longleftrightarrow> i = j"
    using segment_filename_inject[OF assms] by auto
  ultimately show ?thesis by (intro conjI)
qed

theorem segment_filename_round_trip_witness:
  "segment_parse ''rollback'' ''rollback.4294967295.log'' = Some (Inr 4294967295) \<and>
   segment_parse ''rollback'' ''rollback.+000000001.log'' = Some (Inr 1) \<and>
   segment_parse ''rollback'' ''rollback.000000001.log'' \<noteq> Some (Inr 1) \<and>
   segment_filename ''rollback'' 4294967295 \<noteq> segment_filename ''rollback'' 1"
proof -
  have "''rollback.4294967295.log'' = segment_filename ''rollback'' 4294967295"
    by (simp add: segment_filename_def decimal.simps char_of_def bit_iff_odd)
  then have "segment_parse ''rollback'' ''rollback.4294967295.log'' = Some (Inr 4294967295)"
    using segment_filename_round_trip[of "''rollback''" "''rollback.4294967295.log''" 4294967295] by blast
  moreover have "segment_parse ''rollback'' ''rollback.+000000001.log'' = Some (Inr 1)"
    using segment_filename_round_trip[of "''rollback''" "''rollback.+000000001.log''" 1]
    by (auto simp: is_digit_def digits_value_def intro!: exI[of _ "''000000001''"])
  moreover have "length ''rollback.000000001.log'' \<noteq> length (segment_filename ''rollback'' 1)"
    by (simp add: segment_filename_def decimal.simps)
  then have "''rollback.000000001.log'' \<noteq> segment_filename ''rollback'' 1" by metis
  then have "segment_parse ''rollback'' ''rollback.000000001.log'' \<noteq> Some (Inr 1)"
    using segment_filename_round_trip[of "''rollback''" "''rollback.000000001.log''" 1] by simp
  moreover have "segment_filename ''rollback'' 4294967295 \<noteq> segment_filename ''rollback'' 1"
    using segment_filename_round_trip[of "''rollback''" _ 4294967295 1] by simp
  ultimately show ?thesis by blast
qed

lemma segment_filename_prefix: "take (length pre) (segment_filename pre i) = pre"
  by (simp add: segment_filename_def Let_def)


section \<open>Records\<close>

definition RECORD_ALIGNMENT :: nat where "RECORD_ALIGNMENT = 4096"
definition HEADER_SIZE :: nat where "HEADER_SIZE = 12"
definition MAX_RECORD_PAYLOAD_SIZE :: nat where "MAX_RECORD_PAYLOAD_SIZE = 2 ^ 30"

type_synonym record_id = u64

text \<open>\<open>RecordHeaderMut\<close>: the payload length and the record id, written into twelve zeros.\<close>
definition header_bytes :: "u32 \<Rightarrow> record_id \<Rightarrow> bytes option" where
  "header_bytes len rid = do {
     h \<leftarrow> copy_at (replicate HEADER_SIZE 0) 0 (to_le 4 (unat len));
     copy_at h 4 (to_le 8 (unat rid)) }"

text \<open>\<open>RecordHeader\<close>.\<close>
record record_header =
  rh_payload_length :: u32
  rh_record_id :: record_id

definition parse_header :: "bytes \<Rightarrow> record_header option" where
  "parse_header h = do {
     assert_that (HEADER_SIZE \<le> length h);
     l \<leftarrow> slice_of h 0 4;
     r \<leftarrow> slice_of h 4 12;
     Some \<lparr>rh_payload_length = word_of_nat (from_le l), rh_record_id = word_of_nat (from_le r)\<rparr> }"

text \<open>The writer, over the contents of its file, which is opened for appending.\<close>
record segment_writer =
  sw_file :: bytes
  sw_file_size :: nat

definition sw_new :: "bytes \<Rightarrow> nat \<Rightarrow> segment_writer" where
  "sw_new fl sz = \<lparr>sw_file = fl, sw_file_size = sz\<rparr>"

definition write_header :: "segment_writer \<Rightarrow> u32 \<Rightarrow> record_id \<Rightarrow> segment_writer option" where
  "write_header w len rid = do {
     h \<leftarrow> header_bytes len rid;
     Some (w\<lparr>sw_file := sw_file w @ h, sw_file_size := sw_file_size w + HEADER_SIZE\<rparr>) }"

definition write_payload :: "segment_writer \<Rightarrow> bytes \<Rightarrow> segment_writer" where
  "write_payload w payload =
     (let current_end = sw_file_size w + length payload;
          next_pos = (if current_end mod RECORD_ALIGNMENT = 0 then current_end
                      else (current_end div RECORD_ALIGNMENT + 1) * RECORD_ALIGNMENT)
      in w\<lparr>sw_file := set_len (sw_file w @ payload) next_pos, sw_file_size := next_pos\<rparr>)"

text \<open>The reader.\<close>
record segment_reader =
  sr_file :: bytes
  sr_pos :: nat
  sr_next_pos :: "nat option"
  sr_payload_length :: "u32 option"
  sr_file_size :: nat

definition sr_new :: "bytes \<Rightarrow> nat option \<Rightarrow> segment_reader" where
  "sr_new fl file_size =
     \<lparr>sr_file = fl, sr_pos = 0, sr_next_pos = None, sr_payload_length = None,
      sr_file_size = (case file_size of Some n \<Rightarrow> n | None \<Rightarrow> length fl)\<rparr>"

datatype segment_error = SegmentEof | PayloadTooLarge u32

text \<open>\<open>read_exact\<close> at the position of the reader.\<close>
definition sr_read_exact :: "segment_reader \<Rightarrow> nat \<Rightarrow> segment_error + bytes \<times> segment_reader" where
  "sr_read_exact r n =
     (if sr_pos r + n \<le> length (sr_file r)
      then Inr (take n (drop (sr_pos r) (sr_file r)), r\<lparr>sr_pos := sr_pos r + n\<rparr>)
      else Inl SegmentEof)"

definition read_header :: "segment_reader \<Rightarrow> (segment_error + record_header option \<times> segment_reader) option" where
  "read_header r =
     (if (case sr_next_pos r of Some n \<Rightarrow> n | None \<Rightarrow> 0) \<ge> sr_file_size r then Some (Inr (None, r))
      else case sr_read_exact r HEADER_SIZE of
        Inl e \<Rightarrow> Some (Inl e)
      | Inr (h, r1) \<Rightarrow> do {
          header \<leftarrow> parse_header h;
          if unat (rh_payload_length header) > MAX_RECORD_PAYLOAD_SIZE
          then Some (Inl (PayloadTooLarge (rh_payload_length header)))
          else Some (Inr (Some header, r1\<lparr>sr_payload_length := Some (rh_payload_length header),
            sr_next_pos := Some ((sr_pos r1 + unat (rh_payload_length header) + RECORD_ALIGNMENT - 1)
              div RECORD_ALIGNMENT * RECORD_ALIGNMENT)\<rparr>)) })"

definition seek_next :: "segment_reader \<Rightarrow> segment_reader option" where
  "seek_next r = map_option (\<lambda>n. r\<lparr>sr_pos := n\<rparr>) (sr_next_pos r)"

definition skip_payload :: "segment_reader \<Rightarrow> segment_reader option" where
  "skip_payload r = seek_next r"

definition read_payload :: "segment_reader \<Rightarrow> (segment_error + bytes \<times> segment_reader) option" where
  "read_payload r = do {
     len \<leftarrow> sr_payload_length r;
     case sr_read_exact r (unat len) of
       Inl e \<Rightarrow> Some (Inl e)
     | Inr (payload, r1) \<Rightarrow> do { r2 \<leftarrow> seek_next r1; Some (Inr (payload, r2)) } }"

text \<open>Every record read moves the reader forward.\<close>
lemma read_header_moves:
  assumes "read_header r = Some (Inr (Some h, r1))"
  shows "sr_pos r + 12 \<le> length (sr_file r) \<and> sr_file r1 = sr_file r \<and>
    (\<exists>n. sr_next_pos r1 = Some n \<and> sr_pos r + 12 \<le> n)"
proof -
  have le: "x \<le> (x + RECORD_ALIGNMENT - 1) div RECORD_ALIGNMENT * RECORD_ALIGNMENT" for x
    using round_up_page_ge[of x] by (simp add: round_up_page_def RECORD_ALIGNMENT_def PAGE_SIZE_def)
  obtain hb where "sr_pos r + 12 \<le> length (sr_file r)"
    "r1 = r\<lparr>sr_pos := sr_pos r + 12, sr_payload_length := Some (rh_payload_length h),
        sr_next_pos := Some ((sr_pos r + 12 + unat (rh_payload_length h) + RECORD_ALIGNMENT - 1)
              div RECORD_ALIGNMENT * RECORD_ALIGNMENT)\<rparr>"
    using assms by (auto simp: read_header_def sr_read_exact_def HEADER_SIZE_def bind_eq_Some_conv
      split: if_splits option.splits)
  thus ?thesis using le[of "sr_pos r + 12 + unat (rh_payload_length h)"] by simp
qed

lemma seek_next_pos: "seek_next r = Some r' \<Longrightarrow> sr_next_pos r = Some (sr_pos r') \<and> sr_file r' = sr_file r"
  by (auto simp: seek_next_def)

lemma read_payload_pos:
  "read_payload r = Some (Inr (p, r')) \<Longrightarrow> sr_next_pos r = Some (sr_pos r') \<and> sr_file r' = sr_file r"
  by (auto simp: read_payload_def sr_read_exact_def bind_eq_Some_conv split: if_splits dest!: seek_next_pos)

end
