(* ===== verification/SegLog.thy ===== *)
theory SegLog
  imports SegmentFiles "HOL-Library.AList"
begin

text \<open>
  The segmented log, \<open>nomt/src/seglog/mod.rs\<close>: appending records, pruning at both ends, and
  opening a directory of segment files.  The directory is an association list from file names
  to contents, in the order \<open>read_dir\<close> lists it.  A file operation fails when the file is
  missing, or present for \<open>create_new\<close>; operations return their result together with the log
  and the directory they leave, and \<open>None\<close> is a panic.
\<close>

type_synonym directory = "(string \<times> bytes) list"

datatype io_error = NotFound | AlreadyExists | SegmentError segment_error | RecordNotFound

record segment =
  sg_id :: u32
  sg_path :: string
  sg_min :: record_id
  sg_max :: record_id

text \<open>\<open>head_segment_writer\<close> is the path of the open file and the size the writer counts.\<close>
record segmented_log =
  sl_filename_prefix :: string
  sl_max_segment_size :: nat
  sl_start_live :: record_id
  sl_end_live :: record_id
  sl_segments :: "segment list"
  sl_head_segment_writer :: "(string \<times> nat) option"

definition record_next :: "record_id \<Rightarrow> record_id option" where
  "record_next r = (if unat r + 1 < 2 ^ 64 then Some (r + 1) else None)"

definition record_prev :: "record_id \<Rightarrow> record_id option" where
  "record_prev r = (if r = 0 then None else Some (r - 1))"

definition remove_file :: "string \<Rightarrow> directory \<Rightarrow> io_error + directory" where
  "remove_file path dir = (if map_of dir path = None then Inl NotFound else Inr (AList.delete path dir))"

section \<open>Appending\<close>

definition gen_segment_id :: "segmented_log \<Rightarrow> u32" where
  "gen_segment_id log = (if sl_segments log = [] then 0 else sg_id (last (sl_segments log))) + 1"

definition create_segment :: "segmented_log \<Rightarrow> directory \<Rightarrow> record_id \<Rightarrow> io_error + segmented_log \<times> directory" where
  "create_segment log dir mn =
     (let new_segment_id = gen_segment_id log;
          path = segment_filename (sl_filename_prefix log) new_segment_id
      in if map_of dir path \<noteq> None then Inl AlreadyExists
         else Inr (log\<lparr>sl_head_segment_writer := Some (path, 0),
                       sl_segments := sl_segments log @
                         [\<lparr>sg_id = new_segment_id, sg_path = path, sg_min = mn, sg_max = mn\<rparr>]\<rparr>,
                   AList.update path [] dir))"

datatype append_error = RecordTooLarge | AppendIo io_error

text \<open>The writes of \<open>append\<close> through the head writer.\<close>
definition write_record :: "string \<Rightarrow> nat \<Rightarrow> directory \<Rightarrow> record_id \<Rightarrow> bytes \<Rightarrow> (nat \<times> directory) option" where
  "write_record path sz dir rid data = do {
     fl \<leftarrow> map_of dir path;
     w \<leftarrow> write_header (sw_new fl sz) (word_of_nat (length data)) rid;
     let w = write_payload w data;
     Some (sw_file_size w, AList.update path (sw_file w) dir) }"

definition log_append ::
  "segmented_log \<Rightarrow> directory \<Rightarrow> bytes \<Rightarrow> ((append_error + record_id) \<times> segmented_log \<times> directory) option" where
  "log_append log dir data =
     (if length data > MAX_RECORD_PAYLOAD_SIZE then Some (Inl RecordTooLarge, log, dir)
      else do {
        record_id \<leftarrow> record_next (sl_end_live log);
        let created = (case sl_head_segment_writer log of
              None \<Rightarrow> create_segment log dir record_id
            | Some (path, sz) \<Rightarrow>
                if sz \<ge> sl_max_segment_size log then create_segment log dir record_id else Inr (log, dir));
        (case created of Inl e \<Rightarrow> Some (Inl (AppendIo e), log, dir)
         | Inr (log, dir) \<Rightarrow> do {
             (path, sz) \<leftarrow> sl_head_segment_writer log;
             assert_that (sl_segments log \<noteq> []);
             (sz, dir) \<leftarrow> write_record path sz dir record_id data;
             let segment = last (sl_segments log);
             let segment = segment\<lparr>sg_min := (if sg_min segment = 0 then record_id else sg_min segment),
               sg_max := record_id\<rparr>;
             Some (Inr record_id,
               log\<lparr>sl_head_segment_writer := Some (path, sz), sl_end_live := record_id,
                   sl_start_live := (if sl_start_live log = 0 then record_id else sl_start_live log),
                   sl_segments := butlast (sl_segments log) @ [segment]\<rparr>, dir) }) })"

section \<open>Pruning\<close>

text \<open>Removing files one by one, up to the first failure.\<close>
fun remove_files :: "string list \<Rightarrow> directory \<Rightarrow> (io_error + unit) \<times> directory" where
  "remove_files [] dir = (Inr (), dir)"
| "remove_files (path # paths) dir =
     (case remove_file path dir of Inl e \<Rightarrow> (Inl e, dir) | Inr dir \<Rightarrow> remove_files paths dir)"

definition remove_all_segments :: "segmented_log \<Rightarrow> directory \<Rightarrow> (io_error + unit) \<times> segmented_log \<times> directory" where
  "remove_all_segments log dir =
     (let log = log\<lparr>sl_head_segment_writer := None\<rparr> in
      case remove_files (map sg_path (sl_segments log)) dir of
        (Inl e, dir) \<Rightarrow> (Inl e, log, dir)
      | (Inr _, dir) \<Rightarrow> (Inr (), log\<lparr>sl_segments := []\<rparr>, dir))"

definition reset_live :: "segmented_log \<Rightarrow> segmented_log" where
  "reset_live log = log\<lparr>sl_start_live := 0, sl_end_live := 0\<rparr>"

text \<open>The loop of \<open>prune_oldest\<close>: the segments that remain.\<close>
fun prune_oldest_loop ::
  "string \<Rightarrow> record_id \<Rightarrow> segment list \<Rightarrow> directory \<Rightarrow> (io_error + unit) \<times> segment list \<times> directory" where
  "prune_oldest_loop pre new_start_live (s # t # segs) dir =
     (if sg_max s \<ge> new_start_live then (Inr (), s # t # segs, dir)
      else case remove_file (segment_filename pre (sg_id s)) dir of
        Inl e \<Rightarrow> (Inl e, s # t # segs, dir)
      | Inr dir \<Rightarrow> prune_oldest_loop pre new_start_live (t # segs) dir)"
| "prune_oldest_loop pre new_start_live segs dir = (Inr (), segs, dir)"

definition prune_oldest ::
  "segmented_log \<Rightarrow> directory \<Rightarrow> record_id \<Rightarrow> ((io_error + unit) \<times> segmented_log \<times> directory) option" where
  "prune_oldest log dir new_start_live =
     (if new_start_live = 0 then Some (remove_all_segments (reset_live log) dir)
      else if sl_segments log = [] then Some (Inr (), log, dir)
      else do {
        assert_that (\<not> new_start_live > sl_end_live log);
        assert_that (\<not> new_start_live < sl_start_live log);
        let (res, segs, dir) = prune_oldest_loop (sl_filename_prefix log) new_start_live (sl_segments log) dir;
        Some (res, log\<lparr>sl_start_live := new_start_live, sl_segments := segs\<rparr>, dir) })"

text \<open>\<open>scan_record_end\<close>: the offset of the end of the record.\<close>
function scan_record_end_loop :: "record_id \<Rightarrow> segment_reader \<Rightarrow> (segment_error + nat option) option" where
  "scan_record_end_loop end_live r =
     Option.bind (read_header r) (\<lambda>res. case res of
        Inl e \<Rightarrow> Some (Inl e)
      | Inr (None, r1) \<Rightarrow> Some (Inr None)
      | Inr (Some header, r1) \<Rightarrow>
          Option.bind (skip_payload r1) (\<lambda>r2.
            if rh_record_id header = end_live then Some (Inr (Some (sr_pos r2)))
            else scan_record_end_loop end_live r2))"
  by pat_completeness auto
termination
  by (relation "measure (\<lambda>(_, r). length (sr_file r) - sr_pos r)")
     (auto simp: skip_payload_def dest!: read_header_moves seek_next_pos)

declare scan_record_end_loop.simps [simp del]

definition scan_record_end :: "bytes \<Rightarrow> record_id \<Rightarrow> (segment_error + nat option) option" where
  "scan_record_end fl end_live = scan_record_end_loop end_live (sr_new fl None)"

text \<open>\<open>truncate_head_segment\<close>: the new size of the writer, and the directory.\<close>
definition truncate_head_segment :: "string \<Rightarrow> directory \<Rightarrow> record_id \<Rightarrow> (io_error + nat \<times> directory) option" where
  "truncate_head_segment path dir new_end_live =
     (case map_of dir path of
        None \<Rightarrow> Some (Inl NotFound)
      | Some fl \<Rightarrow> Option.bind (scan_record_end fl new_end_live) (\<lambda>res. case res of
          Inl e \<Rightarrow> Some (Inl (SegmentError e))
        | Inr None \<Rightarrow> Some (Inl RecordNotFound)
        | Inr (Some offset) \<Rightarrow> Some (Inr (offset, AList.update path (set_len fl offset) dir))))"

text \<open>The backward search for the segment with the new live end, over the segments after the
  first, newest first.\<close>
fun locate_segment :: "record_id \<Rightarrow> segment list \<Rightarrow> nat \<Rightarrow> nat" where
  "locate_segment new_end_live segs 0 = 0"
| "locate_segment new_end_live segs (Suc i) =
     (if sg_min (segs ! Suc i) \<le> new_end_live then Suc i else locate_segment new_end_live segs i)"

text \<open>Removing the newest segments down to a length.\<close>
fun prune_recent_loop :: "string \<Rightarrow> nat \<Rightarrow> segment list \<Rightarrow> directory \<Rightarrow> (io_error + unit) \<times> segment list \<times> directory" where
  "prune_recent_loop pre 0 segs dir = (Inr (), segs, dir)"
| "prune_recent_loop pre (Suc n) segs dir =
     (case remove_file (segment_filename pre (sg_id (last segs))) dir of
        Inl e \<Rightarrow> (Inl e, segs, dir)
      | Inr dir \<Rightarrow> prune_recent_loop pre n (butlast segs) dir)"

definition prune_recent ::
  "segmented_log \<Rightarrow> directory \<Rightarrow> record_id \<Rightarrow> ((io_error + unit) \<times> segmented_log \<times> directory) option" where
  "prune_recent log dir new_end_live =
     (if new_end_live = 0 then Some (remove_all_segments (reset_live log) dir)
      else if sl_segments log = [] then Some (Inr (), log, dir)
      else
        let pre = sl_filename_prefix log;
            seg_index = locate_segment new_end_live (sl_segments log) (length (sl_segments log) - 1);
            (res, segs, dir) = prune_recent_loop pre (length (sl_segments log) - (seg_index + 1)) (sl_segments log) dir;
            log = log\<lparr>sl_segments := segs\<rparr>
        in (case res of
              Inl e \<Rightarrow> Some (Inl e, log, dir)
            | Inr _ \<Rightarrow> do {
                let log = log\<lparr>sl_head_segment_writer := None\<rparr>;
                segment \<leftarrow> get_at segs seg_index;
                let path = segment_filename pre (sg_id segment);
                res \<leftarrow> truncate_head_segment path dir new_end_live;
                (case res of
                   Inl e \<Rightarrow> Some (Inl e, log, dir)
                 | Inr (sz, dir) \<Rightarrow>
                     Some (Inr (), log\<lparr>sl_head_segment_writer := Some (path, sz),
                       sl_segments := segs[seg_index := segment\<lparr>sg_max := new_end_live\<rparr>],
                       sl_end_live := new_end_live\<rparr>, dir)) }))"

definition live_range :: "segmented_log \<Rightarrow> record_id \<times> record_id" where
  "live_range log = (sl_start_live log, sl_end_live log)"

section \<open>Opening\<close>

record recovery =
  rc_candidates :: "segment list"
  rc_start_live :: record_id
  rc_end_live :: record_id
  rc_live_segment_start :: "nat option"
  rc_live_segment_end :: "nat option"

definition recovery_new :: "record_id \<Rightarrow> record_id \<Rightarrow> recovery" where
  "recovery_new start_live end_live =
     \<lparr>rc_candidates = [], rc_start_live = start_live, rc_end_live = end_live,
      rc_live_segment_start = None, rc_live_segment_end = None\<rparr>"

datatype 'e open_error =
    HalfNil | BadFilename filename_error | SegmentIdNil | SegmentGap u32 u32 | ScanError segment_error
  | IdsNotOrdered record_id record_id | ProcessRecord 'e | NoFirstLive | NoLastLive
  | InvalidLiveIndices | OpenIo io_error

text \<open>The candidates among the entries of the directory, unsorted.\<close>
fun scan_entries :: "string \<Rightarrow> directory \<Rightarrow> ('e open_error + segment list) option" where
  "scan_entries pre [] = Some (Inr [])"
| "scan_entries pre ((filename, _) # dir) =
     (if take (length pre) filename = pre then
        Option.bind (segment_parse pre filename) (\<lambda>res. case res of
          Inl e \<Rightarrow> Some (Inl (BadFilename e))
        | Inr i \<Rightarrow> map_option (map_sum id (\<lambda>segs.
            \<lparr>sg_id = i, sg_path = filename, sg_min = 0, sg_max = 0\<rparr> # segs)) (scan_entries pre dir))
      else scan_entries pre dir)"

text \<open>The checks on the sorted candidates, given the id before them.\<close>
fun check_candidates :: "u32 option \<Rightarrow> segment list \<Rightarrow> 'e open_error option" where
  "check_candidates prev [] = None"
| "check_candidates prev (c # cs) =
     (if sg_id c = 0 then Some SegmentIdNil
      else case prev of
        Some p \<Rightarrow> if p \<noteq> sg_id c - 1 then Some (SegmentGap (sg_id c) p) else check_candidates (Some (sg_id c)) cs
      | None \<Rightarrow> check_candidates (Some (sg_id c)) cs)"

definition scan_root_dir :: "recovery \<Rightarrow> string \<Rightarrow> directory \<Rightarrow> ('e open_error + recovery) option" where
  "scan_root_dir rc pre dir = do {
     res \<leftarrow> scan_entries pre dir;
     (case res of
        Inl e \<Rightarrow> Some (Inl e)
      | Inr segs \<Rightarrow> do {
          let candidates = sort_key sg_id (rc_candidates rc @ segs);
          assert_that (distinct (map sg_id candidates));
          Some (case check_candidates None candidates of
            Some e \<Rightarrow> Inl e | None \<Rightarrow> Inr (rc\<lparr>rc_candidates := candidates\<rparr>)) }) }"

definition is_live :: "recovery \<Rightarrow> bool option" where
  "is_live rc =
     (if rc_start_live rc = 0 then do { assert_that (rc_end_live rc = 0); Some False }
      else Some (rc_live_segment_start rc \<noteq> None \<and> rc_live_segment_end rc = None))"

definition enter_live :: "nat \<Rightarrow> record_id \<Rightarrow> recovery \<Rightarrow> bool \<times> recovery" where
  "enter_live segment_index record_id rc =
     (if rc_start_live rc = 0 then (False, rc)
      else if rc_live_segment_start rc = None \<and> record_id \<ge> rc_start_live rc
      then (True, rc\<lparr>rc_live_segment_start := Some segment_index\<rparr>) else (False, rc))"

definition exit_live :: "nat \<Rightarrow> record_id \<Rightarrow> recovery \<Rightarrow> (bool \<times> recovery) option" where
  "exit_live segment_index record_id rc =
     (if rc_start_live rc = 0 then Some (False, rc)
      else do {
        live \<leftarrow> is_live rc;
        Some (if live \<and> rc_live_segment_end rc = None \<and> record_id \<ge> rc_end_live rc
              then (True, rc\<lparr>rc_live_segment_end := Some segment_index\<rparr>) else (False, rc)) })"

definition on_next_record :: "nat \<Rightarrow> record_id \<Rightarrow> recovery \<Rightarrow> ((bool \<times> bool \<times> bool) \<times> recovery) option" where
  "on_next_record segment_index record_id rc = do {
     was_live \<leftarrow> is_live rc;
     let (became_live, rc) = enter_live segment_index record_id rc;
     (became_nonlive, rc) \<leftarrow> exit_live segment_index record_id rc;
     Some ((was_live, became_live, became_nonlive), rc) }"

text \<open>The callback takes a state and returns the next one or an error.\<close>
type_synonym ('s, 'e) process_record = "'s \<Rightarrow> record_id \<Rightarrow> bytes \<Rightarrow> 'e + 's"

record scan_state =
  sc_min :: "record_id option"
  sc_max :: "record_id option"
  sc_last :: "record_id option"

text \<open>Reading the payload of a record that is passed to the callback, or skipping it.\<close>
definition scan_payload ::
  "('s, 'e) process_record \<Rightarrow> bool \<Rightarrow> record_id \<Rightarrow> segment_reader \<Rightarrow> 's \<Rightarrow> ('e open_error + segment_reader \<times> 's) option" where
  "scan_payload f pass rid r s =
     (if pass then do {
        res \<leftarrow> read_payload r;
        Some (case res of Inl e \<Rightarrow> Inl (ScanError e)
          | Inr (payload, r) \<Rightarrow> (case f s rid payload of Inl e \<Rightarrow> Inl (ProcessRecord e) | Inr s \<Rightarrow> Inr (r, s))) }
      else do { r \<leftarrow> skip_payload r; Some (Inr (r, s)) })"

lemma scan_payload_pos:
  assumes "scan_payload f pass rid r s = Some (Inr (r', s'))"
  shows "sr_next_pos r = Some (sr_pos r') \<and> sr_file r' = sr_file r"
proof (cases pass)
  case False
  then show ?thesis
    using assms by (auto simp: scan_payload_def bind_eq_Some_conv skip_payload_def dest!: seek_next_pos)
next
  case True
  then obtain res where "read_payload r = Some res" using assms by (auto simp: scan_payload_def bind_eq_Some_conv)
  moreover obtain p where "res = Inr (p, r')"
    using True assms calculation by (cases res) (auto simp: scan_payload_def split: sum.splits)
  ultimately show ?thesis using read_payload_pos by blast
qed

text \<open>The ids within a segment are consecutive.\<close>
definition check_order :: "record_id option \<Rightarrow> record_id \<Rightarrow> 'e open_error option option" where
  "check_order prev record_id =
     (case prev of None \<Rightarrow> Some None
      | Some l \<Rightarrow> do {
          n \<leftarrow> record_next l;
          Some (if record_id = n then None else Some (IdsNotOrdered record_id n)) })"

function scan_segment_loop ::
  "('s, 'e) process_record \<Rightarrow> nat \<Rightarrow> segment_reader \<Rightarrow> scan_state \<Rightarrow> recovery \<Rightarrow> 's \<Rightarrow>
   ('e open_error + scan_state \<times> recovery \<times> 's) option" where
  "scan_segment_loop f index r sc rc s =
     Option.bind (read_header r) (\<lambda>res. case res of
        Inl e \<Rightarrow> Some (Inl (ScanError e))
      | Inr (None, r1) \<Rightarrow> Some (Inr (sc, rc, s))
      | Inr (Some header, r1) \<Rightarrow>
          (let record_id = rh_record_id header in
           Option.bind (check_order (sc_last sc) record_id) (\<lambda>bad. case bad of
             Some e \<Rightarrow> Some (Inl e)
           | None \<Rightarrow>
               Option.bind (on_next_record index record_id rc) (\<lambda>((was_live, became_live, became_nonlive), rc).
               Option.bind (scan_payload f (was_live \<or> became_live \<or> became_nonlive) record_id r1 s) (\<lambda>res. case res of
                 Inl e \<Rightarrow> Some (Inl e)
               | Inr (r2, s) \<Rightarrow>
                   scan_segment_loop f index r2
                     \<lparr>sc_min = (case sc_min sc of None \<Rightarrow> Some record_id | Some m \<Rightarrow> Some m),
                      sc_max = (case sc_max sc of None \<Rightarrow> Some record_id
                        | Some m \<Rightarrow> if record_id > m then Some record_id else Some m),
                      sc_last = Some record_id\<rparr> rc s)))))"
  by pat_completeness auto
termination
  by (relation "measure (\<lambda>(_, _, r, _). length (sr_file r) - sr_pos r)")
     (auto dest!: read_header_moves scan_payload_pos)

declare scan_segment_loop.simps [simp del]

definition scan_segment ::
  "('s, 'e) process_record \<Rightarrow> directory \<Rightarrow> nat \<Rightarrow> recovery \<Rightarrow> 's \<Rightarrow> ('e open_error + recovery \<times> 's) option" where
  "scan_segment f dir index rc s = do {
     candidate \<leftarrow> get_at (rc_candidates rc) index;
     (case map_of dir (sg_path candidate) of
        None \<Rightarrow> Some (Inl (OpenIo NotFound))
      | Some fl \<Rightarrow> do {
          res \<leftarrow> scan_segment_loop f index (sr_new fl (Some (length fl)))
            \<lparr>sc_min = None, sc_max = None, sc_last = None\<rparr> rc s;
          Some (case res of Inl e \<Rightarrow> Inl e
            | Inr (sc, rc, s) \<Rightarrow> Inr (rc\<lparr>rc_candidates := (rc_candidates rc)[index := candidate\<lparr>
                sg_min := (case sc_min sc of Some m \<Rightarrow> m | None \<Rightarrow> 0),
                sg_max := (case sc_max sc of Some m \<Rightarrow> m | None \<Rightarrow> 0)\<rparr>]\<rparr>, s)) }) }"

fun scan_segments ::
  "('s, 'e) process_record \<Rightarrow> directory \<Rightarrow> nat list \<Rightarrow> recovery \<Rightarrow> 's \<Rightarrow> ('e open_error + recovery \<times> 's) option" where
  "scan_segments f dir [] rc s = Some (Inr (rc, s))"
| "scan_segments f dir (i # is) rc s =
     Option.bind (scan_segment f dir i rc s) (\<lambda>res. case res of
       Inl e \<Rightarrow> Some (Inl e) | Inr (rc, s) \<Rightarrow> scan_segments f dir is rc s)"

text \<open>\<open>remove_nonlive_segments\<close>: the live segments.\<close>
definition remove_nonlive_segments :: "recovery \<Rightarrow> directory \<Rightarrow> (('e open_error + segment list) \<times> directory) option" where
  "remove_nonlive_segments rc dir =
     (case (rc_live_segment_start rc, rc_live_segment_end rc) of
        (None, None) \<Rightarrow>
          (case remove_files (map sg_path (rc_candidates rc)) dir of
             (Inl e, dir) \<Rightarrow> Some (Inl (OpenIo e), dir) | (Inr _, dir) \<Rightarrow> Some (Inr [], dir))
      | (Some start, Some end) \<Rightarrow> do {
          live \<leftarrow> slice_of (rc_candidates rc) start (end + 1);
          let nonlive = take start (rc_candidates rc) @ drop (end + 1) (rc_candidates rc);
          (case remove_files (map sg_path nonlive) dir of
             (Inl e, dir) \<Rightarrow> Some (Inl (OpenIo e), dir) | (Inr _, dir) \<Rightarrow> Some (Inr live, dir)) }
      | _ \<Rightarrow> Some (Inl InvalidLiveIndices, dir))"

definition seglog_open ::
  "('s, 'e) process_record \<Rightarrow> directory \<Rightarrow> string \<Rightarrow> nat \<Rightarrow> record_id \<Rightarrow> record_id \<Rightarrow> 's \<Rightarrow>
   (('e open_error + segmented_log \<times> 's) \<times> directory) option" where
  "seglog_open f dir pre max_segment_size start_live end_live s =
     (if (start_live = 0) \<noteq> (end_live = 0) then Some (Inl HalfNil, dir)
      else do {
        res \<leftarrow> scan_root_dir (recovery_new start_live end_live) pre dir;
        (case res of
           Inl e \<Rightarrow> Some (Inl e, dir)
         | Inr rc \<Rightarrow> do {
             res \<leftarrow> (if start_live = 0 then Some (Inr (rc, s))
               else scan_segments f dir [0..<length (rc_candidates rc)] rc s);
             (case res of
                Inl e \<Rightarrow> Some (Inl e, dir)
              | Inr (rc, s) \<Rightarrow>
                  if start_live \<noteq> 0 \<and> rc_live_segment_start rc = None then Some (Inl NoFirstLive, dir)
                  else if start_live \<noteq> 0 \<and> rc_live_segment_end rc = None then Some (Inl NoLastLive, dir)
                  else do {
                    (res, dir) \<leftarrow> remove_nonlive_segments rc dir;
                    (case res of
                       Inl e \<Rightarrow> Some (Inl e, dir)
                     | Inr segments \<Rightarrow>
                         let log = \<lparr>sl_filename_prefix = pre, sl_max_segment_size = max_segment_size,
                                    sl_start_live = start_live, sl_end_live = end_live,
                                    sl_segments = segments, sl_head_segment_writer = None\<rparr> in
                         if segments = [] then Some (Inr (log, s), dir)
                         else do {
                           let head = (last segments)\<lparr>sg_max := end_live\<rparr>;
                           res \<leftarrow> truncate_head_segment (sg_path head) dir end_live;
                           Some (case res of
                             Inl e \<Rightarrow> (Inl (OpenIo e), dir)
                           | Inr (sz, dir) \<Rightarrow>
                               (Inr (log\<lparr>sl_segments := butlast segments @ [head],
                                         sl_head_segment_writer := Some (sg_path head, sz)\<rparr>, s), dir)) }) }) }) })"

end
