(* ===== verification/SegRecords.thy ===== *)
theory SegRecords
  imports SegLog
begin

text \<open>
  Segment files as sequences of records: what the writer appends, and what the reader and
  \<open>scan_record_end\<close> find.
\<close>

type_synonym log_record = "record_id \<times> bytes"

definition rec_bytes :: "log_record \<Rightarrow> bytes" where
  "rec_bytes = (\<lambda>(rid, p). set_len (to_le 4 (length p) @ to_le 8 (unat rid) @ p) (round_up_page (12 + length p)))"

definition seg_bytes :: "log_record list \<Rightarrow> bytes" where
  "seg_bytes recs = concat (map rec_bytes recs)"

definition record_ok :: "log_record \<Rightarrow> bool" where
  "record_ok r \<longleftrightarrow> length (snd r) \<le> MAX_RECORD_PAYLOAD_SIZE"

lemma rec_bytes_split:
  "\<exists>k. rec_bytes (rid, p) = to_le 4 (length p) @ to_le 8 (unat rid) @ p @ replicate k 0"
  using round_up_page_ge[of "12 + length p"] by (auto simp: rec_bytes_def set_len_def)

lemma rec_bytes_length: "length (rec_bytes (rid, p)) = round_up_page (12 + length p)"
  using round_up_page_ge[of "12 + length p"] by (simp add: rec_bytes_def set_len_def)

lemma rec_bytes_dvd [simp]: "PAGE_SIZE dvd length (rec_bytes r)"
  by (cases r) (simp add: rec_bytes_length)

lemma seg_bytes_simps [simp]:
  "seg_bytes [] = []" "seg_bytes (r # rs) = rec_bytes r @ seg_bytes rs"
  "seg_bytes (rs @ ts) = seg_bytes rs @ seg_bytes ts"
  by (simp_all add: seg_bytes_def)

lemma seg_bytes_dvd [simp]: "PAGE_SIZE dvd length (seg_bytes rs)"
  by (induction rs) auto

lemma rec_bytes_pos: "length (rec_bytes r) > 0"
  using round_up_page_ge[of "12 + length (snd r)"] rec_bytes_length[of "fst r" "snd r"]
  unfolding prod.collapse by linarith

section \<open>Writing\<close>

lemma header_bytes_eq: "header_bytes len rid = Some (to_le 4 (unat len) @ to_le 8 (unat rid))"
  by (simp add: header_bytes_def HEADER_SIZE_def slice_simps)

lemma align_up: "(if n mod RECORD_ALIGNMENT = 0 then n else (n div RECORD_ALIGNMENT + 1) * RECORD_ALIGNMENT) = round_up_page n"
proof -
  have e: "RECORD_ALIGNMENT = PAGE_SIZE" by (simp add: RECORD_ALIGNMENT_def PAGE_SIZE_def)
  have pos: "0 < PAGE_SIZE" by (simp add: PAGE_SIZE_def)
  have n: "n = PAGE_SIZE * (n div PAGE_SIZE) + n mod PAGE_SIZE" by simp
  show ?thesis
  proof (cases "n mod PAGE_SIZE = 0")
    case True
    have "n + PAGE_SIZE - 1 = PAGE_SIZE * (n div PAGE_SIZE) + (PAGE_SIZE - 1)"
      using n True pos by linarith
    moreover have "(PAGE_SIZE * (n div PAGE_SIZE) + (PAGE_SIZE - 1)) div PAGE_SIZE = n div PAGE_SIZE"
      using pos by (subst div_mult_self4) simp_all
    ultimately show ?thesis using True by (auto simp: e round_up_page_def)
  next
    case False
    have "n + PAGE_SIZE - 1 = PAGE_SIZE * (n div PAGE_SIZE + 1) + (n mod PAGE_SIZE - 1)"
      using n False add_mult_distrib2[of PAGE_SIZE "n div PAGE_SIZE" 1] by linarith
    moreover have "n mod PAGE_SIZE - 1 < PAGE_SIZE" using pos by (meson less_imp_diff_less mod_less_divisor)
    moreover have "(PAGE_SIZE * (n div PAGE_SIZE + 1) + (n mod PAGE_SIZE - 1)) div PAGE_SIZE = n div PAGE_SIZE + 1"
      using pos calculation(2) by (subst div_mult_self4) simp_all
    ultimately have "(n + PAGE_SIZE - 1) div PAGE_SIZE = n div PAGE_SIZE + 1" by simp
    then show ?thesis using False by (simp add: e round_up_page_def)
  qed
qed

lemma round_up_page_add: "PAGE_SIZE dvd a \<Longrightarrow> round_up_page (a + n) = a + round_up_page n"
proof -
  assume "PAGE_SIZE dvd a"
  then obtain k where k: "a = PAGE_SIZE * k" by blast
  have pos: "0 < PAGE_SIZE" by (simp add: PAGE_SIZE_def)
  have e: "a + n + PAGE_SIZE - 1 = PAGE_SIZE * k + (n + PAGE_SIZE - 1)" using k pos by simp
  have "(PAGE_SIZE * k + (n + PAGE_SIZE - 1)) div PAGE_SIZE = k + (n + PAGE_SIZE - 1) div PAGE_SIZE"
    using pos by (subst div_mult_self4) simp_all
  thus ?thesis unfolding round_up_page_def e by (simp only: k distrib_left mult.commute)
qed

lemma unat_length: "length p \<le> MAX_RECORD_PAYLOAD_SIZE \<Longrightarrow> unat (word_of_nat (length p) :: u32) = length p"
  by (simp add: MAX_RECORD_PAYLOAD_SIZE_def unsigned_of_nat take_bit_nat_eq_self)

lemma write_record_bytes:
  assumes "map_of dir path = Some fl" "PAGE_SIZE dvd length fl" "record_ok (rid, data)"
  shows "write_record path (length fl) dir rid data =
    Some (length (fl @ rec_bytes (rid, data)), AList.update path (fl @ rec_bytes (rid, data)) dir)"
proof -
  let ?h = "to_le 4 (length data) @ to_le 8 (unat rid)"
  have ru: "round_up_page (length fl + HEADER_SIZE + length data) = length fl + round_up_page (12 + length data)"
    using round_up_page_add[OF assms(2), of "12 + length data"] by (simp add: HEADER_SIZE_def add.assoc)
  have "set_len ((fl @ ?h) @ data) (length fl + round_up_page (12 + length data)) = fl @ rec_bytes (rid, data)"
    using round_up_page_ge[of "12 + length data"] by (simp add: set_len_def rec_bytes_def)
  thus ?thesis
    using assms unat_length[of data] ru
    by (simp add: write_record_def write_header_def header_bytes_eq write_payload_def sw_new_def Let_def
        align_up record_ok_def rec_bytes_length)
qed

section \<open>Reading\<close>

text \<open>A reader at the start of a record or at the end of the file.\<close>
definition reader_at :: "segment_reader \<Rightarrow> bytes \<Rightarrow> nat \<Rightarrow> bool" where
  "reader_at r fl k \<longleftrightarrow> sr_file r = fl \<and> sr_pos r = k \<and> sr_file_size r = length fl \<and>
     (case sr_next_pos r of Some n \<Rightarrow> n | None \<Rightarrow> 0) = k"

lemma reader_at_new [simp]: "reader_at (sr_new fl None) fl 0" "reader_at (sr_new fl (Some (length fl))) fl 0"
  by (simp_all add: reader_at_def sr_new_def)

lemma read_header_end: "reader_at r fl (length fl) \<Longrightarrow> read_header r = Some (Inr (None, r))"
  by (simp add: reader_at_def read_header_def)

lemma read_record:
  assumes at: "reader_at r (a @ rec_bytes (rid, p) @ b) (length a)" and al: "PAGE_SIZE dvd length a" and ok: "record_ok (rid, p)"
  shows "\<exists>r1 r2. read_header r = Some (Inr (Some \<lparr>rh_payload_length = word_of_nat (length p), rh_record_id = rid\<rparr>, r1)) \<and>
    skip_payload r1 = Some r2 \<and> read_payload r1 = Some (Inr (p, r2)) \<and>
    reader_at r2 (a @ rec_bytes (rid, p) @ b) (length a + length (rec_bytes (rid, p)))"
proof -
  obtain k where k: "rec_bytes (rid, p) = to_le 4 (length p) @ to_le 8 (unat rid) @ p @ replicate k 0"
    using rec_bytes_split by blast
  let ?n = "length a + length (rec_bytes (rid, p))"
  let ?r1 = "r\<lparr>sr_pos := length a + 12, sr_payload_length := Some (word_of_nat (length p)), sr_next_pos := Some ?n\<rparr>"
  have len: "length (rec_bytes (rid, p)) = 12 + length p + k" by (simp add: k)
  have lp: "unat (word_of_nat (length p) :: u32) = length p" using unat_length ok by (simp add: record_ok_def)
  have fp: "from_le (to_le 4 (length p)) = length p"
    using ok by (intro from_le_to_le_id) (simp add: record_ok_def MAX_RECORD_PAYLOAD_SIZE_def)
  have np: "(length a + 12 + length p + RECORD_ALIGNMENT - 1) div RECORD_ALIGNMENT * RECORD_ALIGNMENT = ?n"
    using round_up_page_add[OF al, of "12 + length p"]
    by (simp add: rec_bytes_length round_up_page_def RECORD_ALIGNMENT_def PAGE_SIZE_def add.assoc)
  have ex: "sr_read_exact r 12 = Inr (to_le 4 (length p) @ to_le 8 (unat rid), r\<lparr>sr_pos := length a + 12\<rparr>)"
    using at by (simp add: reader_at_def sr_read_exact_def k)
  have "read_header r = Some (Inr (Some \<lparr>rh_payload_length = word_of_nat (length p), rh_record_id = rid\<rparr>, ?r1))"
    using at ex lp fp np ok len
    by (simp add: reader_at_def read_header_def HEADER_SIZE_def parse_header_def slice_simps record_ok_def)
  moreover have "read_payload ?r1 = Some (Inr (p, ?r1\<lparr>sr_pos := ?n\<rparr>))"
    using at lp by (simp add: read_payload_def sr_read_exact_def seek_next_def reader_at_def k)
  moreover have "reader_at (?r1\<lparr>sr_pos := ?n\<rparr>) (a @ rec_bytes (rid, p) @ b) ?n"
    using at by (simp add: reader_at_def)
  ultimately show ?thesis by (auto simp: skip_payload_def seek_next_def)
qed

lemma scan_record_end_skip:
  assumes "reader_at r (a @ rec_bytes (rid, p) @ b) (length a)" "PAGE_SIZE dvd length a" "record_ok (rid, p)"
  obtains r2 where "reader_at r2 (a @ rec_bytes (rid, p) @ b) (length a + length (rec_bytes (rid, p)))"
    "scan_record_end_loop e r = (if rid = e then Some (Inr (Some (length a + length (rec_bytes (rid, p)))))
       else scan_record_end_loop e r2)"
proof -
  obtain r1 r2 where r: "read_header r = Some (Inr (Some \<lparr>rh_payload_length = word_of_nat (length p), rh_record_id = rid\<rparr>, r1))"
    "skip_payload r1 = Some r2" "reader_at r2 (a @ rec_bytes (rid, p) @ b) (length a + length (rec_bytes (rid, p)))"
    using read_record[OF assms] by blast
  hence "sr_pos r2 = length a + length (rec_bytes (rid, p))" by (simp add: reader_at_def)
  thus ?thesis using r by (intro that[of r2]) (simp_all add: scan_record_end_loop.simps[of e r])
qed

lemma scan_record_end_loop_finds:
  assumes "\<forall>r\<in>set xs. record_ok r \<and> fst r \<noteq> rid" "record_ok (rid, p)"
    and "reader_at r (a @ seg_bytes (xs @ [(rid, p)]) @ b) (length a)" "PAGE_SIZE dvd length a"
  shows "scan_record_end_loop rid r = Some (Inr (Some (length a + length (seg_bytes (xs @ [(rid, p)])))))"
  using assms
proof (induction xs arbitrary: r a)
  case Nil
  then have "reader_at r (a @ rec_bytes (rid, p) @ b) (length a)" by simp
  from scan_record_end_skip[OF this Nil(4) Nil(2)] show ?case by (metis append_Nil append_Nil2 seg_bytes_simps(1,2))
next
  case (Cons x xs)
  obtain i q where x: "x = (i, q)" by (cases x)
  have "reader_at r (a @ rec_bytes (i, q) @ seg_bytes (xs @ [(rid, p)]) @ b) (length a)" "record_ok (i, q)" "i \<noteq> rid"
    using Cons.prems x by auto
  from scan_record_end_skip[OF this(1) Cons.prems(4) this(2), of rid] this(3) obtain r2 where
    "reader_at r2 ((a @ rec_bytes (i, q)) @ seg_bytes (xs @ [(rid, p)]) @ b) (length (a @ rec_bytes (i, q)))"
    "scan_record_end_loop rid r = scan_record_end_loop rid r2" by auto
  then show ?case using Cons.IH[of r2 "a @ rec_bytes (i, q)"] Cons.prems(1,2,4) x by simp
qed

lemma scan_record_end_loop_misses:
  assumes "\<forall>r\<in>set xs. record_ok r \<and> fst r \<noteq> rid"
    and "reader_at r (a @ seg_bytes xs) (length a)" "PAGE_SIZE dvd length a"
  shows "scan_record_end_loop rid r = Some (Inr None)"
  using assms
proof (induction xs arbitrary: r a)
  case Nil
  then have "read_header r = Some (Inr (None, r))" using read_header_end[of r a] by simp
  then show ?case by (simp add: scan_record_end_loop.simps)
next
  case (Cons x xs)
  obtain i q where x: "x = (i, q)" by (cases x)
  have "reader_at r (a @ rec_bytes (i, q) @ seg_bytes xs) (length a)" "record_ok (i, q)" "i \<noteq> rid"
    using Cons.prems x by auto
  from scan_record_end_skip[OF this(1) Cons.prems(3) this(2), of rid] this(3) obtain r2 where
    "reader_at r2 ((a @ rec_bytes (i, q)) @ seg_bytes xs) (length (a @ rec_bytes (i, q)))"
    "scan_record_end_loop rid r = scan_record_end_loop rid r2" by auto
  then show ?case using Cons.IH[of r2 "a @ rec_bytes (i, q)"] Cons.prems(1,3) by simp
qed

text \<open>Truncating a file after a record, whatever follows it, and looking for a record that is
  not there.\<close>
lemma truncate_finds:
  assumes "map_of dir path = Some (seg_bytes (xs @ [(rid, p)]) @ b)"
    and "\<forall>r\<in>set xs. record_ok r \<and> fst r \<noteq> rid" "record_ok (rid, p)"
  shows "truncate_head_segment path dir rid =
    Some (Inr (length (seg_bytes (xs @ [(rid, p)])), AList.update path (seg_bytes (xs @ [(rid, p)])) dir))"
  using scan_record_end_loop_finds[OF assms(2,3), of "sr_new (seg_bytes (xs @ [(rid, p)]) @ b) None" "[]" b] assms(1)
  by (simp add: truncate_head_segment_def scan_record_end_def set_len_def)

lemma truncate_misses:
  assumes "map_of dir path = Some (seg_bytes xs)" "\<forall>r\<in>set xs. record_ok r \<and> fst r \<noteq> rid"
  shows "truncate_head_segment path dir rid = Some (Inl RecordNotFound)"
  using scan_record_end_loop_misses[OF assms(2), of "sr_new (seg_bytes xs) None" "[]"] assms(1)
  by (simp add: truncate_head_segment_def scan_record_end_def)

end
