(* ===== verification/SegLogFacts.thy ===== *)
theory SegLogFacts
  imports SegRecords
begin

text \<open>
  The segmented log as a sequence of records.  \<open>log_rep\<close> relates a log and its directory to
  the records in its segment files; appending, pruning and opening are then operations on that
  sequence.
\<close>

section \<open>Segments and their files\<close>

definition seg_rep :: "string \<Rightarrow> directory \<Rightarrow> segment \<Rightarrow> log_record list \<Rightarrow> bool" where
  "seg_rep pre dir s recs \<longleftrightarrow> recs \<noteq> [] \<and> sg_path s = segment_filename pre (sg_id s) \<and>
     sg_min s = fst (hd recs) \<and> sg_max s = fst (last recs) \<and> map_of dir (sg_path s) = Some (seg_bytes recs)"

definition has_prefix :: "string \<Rightarrow> string \<Rightarrow> bool" where
  "has_prefix pre f \<longleftrightarrow> take (length pre) f = pre"

text \<open>The files with the prefix are the files of the segments, and the segments have
  consecutive ids.\<close>
definition segs_rep :: "string \<Rightarrow> directory \<Rightarrow> segment list \<Rightarrow> log_record list list \<Rightarrow> bool" where
  "segs_rep pre dir ss segs \<longleftrightarrow>
     pre \<noteq> [] \<and> distinct (map fst dir) \<and> list_all2 (seg_rep pre dir) ss segs \<and>
     (\<exists>a>0. map (\<lambda>s. unat (sg_id s)) ss = [a..<a + length ss]) \<and>
     (\<forall>f\<in>fst ` set dir. has_prefix pre f \<longrightarrow> f \<in> sg_path ` set ss)"

lemma segs_repD:
  assumes "segs_rep pre dir ss segs"
  shows "pre \<noteq> []" "distinct (map fst dir)" "list_all2 (seg_rep pre dir) ss segs"
    "\<exists>a>0. map (\<lambda>s. unat (sg_id s)) ss = [a..<a + length ss]"
    "\<forall>f\<in>fst ` set dir. has_prefix pre f \<longrightarrow> f \<in> sg_path ` set ss"
  using assms unfolding segs_rep_def by blast+

lemma segs_rep_length: "segs_rep pre dir ss segs \<Longrightarrow> length ss = length segs"
  by (drule segs_repD(3)) (rule list_all2_lengthD)

lemma segs_rep_nth:
  assumes "segs_rep pre dir ss segs" "i < length ss"
  shows "segs ! i \<noteq> []" "sg_path (ss ! i) = segment_filename pre (sg_id (ss ! i))"
    "sg_min (ss ! i) = fst (hd (segs ! i))" "sg_max (ss ! i) = fst (last (segs ! i))"
    "map_of dir (sg_path (ss ! i)) = Some (seg_bytes (segs ! i))"
  using list_all2_nthD[OF segs_repD(3)[OF assms(1)] assms(2)] unfolding seg_rep_def by blast+

lemma segs_rep_path: "segs_rep pre dir ss segs \<Longrightarrow> s \<in> set ss \<Longrightarrow> sg_path s = segment_filename pre (sg_id s)"
  using segs_rep_nth(2) by (auto simp: in_set_conv_nth)

lemma segs_rep_covers:
  "segs_rep pre dir ss segs \<Longrightarrow> map_of dir f \<noteq> None \<Longrightarrow> has_prefix pre f \<Longrightarrow> f \<in> sg_path ` set ss"
  using segs_repD(5) by (metis map_of_eq_None_iff)

lemma segs_rep_path_prefix: "segs_rep pre dir ss segs \<Longrightarrow> s \<in> set ss \<Longrightarrow> has_prefix pre (sg_path s)"
  by (metis in_set_conv_nth segs_rep_nth(2) has_prefix_def segment_filename_prefix)

lemma segs_rep_distinct_ids: "segs_rep pre dir ss segs \<Longrightarrow> distinct (map sg_id ss)"
proof -
  assume "segs_rep pre dir ss segs"
  from segs_repD(4)[OF this] have "distinct (map (\<lambda>s. unat (sg_id s)) ss)" by (metis distinct_upt)
  thus ?thesis by (simp add: distinct_map inj_on_def)
qed

lemma segs_rep_distinct:
  assumes "segs_rep pre dir ss segs"
  shows "distinct (map sg_path ss)"
proof -
  have "map sg_path ss = map (segment_filename pre) (map sg_id ss)"
    using segs_rep_nth(2)[OF assms] by (auto simp: in_set_conv_nth)
  moreover have "inj (segment_filename pre)"
    using segment_filename_inject[OF segs_repD(1)[OF assms]] by (auto intro: injI)
  ultimately show ?thesis
    using segs_rep_distinct_ids[OF assms] by (simp add: distinct_map inj_on_def inj_def)
qed

lemma seg_rep_cong: "map_of dir' (sg_path s) = map_of dir (sg_path s) \<Longrightarrow> seg_rep pre dir' s = seg_rep pre dir s"
  by (rule ext) (simp add: seg_rep_def)

lemma seg_all_cong:
  assumes all: "list_all2 (seg_rep pre dir) ss segs"
    and keep: "\<And>s. s \<in> set ss \<Longrightarrow> map_of dir' (sg_path s) = map_of dir (sg_path s)"
  shows "list_all2 (seg_rep pre dir') ss segs"
  unfolding list_all2_conv_all_nth
proof (intro conjI allI impI)
  show "length ss = length segs" by (rule list_all2_lengthD[OF all])
  fix i assume i: "i < length ss"
  have "seg_rep pre dir' (ss ! i) = seg_rep pre dir (ss ! i)"
    by (rule seg_rep_cong) (rule keep[OF nth_mem[OF i]])
  thus "seg_rep pre dir' (ss ! i) (segs ! i)" using list_all2_nthD[OF all i] by simp
qed

lemma segs_rep_present:
  assumes "segs_rep pre dir ss segs" "s \<in> set ss"
  shows "map_of dir (sg_path s) \<noteq> None"
proof -
  obtain i where "i < length ss" "s = ss ! i" using assms(2) unfolding in_set_conv_nth by blast
  thus ?thesis using segs_rep_nth(5)[OF assms(1), of i] by simp
qed

text \<open>Keeping a window of the segments.\<close>
lemma segs_rep_window:
  assumes rep: "segs_rep pre dir ss segs" and d: "distinct (map fst dir')"
    and keep: "\<forall>s\<in>set (take n (drop m ss)). map_of dir' (sg_path s) = map_of dir (sg_path s)"
    and sub: "\<forall>f. map_of dir' f \<noteq> None \<and> has_prefix pre f \<longrightarrow> f \<in> sg_path ` set (take n (drop m ss))"
  shows "segs_rep pre dir' (take n (drop m ss)) (take n (drop m segs))"
proof -
  obtain a where a: "a > 0" "map (\<lambda>s. unat (sg_id s)) ss = [a..<a + length ss]"
    using segs_repD(4)[OF rep] by blast
  have all: "list_all2 (seg_rep pre dir) (take n (drop m ss)) (take n (drop m segs))"
    using segs_repD(3)[OF rep] by (intro list_all2_takeI list_all2_dropI)
  have "list_all2 (seg_rep pre dir') (take n (drop m ss)) (take n (drop m segs))"
    by (rule seg_all_cong[OF all]) (rule bspec[OF keep])
  moreover have "map (\<lambda>s. unat (sg_id s)) (take n (drop m ss)) = [a + m..<a + m + length (take n (drop m ss))]"
    using a(2) by (cases "m \<le> length ss") (simp_all add: take_map[symmetric] drop_map[symmetric] min_def)
  moreover have "f \<in> sg_path ` set (take n (drop m ss))" if "f \<in> fst ` set dir'" "has_prefix pre f" for f
    using sub that by (metis map_of_eq_None_iff)
  ultimately show ?thesis
    using segs_repD(1)[OF rep] a(1) d unfolding segs_rep_def by (meson add_pos_nonneg zero_le)
qed

section \<open>Removing files\<close>

lemma remove_file_Some: "map_of dir p = Some x \<Longrightarrow> remove_file p dir = Inr (AList.delete p dir)"
  by (simp add: remove_file_def)

lemma map_of_delete: "map_of (AList.delete p dir) f = (if f = p then None else map_of dir f)"
  by (simp add: AList.delete_conv)

lemma remove_files_all:
  assumes "distinct paths" "\<forall>p\<in>set paths. map_of dir p \<noteq> None" "distinct (map fst dir)"
  shows "\<exists>dir'. remove_files paths dir = (Inr (), dir') \<and> distinct (map fst dir') \<and>
    (\<forall>f. map_of dir' f = (if f \<in> set paths then None else map_of dir f))"
  using assms
proof (induction paths arbitrary: dir)
  case (Cons p ps)
  obtain x where x: "map_of dir p = Some x" using Cons.prems(2) by auto
  have "\<forall>q\<in>set ps. map_of (AList.delete p dir) q \<noteq> None"
    using Cons.prems(1,2) by (auto simp: map_of_delete)
  from Cons.IH[OF _ this distinct_delete[OF Cons.prems(3)]] Cons.prems(1)
  obtain dir' where "remove_files ps (AList.delete p dir) = (Inr (), dir')" "distinct (map fst dir')"
    "\<forall>f. map_of dir' f = (if f \<in> set ps then None else map_of (AList.delete p dir) f)" by auto
  then show ?case using remove_file_Some[OF x] by (auto simp: map_of_delete)
qed simp

lemma prune_oldest_loop_spec:
  assumes "segs_rep pre dir ss segs" "ss \<noteq> []"
  shows "\<exists>k dir'. prune_oldest_loop pre n ss dir = (Inr (), drop k ss, dir') \<and> k < length ss \<and>
    segs_rep pre dir' (drop k ss) (drop k segs) \<and> (\<forall>s\<in>set (take k ss). sg_max s < n) \<and>
    (\<forall>f. \<not> has_prefix pre f \<longrightarrow> map_of dir' f = map_of dir f)"
  using assms
proof (induction pre n ss dir arbitrary: segs rule: prune_oldest_loop.induct)
  case (1 pre n s t ss dir)
  let ?dir = "AList.delete (sg_path s) dir"
  have path: "segment_filename pre (sg_id s) = sg_path s" "map_of dir (sg_path s) \<noteq> None" "has_prefix pre (sg_path s)"
    using segs_rep_nth[OF "1.prems"(1), of 0] segs_rep_path_prefix[OF "1.prems"(1), of s] by simp_all
  show ?case
  proof (cases "sg_max s \<ge> n")
    case True
    then show ?thesis using "1.prems" by (intro exI[of _ 0] exI[of _ dir]) simp
  next
    case False
    have rm: "remove_file (segment_filename pre (sg_id s)) dir = Inr ?dir"
      using path(1,2) by (simp add: remove_file_def)
    have dist: "\<forall>u\<in>set (t # ss). sg_path u \<noteq> sg_path s"
      using segs_rep_distinct[OF "1.prems"(1)] by (auto simp: image_iff)
    have "segs_rep pre ?dir (take (length (t # ss)) (drop 1 (s # t # ss))) (take (length (t # ss)) (drop 1 segs))"
    proof (rule segs_rep_window[OF "1.prems"(1)])
      show "distinct (map fst ?dir)" using segs_repD(2)[OF "1.prems"(1)] by (rule distinct_delete)
      show "\<forall>u\<in>set (take (length (t # ss)) (drop 1 (s # t # ss))). map_of ?dir (sg_path u) = map_of dir (sg_path u)"
        using dist by (auto simp: map_of_delete)
      show "\<forall>f. map_of ?dir f \<noteq> None \<and> has_prefix pre f \<longrightarrow> f \<in> sg_path ` set (take (length (t # ss)) (drop 1 (s # t # ss)))"
        using segs_rep_covers[OF "1.prems"(1)] by (auto simp: map_of_delete split: if_splits)
    qed
    hence "segs_rep pre ?dir (t # ss) (drop 1 segs)"
      using segs_rep_length[OF "1.prems"(1)] by simp
    from "1.IH"[OF False rm this] obtain k dir' where k: "prune_oldest_loop pre n (t # ss) ?dir = (Inr (), drop k (t # ss), dir')"
      "k < length (t # ss)" "segs_rep pre dir' (drop k (t # ss)) (drop k (drop 1 segs))"
      "\<forall>u\<in>set (take k (t # ss)). sg_max u < n" "\<forall>f. \<not> has_prefix pre f \<longrightarrow> map_of dir' f = map_of ?dir f" by blast
    show ?thesis
    proof (intro exI conjI)
      show "prune_oldest_loop pre n (s # t # ss) dir = (Inr (), drop (Suc k) (s # t # ss), dir')"
        using False rm k(1) by simp
      show "segs_rep pre dir' (drop (Suc k) (s # t # ss)) (drop (Suc k) segs)" using k(3) by simp
      show "\<forall>u\<in>set (take (Suc k) (s # t # ss)). sg_max u < n" using k(4) False by simp
      show "\<forall>f. \<not> has_prefix pre f \<longrightarrow> map_of dir' f = map_of dir f"
        using k(5) path(3) by (auto simp: map_of_delete)
    qed (use k(2) in simp)
  qed
qed (auto intro: exI[of _ "0::nat"])

lemma prune_recent_loop_spec:
  assumes "segs_rep pre dir ss segs" "n \<le> length ss"
  shows "\<exists>dir'. prune_recent_loop pre n ss dir = (Inr (), take (length ss - n) ss, dir') \<and>
    segs_rep pre dir' (take (length ss - n) ss) (take (length ss - n) segs) \<and>
    (\<forall>f. \<not> has_prefix pre f \<longrightarrow> map_of dir' f = map_of dir f)"
  using assms
proof (induction n arbitrary: ss segs dir)
  case (Suc n)
  let ?m = "length ss - 1"
  have m: "?m < length ss" "ss \<noteq> []" using Suc.prems(2) by auto
  let ?s = "ss ! ?m" let ?dir = "AList.delete (sg_path ?s) dir"
  have last: "last ss = ?s" using m(2) by (rule last_conv_nth)
  have path: "segment_filename pre (sg_id ?s) = sg_path ?s" "map_of dir (sg_path ?s) \<noteq> None" "has_prefix pre (sg_path ?s)"
    using segs_rep_nth[OF Suc.prems(1) m(1)] segs_rep_path_prefix[OF Suc.prems(1) nth_mem[OF m(1)]] by simp_all
  have rm: "remove_file (segment_filename pre (sg_id (last ss))) dir = Inr ?dir"
    using path(1,2) last by (simp add: remove_file_def)
  have split: "ss = butlast ss @ [?s]" using m(2) last by (metis append_butlast_last_id)
  have dist: "\<forall>u\<in>set (butlast ss). sg_path u \<noteq> sg_path ?s"
    using segs_rep_distinct[OF Suc.prems(1)] by (subst (asm) split) (auto simp: image_iff)
  have "segs_rep pre ?dir (take ?m (drop 0 ss)) (take ?m (drop 0 segs))"
  proof (rule segs_rep_window[OF Suc.prems(1)])
    show "distinct (map fst ?dir)" using segs_repD(2)[OF Suc.prems(1)] by (rule distinct_delete)
    show "\<forall>u\<in>set (take ?m (drop 0 ss)). map_of ?dir (sg_path u) = map_of dir (sg_path u)"
      using dist by (auto simp: map_of_delete butlast_conv_take)
    show "\<forall>f. map_of ?dir f \<noteq> None \<and> has_prefix pre f \<longrightarrow> f \<in> sg_path ` set (take ?m (drop 0 ss))"
    proof (intro allI impI)
      fix f assume f: "map_of ?dir f \<noteq> None \<and> has_prefix pre f"
      hence "f \<in> sg_path ` set ss" "f \<noteq> sg_path ?s"
        using segs_rep_covers[OF Suc.prems(1), of f] by (auto simp: map_of_delete split: if_splits)
      moreover have "set ss = insert ?s (set (butlast ss))" by (subst split) simp
      ultimately show "f \<in> sg_path ` set (take ?m (drop 0 ss))" by (auto simp: butlast_conv_take)
    qed
  qed
  hence rep: "segs_rep pre ?dir (butlast ss) (take ?m segs)" by (simp add: butlast_conv_take)
  have "n \<le> length (butlast ss)" using Suc.prems(2) by simp
  from Suc.IH[OF rep this] obtain dir' where
    "prune_recent_loop pre n (butlast ss) ?dir = (Inr (), take (length (butlast ss) - n) (butlast ss), dir')"
    "segs_rep pre dir' (take (length (butlast ss) - n) (butlast ss)) (take (length (butlast ss) - n) (take ?m segs))"
    "\<forall>f. \<not> has_prefix pre f \<longrightarrow> map_of dir' f = map_of ?dir f" by blast
  then show ?case using rm path(3) by (auto simp: map_of_delete butlast_conv_take min_def)
qed (auto simp: segs_rep_length)


section \<open>The log and its records\<close>

declare upt_Suc [simp del]

definition ids_upto :: "nat \<Rightarrow> log_record list \<Rightarrow> nat \<Rightarrow> bool" where
  "ids_upto lo recs hi \<longleftrightarrow> map (\<lambda>r. unat (fst r)) recs = [lo..<hi + 1]"

definition log_rep :: "segmented_log \<Rightarrow> directory \<Rightarrow> log_record list list \<Rightarrow> bool" where
  "log_rep log dir segs \<longleftrightarrow>
     segs_rep (sl_filename_prefix log) dir (sl_segments log) segs \<and>
     (\<forall>r\<in>set (concat segs). record_ok r) \<and>
     (if segs = [] then sl_start_live log = 0 \<and> sl_end_live log = 0 \<and> sl_head_segment_writer log = None
      else (\<exists>lo>0. ids_upto lo (concat segs) (unat (sl_end_live log))) \<and>
           sl_start_live log \<noteq> 0 \<and> sl_start_live log \<le> sl_end_live log \<and>
           sl_head_segment_writer log = Some (sg_path (last (sl_segments log)), length (seg_bytes (last segs))))"

text \<open>The live records of a log: its abstraction.\<close>
definition log_abs :: "segmented_log \<Rightarrow> directory \<Rightarrow> log_record list \<Rightarrow> bool" where
  "log_abs log dir recs \<longleftrightarrow>
     (\<exists>segs. log_rep log dir segs \<and> recs = filter (\<lambda>r. sl_start_live log \<le> fst r) (concat segs))"

lemma log_repD:
  assumes "log_rep log dir segs"
  shows "segs_rep (sl_filename_prefix log) dir (sl_segments log) segs" "\<forall>r\<in>set (concat segs). record_ok r"
  using assms unfolding log_rep_def by blast+

lemma log_rep_emptyD:
  assumes "log_rep log dir []"
  shows "sl_start_live log = 0" "sl_end_live log = 0" "sl_head_segment_writer log = None" "sl_segments log = []"
  using assms segs_rep_length[OF log_repD(1)[OF assms]] unfolding log_rep_def by auto

lemma log_rep_liveD:
  assumes "log_rep log dir segs" "segs \<noteq> []"
  shows "\<exists>lo>0. ids_upto lo (concat segs) (unat (sl_end_live log))"
    "sl_start_live log \<le> sl_end_live log"
    "sl_head_segment_writer log = Some (sg_path (last (sl_segments log)), length (seg_bytes (last segs)))"
    "sl_start_live log \<noteq> 0"
  using assms unfolding log_rep_def by (simp_all only: if_False not_False_eq_True)

lemma log_rep_concat: "log_rep log dir segs \<Longrightarrow> segs \<noteq> [] \<Longrightarrow> concat segs \<noteq> []"
  using segs_rep_nth(1)[OF log_repD(1), of log dir segs 0] segs_rep_length[OF log_repD(1), of log dir segs]
  by (cases segs) auto

lemma ids_upto_sorted:
  assumes "ids_upto lo recs hi"
  shows "sorted_wrt (<) (map fst recs)"
proof -
  have "sorted_wrt (<) (map (\<lambda>r. unat (fst r)) recs)" using assms by (simp add: ids_upto_def)
  thus ?thesis by (simp add: sorted_wrt_map word_less_nat_alt)
qed

lemma ids_upto_bounds: "ids_upto lo recs hi \<Longrightarrow> r \<in> set recs \<Longrightarrow> lo \<le> unat (fst r) \<and> unat (fst r) \<le> hi"
proof -
  assume "ids_upto lo recs hi" "r \<in> set recs"
  hence "unat (fst r) \<in> set [lo..<hi + 1]" unfolding ids_upto_def by (metis image_eqI list.set_map)
  thus ?thesis by simp
qed

lemma ids_upto_le: "ids_upto lo recs hi \<Longrightarrow> recs \<noteq> [] \<Longrightarrow> lo \<le> hi"
  using ids_upto_bounds[of lo recs hi "hd recs"] by fastforce

lemma ids_upto_ex:
  assumes "ids_upto lo recs hi" "lo \<le> unat n" "unat n \<le> hi"
  shows "\<exists>p. (n, p) \<in> set recs"
proof -
  have "unat n \<in> set (map (\<lambda>r. unat (fst r)) recs)" using assms by (simp add: ids_upto_def)
  then obtain r where "r \<in> set recs" "unat (fst r) = unat n" by auto
  thus ?thesis by (metis prod.collapse word_unat_eq_iff)
qed

lemma ids_upto_snoc:
  assumes "ids_upto lo recs hi" "lo \<le> hi + 1" "unat n = hi + 1"
  shows "ids_upto lo (recs @ [(n, p)]) (unat n)"
  using assms by (simp add: ids_upto_def upt_Suc)

lemma ids_upto_split:
  assumes "ids_upto lo (xs @ (n, p) # ys) hi"
  shows "ids_upto lo (xs @ [(n, p)]) (unat n)" "\<forall>r\<in>set xs. fst r < n" "\<forall>r\<in>set ys. n < fst r"
proof -
  have e: "map (\<lambda>r. unat (fst r)) xs @ unat n # map (\<lambda>r. unat (fst r)) ys = [lo..<hi + 1]"
    using assms by (simp add: ids_upto_def)
  from arg_cong[OF this, of length] have len: "length xs < length [lo..<hi + 1]" by simp
  have n: "unat n = lo + length xs" using arg_cong[OF e, of "\<lambda>l. l ! length xs"] len by (simp add: nth_append)
  have "map (\<lambda>r. unat (fst r)) xs = take (length xs) [lo..<hi + 1]" using arg_cong[OF e, of "take (length xs)"] by simp
  hence "map (\<lambda>r. unat (fst r)) xs = [lo..<lo + length xs]" using len by (simp add: min_def del: upt_Suc)
  thus "ids_upto lo (xs @ [(n, p)]) (unat n)" using n by (simp add: ids_upto_def upt_Suc)
  have s: "sorted_wrt (<) (map fst xs @ n # map fst ys)" using ids_upto_sorted[OF assms] by simp
  thus "\<forall>r\<in>set xs. fst r < n" "\<forall>r\<in>set ys. n < fst r" by (auto simp: sorted_wrt_append)
qed

text \<open>Dropping records at the front.\<close>
lemma ids_upto_drop:
  assumes "ids_upto lo (xs @ ys) hi"
  shows "ids_upto (lo + length xs) ys hi"
proof -
  have "map (\<lambda>r. unat (fst r)) ys = drop (length xs) [lo..<hi + 1]"
    using assms unfolding ids_upto_def by (metis append_eq_conv_conj length_map map_append)
  thus ?thesis by (simp add: ids_upto_def)
qed


section \<open>Appending\<close>

lemma unat_next: "unat r + 1 < 2 ^ 64 \<Longrightarrow> unat (r + 1 :: record_id) = unat r + 1"
  by (simp add: unat_word_ariths)

text \<open>The file of the next segment does not exist.\<close>
lemma fresh_segment:
  assumes rep: "segs_rep pre dir ss segs" and b: "ss \<noteq> [] \<longrightarrow> unat (sg_id (last ss)) + 1 < 2 ^ 32"
    and i: "i = (if ss = [] then 0 else sg_id (last ss)) + 1"
  shows "map_of dir (segment_filename pre i) = None" "has_prefix pre (segment_filename pre i)"
    "\<exists>a>0. map (\<lambda>s. unat (sg_id s)) ss @ [unat i] = [a..<a + length ss + 1]"
proof -
  obtain a where a: "a > 0" "map (\<lambda>s. unat (sg_id s)) ss = [a..<a + length ss]"
    using segs_repD(4)[OF rep] by blast
  have ids: "unat (sg_id s) < a + length ss" if "s \<in> set ss" for s
  proof -
    have "unat (sg_id s) \<in> set (map (\<lambda>s. unat (sg_id s)) ss)" using that by simp
    thus ?thesis unfolding a(2) by simp
  qed
  have ui: "if ss = [] then i = 1 else unat i = a + length ss"
  proof (cases "ss = []")
    case False
    have "unat (sg_id (last ss)) = last [a..<a + length ss]" using a(2) False by (metis last_map)
    hence "unat (sg_id (last ss)) = a + length ss - 1" using False by (simp add: last_upt)
    moreover have "unat i = unat (sg_id (last ss)) + 1" using b False i by (simp add: unat_word_ariths)
    ultimately show ?thesis using False by (cases ss) auto
  qed (simp add: i)
  show pf: "has_prefix pre (segment_filename pre i)" by (simp add: has_prefix_def segment_filename_prefix)
  have "i \<noteq> sg_id s" if "s \<in> set ss" for s using ids[OF that] ui that by (auto split: if_splits)
  hence "segment_filename pre i \<notin> sg_path ` set ss"
    using segment_filename_inject[OF segs_repD(1)[OF rep]] segs_rep_nth(2)[OF rep]
    by (auto simp: in_set_conv_nth) metis
  thus "map_of dir (segment_filename pre i) = None" using segs_rep_covers[OF rep _ pf] by blast
  show "\<exists>a>0. map (\<lambda>s. unat (sg_id s)) ss @ [unat i] = [a..<a + length ss + 1]"
    using ui a by (cases "ss = []") (auto intro!: exI[of _ a] exI[of _ "1::nat"] simp: upt_Suc)
qed

text \<open>A segment list extended by a segment with one record.\<close>
lemma segs_rep_extend:
  assumes rep: "segs_rep pre dir ss segs" and fresh: "map_of dir (sg_path t) = None"
    and t: "sg_path t = segment_filename pre (sg_id t)" "sg_min t = fst r" "sg_max t = fst r"
    and ids: "\<exists>a>0. map (\<lambda>s. unat (sg_id s)) ss @ [unat (sg_id t)] = [a..<a + length ss + 1]"
  shows "segs_rep pre (AList.update (sg_path t) (rec_bytes r) dir) (ss @ [t]) (segs @ [[r]])"
proof -
  let ?dir = "AList.update (sg_path t) (rec_bytes r) dir"
  have "list_all2 (seg_rep pre ?dir) ss segs"
  proof (rule seg_all_cong[OF segs_repD(3)[OF rep]])
    fix s assume "s \<in> set ss"
    hence "sg_path s \<noteq> sg_path t" using segs_rep_present[OF rep] fresh by force
    thus "map_of ?dir (sg_path s) = map_of dir (sg_path s)" by (simp add: AList.update_conv)
  qed
  moreover have "seg_rep pre ?dir t [r]" using t by (simp add: seg_rep_def AList.update_conv)
  ultimately have "list_all2 (seg_rep pre ?dir) (ss @ [t]) (segs @ [[r]])" by (simp add: list_all2_appendI)
  moreover have "\<forall>f\<in>fst ` set ?dir. has_prefix pre f \<longrightarrow> f \<in> sg_path ` set (ss @ [t])"
    using segs_repD(5)[OF rep] unfolding dom_update[of "sg_path t" _ dir] by auto
  ultimately show ?thesis
    using segs_repD(1,2)[OF rep] ids unfolding segs_rep_def by (simp add: distinct_update)
qed

text \<open>Replacing the contents of the last segment.\<close>
lemma segs_rep_last:
  assumes rep: "segs_rep pre dir (ss @ [s]) (segs @ [x])" and y: "y \<noteq> []"
    and t: "t = s\<lparr>sg_min := fst (hd y), sg_max := fst (last y)\<rparr>"
  shows "segs_rep pre (AList.update (sg_path s) (seg_bytes y) dir) (ss @ [t]) (segs @ [y])"
proof -
  let ?dir = "AList.update (sg_path s) (seg_bytes y) dir"
  have d: "distinct (map sg_path (ss @ [s]))" by (rule segs_rep_distinct[OF rep])
  have len: "length ss = length segs" using segs_rep_length[OF rep] by simp
  have all: "list_all2 (seg_rep pre dir) ss segs" "seg_rep pre dir s x"
    using segs_repD(3)[OF rep] list_all2_append[OF len, of "seg_rep pre dir" "[s]" "[x]"] by simp_all
  have "list_all2 (seg_rep pre ?dir) ss segs"
  proof (rule seg_all_cong[OF all(1)])
    fix u assume "u \<in> set ss"
    hence "sg_path u \<noteq> sg_path s" using d by (auto simp: image_iff)
    thus "map_of ?dir (sg_path u) = map_of dir (sg_path u)" by (simp add: AList.update_conv)
  qed
  moreover have "seg_rep pre ?dir t y" using y t all(2) by (simp add: seg_rep_def AList.update_conv)
  ultimately have "list_all2 (seg_rep pre ?dir) (ss @ [t]) (segs @ [y])" by (simp add: list_all2_appendI)
  moreover have "\<forall>f\<in>fst ` set ?dir. has_prefix pre f \<longrightarrow> f \<in> sg_path ` set (ss @ [t])"
    using segs_repD(5)[OF rep] t unfolding dom_update[of "sg_path s" _ dir] by auto
  ultimately show ?thesis
    using segs_repD(1,2,4)[OF rep] t unfolding segs_rep_def by (simp add: distinct_update)
qed


text \<open>The state after a record was written to a new segment, and to the head segment.\<close>
definition appended :: "segmented_log \<Rightarrow> record_id \<Rightarrow> string \<times> nat \<Rightarrow> segment list \<Rightarrow> segmented_log" where
  "appended log rid w ss =
     log\<lparr>sl_head_segment_writer := Some w, sl_end_live := rid,
         sl_start_live := (if sl_start_live log = 0 then rid else sl_start_live log), sl_segments := ss\<rparr>"

lemma append_new_segment:
  assumes ok: "record_ok (rid, data)" and rid: "record_next (sl_end_live log) = Some rid"
    and new: "sl_head_segment_writer log = None \<or> (\<exists>p sz. sl_head_segment_writer log = Some (p, sz) \<and> sl_max_segment_size log \<le> sz)"
    and fresh: "map_of dir (segment_filename (sl_filename_prefix log) (gen_segment_id log)) = None"
  defines "path \<equiv> segment_filename (sl_filename_prefix log) (gen_segment_id log)"
  shows "log_append log dir data = Some (Inr rid,
    appended log rid (path, length (rec_bytes (rid, data)))
      (sl_segments log @ [\<lparr>sg_id = gen_segment_id log, sg_path = path, sg_min = rid, sg_max = rid\<rparr>]),
    AList.update path (rec_bytes (rid, data)) dir)"
proof -
  let ?t = "\<lparr>sg_id = gen_segment_id log, sg_path = path, sg_min = rid, sg_max = rid\<rparr>"
  let ?log = "log\<lparr>sl_head_segment_writer := Some (path, 0), sl_segments := sl_segments log @ [?t]\<rparr>"
  let ?dir = "AList.update path [] dir"
  have c: "create_segment log dir rid = Inr (?log, ?dir)"
    using fresh by (simp add: create_segment_def Let_def path_def)
  have cr: "(case sl_head_segment_writer log of None \<Rightarrow> create_segment log dir rid
      | Some (p, sz) \<Rightarrow> if sl_max_segment_size log \<le> sz then create_segment log dir rid else Inr (log, dir)) = Inr (?log, ?dir)"
    using new c by (auto split: option.splits)
  have w: "write_record path 0 ?dir rid data = Some (length (rec_bytes (rid, data)), AList.update path (rec_bytes (rid, data)) dir)"
    using write_record_bytes[of ?dir path "[]" rid data] ok by (simp add: AList.update_conv)
  have "\<not> MAX_RECORD_PAYLOAD_SIZE < length data" using ok by (simp add: record_ok_def)
  thus ?thesis using rid cr w by (simp add: log_append_def appended_def)
qed

lemma append_head_segment:
  assumes ok: "record_ok (rid, data)" and rid: "record_next (sl_end_live log) = Some rid"
    and w: "sl_head_segment_writer log = Some (sg_path s, length fl)" "length fl < sl_max_segment_size log"
    and ss: "sl_segments log = ss @ [s]" "sg_min s \<noteq> 0" and fl: "map_of dir (sg_path s) = Some fl" "PAGE_SIZE dvd length fl"
  shows "log_append log dir data = Some (Inr rid,
    appended log rid (sg_path s, length (fl @ rec_bytes (rid, data))) (ss @ [s\<lparr>sg_max := rid\<rparr>]),
    AList.update (sg_path s) (fl @ rec_bytes (rid, data)) dir)"
proof -
  have "\<not> MAX_RECORD_PAYLOAD_SIZE < length data" using ok by (simp add: record_ok_def)
  thus ?thesis
    using rid w ss write_record_bytes[OF fl ok] by (simp add: log_append_def appended_def)
qed

lemma append_live:
  assumes rep: "log_rep log dir segs" and e: "unat (sl_end_live log) + 1 < 2 ^ 64"
  defines "rid \<equiv> sl_end_live log + 1"
  defines "start \<equiv> (if sl_start_live log = 0 then rid else sl_start_live log)"
  shows "\<exists>lo>0. ids_upto lo (concat segs @ [(rid, data)]) (unat rid)" "start \<le> rid" "start \<noteq> 0"
    "start = (if segs = [] then rid else sl_start_live log)"
proof -
  have rid: "unat rid = unat (sl_end_live log) + 1" using e by (simp add: unat_next rid_def)
  show "start \<noteq> 0" using rid by (auto simp: start_def)
  have "(\<exists>lo>0. ids_upto lo (concat segs @ [(rid, data)]) (unat rid)) \<and> start \<le> rid \<and>
      start = (if segs = [] then rid else sl_start_live log)"
  proof (cases "segs = []")
    case True
    hence "sl_start_live log = 0" "rid = 1" using log_rep_emptyD(1,2)[of log dir] rep by (simp_all add: rid_def)
    moreover have "ids_upto 1 [(1, data)] (unat (1 :: record_id))" by (simp add: ids_upto_def upt_rec)
    ultimately show ?thesis using True by (auto simp: start_def intro!: exI[of _ "1::nat"])
  next
    case False
    obtain lo where lo: "lo > 0" "ids_upto lo (concat segs) (unat (sl_end_live log))"
      using log_rep_liveD(1)[OF rep False] by blast
    have le: "unat (sl_start_live log) \<le> unat (sl_end_live log)"
      using log_rep_liveD(2)[OF rep False] by (simp add: word_le_nat_alt)
    have "ids_upto lo (concat segs @ [(rid, data)]) (unat rid)"
      by (rule ids_upto_snoc[OF lo(2)]) (use ids_upto_le[OF lo(2) log_rep_concat[OF rep False]] rid in simp_all)
    moreover have "start = sl_start_live log" using log_rep_liveD(4)[OF rep False] by (simp add: start_def)
    moreover have "sl_start_live log \<le> rid" unfolding word_le_nat_alt rid using le by simp
    ultimately show ?thesis using lo(1) False by auto
  qed
  thus "\<exists>lo>0. ids_upto lo (concat segs @ [(rid, data)]) (unat rid)" "start \<le> rid"
    "start = (if segs = [] then rid else sl_start_live log)" by blast+
qed

text \<open>What an append is to establish.\<close>
definition append_to :: "segmented_log \<Rightarrow> directory \<Rightarrow> log_record list list \<Rightarrow> bytes \<Rightarrow> bool" where
  "append_to log dir segs data \<longleftrightarrow>
     (\<exists>log' dir' segs'. log_append log dir data = Some (Inr (sl_end_live log + 1), log', dir') \<and>
        log_rep log' dir' segs' \<and> concat segs' = concat segs @ [(sl_end_live log + 1, data)] \<and>
        sl_start_live log' = (if segs = [] then sl_end_live log + 1 else sl_start_live log) \<and>
        sl_end_live log' = sl_end_live log + 1 \<and> sl_filename_prefix log' = sl_filename_prefix log \<and>
        (\<forall>f. \<not> has_prefix (sl_filename_prefix log) f \<longrightarrow> map_of dir' f = map_of dir f))"

lemma append_toI:
  assumes rep: "log_rep log dir segs" and e: "unat (sl_end_live log) + 1 < 2 ^ 64"
    and ok: "record_ok (sl_end_live log + 1, data)"
    and w: "w = (sg_path (last ss'), length (seg_bytes (last segs')))" and ne: "segs' \<noteq> []"
    and ap: "log_append log dir data = Some (Inr (sl_end_live log + 1), appended log (sl_end_live log + 1) w ss', dir')"
    and srep: "segs_rep (sl_filename_prefix log) dir' ss' segs'"
    and cc: "concat segs' = concat segs @ [(sl_end_live log + 1, data)]"
    and fs: "\<And>f. \<not> has_prefix (sl_filename_prefix log) f \<Longrightarrow> map_of dir' f = map_of dir f"
  shows "append_to log dir segs data"
proof -
  note live = append_live(1)[OF rep e, of data] append_live(2,3,4)[OF rep e]
  have "\<forall>r\<in>set (concat segs'). record_ok r" using log_repD(2)[OF rep] ok cc by auto
  hence "log_rep (appended log (sl_end_live log + 1) w ss') dir' segs'"
    using srep live(1,2,3) cc ne w by (simp add: log_rep_def appended_def)
  thus ?thesis unfolding append_to_def using ap cc live(4) fs
    by (intro exI[of _ "appended log (sl_end_live log + 1) w ss'"] exI[of _ dir'] exI[of _ segs'] conjI)
       (simp_all add: appended_def)
qed

lemma append_rep_new:
  assumes rep: "log_rep log dir segs" and ok: "record_ok (sl_end_live log + 1, data)"
    and e: "unat (sl_end_live log) + 1 < 2 ^ 64"
    and i: "sl_segments log \<noteq> [] \<longrightarrow> unat (sg_id (last (sl_segments log))) + 1 < 2 ^ 32"
    and new: "sl_head_segment_writer log = None \<or> (\<exists>p sz. sl_head_segment_writer log = Some (p, sz) \<and> sl_max_segment_size log \<le> sz)"
  shows "append_to log dir segs data"
proof -
  let ?pre = "sl_filename_prefix log" and ?rid = "sl_end_live log + 1"
  have rid: "record_next (sl_end_live log) = Some ?rid" using e by (simp add: record_next_def)
  have srep: "segs_rep ?pre dir (sl_segments log) segs" by (rule log_repD(1)[OF rep])
  note fresh = fresh_segment[OF srep i gen_segment_id_def]
  let ?path = "segment_filename ?pre (gen_segment_id log)"
  let ?t = "\<lparr>sg_id = gen_segment_id log, sg_path = ?path, sg_min = ?rid, sg_max = ?rid\<rparr>"
  let ?dir = "AList.update (sg_path ?t) (rec_bytes (?rid, data)) dir"
  have srep': "segs_rep ?pre ?dir (sl_segments log @ [?t]) (segs @ [[(?rid, data)]])"
    by (rule segs_rep_extend[OF srep]) (use fresh in simp_all)
  have fs: "map_of ?dir f = map_of dir f" if "\<not> has_prefix ?pre f" for f
    using fresh(2) that by (auto simp: AList.update_conv)
  have ap: "log_append log dir data = Some (Inr ?rid, appended log ?rid (?path, length (rec_bytes (?rid, data))) (sl_segments log @ [?t]), ?dir)"
    using append_new_segment[OF ok rid new fresh(1)] by simp
  show ?thesis by (rule append_toI[OF rep e ok _ _ ap srep' _ fs]) simp_all
qed

lemma append_rep_head:
  assumes rep: "log_rep log dir segs" and ok: "record_ok (sl_end_live log + 1, data)"
    and e: "unat (sl_end_live log) + 1 < 2 ^ 64"
    and w: "sl_head_segment_writer log = Some (p, sz)" "sz < sl_max_segment_size log"
  shows "append_to log dir segs data"
proof -
  let ?pre = "sl_filename_prefix log" and ?rid = "sl_end_live log + 1"
  have rid: "record_next (sl_end_live log) = Some ?rid" using e by (simp add: record_next_def)
  have srep: "segs_rep ?pre dir (sl_segments log) segs" by (rule log_repD(1)[OF rep])
  have ne: "segs \<noteq> []" using log_rep_emptyD(3)[of log dir] rep w by auto
  hence "sl_segments log \<noteq> []" using segs_rep_length[OF srep] by auto
  then obtain ss0 s where s: "sl_segments log = ss0 @ [s]" by (metis append_butlast_last_id)
  obtain segs0 x where x: "segs = segs0 @ [x]" using ne by (metis append_butlast_last_id)
  have ws: "sl_head_segment_writer log = Some (sg_path s, length (seg_bytes x))"
    using log_rep_liveD(3)[OF rep ne] x s by simp
  have "length ss0 = length segs0" using segs_rep_length[OF srep] x s by simp
  hence xs: "x \<noteq> []" "sg_min s = fst (hd x)" "map_of dir (sg_path s) = Some (seg_bytes x)"
    using segs_rep_nth[OF srep, of "length ss0"] x s by (simp_all add: nth_append)
  obtain lo where lo: "lo > 0" "ids_upto lo (concat segs) (unat (sl_end_live log))"
    using log_rep_liveD(1)[OF rep ne] by blast
  have "hd x \<in> set (concat segs)" using xs(1) x by simp
  hence mn: "sg_min s \<noteq> 0" using ids_upto_bounds[OF lo(2), of "hd x"] lo(1) xs(2) by auto
  let ?y = "x @ [(?rid, data)]" and ?s = "s\<lparr>sg_max := ?rid\<rparr>"
  have "?s = s\<lparr>sg_min := fst (hd ?y), sg_max := fst (last ?y)\<rparr>" using xs(1,2) by (cases s) simp
  from segs_rep_last[OF srep[unfolded s x] _ this]
  have srep': "segs_rep ?pre (AList.update (sg_path s) (seg_bytes ?y) dir) (ss0 @ [?s]) (segs0 @ [?y])" by simp
  have ap: "log_append log dir data = Some (Inr ?rid, appended log ?rid (sg_path s, length (seg_bytes ?y)) (ss0 @ [?s]),
      AList.update (sg_path s) (seg_bytes ?y) dir)"
    using append_head_segment[OF ok rid ws _ s mn xs(3)] ws w by simp
  have fs: "map_of (AList.update (sg_path s) (seg_bytes ?y) dir) f = map_of dir f" if "\<not> has_prefix ?pre f" for f
    using segs_rep_path_prefix[OF srep, of s] s that by (auto simp: AList.update_conv)
  show ?thesis by (rule append_toI[OF rep e ok _ _ ap srep' _ fs]) (use x in simp_all)
qed

lemma append_rep:
  assumes "log_rep log dir segs" "length data \<le> MAX_RECORD_PAYLOAD_SIZE" "unat (sl_end_live log) + 1 < 2 ^ 64"
    and "sl_segments log \<noteq> [] \<longrightarrow> unat (sg_id (last (sl_segments log))) + 1 < 2 ^ 32"
  shows "append_to log dir segs data"
proof (cases "\<exists>p sz. sl_head_segment_writer log = Some (p, sz) \<and> sz < sl_max_segment_size log")
  case True
  then show ?thesis using append_rep_head[OF assms(1) _ assms(3)] assms(2) by (auto simp: record_ok_def)
next
  case False
  hence "sl_head_segment_writer log = None \<or> (\<exists>p sz. sl_head_segment_writer log = Some (p, sz) \<and> sl_max_segment_size log \<le> sz)"
    by (cases "sl_head_segment_writer log") (auto simp: not_less)
  then show ?thesis using append_rep_new[OF assms(1) _ assms(3,4)] assms(2) by (auto simp: record_ok_def)
qed


section \<open>Pruning\<close>

abbreviation ascending :: "log_record list \<Rightarrow> bool" where
  "ascending recs \<equiv> sorted_wrt (\<lambda>r s. fst r < fst s) recs"

lemma ids_upto_ascending: "ids_upto lo recs hi \<Longrightarrow> ascending recs"
  using ids_upto_sorted by (auto simp: sorted_wrt_map)

lemma ascending_last: "ascending x \<Longrightarrow> r \<in> set x \<Longrightarrow> fst r \<le> fst (last x)"
  by (induction x) (auto intro: less_imp_le)

lemma ascending_hd: "ascending x \<Longrightarrow> r \<in> set x \<Longrightarrow> fst (hd x) \<le> fst r"
  by (cases x) (auto intro: less_imp_le)

text \<open>The records around one segment.\<close>
lemma concat_at: "i < length segs \<Longrightarrow> concat segs = concat (take i segs) @ segs ! i @ concat (drop (Suc i) segs)"
proof -
  assume "i < length segs"
  from arg_cong[OF id_take_nth_drop[OF this], of concat] show ?thesis by simp
qed

lemma ascending_segment:
  assumes "ascending (concat segs)" "i < length segs"
  shows "ascending (segs ! i)" "\<forall>r\<in>set (concat (take i segs)). \<forall>s\<in>set (segs ! i). fst r < fst s"
    "\<forall>r\<in>set (segs ! i). \<forall>s\<in>set (concat (drop (Suc i) segs)). fst r < fst s"
proof -
  have "ascending (concat (take i segs) @ segs ! i @ concat (drop (Suc i) segs))"
    using assms(1) by (simp only: concat_at[OF assms(2)])
  thus "ascending (segs ! i)" "\<forall>r\<in>set (concat (take i segs)). \<forall>s\<in>set (segs ! i). fst r < fst s"
    "\<forall>r\<in>set (segs ! i). \<forall>s\<in>set (concat (drop (Suc i) segs)). fst r < fst s"
    unfolding sorted_wrt_append set_append by blast+
qed

lemma in_concat_take: "r \<in> set (concat (take k segs)) \<Longrightarrow> \<exists>i<k. i < length segs \<and> r \<in> set (segs ! i)"
  by (fastforce simp: in_set_conv_nth[of _ "take k segs"])

lemma in_concat_drop: "r \<in> set (concat (drop k segs)) \<Longrightarrow> \<exists>i\<ge>k. i < length segs \<and> r \<in> set (segs ! i)"
proof -
  assume "r \<in> set (concat (drop k segs))"
  then obtain x where "x \<in> set (drop k segs)" "r \<in> set x" by auto
  then obtain j where "j < length (drop k segs)" "x = drop k segs ! j" unfolding in_set_conv_nth by blast
  thus ?thesis using \<open>r \<in> set x\<close> by (intro exI[of _ "k + j"]) simp
qed

lemma prune_oldest_rep:
  assumes rep: "log_rep log dir segs" and ne: "segs \<noteq> []" and n: "sl_start_live log \<le> n" "n \<le> sl_end_live log"
  shows "\<exists>log' dir' segs'. prune_oldest log dir n = Some (Inr (), log', dir') \<and> log_rep log' dir' segs' \<and>
    sl_start_live log' = n \<and> sl_end_live log' = sl_end_live log \<and> sl_filename_prefix log' = sl_filename_prefix log \<and>
    filter (\<lambda>r. n \<le> fst r) (concat segs') = filter (\<lambda>r. n \<le> fst r) (concat segs) \<and>
    (\<forall>f. \<not> has_prefix (sl_filename_prefix log) f \<longrightarrow> map_of dir' f = map_of dir f) \<and>
    (\<exists>old. concat segs = old @ concat segs')"
proof -
  have n0: "n \<noteq> 0" using log_rep_liveD(4)[OF rep ne] n(1) by auto
  let ?pre = "sl_filename_prefix log" and ?ss = "sl_segments log"
  have srep: "segs_rep ?pre dir ?ss segs" by (rule log_repD(1)[OF rep])
  have len: "length ?ss = length segs" by (rule segs_rep_length[OF srep])
  hence ssne: "?ss \<noteq> []" using ne by auto
  obtain lo where lo: "lo > 0" "ids_upto lo (concat segs) (unat (sl_end_live log))"
    using log_rep_liveD(1)[OF rep ne] by blast
  obtain k dir' where k: "prune_oldest_loop ?pre n ?ss dir = (Inr (), drop k ?ss, dir')" "k < length ?ss"
    "segs_rep ?pre dir' (drop k ?ss) (drop k segs)" "\<forall>s\<in>set (take k ?ss). sg_max s < n"
    "\<forall>f. \<not> has_prefix ?pre f \<longrightarrow> map_of dir' f = map_of dir f"
    using prune_oldest_loop_spec[OF srep ssne, of n] by blast
  have old: "fst r < n" if r: "r \<in> set (concat (take k segs))" for r
  proof -
    obtain i where i: "i < k" "i < length segs" "r \<in> set (segs ! i)" using in_concat_take[OF r] by blast
    have "fst r \<le> sg_max (?ss ! i)"
      using ascending_last[OF ascending_segment(1)[OF ids_upto_ascending[OF lo(2)] i(2)] i(3)]
        segs_rep_nth(4)[OF srep, of i] i(2) len by simp
    also have "?ss ! i \<in> set (take k ?ss)" using i len k(2) by (auto simp: in_set_conv_nth intro!: exI[of _ i])
    hence "sg_max (?ss ! i) < n" using k(4) by blast
    finally show ?thesis .
  qed
  have split: "concat segs = concat (take k segs) @ concat (drop k segs)" by (metis append_take_drop_id concat_append)
  let ?lo = "lo + length (concat (take k segs))"
  have ids: "ids_upto ?lo (concat (drop k segs)) (unat (sl_end_live log))"
    using ids_upto_drop lo(2) unfolding split by blast
  let ?log = "log\<lparr>sl_start_live := n, sl_segments := drop k ?ss\<rparr>"
  have kl: "k < length segs" using k(2) len by simp
  have "prune_oldest log dir n = Some (Inr (), ?log, dir')"
    using k(1) n ssne n0 by (auto simp: prune_oldest_def not_less)
  moreover have "\<forall>r\<in>set (concat (drop k segs)). record_ok r" using log_repD(2)[OF rep] unfolding split by simp
  hence "log_rep ?log dir' (drop k segs)"
    using k(2,3) kl ids lo(1) n(2) n0 log_rep_liveD(3)[OF rep ne] by (auto simp: log_rep_def)
  moreover have "filter (\<lambda>r. n \<le> fst r) (concat (take k segs)) = []"
    unfolding filter_empty_conv using old by (meson not_le)
  hence "filter (\<lambda>r. n \<le> fst r) (concat (drop k segs)) = filter (\<lambda>r. n \<le> fst r) (concat segs)"
    unfolding split by simp
  ultimately show ?thesis using k(5) split
    by (intro exI[of _ ?log] exI[of _ dir'] exI[of _ "drop k segs"]) simp
qed

lemma locate_segment_spec:
  "i < length ss \<Longrightarrow> locate_segment n ss i \<le> i \<and>
    (locate_segment n ss i = 0 \<or> sg_min (ss ! locate_segment n ss i) \<le> n) \<and>
    (\<forall>j. locate_segment n ss i < j \<and> j \<le> i \<longrightarrow> n < sg_min (ss ! j))"
proof (induction i)
  case (Suc i)
  show ?case
  proof (cases "sg_min (ss ! Suc i) \<le> n")
    case True
    then show ?thesis by auto
  next
    case False
    then show ?thesis using Suc by (auto simp: le_Suc_eq)
  qed
qed simp


text \<open>The segment that contains a live record, as \<open>prune_recent\<close> finds it.\<close>
lemma locate_live:
  assumes srep: "segs_rep pre dir ss segs" and ids: "ids_upto lo (concat segs) hi"
    and n: "lo \<le> unat n" "unat n \<le> hi" and ne: "segs \<noteq> []"
  defines "i \<equiv> locate_segment n ss (length ss - 1)"
  shows "i < length segs" "\<exists>xs p ys. segs ! i = xs @ (n, p) # ys"
    "filter (\<lambda>r. fst r \<le> n) (concat segs) = concat (take i segs) @ filter (\<lambda>r. fst r \<le> n) (segs ! i)"
proof -
  have len: "length ss = length segs" by (rule segs_rep_length[OF srep])
  have asc: "ascending (concat segs)" by (rule ids_upto_ascending[OF ids])
  have i: "i \<le> length ss - 1" "i = 0 \<or> sg_min (ss ! i) \<le> n" "\<forall>j. i < j \<and> j \<le> length ss - 1 \<longrightarrow> n < sg_min (ss ! j)"
    using locate_segment_spec[of "length ss - 1" ss n] ne len unfolding i_def by auto
  show il: "i < length segs" using i(1) ne len by (cases segs) auto
  have after: "n < fst r" if r: "r \<in> set (concat (drop (Suc i) segs))" for r
  proof -
    obtain j where j: "Suc i \<le> j" "j < length segs" "r \<in> set (segs ! j)" using in_concat_drop[OF r] by blast
    have "n < sg_min (ss ! j)" using i(3) j(1,2) len by auto
    also have "\<dots> \<le> fst r"
      using ascending_hd[OF ascending_segment(1)[OF asc j(2)] j(3)] segs_rep_nth(3)[OF srep, of j] j(2) len by simp
    finally show ?thesis .
  qed
  have before: "fst r < n" if r: "r \<in> set (concat (take i segs))" for r
  proof -
    have "i \<noteq> 0" using r by (cases i) auto
    hence mn: "sg_min (ss ! i) \<le> n" using i(2) by blast
    have "hd (segs ! i) \<in> set (segs ! i)" using segs_rep_nth(1)[OF srep, of i] il len by simp
    hence "fst r < fst (hd (segs ! i))" using ascending_segment(2)[OF asc il] r by blast
    thus ?thesis using mn segs_rep_nth(3)[OF srep, of i] il len by simp
  qed
  note c = concat_at[OF il]
  obtain p where "(n, p) \<in> set (concat segs)" using ids_upto_ex[OF ids n] by blast
  hence "(n, p) \<in> set (segs ! i)" using before[of "(n, p)"] after[of "(n, p)"] unfolding c set_append by auto
  thus "\<exists>xs p ys. segs ! i = xs @ (n, p) # ys" by (meson split_list)
  have "filter (\<lambda>r. fst r \<le> n) (concat (take i segs)) = concat (take i segs)"
    unfolding filter_id_conv using before less_imp_le by blast
  moreover have "filter (\<lambda>r. fst r \<le> n) (concat (drop (Suc i) segs)) = []"
    unfolding filter_empty_conv using after by (meson not_le)
  ultimately show "filter (\<lambda>r. fst r \<le> n) (concat segs) = concat (take i segs) @ filter (\<lambda>r. fst r \<le> n) (segs ! i)"
    unfolding c by simp
qed

text \<open>Truncating the last segment after one of its records.\<close>
lemma truncate_last:
  assumes srep: "segs_rep pre dir (ss @ [s]) (segs @ [xs @ (n, p) # ys])"
    and ids: "ids_upto lo (concat segs @ xs @ [(n, p)]) (unat n)" and ok: "\<forall>r\<in>set (xs @ [(n, p)]). record_ok r"
  defines "dir' \<equiv> AList.update (sg_path s) (seg_bytes (xs @ [(n, p)])) dir"
  shows "truncate_head_segment (sg_path s) dir n = Some (Inr (length (seg_bytes (xs @ [(n, p)])), dir'))"
    "segs_rep pre dir' (ss @ [s\<lparr>sg_max := n\<rparr>]) (segs @ [xs @ [(n, p)]])"
    "ids_upto lo (concat (segs @ [xs @ [(n, p)]])) (unat n)"
    "\<forall>f. \<not> has_prefix pre f \<longrightarrow> map_of dir' f = map_of dir f"
proof -
  have ids': "ids_upto lo ((concat segs @ xs) @ (n, p) # []) (unat n)" using ids by simp
  show "ids_upto lo (concat (segs @ [xs @ [(n, p)]])) (unat n)" using ids by simp
  have len: "length ss = length segs" using segs_rep_length[OF srep] by simp
  have fl: "map_of dir (sg_path s) = Some (seg_bytes (xs @ [(n, p)]) @ seg_bytes ys)"
    "sg_min s = fst (hd (xs @ (n, p) # ys))"
    using segs_rep_nth(3,5)[OF srep, of "length ss"] len by (simp_all add: nth_append)
  have "\<forall>r\<in>set xs. record_ok r \<and> fst r \<noteq> n" using ids_upto_split(2)[OF ids'] ok by auto
  thus "truncate_head_segment (sg_path s) dir n = Some (Inr (length (seg_bytes (xs @ [(n, p)])), dir'))"
    using truncate_finds[OF fl(1)] ok unfolding dir'_def by simp
  have "s\<lparr>sg_max := n\<rparr> = s\<lparr>sg_min := fst (hd (xs @ [(n, p)])), sg_max := fst (last (xs @ [(n, p)]))\<rparr>"
    using fl(2) by (cases s; cases xs) simp_all
  from segs_rep_last[OF srep _ this]
  show "segs_rep pre dir' (ss @ [s\<lparr>sg_max := n\<rparr>]) (segs @ [xs @ [(n, p)]])" unfolding dir'_def by simp
  have "has_prefix pre (sg_path s)" using segs_rep_path_prefix[OF srep] by simp
  thus "\<forall>f. \<not> has_prefix pre f \<longrightarrow> map_of dir' f = map_of dir f" unfolding dir'_def by (auto simp: AList.update_conv)
qed

lemma prune_recent_rep:
  assumes rep: "log_rep log dir segs" and ne: "segs \<noteq> []" and n: "sl_start_live log \<le> n" "(n, p0) \<in> set (concat segs)"
  shows "\<exists>log' dir' segs'. prune_recent log dir n = Some (Inr (), log', dir') \<and> log_rep log' dir' segs' \<and>
    sl_start_live log' = sl_start_live log \<and> sl_end_live log' = n \<and> sl_filename_prefix log' = sl_filename_prefix log \<and>
    concat segs' = filter (\<lambda>r. fst r \<le> n) (concat segs) \<and>
    (\<forall>f. \<not> has_prefix (sl_filename_prefix log) f \<longrightarrow> map_of dir' f = map_of dir f)"
proof -
  let ?pre = "sl_filename_prefix log" and ?ss = "sl_segments log"
  have srep: "segs_rep ?pre dir ?ss segs" by (rule log_repD(1)[OF rep])
  have len: "length ?ss = length segs" by (rule segs_rep_length[OF srep])
  obtain lo where lo: "lo > 0" "ids_upto lo (concat segs) (unat (sl_end_live log))"
    using log_rep_liveD(1)[OF rep ne] by blast
  have le: "lo \<le> unat n" "unat n \<le> unat (sl_end_live log)" using ids_upto_bounds[OF lo(2) n(2)] by simp_all
  define i where "i = locate_segment n ?ss (length ?ss - 1)"
  note loc = locate_live[OF srep lo(2) le ne, folded i_def]
  obtain xs p ys where x: "segs ! i = xs @ (n, p) # ys" using loc(2) by blast
  let ?s = "?ss ! i"
  have il: "i < length ?ss" using loc(1) len by simp
  have "length ?ss - (i + 1) \<le> length ?ss" by simp
  from prune_recent_loop_spec[OF srep this] il obtain dir1 where
    loop: "prune_recent_loop ?pre (length ?ss - (i + 1)) ?ss dir = (Inr (), take (Suc i) ?ss, dir1)"
    and rep1: "segs_rep ?pre dir1 (take (Suc i) ?ss) (take (Suc i) segs)"
    and dir1: "\<forall>f. \<not> has_prefix ?pre f \<longrightarrow> map_of dir1 f = map_of dir f" by auto
  have tk: "take (Suc i) ?ss = take i ?ss @ [?s]" "take (Suc i) segs = take i segs @ [xs @ (n, p) # ys]"
    using il loc(1) x by (simp_all add: take_Suc_conv_app_nth)
  have "ids_upto lo (concat (take i segs) @ xs @ (n, p) # ys @ concat (drop (Suc i) segs)) (unat (sl_end_live log))"
    using lo(2) concat_at[OF loc(1)] x by simp
  moreover have c: "\<forall>r\<in>set (concat (take i segs)) \<union> set (xs @ [(n, p)]). record_ok r"
    using log_repD(2)[OF rep] concat_at[OF loc(1)] x by auto
  ultimately have ids: "ids_upto lo (concat (take i segs) @ xs @ (n, p) # []) (unat n)"
    using ids_upto_split(1)[of lo "concat (take i segs) @ xs" n p] by simp
  have n0: "n \<noteq> 0" using le(1) lo(1) by auto
  note tr = truncate_last[OF rep1[unfolded tk] ids]
  let ?y = "xs @ [(n, p)]" and ?dir = "AList.update (sg_path ?s) (seg_bytes (xs @ [(n, p)])) dir1"
  let ?log = "log\<lparr>sl_head_segment_writer := Some (sg_path ?s, length (seg_bytes ?y)),
      sl_segments := take i ?ss @ [?s\<lparr>sg_max := n\<rparr>], sl_end_live := n\<rparr>"
  have "prune_recent log dir n = Some (Inr (), ?log, ?dir)"
    unfolding prune_recent_def Let_def i_def[symmetric] loop tk
    using tr(1) c il n0 segs_rep_nth(2)[OF srep il, symmetric]
    by (auto simp: get_at_def nth_append list_update_append min_def)
  moreover have "log_rep ?log ?dir (take i segs @ [?y])"
    using tr(2,3) c lo(1) n(1) log_rep_liveD(4)[OF rep ne] by (auto simp: log_rep_def)
  moreover have "filter (\<lambda>r. fst r \<le> n) (segs ! i) = ?y"
    using ascending_segment(1)[OF ids_upto_ascending[OF lo(2)] loc(1)] x
    by (auto simp: sorted_wrt_append filter_id_conv filter_empty_conv not_le intro: less_imp_le)
  ultimately show ?thesis using tr(4) dir1 c loc(3)
    by (intro exI[of _ ?log] exI[of _ ?dir] exI[of _ "take i segs @ [?y]"]) simp
qed


lemma reset_rep:
  assumes rep: "log_rep log dir segs"
  shows "\<exists>log' dir'. remove_all_segments (reset_live log) dir = (Inr (), log', dir') \<and> log_rep log' dir' [] \<and>
    sl_filename_prefix log' = sl_filename_prefix log \<and>
    (\<forall>f. \<not> has_prefix (sl_filename_prefix log) f \<longrightarrow> map_of dir' f = map_of dir f)"
proof -
  let ?pre = "sl_filename_prefix log" and ?ss = "sl_segments log"
  have srep: "segs_rep ?pre dir ?ss segs" by (rule log_repD(1)[OF rep])
  have "\<forall>p\<in>set (map sg_path ?ss). map_of dir p \<noteq> None" using segs_rep_present[OF srep] by auto
  from remove_files_all[OF segs_rep_distinct[OF srep] this segs_repD(2)[OF srep]]
  obtain dir' where d: "remove_files (map sg_path ?ss) dir = (Inr (), dir')" "distinct (map fst dir')"
    "\<And>f. map_of dir' f = (if f \<in> set (map sg_path ?ss) then None else map_of dir f)" by blast
  have "segs_rep ?pre dir' (take 0 (drop 0 ?ss)) (take 0 (drop 0 segs))"
    by (rule segs_rep_window[OF srep d(2)]) (use d(3) segs_rep_covers[OF srep] in auto)
  hence "log_rep (log\<lparr>sl_start_live := 0, sl_end_live := 0, sl_head_segment_writer := None, sl_segments := []\<rparr>) dir' []"
    by (simp add: log_rep_def)
  moreover have "\<not> has_prefix ?pre f \<longrightarrow> map_of dir' f = map_of dir f" for f
    using d(3)[of f] segs_rep_path_prefix[OF srep] by auto
  ultimately show ?thesis using d(1) by (simp add: remove_all_segments_def reset_live_def Let_def)
qed

end
