(* ===== verification/SegLogOpen.thy ===== *)
theory SegLogOpen
  imports SegLogFacts
begin

text \<open>
  Opening a segmented log: the segments found in the directory, the records passed to the
  callback, and the log that results.
\<close>

section \<open>Finding the segments\<close>

definition blank :: "segment \<Rightarrow> segment" where
  "blank s = s\<lparr>sg_min := 0, sg_max := 0\<rparr>"

definition candidate :: "string \<Rightarrow> u32 \<Rightarrow> segment" where
  "candidate pre i = \<lparr>sg_id = i, sg_path = segment_filename pre i, sg_min = 0, sg_max = 0\<rparr>"

lemma scan_entries_candidates:
  assumes "pre \<noteq> []" "\<forall>f\<in>fst ` set dir. has_prefix pre f \<longrightarrow> f \<in> segment_filename pre ` I"
  shows "\<exists>is. (scan_entries pre dir :: ('e open_error + segment list) option) = Some (Inr (map (candidate pre) is)) \<and>
    map (segment_filename pre) is = filter (has_prefix pre) (map fst dir)"
  using assms(2)
proof (induction dir)
  case (Cons x dir)
  obtain f b where x: "x = (f, b)" by (cases x)
  obtain is0 where is0: "(scan_entries pre dir :: ('e open_error + segment list) option) = Some (Inr (map (candidate pre) is0))"
    "map (segment_filename pre) is0 = filter (has_prefix pre) (map fst dir)" using Cons by auto
  show ?case
  proof (cases "has_prefix pre f")
    case True
    then obtain i where "f = segment_filename pre i" using Cons.prems x by auto
    then show ?thesis using True is0 x segment_parse_filename[OF assms(1), of i]
      by (intro exI[of _ "i # is0"]) (simp add: has_prefix_def[symmetric] candidate_def)
  next
    case False
    then show ?thesis using is0 x by (intro exI[of _ is0]) (simp add: has_prefix_def[symmetric])
  qed
qed simp

lemma check_candidates_None:
  assumes "map (\<lambda>s. unat (sg_id s)) cs = [a..<a + length cs]" "0 < a" "\<forall>p. prev = Some p \<longrightarrow> unat p + 1 = a"
  shows "(check_candidates prev cs :: 'e open_error option) = None"
  using assms
proof (induction cs arbitrary: a prev)
  case (Cons c cs)
  have c: "unat (sg_id c) = a" "map (\<lambda>s. unat (sg_id s)) cs = [Suc a..<Suc a + length cs]"
    using Cons.prems(1) by (simp_all add: upt_rec[of a])
  have "sg_id c \<noteq> 0" using c(1) Cons.prems(2) by auto
  moreover have "p = sg_id c - 1" if "prev = Some p" for p
  proof -
    have "unat p + 1 = unat (sg_id c)" using Cons.prems(3) that c(1) by simp
    from arg_cong[OF this, of "word_of_nat :: nat \<Rightarrow> u32"] have "1 + p = sg_id c" by simp
    thus ?thesis by (metis add_diff_cancel_left')
  qed
  moreover have "(check_candidates (Some (sg_id c)) cs :: 'e open_error option) = None" using Cons.IH[OF c(2)] c(1) by simp
  ultimately show ?case by (auto split: option.splits)
qed simp

lemma sort_candidates:
  assumes "set is = set js" "sorted js" "distinct is" "distinct js"
  shows "sort_key sg_id (map (candidate pre) is) = map (candidate pre) js"
proof -
  have inv: "map (candidate pre) (map sg_id cs) = cs" if "set cs \<subseteq> range (candidate pre)" for cs
    unfolding map_map by (rule map_idI) (use that in \<open>auto simp: candidate_def\<close>)
  let ?s = "sort_key sg_id (map (candidate pre) is)"
  have "map sg_id ?s = js"
  proof (rule sorted_distinct_set_unique)
    show "sorted (map sg_id ?s)" by simp
    show "distinct (map sg_id ?s)" using assms(3) by (auto simp: distinct_map inj_on_def candidate_def)
    show "set (map sg_id ?s) = set js" using assms(1) by (simp add: image_image candidate_def)
  qed (use assms in auto)
  moreover have "set ?s \<subseteq> range (candidate pre)" by auto
  ultimately show ?thesis using inv[of ?s] by simp
qed

lemma scan_root_dir_spec:
  assumes rep: "segs_rep pre dir ss segs" and keys: "map fst dir' = map fst dir"
  shows "(scan_root_dir (recovery_new s e) pre dir' :: ('e open_error + recovery) option) = Some (Inr ((recovery_new s e)\<lparr>rc_candidates := map blank ss\<rparr>))"
proof -
  let ?js = "map sg_id ss"
  have paths: "map sg_path ss = map (segment_filename pre) ?js"
    using segs_rep_path[OF rep] by auto
  have "fst ` set dir' = fst ` set dir" using keys by (metis list.set_map)
  hence "\<forall>f\<in>fst ` set dir'. has_prefix pre f \<longrightarrow> f \<in> segment_filename pre ` set ?js"
    using segs_repD(5)[OF rep] paths by (metis list.set_map)
  from scan_entries_candidates[OF segs_repD(1)[OF rep] this, where 'e = 'e] keys obtain js0 where
    js0: "(scan_entries pre dir' :: ('e open_error + segment list) option) = Some (Inr (map (candidate pre) js0))"
    "map (segment_filename pre) js0 = filter (has_prefix pre) (map fst dir)" by auto
  have inj: "inj (segment_filename pre)"
    using segment_filename_inject[OF segs_repD(1)[OF rep]] by (auto intro: injI)
  have "distinct (map (segment_filename pre) js0)" unfolding js0(2) using segs_repD(2)[OF rep] by simp
  hence dist: "distinct js0" by (simp add: distinct_map)
  have "segment_filename pre ` set js0 = {f \<in> fst ` set dir. has_prefix pre f}"
    using arg_cong[OF js0(2), of set] by simp
  also have "\<dots> = sg_path ` set ss"
  proof
    show "{f \<in> fst ` set dir. has_prefix pre f} \<subseteq> sg_path ` set ss" using segs_repD(5)[OF rep] by blast
    show "sg_path ` set ss \<subseteq> {f \<in> fst ` set dir. has_prefix pre f}"
      using segs_rep_present[OF rep] segs_rep_path_prefix[OF rep] unfolding map_of_eq_None_iff by blast
  qed
  also have "\<dots> = segment_filename pre ` set ?js" using paths by (metis list.set_map)
  finally have "segment_filename pre ` set js0 = segment_filename pre ` set ?js" .
  hence sets: "set js0 = set ?js" using inj by (simp add: inj_image_eq_iff)
  obtain a where a: "a > 0" "map (\<lambda>s. unat (sg_id s)) ss = [a..<a + length ss]"
    using segs_repD(4)[OF rep] by blast
  have "sorted (map unat ?js)" using a(2) by (simp add: comp_def)
  hence "sorted ?js" by (simp add: sorted_map word_le_nat_alt)
  hence sort: "sort_key sg_id (map (candidate pre) js0) = map (candidate pre) ?js"
    by (intro sort_candidates sets dist segs_rep_distinct_ids[OF rep])
  have bl: "map (candidate pre) ?js = map blank ss"
    using segs_rep_path[OF rep] by (auto simp: candidate_def blank_def intro!: segment.equality)
  have "(check_candidates None (map blank ss) :: 'e open_error option) = None"
    by (rule check_candidates_None[of _ a]) (use a in \<open>simp_all add: blank_def comp_def\<close>)
  moreover have "distinct (map sg_id (map blank ss))"
    using segs_rep_distinct_ids[OF rep] by (simp add: blank_def comp_def)
  ultimately show ?thesis using js0(1) trans[OF sort bl]
    by (simp add: scan_root_dir_def recovery_new_def Let_def del: map_map)
qed


section \<open>The live range\<close>

fun process_all :: "('s, 'e) process_record \<Rightarrow> 's \<Rightarrow> log_record list \<Rightarrow> 'e + 's" where
  "process_all f s [] = Inr s"
| "process_all f s ((rid, p) # rs) = (case f s rid p of Inl e \<Rightarrow> Inl e | Inr s \<Rightarrow> process_all f s rs)"

lemma process_all_append:
  "process_all f s (rs @ ts) = Inr s'' \<longleftrightarrow> (\<exists>s'. process_all f s rs = Inr s' \<and> process_all f s' ts = Inr s'')"
  by (induction f s rs rule: process_all.induct) (auto split: sum.splits)

text \<open>Where the recovery stands before the record with id \<open>k\<close>: the live records start with \<open>t\<close>
  in segment \<open>a\<close> and end with \<open>e\<close> in segment \<open>b\<close>.  The start \<open>s\<close> that was asked for may lie before
  the first record that is left.\<close>
definition recovery_at :: "record_id \<Rightarrow> record_id \<Rightarrow> record_id \<Rightarrow> nat \<Rightarrow> nat \<Rightarrow> segment list \<Rightarrow> nat \<Rightarrow> recovery" where
  "recovery_at s t e a b cs k =
     \<lparr>rc_candidates = cs, rc_start_live = s, rc_end_live = e,
      rc_live_segment_start = (if unat t < k then Some a else None),
      rc_live_segment_end = (if unat e < k then Some b else None)\<rparr>"

definition in_range :: "record_id \<Rightarrow> record_id \<Rightarrow> log_record \<Rightarrow> bool" where
  "in_range s e r \<longleftrightarrow> s \<le> fst r \<and> fst r \<le> e"

text \<open>The segments of the first and last live record.\<close>
definition live_at :: "record_id \<Rightarrow> record_id \<Rightarrow> nat \<Rightarrow> nat \<Rightarrow> nat \<Rightarrow> log_record list \<Rightarrow> bool" where
  "live_at s e a b i recs \<longleftrightarrow> (\<forall>r\<in>set recs. (fst r = s \<longrightarrow> i = a) \<and> (fst r = e \<longrightarrow> i = b))"

lemma on_next_record_eq:
  fixes rid :: record_id
  assumes "rc_start_live rc \<noteq> 0"
  defines "l \<equiv> rc_live_segment_start rc = None \<and> rc_start_live rc \<le> rid"
  defines "n \<equiv> (rc_live_segment_start rc \<noteq> None \<or> l) \<and> rc_live_segment_end rc = None \<and> rc_end_live rc \<le> rid"
  shows "on_next_record i rid rc =
    Some ((rc_live_segment_start rc \<noteq> None \<and> rc_live_segment_end rc = None, l, n),
      rc\<lparr>rc_live_segment_start := (if l then Some i else rc_live_segment_start rc),
         rc_live_segment_end := (if n then Some i else rc_live_segment_end rc)\<rparr>)"
  using assms(1) by (cases l) (auto simp: on_next_record_def is_live_def enter_live_def exit_live_def l_def n_def)

lemma on_next_record_spec:
  assumes s0: "s \<noteq> 0" and le: "t \<le> e" and at: "live_at t e a b i [(rid, p)]" and t: "s \<le> rid \<longleftrightarrow> t \<le> rid"
  shows "\<exists>w l n. on_next_record i rid (recovery_at s t e a b cs (unat rid)) =
      Some ((w, l, n), recovery_at s t e a b cs (unat rid + 1)) \<and>
    (w \<or> l \<or> n \<longleftrightarrow> in_range t e (rid, p))"
proof -
  let ?rc = "recovery_at s t e a b cs (unat rid)"
  have le': "unat t \<le> unat e" using le by (simp add: word_le_nat_alt)
  have i: "i = a" if "unat rid = unat t" using at that by (simp add: live_at_def word_unat_eq_iff)
  have i': "i = b" if "unat rid = unat e" using at that by (simp add: live_at_def word_unat_eq_iff)
  have st: "rc_live_segment_start ?rc = (if unat t < unat rid then Some a else None)"
    "rc_live_segment_end ?rc = (if unat e < unat rid then Some b else None)"
    "rc_start_live ?rc = s" "rc_end_live ?rc = e" by (simp_all add: recovery_at_def)
  define l where "l \<longleftrightarrow> unat t = unat rid"
  define n where "n \<longleftrightarrow> unat e = unat rid"
  have "rc_live_segment_start ?rc = None \<and> rc_start_live ?rc \<le> rid \<longleftrightarrow> l"
    unfolding st l_def word_le_nat_alt using t[unfolded word_le_nat_alt] by auto
  moreover have "(rc_live_segment_start ?rc \<noteq> None \<or> l) \<and> rc_live_segment_end ?rc = None \<and> rc_end_live ?rc \<le> rid \<longleftrightarrow> n"
    unfolding st l_def n_def word_le_nat_alt using le' by auto
  moreover have "rc_live_segment_start ?rc \<noteq> None \<and> rc_live_segment_end ?rc = None \<longleftrightarrow> unat t < unat rid \<and> unat rid \<le> unat e"
    unfolding st by auto
  moreover have "?rc\<lparr>rc_live_segment_start := (if l then Some i else rc_live_segment_start ?rc),
      rc_live_segment_end := (if n then Some i else rc_live_segment_end ?rc)\<rparr> = recovery_at s t e a b cs (unat rid + 1)"
    unfolding st using i i' by (auto simp: recovery_at_def l_def n_def)
  ultimately have "on_next_record i rid ?rc =
      Some ((unat t < unat rid \<and> unat rid \<le> unat e, l, n), recovery_at s t e a b cs (unat rid + 1))"
    using on_next_record_eq[of ?rc i rid] s0 st(3) by simp
  moreover have "unat t < unat rid \<and> unat rid \<le> unat e \<or> l \<or> n \<longleftrightarrow> in_range t e (rid, p)"
    using le' by (auto simp: in_range_def l_def n_def word_le_nat_alt)
  ultimately show ?thesis by blast
qed

text \<open>What a scan relies on: the records are consecutive and well formed, the first live record
  \<open>t\<close> is the first with an id of at least \<open>s\<close>.\<close>
definition live_ok :: "record_id \<Rightarrow> record_id \<Rightarrow> record_id \<Rightarrow> nat \<Rightarrow> nat \<Rightarrow> nat \<Rightarrow> log_record list \<Rightarrow> bool" where
  "live_ok s t e a b i recs \<longleftrightarrow> s \<noteq> 0 \<and> t \<le> e \<and> live_at t e a b i recs \<and>
     (\<forall>r\<in>set recs. record_ok r \<and> (s \<le> fst r \<longleftrightarrow> t \<le> fst r))"

lemma live_ok_Cons:
  "live_ok s t e a b i (r # rs) \<longleftrightarrow> live_ok s t e a b i [r] \<and> live_ok s t e a b i rs"
  by (auto simp: live_ok_def live_at_def)

section \<open>Scanning a segment\<close>

definition scanned :: "log_record list \<Rightarrow> scan_state" where
  "scanned recs =
     (if recs = [] then \<lparr>sc_min = None, sc_max = None, sc_last = None\<rparr>
      else \<lparr>sc_min = Some (fst (hd recs)), sc_max = Some (fst (last recs)), sc_last = Some (fst (last recs))\<rparr>)"

text \<open>Consecutive ids from \<open>k\<close> on.\<close>
definition ids_at :: "nat \<Rightarrow> log_record list \<Rightarrow> bool" where
  "ids_at k recs \<longleftrightarrow> map (\<lambda>r. unat (fst r)) recs = [k..<k + length recs]"

lemma ids_at_Cons: "ids_at k (r # rs) \<longleftrightarrow> unat (fst r) = k \<and> ids_at (Suc k) rs"
  by (simp add: ids_at_def upt_rec[of k])

lemma ids_at_append: "ids_at k (xs @ ys) \<longleftrightarrow> ids_at k xs \<and> ids_at (k + length xs) ys"
  by (induction xs arbitrary: k) (simp_all add: ids_at_Cons, simp add: ids_at_def)

lemma scanned_snoc:
  assumes "ids_at k (seen @ [(rid, p)])"
  shows "\<lparr>sc_min = (case sc_min (scanned seen) of None \<Rightarrow> Some rid | Some m \<Rightarrow> Some m),
      sc_max = (case sc_max (scanned seen) of None \<Rightarrow> Some rid | Some m \<Rightarrow> if rid > m then Some rid else Some m),
      sc_last = Some rid\<rparr> = scanned (seen @ [(rid, p)])"
    and "check_order (sc_last (scanned seen)) rid = Some None"
proof -
  have last: "unat (fst (last seen)) + 1 = unat rid" if "seen \<noteq> []"
  proof -
    have "seen = butlast seen @ [last seen]" using that by simp
    hence "ids_at k (butlast seen @ [last seen, (rid, p)])" using assms by (metis append.assoc append_Cons append_Nil)
    thus ?thesis by (simp add: ids_at_append ids_at_Cons)
  qed
  show "\<lparr>sc_min = (case sc_min (scanned seen) of None \<Rightarrow> Some rid | Some m \<Rightarrow> Some m),
      sc_max = (case sc_max (scanned seen) of None \<Rightarrow> Some rid | Some m \<Rightarrow> if rid > m then Some rid else Some m),
      sc_last = Some rid\<rparr> = scanned (seen @ [(rid, p)])"
    using last by (auto simp: scanned_def word_less_nat_alt)
  have "rid = fst (last seen) + 1" if "seen \<noteq> []"
    using arg_cong[OF last[OF that], of "word_of_nat :: nat \<Rightarrow> record_id"] by (simp add: add.commute)
  moreover have "unat (fst (last seen)) + 1 < 2 ^ 64" if "seen \<noteq> []"
    using last[OF that] unsigned_less[of rid, where ?'a = nat] by simp
  ultimately show "check_order (sc_last (scanned seen)) rid = Some None"
    by (auto simp: check_order_def scanned_def record_next_def)
qed


lemma scan_loop_steps:
  assumes "reader_at r (pr @ seg_bytes recs @ tail) (length pr)" "PAGE_SIZE dvd length pr"
    and "ids_at k (seen @ recs)" "live_ok s t e a b i recs"
    and "process_all f st (filter (in_range t e) recs) = Inr st'"
  shows "\<exists>r'. reader_at r' (pr @ seg_bytes recs @ tail) (length (pr @ seg_bytes recs)) \<and>
    scan_segment_loop f i r (scanned seen) (recovery_at s t e a b cs (k + length seen)) st =
    scan_segment_loop f i r' (scanned (seen @ recs)) (recovery_at s t e a b cs (k + length (seen @ recs))) st'"
  using assms
proof (induction recs arbitrary: r pr seen st)
  case Nil
  then show ?case by auto
next
  case (Cons x recs)
  obtain rid p where x: "x = (rid, p)" by (cases x)
  have rid: "unat rid = k + length seen" using Cons.prems(3) x by (simp add: ids_at_append ids_at_Cons)
  have ids1: "ids_at k (seen @ [(rid, p)])" "ids_at k ((seen @ [(rid, p)]) @ recs)"
    using Cons.prems(3) x by (simp_all add: ids_at_append ids_at_Cons) (simp add: ids_at_def)
  have ok1: "live_ok s t e a b i [(rid, p)]" "live_ok s t e a b i recs"
    using Cons.prems(4) x live_ok_Cons by blast+
  hence ok2: "s \<noteq> 0" "t \<le> e" "live_at t e a b i [(rid, p)]" "s \<le> rid \<longleftrightarrow> t \<le> rid" "record_ok (rid, p)"
    by (auto simp: live_ok_def)
  obtain w l n where nx: "on_next_record i rid (recovery_at s t e a b cs (k + length seen)) =
      Some ((w, l, n), recovery_at s t e a b cs (k + length seen + 1))" "w \<or> l \<or> n \<longleftrightarrow> in_range t e (rid, p)"
    using on_next_record_spec[OF ok2(1-4), of cs] unfolding rid by blast
  have "reader_at r (pr @ rec_bytes (rid, p) @ (seg_bytes recs @ tail)) (length pr)" using Cons.prems(1) x by simp
  from read_record[OF this Cons.prems(2) ok2(5)] obtain r1 r2 where rd:
    "read_header r = Some (Inr (Some \<lparr>rh_payload_length = word_of_nat (length p), rh_record_id = rid\<rparr>, r1))"
    "skip_payload r1 = Some r2" "read_payload r1 = Some (Inr (p, r2))"
    "reader_at r2 ((pr @ rec_bytes (rid, p)) @ seg_bytes recs @ tail) (length (pr @ rec_bytes (rid, p)))" by auto
  obtain st1 where st1: "scan_payload f (w \<or> l \<or> n) rid r1 st = Some (Inr (r2, st1))"
    "process_all f st1 (filter (in_range t e) recs) = Inr st'"
    using Cons.prems(5) rd(2,3) nx(2) x
    by (cases "in_range t e (rid, p)") (auto simp: scan_payload_def split: sum.splits)
  have "scan_segment_loop f i r (scanned seen) (recovery_at s t e a b cs (k + length seen)) st =
      scan_segment_loop f i r2 (scanned (seen @ [(rid, p)])) (recovery_at s t e a b cs (k + length (seen @ [(rid, p)]))) st1"
    unfolding scan_segment_loop.simps[of f i r]
    using rd(1) nx(1) st1(1) by (simp add: scanned_snoc[OF ids1(1)])
  moreover have "PAGE_SIZE dvd length (pr @ rec_bytes (rid, p))" using Cons.prems(2) by simp
  ultimately show ?case
    using Cons.IH[OF rd(4) _ ids1(2) ok1(2) st1(2)] x by simp
qed

lemma scan_loop_whole:
  assumes "reader_at r (seg_bytes recs) 0" "ids_at k recs" "live_ok s t e a b i recs"
    and "process_all f st (filter (in_range t e) recs) = Inr st'"
  shows "scan_segment_loop f i r (scanned []) (recovery_at s t e a b cs k) st =
    Some (Inr (scanned recs, recovery_at s t e a b cs (k + length recs), st'))"
proof -
  obtain r' where "reader_at r' (seg_bytes recs) (length (seg_bytes recs))"
    "scan_segment_loop f i r (scanned []) (recovery_at s t e a b cs k) st =
     scan_segment_loop f i r' (scanned recs) (recovery_at s t e a b cs (k + length recs)) st'"
    using scan_loop_steps[of r "[]" recs "[]" k "[]" s t e a b i f st st' cs] assms by auto
  thus ?thesis by (simp add: scan_segment_loop.simps[of f i r'] read_header_end)
qed

section \<open>Scanning the segments\<close>

lemma scan_segment_whole:
  assumes "i < length cs" "map_of dir (sg_path (cs ! i)) = Some (seg_bytes recs)" "recs \<noteq> []"
    and "ids_at k recs" "live_ok s t e a b i recs"
    and "process_all f st (filter (in_range t e) recs) = Inr st'"
  shows "scan_segment f dir i (recovery_at s t e a b cs k) st =
    Some (Inr (recovery_at s t e a b (cs[i := (cs ! i)\<lparr>sg_min := fst (hd recs), sg_max := fst (last recs)\<rparr>]) (k + length recs), st'))"
proof -
  have "scan_segment_loop f i (sr_new (seg_bytes recs) (Some (length (seg_bytes recs)))) (scanned []) (recovery_at s t e a b cs k) st =
      Some (Inr (scanned recs, recovery_at s t e a b cs (k + length recs), st'))"
    by (rule scan_loop_whole[OF _ assms(4-6)]) simp
  thus ?thesis using assms(1-3)
    by (simp add: scan_segment_def get_at_def recovery_at_def scanned_def)
qed

lemma scan_segments_append:
  "scan_segments f dir (xs @ ys) rc st =
     Option.bind (scan_segments f dir xs rc st) (\<lambda>res. case res of
       Inl e \<Rightarrow> Some (Inl e) | Inr (rc, st) \<Rightarrow> scan_segments f dir ys rc st)"
proof (induction xs arbitrary: rc st)
  case (Cons x xs)
  then show ?case
    by (cases "scan_segment f dir x rc st") (simp, rename_tac res, case_tac res, auto)
qed simp

text \<open>The candidates with the first \<open>j\<close> scanned.\<close>
definition scanned_upto :: "segment list \<Rightarrow> nat \<Rightarrow> segment list" where
  "scanned_upto ss j = take j ss @ map blank (drop j ss)"

lemma scanned_upto_step:
  assumes "j < length ss" "s = ss ! j"
  shows "scanned_upto ss j ! j = blank s" "(scanned_upto ss j)[j := s] = scanned_upto ss (Suc j)"
  using assms by (simp_all add: scanned_upto_def nth_append list_update_append take_Suc_conv_app_nth
      Cons_nth_drop_Suc[symmetric])


text \<open>Scanning a run of segments whose files are the records.\<close>
lemma scan_segments_run:
  assumes "segs_rep pre dir0 ss segs" "m \<le> length ss" "j \<le> m"
    and "\<forall>i<m. map_of dir (sg_path (ss ! i)) = Some (seg_bytes (segs ! i))"
    and "ids_at lo (concat segs)" "\<forall>i<length segs. live_ok s t e a b i (segs ! i)"
    and "process_all f st (filter (in_range t e) (concat (take (m - j) (drop j segs)))) = Inr st'"
  shows "scan_segments f dir [j..<m] (recovery_at s t e a b (scanned_upto ss j) (lo + length (concat (take j segs)))) st =
    Some (Inr (recovery_at s t e a b (scanned_upto ss m) (lo + length (concat (take m segs))), st'))"
  using assms(3,7)
proof (induction "m - j" arbitrary: j st)
  case 0
  then show ?case by simp
next
  case (Suc d)
  have len: "length ss = length segs" by (rule segs_rep_length[OF assms(1)])
  have j: "j < m" "j < length ss" "j < length segs" using Suc.hyps(2) assms(2) len by auto
  let ?x = "segs ! j" and ?k = "lo + length (concat (take j segs))"
  have dr: "take (m - j) (drop j segs) = ?x # take (m - Suc j) (drop (Suc j) segs)"
    using j by (simp add: Cons_nth_drop_Suc[symmetric] take_Cons' Suc_diff_Suc)
  obtain st1 where st1: "process_all f st (filter (in_range t e) ?x) = Inr st1"
    "process_all f st1 (filter (in_range t e) (concat (take (m - Suc j) (drop (Suc j) segs)))) = Inr st'"
    using Suc.prems(2) unfolding dr by (auto simp: process_all_append)
  have ids: "ids_at ?k ?x" using assms(5) unfolding concat_at[OF j(3)] by (simp add: ids_at_append)
  have ok: "live_ok s t e a b j ?x" using assms(6) j(3) by blast
  note nth = segs_rep_nth[OF assms(1) j(2)]
  have jl: "j < length (scanned_upto ss j)" using j(2) by (simp add: scanned_upto_def)
  have path: "map_of dir (sg_path (scanned_upto ss j ! j)) = Some (seg_bytes ?x)"
    using assms(4) j(1,2) by (simp add: scanned_upto_step blank_def)
  have upd: "(scanned_upto ss j)[j := (scanned_upto ss j ! j)\<lparr>sg_min := fst (hd ?x), sg_max := fst (last ?x)\<rparr>] = scanned_upto ss (Suc j)"
    using scanned_upto_step[OF j(2) refl] nth(3,4) by (cases "ss ! j") (simp add: blank_def)
  have kk: "?k + length ?x = lo + length (concat (take (Suc j) segs))"
    using j(3) by (simp add: take_Suc_conv_app_nth)
  have "scan_segment f dir j (recovery_at s t e a b (scanned_upto ss j) ?k) st =
      Some (Inr (recovery_at s t e a b (scanned_upto ss (Suc j)) (lo + length (concat (take (Suc j) segs))), st1))"
    using scan_segment_whole[OF jl path nth(1) ids ok st1(1)] unfolding upd kk by simp
  moreover have "scan_segments f dir [Suc j..<m] (recovery_at s t e a b (scanned_upto ss (Suc j)) (lo + length (concat (take (Suc j) segs)))) st1 =
      Some (Inr (recovery_at s t e a b (scanned_upto ss m) (lo + length (concat (take m segs))), st'))"
    using Suc.hyps(1)[of "Suc j" st1] Suc.hyps(2) j(1) st1(2) by simp
  ultimately show ?case using upt_conv_Cons[OF j(1)] by simp
qed


section \<open>The opened log\<close>

lemma ids_upto_at: "ids_upto lo recs hi \<Longrightarrow> ids_at lo recs"
  and ids_upto_length: "ids_upto lo recs hi \<Longrightarrow> recs \<noteq> [] \<Longrightarrow> lo + length recs = hi + 1"
proof -
  assume u: "ids_upto lo recs hi"
  have len: "length recs = hi + 1 - lo" using arg_cong[OF u[unfolded ids_upto_def], of length] by simp
  show "lo + length recs = hi + 1" if "recs \<noteq> []" using ids_upto_le[OF u that] len by simp
  show "ids_at lo recs"
  proof (cases "recs = []")
    case False
    then show ?thesis using ids_upto_le[OF u False] len u by (simp add: ids_upto_def ids_at_def)
  qed (simp add: ids_at_def)
qed

lemma segment_mono:
  assumes "ascending (concat segs)" "i < length segs" "j < length segs" "r \<in> set (segs ! i)" "r' \<in> set (segs ! j)"
    and "fst r \<le> fst r'"
  shows "i \<le> j"
proof (rule ccontr)
  assume "\<not> i \<le> j"
  hence "segs ! j \<in> set (take i segs)" using assms(3) by (auto simp: in_set_conv_nth intro!: exI[of _ j])
  hence "r' \<in> set (concat (take i segs))" using assms(5) by auto
  hence "fst r' < fst r" using ascending_segment(2)[OF assms(1,2)] assms(4) by blast
  thus False using assms(6) by simp
qed

lemma in_concat_nth: "r \<in> set (concat segs) \<Longrightarrow> \<exists>i<length segs. r \<in> set (segs ! i)"
  by (auto simp: in_set_conv_nth) blast

text \<open>The first record that is live, the segments of the first and the last.\<close>
lemma live_bounds:
  assumes ids: "ids_upto lo (concat segs) hi" and ok: "\<forall>r\<in>set (concat segs). record_ok r"
    and s: "s \<noteq> 0" "s \<le> e" and e: "(e, pe) \<in> set (concat segs)"
  obtains t a b where "lo \<le> unat t" "t \<le> e" "a \<le> b" "b < length segs" "(e, pe) \<in> set (segs ! b)"
    "\<forall>r\<in>set (concat segs). s \<le> fst r \<longleftrightarrow> t \<le> fst r" "\<forall>i<length segs. live_ok s t e a b i (segs ! i)"
    "\<forall>r\<in>set (concat (take a segs)). fst r < t"
proof -
  have asc: "ascending (concat segs)" by (rule ids_upto_ascending[OF ids])
  have ne: "concat segs \<noteq> []" using e by (metis empty_iff list.set(1))
  define h where "h = hd (concat segs)"
  have hm: "h \<in> set (concat segs)" unfolding h_def by (rule hd_in_set[OF ne])
  have hle: "fst h \<le> fst r" if "r \<in> set (concat segs)" for r using ascending_hd[OF asc that] unfolding h_def .
  have "\<exists>t p. (t, p) \<in> set (concat segs) \<and> t \<le> e \<and> (\<forall>r\<in>set (concat segs). s \<le> fst r \<longleftrightarrow> t \<le> fst r)"
  proof (cases "s \<le> fst h")
    case True
    then show ?thesis using hm hle e by (intro exI[of _ "fst h"] exI[of _ "snd h"]) fastforce
  next
    case False
    have "lo \<le> unat s" "unat s \<le> hi"
      using False s(2) ids_upto_bounds[OF ids hm] ids_upto_bounds[OF ids e] by (auto simp: word_le_nat_alt)
    from ids_upto_ex[OF ids this] show ?thesis using s(2) by blast
  qed
  then obtain t p where t: "(t, p) \<in> set (concat segs)" "t \<le> e" "\<forall>r\<in>set (concat segs). s \<le> fst r \<longleftrightarrow> t \<le> fst r"
    by blast
  obtain a where a: "a < length segs" "(t, p) \<in> set (segs ! a)" using in_concat_nth[OF t(1)] by blast
  obtain b where b: "b < length segs" "(e, pe) \<in> set (segs ! b)" using in_concat_nth[OF e] by blast
  have mem: "r \<in> set (concat segs)" if "i < length segs" "r \<in> set (segs ! i)" for i r using that by auto
  have "live_ok s t e a b i (segs ! i)" if i: "i < length segs" for i
  proof -
    have "i = a" if "r \<in> set (segs ! i)" "fst r = t" for r
      using segment_mono[OF asc i a(1) that(1) a(2)] segment_mono[OF asc a(1) i a(2) that(1)] that(2) by simp
    moreover have "i = b" if "r \<in> set (segs ! i)" "fst r = e" for r
      using segment_mono[OF asc i b(1) that(1) b(2)] segment_mono[OF asc b(1) i b(2) that(1)] that(2) by simp
    moreover have "\<forall>r\<in>set (segs ! i). record_ok r \<and> (s \<le> fst r \<longleftrightarrow> t \<le> fst r)"
      using ok t(3) mem[OF i] by blast
    ultimately show ?thesis using s(1) t(2) unfolding live_ok_def live_at_def by blast
  qed
  moreover have "a \<le> b" using segment_mono[OF asc a(1) b(1) a(2) b(2)] t(2) by simp
  moreover have "\<forall>r\<in>set (concat (take a segs)). fst r < t" using ascending_segment(2)[OF asc a(1)] a(2) by fastforce
  moreover have "lo \<le> unat t" using ids_upto_bounds[OF ids t(1)] by simp
  ultimately show ?thesis using that t(2,3) b by blast
qed

lemma window_split:
  assumes "a \<le> b" "b < length xs"
  shows "take (b + 1 - a) (drop a xs) = take (b - a) (drop a xs) @ [xs ! b]"
    "xs = take a xs @ take (b - a) (drop a xs) @ [xs ! b] @ drop (Suc b) xs"
proof -
  show w: "take (b + 1 - a) (drop a xs) = take (b - a) (drop a xs) @ [xs ! b]"
    using assms by (simp add: Suc_diff_le take_Suc_conv_app_nth)
  have "drop (b + 1 - a) (drop a xs) = drop (Suc b) xs" using assms by simp
  thus "xs = take a xs @ take (b - a) (drop a xs) @ [xs ! b] @ drop (Suc b) xs"
    using append_take_drop_id[of a xs] append_take_drop_id[of "b + 1 - a" "drop a xs"] unfolding w by simp
qed

lemma remove_nonlive_spec:
  assumes rep: "segs_rep pre dir ss segs" and ab: "a \<le> b" "b < length ss" and k: "unat t < k" "unat e < k"
  shows "\<exists>dir'. (remove_nonlive_segments (recovery_at s t e a b ss k) dir :: (('e open_error + segment list) \<times> directory) option) = Some (Inr (take (b + 1 - a) (drop a ss)), dir') \<and>
    segs_rep pre dir' (take (b + 1 - a) (drop a ss)) (take (b + 1 - a) (drop a segs)) \<and>
    (\<forall>f. \<not> has_prefix pre f \<longrightarrow> map_of dir' f = map_of dir f)"
proof -
  let ?w = "take (b + 1 - a) (drop a ss)" and ?n = "take a ss @ drop (Suc b) ss"
  have split: "ss = take a ss @ ?w @ drop (Suc b) ss" using window_split[OF ab] by simp
  have "distinct (map sg_path (take a ss @ ?w @ drop (Suc b) ss))" using segs_rep_distinct[OF rep] split by metis
  hence d: "distinct (map sg_path ?n)" "\<forall>s\<in>set ?w. sg_path s \<notin> set (map sg_path ?n)" by auto
  have sub: "set ?n \<subseteq> set ss" by (auto dest: in_set_takeD in_set_dropD)
  hence "\<forall>p\<in>set (map sg_path ?n). map_of dir p \<noteq> None" using segs_rep_present[OF rep] by auto
  from remove_files_all[OF d(1) this segs_repD(2)[OF rep]] obtain dir' where
    r: "remove_files (map sg_path ?n) dir = (Inr (), dir')" "distinct (map fst dir')"
    "\<And>f. map_of dir' f = (if f \<in> set (map sg_path ?n) then None else map_of dir f)" by blast
  have "segs_rep pre dir' ?w (take (b + 1 - a) (drop a segs))"
  proof (rule segs_rep_window[OF rep r(2)])
    show "\<forall>s\<in>set ?w. map_of dir' (sg_path s) = map_of dir (sg_path s)" using r(3) d(2) by simp
    show "\<forall>f. map_of dir' f \<noteq> None \<and> has_prefix pre f \<longrightarrow> f \<in> sg_path ` set ?w"
    proof (intro allI impI)
      fix f assume f: "map_of dir' f \<noteq> None \<and> has_prefix pre f"
      hence "f \<notin> sg_path ` set ?n" "map_of dir f \<noteq> None" using r(3)[of f] by (auto split: if_splits)
      moreover have "f \<in> sg_path ` set ss" using segs_rep_covers[OF rep] f calculation(2) by blast
      moreover have "set ss = set ?n \<union> set ?w" by (subst split) auto
      ultimately show "f \<in> sg_path ` set ?w" by auto
    qed
  qed
  moreover have "\<not> has_prefix pre f \<longrightarrow> map_of dir' f = map_of dir f" for f
    using r(3)[of f] segs_rep_path_prefix[OF rep] sub by auto
  moreover have "slice_of ss a (b + 1) = Some ?w" using ab by (simp add: slice_of_def)
  ultimately show ?thesis using r(1) k by (simp add: remove_nonlive_segments_def recovery_at_def)
qed


text \<open>Opening from the scanned recovery on.\<close>
lemma open_scanned:
  fixes f :: "('s, 'e) process_record"
  assumes "s \<noteq> 0" "e \<noteq> 0"
    and "(scan_root_dir (recovery_new s e) pre dir :: ('e open_error + recovery) option) = Some (Inr ((recovery_new s e)\<lparr>rc_candidates := cs\<rparr>))"
    and "scan_segments f dir [0..<length cs] ((recovery_new s e)\<lparr>rc_candidates := cs\<rparr>) st = Some (Inr (rc, st'))"
    and "rc_live_segment_start rc \<noteq> None" "rc_live_segment_end rc \<noteq> None"
    and "(remove_nonlive_segments rc dir :: (('e open_error + segment list) \<times> directory) option) = Some (Inr (ss @ [h]), dir1)"
    and "truncate_head_segment (sg_path h) dir1 e = Some (Inr (sz, dir2))"
  shows "seglog_open f dir pre mx s e st =
    Some (Inr (\<lparr>sl_filename_prefix = pre, sl_max_segment_size = mx, sl_start_live = s, sl_end_live = e,
      sl_segments = ss @ [h\<lparr>sg_max := e\<rparr>], sl_head_segment_writer = Some (sg_path h, sz)\<rparr>, st'), dir2)"
  using assms by (simp add: seglog_open_def)

lemma open_rep:
  fixes f :: "('s, 'e) process_record"
  assumes rep: "log_rep log dir segs" and s: "s \<noteq> 0" "s \<le> e" and e: "(e, pe) \<in> set (concat segs)"
    and f: "process_all f st (filter (in_range s e) (concat segs)) = Inr st'"
  shows "\<exists>log' dir' segs'. seglog_open f dir (sl_filename_prefix log) mx s e st = Some (Inr (log', st'), dir') \<and>
    log_rep log' dir' segs' \<and> sl_start_live log' = s \<and> sl_end_live log' = e \<and>
    sl_filename_prefix log' = sl_filename_prefix log \<and> sl_max_segment_size log' = mx \<and>
    filter (\<lambda>r. s \<le> fst r) (concat segs') = filter (in_range s e) (concat segs) \<and>
    (\<forall>g. \<not> has_prefix (sl_filename_prefix log) g \<longrightarrow> map_of dir' g = map_of dir g)"
proof -
  let ?pre = "sl_filename_prefix log" and ?ss = "sl_segments log"
  have srep: "segs_rep ?pre dir ?ss segs" by (rule log_repD(1)[OF rep])
  have len: "length ?ss = length segs" by (rule segs_rep_length[OF srep])
  have ne: "segs \<noteq> []" "concat segs \<noteq> []" using e by (auto, metis empty_iff list.set(1))
  obtain lo where lo: "lo > 0" "ids_upto lo (concat segs) (unat (sl_end_live log))"
    using log_rep_liveD(1)[OF rep ne(1)] by blast
  obtain t a b where b: "lo \<le> unat t" "t \<le> e" "a \<le> b" "b < length segs" "(e, pe) \<in> set (segs ! b)"
    and same: "\<forall>r\<in>set (concat segs). s \<le> fst r \<longleftrightarrow> t \<le> fst r"
    and live: "\<forall>i<length segs. live_ok s t e a b i (segs ! i)" and old: "\<forall>r\<in>set (concat (take a segs)). fst r < t"
    using live_bounds[OF lo(2) log_repD(2)[OF rep] s e] by blast
  let ?k = "lo + length (concat segs)"
  have k: "?k = unat (sl_end_live log) + 1" by (rule ids_upto_length[OF lo(2) ne(2)])
  have te: "unat t \<le> unat e" "unat e \<le> unat (sl_end_live log)"
    using b(2) ids_upto_bounds[OF lo(2) e] by (simp_all add: word_le_nat_alt)
  have rng: "filter (in_range t e) (concat segs) = filter (in_range s e) (concat segs)"
    using same by (intro filter_cong) (auto simp: in_range_def)
  have files: "\<forall>i<length ?ss. map_of dir (sg_path (?ss ! i)) = Some (seg_bytes (segs ! i))"
    using segs_rep_nth(5)[OF srep] by blast
  have start: "(recovery_new s e)\<lparr>rc_candidates := map blank ?ss\<rparr> = recovery_at s t e a b (scanned_upto ?ss 0) lo"
    using b(1) te by (simp add: recovery_new_def recovery_at_def scanned_upto_def)
  have "process_all f st (filter (in_range t e) (concat (take (length ?ss - 0) (drop 0 segs)))) = Inr st'"
    using f rng len by simp
  from scan_segments_run[OF srep order.refl _ files ids_upto_at[OF lo(2)] live this]
  have scan: "scan_segments f dir [0..<length (map blank ?ss)] ((recovery_new s e)\<lparr>rc_candidates := map blank ?ss\<rparr>) st =
      Some (Inr (recovery_at s t e a b ?ss ?k, st'))"
    unfolding start using len by (simp add: scanned_upto_def)
  have bs: "b < length ?ss" using b(4) len by simp
  have kt: "unat t < ?k" "unat e < ?k" using te k by simp_all
  obtain dir1 where d1: "(remove_nonlive_segments (recovery_at s t e a b ?ss ?k) dir :: (('e open_error + segment list) \<times> directory) option) =
      Some (Inr (take (b + 1 - a) (drop a ?ss)), dir1)"
    "segs_rep ?pre dir1 (take (b + 1 - a) (drop a ?ss)) (take (b + 1 - a) (drop a segs))"
    "\<forall>g. \<not> has_prefix ?pre g \<longrightarrow> map_of dir1 g = map_of dir g"
    using remove_nonlive_spec[OF srep b(3) bs kt, where 'e = 'e] by blast
  let ?ws = "take (b - a) (drop a ?ss)" and ?wr = "take (b - a) (drop a segs)"
  obtain xs p ys where x: "segs ! b = xs @ (e, p) # ys" using split_list[OF b(5)] by blast
  note w = window_split(1)[OF b(3) bs] window_split(1)[OF b(3,4)]
  have cs: "concat segs = concat (take a segs) @ concat ?wr @ xs @ (e, p) # ys @ concat (drop (Suc b) segs)"
    using arg_cong[OF window_split(2)[OF b(3,4)], of concat] x by simp
  let ?rest = "ys @ concat (drop (Suc b) segs)" and ?lo = "lo + length (concat (take a segs))"
  have "ids_upto ?lo ((concat ?wr @ xs) @ (e, p) # ?rest) (unat (sl_end_live log))"
    by (rule ids_upto_drop) (use lo(2) cs in simp)
  note sp = ids_upto_split[OF this]
  have ok: "\<forall>r\<in>set (concat ?wr @ xs @ [(e, p)]). record_ok r" using log_repD(2)[OF rep] unfolding cs by auto
  have "ids_upto ?lo (concat ?wr @ xs @ [(e, p)]) (unat e)" using sp(1) by simp
  note tr = truncate_last[OF d1(2)[unfolded w x] this]
  let ?y = "xs @ [(e, p)]" and ?dir = "AList.update (sg_path (?ss ! b)) (seg_bytes (xs @ [(e, p)])) dir1"
  let ?log = "\<lparr>sl_filename_prefix = ?pre, sl_max_segment_size = mx, sl_start_live = s, sl_end_live = e,
      sl_segments = ?ws @ [(?ss ! b)\<lparr>sg_max := e\<rparr>], sl_head_segment_writer = Some (sg_path (?ss ! b), length (seg_bytes ?y))\<rparr>"
  have e0: "e \<noteq> 0" using s by auto
  have "seglog_open f dir ?pre mx s e st = Some (Inr (?log, st'), ?dir)"
    by (rule open_scanned[OF s(1) e0 scan_root_dir_spec[OF srep refl] scan _ _ d1(1)[unfolded w]])
       (use tr(1) ok kt in \<open>simp_all add: recovery_at_def\<close>)
  moreover have "log_rep ?log ?dir (?wr @ [?y])" using tr(2,3) ok s lo(1) by (auto simp: log_rep_def)
  moreover have "filter (\<lambda>r. s \<le> fst r) (concat (?wr @ [?y])) = filter (in_range s e) (concat segs)"
  proof -
    have "filter (in_range s e) (concat (take a segs)) = []"
      unfolding filter_empty_conv in_range_def using old same cs by (metis Un_iff not_le set_append)
    moreover have "filter (in_range s e) ?rest = []"
      unfolding filter_empty_conv in_range_def using sp(3) by (meson not_le)
    moreover have "filter (in_range s e) (concat ?wr @ xs) = filter (\<lambda>r. s \<le> fst r) (concat ?wr @ xs)"
      using sp(2) by (intro filter_cong) (auto simp: in_range_def intro: less_imp_le)
    ultimately show ?thesis unfolding cs using s(2) by (simp add: in_range_def)
  qed
  ultimately show ?thesis using d1(3) tr(4) ok
    by (intro exI[of _ ?log] exI[of _ ?dir] exI[of _ "?wr @ [?y]"]) simp
qed


section \<open>The log refines a sequence of records\<close>

datatype log_op = Append bytes | PruneOldest record_id | PruneRecent record_id

fun run_op :: "log_op \<Rightarrow> segmented_log \<Rightarrow> directory \<Rightarrow> (segmented_log \<times> directory) option" where
  "run_op (Append data) log dir =
     (case log_append log dir data of Some (Inr _, log', dir') \<Rightarrow> Some (log', dir') | _ \<Rightarrow> None)"
| "run_op (PruneOldest n) log dir =
     (case prune_oldest log dir n of Some (Inr _, log', dir') \<Rightarrow> Some (log', dir') | _ \<Rightarrow> None)"
| "run_op (PruneRecent n) log dir =
     (case prune_recent log dir n of Some (Inr _, log', dir') \<Rightarrow> Some (log', dir') | _ \<Rightarrow> None)"

text \<open>The same operations on the live records and the id of the last one.\<close>
fun spec_op :: "log_op \<Rightarrow> record_id \<times> log_record list \<Rightarrow> record_id \<times> log_record list" where
  "spec_op (Append data) (end, recs) = (end + 1, recs @ [(end + 1, data)])"
| "spec_op (PruneOldest n) (end, recs) = (if n = 0 then (0, []) else (end, filter (\<lambda>r. n \<le> fst r) recs))"
| "spec_op (PruneRecent n) (end, recs) = (if n = 0 then (0, []) else (n, filter (\<lambda>r. fst r \<le> n) recs))"

text \<open>When they are used: the payload and the ids have room, the bounds are live.\<close>
fun op_ok :: "log_op \<Rightarrow> segmented_log \<Rightarrow> log_record list \<Rightarrow> bool" where
  "op_ok (Append data) log recs \<longleftrightarrow> length data \<le> MAX_RECORD_PAYLOAD_SIZE \<and> unat (sl_end_live log) + 1 < 2 ^ 64 \<and>
     (sl_segments log \<noteq> [] \<longrightarrow> unat (sg_id (last (sl_segments log))) + 1 < 2 ^ 32)"
| "op_ok (PruneOldest n) log recs \<longleftrightarrow> n = 0 \<or> recs \<noteq> [] \<and> sl_start_live log \<le> n \<and> n \<le> sl_end_live log"
| "op_ok (PruneRecent n) log recs \<longleftrightarrow> n = 0 \<or> n \<in> fst ` set recs"

lemma log_absI:
  "log_rep log dir segs \<Longrightarrow> filter (\<lambda>r. sl_start_live log \<le> fst r) (concat segs) = recs \<Longrightarrow> log_abs log dir recs"
  unfolding log_abs_def by blast

lemma append_abs:
  assumes "log_rep log dir segs" "op_ok (Append data) log recs"
  shows "\<exists>log' dir'. run_op (Append data) log dir = Some (log', dir') \<and> sl_end_live log' = sl_end_live log + 1 \<and>
    log_abs log' dir' (filter (\<lambda>r. sl_start_live log \<le> fst r) (concat segs) @ [(sl_end_live log + 1, data)])"
proof -
  have "append_to log dir segs data" using append_rep[OF assms(1)] assms(2) by simp
  then obtain log' dir' segs' where l: "log_append log dir data = Some (Inr (sl_end_live log + 1), log', dir')"
    "log_rep log' dir' segs'" "concat segs' = concat segs @ [(sl_end_live log + 1, data)]"
    "sl_start_live log' = (if segs = [] then sl_end_live log + 1 else sl_start_live log)"
    "sl_end_live log' = sl_end_live log + 1" unfolding append_to_def by blast
  have le: "sl_start_live log \<le> sl_end_live log + 1" if "segs \<noteq> []"
  proof -
    have "unat (sl_end_live log + 1) = unat (sl_end_live log) + 1" using assms(2) by (simp add: unat_next)
    thus ?thesis using log_rep_liveD(2)[OF assms(1) that] by (simp add: word_le_nat_alt)
  qed
  have "filter (\<lambda>r. sl_start_live log' \<le> fst r) (concat segs') =
      filter (\<lambda>r. sl_start_live log \<le> fst r) (concat segs) @ [(sl_end_live log + 1, data)]"
    using l(3,4) le by (cases "segs = []") simp_all
  thus ?thesis using l log_absI[OF l(2)] by simp
qed

lemma live_records:
  assumes "log_abs log dir recs" "recs \<noteq> []"
  obtains segs where "log_rep log dir segs" "recs = filter (in_range (sl_start_live log) (sl_end_live log)) (concat segs)"
    "recs = filter (\<lambda>r. sl_start_live log \<le> fst r) (concat segs)"
    "sl_start_live log \<noteq> 0" "sl_start_live log \<le> sl_end_live log" "\<exists>p. (sl_end_live log, p) \<in> set (concat segs)"
    "\<forall>r\<in>set recs. fst r \<noteq> 0"
proof -
  obtain segs where rep: "log_rep log dir segs" and recs: "recs = filter (\<lambda>r. sl_start_live log \<le> fst r) (concat segs)"
    using assms(1) unfolding log_abs_def by blast
  have ne: "segs \<noteq> []" "concat segs \<noteq> []" using assms(2) unfolding recs by (fastforce, metis filter.simps(1))
  obtain lo where lo: "lo > 0" "ids_upto lo (concat segs) (unat (sl_end_live log))"
    using log_rep_liveD(1)[OF rep ne(1)] by blast
  have le: "\<forall>r\<in>set (concat segs). fst r \<le> sl_end_live log \<and> fst r \<noteq> 0"
    using ids_upto_bounds[OF lo(2)] lo(1) unfolding word_le_nat_alt by (metis gr_implies_not0 le_zero_eq unat_0)
  have "filter (\<lambda>r. sl_start_live log \<le> fst r) (concat segs) = filter (in_range (sl_start_live log) (sl_end_live log)) (concat segs)"
    unfolding in_range_def using le by (intro filter_cong) blast+
  moreover have "\<exists>p. (sl_end_live log, p) \<in> set (concat segs)"
    using ids_upto_ex[OF lo(2)] ids_upto_le[OF lo(2) ne(2)] by (metis order.refl)
  ultimately show thesis using that[of segs] rep recs log_rep_liveD(2,4)[OF rep ne(1)] le by simp
qed

lemma live_nonzero: "log_abs log dir recs \<Longrightarrow> \<forall>r\<in>set recs. fst r \<noteq> 0"
  by (cases "recs = []", simp) (metis live_records)

lemma ids_upto_filter_ge:
  "ids_upto lo xs hi \<Longrightarrow> \<exists>lo'\<ge>lo. ids_upto lo' (filter (\<lambda>r. s \<le> fst r) xs) hi \<or> filter (\<lambda>r. s \<le> fst r) xs = []"
proof (induction xs arbitrary: lo)
  case (Cons x xs)
  have x: "ids_upto (lo + 1) xs hi" "unat (fst x) = lo"
    using ids_upto_drop[of lo "[x]" xs hi] Cons.prems upt_rec[of lo "hi + 1"] by (auto simp: ids_upto_def split: if_splits)
  show ?case
  proof (cases "s \<le> fst x")
    case True
    have "s \<le> fst r" if "r \<in> set (x # xs)" for r
      using ids_upto_bounds[OF Cons.prems that] x(2) True by (simp add: word_le_nat_alt)
    hence "filter (\<lambda>r. s \<le> fst r) (x # xs) = x # xs" by (simp add: filter_id_conv)
    then show ?thesis using Cons.prems by (intro exI[of _ lo]) simp
  next
    case False
    then show ?thesis using Cons.IH[OF x(1)] by (metis Suc_eq_plus1 Suc_leD filter.simps(2))
  qed
qed auto

text \<open>The live records have consecutive ids up to the live end.\<close>
lemma live_ids:
  assumes "log_abs log dir recs" "recs \<noteq> []"
  shows "\<exists>lo>0. ids_upto lo recs (unat (sl_end_live log))"
proof -
  obtain segs where rep: "log_rep log dir segs" and recs: "recs = filter (\<lambda>r. sl_start_live log \<le> fst r) (concat segs)"
    using assms(1) unfolding log_abs_def by blast
  have ne: "segs \<noteq> []" using assms(2) unfolding recs by fastforce
  obtain lo where lo: "lo > 0" "ids_upto lo (concat segs) (unat (sl_end_live log))"
    using log_rep_liveD(1)[OF rep ne] by blast
  show ?thesis using ids_upto_filter_ge[OF lo(2), of "sl_start_live log"] lo(1) assms(2) unfolding recs
    by (metis order_less_le_trans)
qed

lemma reset_abs:
  assumes "log_abs log dir recs"
  shows "\<exists>log' dir'. remove_all_segments (reset_live log) dir = (Inr (), log', dir') \<and> log_abs log' dir' [] \<and>
    sl_end_live log' = 0 \<and> sl_filename_prefix log' = sl_filename_prefix log \<and>
    prune_oldest log dir 0 = Some (Inr (), log', dir') \<and> prune_recent log dir 0 = Some (Inr (), log', dir')"
proof -
  obtain segs where "log_rep log dir segs" using assms unfolding log_abs_def by blast
  then obtain log' dir' where l: "remove_all_segments (reset_live log) dir = (Inr (), log', dir')" "log_rep log' dir' []"
    "sl_filename_prefix log' = sl_filename_prefix log" using reset_rep by blast
  thus ?thesis using log_absI[OF l(2)] log_rep_emptyD(2)[OF l(2)] by (simp add: prune_oldest_def prune_recent_def)
qed

lemma prune_abs:
  assumes "log_abs log dir recs"
  shows "op_ok (PruneOldest n) log recs \<Longrightarrow> n \<noteq> 0 \<Longrightarrow> \<exists>log' dir'. prune_oldest log dir n = Some (Inr (), log', dir') \<and>
      log_abs log' dir' (filter (\<lambda>r. n \<le> fst r) recs) \<and> sl_end_live log' = sl_end_live log \<and> sl_filename_prefix log' = sl_filename_prefix log"
    "op_ok (PruneRecent n) log recs \<Longrightarrow> \<exists>log' dir'. prune_recent log dir n = Some (Inr (), log', dir') \<and>
      log_abs log' dir' (filter (\<lambda>r. fst r \<le> n) recs) \<and> sl_end_live log' = n \<and> sl_filename_prefix log' = sl_filename_prefix log"
proof -
  obtain segs where rep: "log_rep log dir segs" and recs: "recs = filter (\<lambda>r. sl_start_live log \<le> fst r) (concat segs)"
    using assms unfolding log_abs_def by blast
  show "\<exists>log' dir'. prune_oldest log dir n = Some (Inr (), log', dir') \<and>
      log_abs log' dir' (filter (\<lambda>r. n \<le> fst r) recs) \<and> sl_end_live log' = sl_end_live log \<and> sl_filename_prefix log' = sl_filename_prefix log"
    if "op_ok (PruneOldest n) log recs" "n \<noteq> 0"
  proof -
    have n: "sl_start_live log \<le> n" "n \<le> sl_end_live log" "segs \<noteq> []" using that recs by auto
    have "filter (\<lambda>r. n \<le> fst r) (concat segs) = filter (\<lambda>r. n \<le> fst r) recs"
      unfolding recs filter_filter using n(1) by (intro filter_cong) auto
    thus ?thesis using prune_oldest_rep[OF rep n(3,1,2)] log_absI by metis
  qed
  show "\<exists>log' dir'. prune_recent log dir n = Some (Inr (), log', dir') \<and>
      log_abs log' dir' (filter (\<lambda>r. fst r \<le> n) recs) \<and> sl_end_live log' = n \<and> sl_filename_prefix log' = sl_filename_prefix log"
    if ok: "op_ok (PruneRecent n) log recs"
  proof (cases "n = 0")
    case True
    have "filter (\<lambda>r. fst r \<le> n) recs = []" using live_nonzero[OF assms] True by (simp add: filter_empty_conv)
    thus ?thesis using reset_abs[OF assms] True by auto
  next
    case False
    then obtain p where p: "(n, p) \<in> set recs" using ok by auto
    hence n: "sl_start_live log \<le> n" "(n, p) \<in> set (concat segs)" unfolding recs by simp_all
    have ne: "segs \<noteq> []" using n(2) by auto
    have "filter (\<lambda>r. sl_start_live log \<le> fst r) (filter (\<lambda>r. fst r \<le> n) (concat segs)) = filter (\<lambda>r. fst r \<le> n) recs"
      unfolding recs filter_filter by (intro filter_cong) auto
    thus ?thesis using prune_recent_rep[OF rep ne n] log_absI by metis
  qed
qed

text \<open>C19: the segmented log implements a sequence of records
  with consecutive ids: appending adds a record at the end under the next id, pruning drops the
  records below or above a bound, and the bound nil empties the log.\<close>
theorem seglog_refines_records:
  assumes "log_abs log dir recs" "op_ok op log recs"
  shows "\<exists>log' dir'. run_op op log dir = Some (log', dir') \<and>
    (\<exists>recs'. log_abs log' dir' recs' \<and> (sl_end_live log', recs') = spec_op op (sl_end_live log, recs))"
proof (cases op)
  case (Append data)
  obtain segs where "log_rep log dir segs" "recs = filter (\<lambda>r. sl_start_live log \<le> fst r) (concat segs)"
    using assms(1) unfolding log_abs_def by blast
  then show ?thesis using append_abs[of log dir segs data recs] assms(2) Append by auto
next
  case (PruneOldest n)
  then show ?thesis using reset_abs[OF assms(1)] prune_abs(1)[OF assms(1), of n] assms(2) by (cases "n = 0") auto
next
  case (PruneRecent n)
  then show ?thesis using reset_abs[OF assms(1)] prune_abs(2)[OF assms(1), of n] assms(2) by (cases "n = 0") auto
qed

text \<open>The records a callback is given, in order.\<close>
definition collect :: "(log_record list, unit) process_record" where
  "collect recs rid p = Inr (recs @ [(rid, p)])"

lemma process_collect [simp]: "process_all collect acc recs = Inr (acc @ recs)"
  by (induction recs arbitrary: acc) (auto simp: collect_def)

text \<open>C20: whatever was appended after, and however far the log
  was pruned past the range that was committed, opening the directory with the range hands the
  callback the records of the range that are left, in order, each live record of the range among
  them, and yields a log of just these records.\<close>
theorem open_recovers_committed:
  assumes "log_abs log dir recs" "s \<noteq> 0" "s \<le> e" "e \<in> fst ` set recs"
  shows "\<exists>log' dir' found. seglog_open collect dir (sl_filename_prefix log) mx s e [] = Some (Inr (log', found), dir') \<and>
    log_abs log' dir' found \<and> live_range log' = (s, e) \<and>
    filter (\<lambda>r. sl_start_live log \<le> fst r) found = filter (in_range s e) recs"
proof -
  obtain segs where rep: "log_rep log dir segs" and recs: "recs = filter (\<lambda>r. sl_start_live log \<le> fst r) (concat segs)"
    using assms(1) unfolding log_abs_def by blast
  obtain p where "(e, p) \<in> set recs" using assms(4) by auto
  hence e: "(e, p) \<in> set (concat segs)" unfolding recs by simp
  let ?found = "filter (in_range s e) (concat segs)"
  have "process_all collect [] ?found = Inr ?found" by simp
  from open_rep[OF rep assms(2,3) e this, of mx] obtain log' dir' segs' where l: "seglog_open collect dir (sl_filename_prefix log) mx s e [] = Some (Inr (log', ?found), dir')"
    "log_rep log' dir' segs'" "sl_start_live log' = s" "sl_end_live log' = e"
    "filter (\<lambda>r. s \<le> fst r) (concat segs') = ?found"
    by blast
  have "filter (\<lambda>r. sl_start_live log \<le> fst r) ?found = filter (in_range s e) recs"
    unfolding recs filter_filter by (intro filter_cong) auto
  thus ?thesis using l log_absI[OF l(2)] by (auto simp: live_range_def)
qed

section \<open>A torn header\<close>

lemma scan_segment_error:
  assumes "m < length cs" "map_of dir (sg_path (cs ! m)) = Some fl"
    and "scan_segment_loop f m (sr_new fl (Some (length fl))) (scanned []) (recovery_at s t e a b cs k) st = Some (Inl er)"
  shows "scan_segment f dir m (recovery_at s t e a b cs k) st = Some (Inl er)"
proof -
  have "rc_candidates (recovery_at s t e a b cs k) = cs" by (simp add: recovery_at_def)
  thus ?thesis using assms by (simp add: scan_segment_def get_at_def scanned_def)
qed

lemma read_header_torn:
  "reader_at r (fl @ b) (length fl) \<Longrightarrow> b \<noteq> [] \<Longrightarrow> length b < 12 \<Longrightarrow> read_header r = Some (Inl SegmentEof)"
  by (auto simp: reader_at_def read_header_def sr_read_exact_def HEADER_SIZE_def)

text \<open>C38: when a crash leaves fewer than the twelve bytes of a
  record header behind the last record, the log cannot be opened again: the scan fails at the
  end of the file before the head segment is truncated to the committed range.\<close>
theorem torn_header_blocks_open:
  assumes abs: "log_abs log dir recs" and w: "sl_head_segment_writer log = Some (path, sz)"
    and fl: "map_of dir path = Some fl" and torn: "b \<noteq> []" "length b < HEADER_SIZE"
    and r: "(s, e) = live_range log" "e \<in> fst ` set recs"
  shows "seglog_open collect (AList.update path (fl @ b) dir) (sl_filename_prefix log) mx s e [] =
    Some (Inl (ScanError SegmentEof), AList.update path (fl @ b) dir)"
proof -
  let ?pre = "sl_filename_prefix log" and ?ss = "sl_segments log" and ?dir = "AList.update path (fl @ b) dir"
  obtain segs where rep: "log_rep log dir segs" and recs: "recs = filter (\<lambda>r. sl_start_live log \<le> fst r) (concat segs)"
    using abs unfolding log_abs_def by blast
  have srep: "segs_rep ?pre dir ?ss segs" by (rule log_repD(1)[OF rep])
  have len: "length ?ss = length segs" by (rule segs_rep_length[OF srep])
  obtain p where "(e, p) \<in> set recs" using r(2) by auto
  hence e: "(e, p) \<in> set (concat segs)" unfolding recs by simp
  hence ne: "segs \<noteq> []" by auto
  have se: "s \<noteq> 0" "s \<le> e" using log_rep_liveD(2,4)[OF rep ne] r(1) by (auto simp: live_range_def)
  hence e0: "e \<noteq> 0" by auto
  obtain lo where lo: "lo > 0" "ids_upto lo (concat segs) (unat (sl_end_live log))"
    using log_rep_liveD(1)[OF rep ne] by blast
  obtain t a c where tc: "lo \<le> unat t" "t \<le> e" and live: "\<forall>i<length segs. live_ok s t e a c i (segs ! i)"
    by (rule live_bounds[OF lo(2) log_repD(2)[OF rep] se e])
  have lt: "lo \<le> unat e" using tc by (simp add: word_le_nat_alt)
  define m where "m = length ?ss - 1"
  have m: "m < length ?ss" "length ?ss = Suc m" "m < length segs" using ne len by (auto simp: m_def)
  have "?ss \<noteq> []" using m(2) by auto
  hence "last ?ss = ?ss ! m" unfolding m_def by (rule last_conv_nth)
  hence path: "path = sg_path (?ss ! m)" using log_rep_liveD(3)[OF rep ne] w by simp
  have x: "fl = seg_bytes (segs ! m)" using segs_rep_nth(5)[OF srep m(1)] fl path by simp
  have "path \<in> fst ` set dir" using fl map_of_eq_None_iff[of dir path] by auto
  hence keys: "map fst ?dir = map fst dir" by (simp add: update_keys)
  have files: "\<forall>i<m. map_of ?dir (sg_path (?ss ! i)) = Some (seg_bytes (segs ! i))"
  proof (intro allI impI)
    fix i assume i: "i < m"
    hence "sg_path (?ss ! i) \<noteq> path"
      using segs_rep_distinct[OF srep] m(1) path by (auto simp: distinct_conv_nth)
    thus "map_of ?dir (sg_path (?ss ! i)) = Some (seg_bytes (segs ! i))"
      using segs_rep_nth(5)[OF srep, of i] i m(1) by (simp add: AList.update_conv)
  qed
  have start: "(recovery_new s e)\<lparr>rc_candidates := map blank ?ss\<rparr> = recovery_at s t e a c (scanned_upto ?ss 0) lo"
    using tc(1) lt by (simp add: recovery_new_def recovery_at_def scanned_upto_def)
  have m': "m \<le> length ?ss" using m(1) by simp
  obtain st1 where "process_all collect [] (filter (in_range t e) (concat (take (m - 0) (drop 0 segs)))) = Inr st1" by simp
  note run = scan_segments_run[OF srep m' _ files ids_upto_at[OF lo(2)] live this]
  let ?k = "lo + length (concat (take m segs))" and ?cs = "scanned_upto ?ss m"
  have ids: "ids_at ?k ([] @ segs ! m)"
    using ids_upto_at[OF lo(2)] unfolding concat_at[OF m(3)] by (simp add: ids_at_append)
  have okm: "live_ok s t e a c m (segs ! m)" using live m(3) by blast
  have pa: "process_all collect st1 (filter (in_range t e) (segs ! m)) = Inr (st1 @ filter (in_range t e) (segs ! m))" by simp
  have al: "PAGE_SIZE dvd length ([] :: bytes)" by simp
  have "reader_at (sr_new (fl @ b) (Some (length (fl @ b)))) ([] @ seg_bytes (segs ! m) @ b) (length [])"
    using reader_at_new(2)[of "seg_bytes (segs ! m) @ b"] x by simp
  from scan_loop_steps[OF this al ids okm pa, of ?cs] obtain r' where
    r': "reader_at r' (fl @ b) (length fl)"
    "scan_segment_loop collect m (sr_new (fl @ b) (Some (length (fl @ b)))) (scanned []) (recovery_at s t e a c ?cs ?k) st1 =
     scan_segment_loop collect m r' (scanned (segs ! m)) (recovery_at s t e a c ?cs (?k + length (segs ! m)))
       (st1 @ filter (in_range t e) (segs ! m))" using x by auto
  have "scan_segment collect ?dir m (recovery_at s t e a c ?cs ?k) st1 = Some (Inl (ScanError SegmentEof))"
  proof (rule scan_segment_error)
    show "m < length ?cs" using m(1) by (simp add: scanned_upto_def)
    show "map_of ?dir (sg_path (?cs ! m)) = Some (fl @ b)"
      using scanned_upto_step(1)[OF m(1) refl] path by (simp add: blank_def AList.update_conv)
    show "scan_segment_loop collect m (sr_new (fl @ b) (Some (length (fl @ b)))) (scanned []) (recovery_at s t e a c ?cs ?k) st1 =
        Some (Inl (ScanError SegmentEof))"
      unfolding r'(2) using read_header_torn[OF r'(1)] torn
      by (simp add: scan_segment_loop.simps[of collect m r'] HEADER_SIZE_def)
  qed
  hence "scan_segments collect ?dir ([0..<m] @ [m]) (recovery_at s t e a c (scanned_upto ?ss 0) lo) [] =
      Some (Inl (ScanError SegmentEof))"
    unfolding scan_segments_append using run by simp
  hence "scan_segments collect ?dir [0..<length (map blank ?ss)] ((recovery_new s e)\<lparr>rc_candidates := map blank ?ss\<rparr>) [] =
      Some (Inl (ScanError SegmentEof))"
    unfolding start using m(2) by (simp add: upt_Suc)
  thus ?thesis using se(1) e0 by (simp add: seglog_open_def scan_root_dir_spec[OF srep keys])
qed


section \<open>A log of two records\<close>

definition sample_path :: string where
  "sample_path = segment_filename ''rollback'' 1"

definition sample_records :: "log_record list" where
  "sample_records = [(1, [5]), (2, [7, 8])]"

definition sample_seglog :: segmented_log where
  "sample_seglog = \<lparr>sl_filename_prefix = ''rollback'', sl_max_segment_size = 67108864, sl_start_live = 1, sl_end_live = 2,
     sl_segments = [\<lparr>sg_id = 1, sg_path = sample_path, sg_min = 1, sg_max = 2\<rparr>],
     sl_head_segment_writer = Some (sample_path, length (seg_bytes sample_records))\<rparr>"

definition sample_dir :: directory where
  "sample_dir = [(''meta'', [1]), (sample_path, seg_bytes sample_records)]"

lemma sample_path_prefix: "has_prefix ''rollback'' sample_path" "\<not> has_prefix ''rollback'' ''meta''"
  unfolding sample_path_def has_prefix_def by (rule segment_filename_prefix) simp

lemma sample_log_abs: "log_abs sample_seglog sample_dir sample_records"
proof (rule log_absI)
  have "sample_path \<noteq> ''meta''" using sample_path_prefix by metis
  hence "segs_rep ''rollback'' sample_dir (sl_segments sample_seglog) [sample_records]"
    using sample_path_prefix
    by (auto simp: segs_rep_def sample_dir_def sample_seglog_def seg_rep_def sample_records_def sample_path_def[symmetric]
        upt_rec intro!: exI[of _ "1::nat"])
  moreover have "ids_upto 1 sample_records 2" by (simp add: ids_upto_def sample_records_def upt_rec)
  hence "\<exists>lo>0. ids_upto lo sample_records 2" by (intro exI[of _ 1]) simp
  moreover have "\<forall>r\<in>set sample_records. record_ok r"
    by (simp add: sample_records_def record_ok_def MAX_RECORD_PAYLOAD_SIZE_def)
  ultimately show "log_rep sample_seglog sample_dir [sample_records]" by (simp add: log_rep_def sample_seglog_def)
  show "filter (\<lambda>r. sl_start_live sample_seglog \<le> fst r) (concat [sample_records]) = sample_records"
    by (simp add: sample_seglog_def sample_records_def)
qed

theorem seglog_refines_records_witness:
  "\<exists>log' dir'. run_op (Append [9]) sample_seglog sample_dir = Some (log', dir') \<and>
    log_abs log' dir' [(1, [5]), (2, [7, 8]), (3, [9])]"
proof -
  have "op_ok (Append [9]) sample_seglog sample_records"
    by (simp add: sample_seglog_def MAX_RECORD_PAYLOAD_SIZE_def)
  moreover have "spec_op (Append [9]) (sl_end_live sample_seglog, sample_records) = (3, [(1, [5]), (2, [7, 8]), (3, [9])])"
    by (simp add: sample_records_def sample_seglog_def)
  ultimately show ?thesis
    using seglog_refines_records[OF sample_log_abs, of "Append [9]"] by (auto simp del: run_op.simps spec_op.simps op_ok.simps)
qed

theorem open_recovers_committed_witness:
  "\<exists>log' dir'. seglog_open collect sample_dir ''rollback'' 67108864 1 1 [] = Some (Inr (log', [(1, [5])]), dir') \<and>
    log_abs log' dir' [(1, [5])] \<and> live_range log' = (1, 1)"
proof -
  have e: "1 \<in> fst ` set sample_records" by (simp add: sample_records_def)
  obtain log' dir' found where
    l: "seglog_open collect sample_dir ''rollback'' 67108864 1 1 [] = Some (Inr (log', found), dir')"
      "log_abs log' dir' found" "live_range log' = (1, 1)"
      "filter (\<lambda>r. 1 \<le> fst r) found = filter (in_range 1 1) sample_records"
    using open_recovers_committed[OF sample_log_abs _ _ e, of 1 67108864] by (auto simp: sample_seglog_def)
  have "sl_start_live log' = 1" using l(3) by (simp add: live_range_def)
  hence "\<forall>r\<in>set found. 1 \<le> fst r" using l(2) by (auto simp: log_abs_def)
  hence "filter (\<lambda>r. 1 \<le> fst r) found = found" by (simp add: filter_id_conv)
  moreover have "\<not> (2 :: record_id) \<le> 1" by (simp add: word_le_nat_alt)
  ultimately have "found = [(1, [5])]" using l(4) by (simp add: sample_records_def in_range_def)
  thus ?thesis using l by blast
qed

theorem torn_header_blocks_open_witness:
  "seglog_open collect (AList.update sample_path (seg_bytes sample_records @ [0]) sample_dir) ''rollback'' 67108864 1 2 [] =
    Some (Inl (ScanError SegmentEof), AList.update sample_path (seg_bytes sample_records @ [0]) sample_dir)"
proof -
  have "sample_path \<noteq> ''meta''" using sample_path_prefix by metis
  hence fl: "map_of sample_dir sample_path = Some (seg_bytes sample_records)" by (simp add: sample_dir_def)
  have w: "sl_head_segment_writer sample_seglog = Some (sample_path, length (seg_bytes sample_records))"
    "sl_filename_prefix sample_seglog = ''rollback''" "(1, 2) = live_range sample_seglog" "2 \<in> fst ` set sample_records"
    by (simp_all add: sample_seglog_def live_range_def sample_records_def)
  show ?thesis
    using torn_header_blocks_open[OF sample_log_abs w(1) fl _ _ w(3,4), of "[0]" 67108864] w(2) by (simp add: HEADER_SIZE_def)
qed

end
