(* ===== verification/RollbackDeltas.thy ===== *)
theory RollbackDeltas
  imports ByteReaders "HOL-Library.Multiset"
begin

text \<open>
  Reverse deltas, \<open>nomt/src/rollback/delta.rs\<close>, and what a session records for them,
  \<open>ReverseDeltaBuilder\<close> of \<open>nomt/src/rollback/mod.rs\<close> and \<open>KeyReadWrite\<close> of \<open>nomt/src/lib.rs\<close>.
  A hash map is the association list of its entries in the order it iterates them.
\<close>

type_synonym stored_value = "bytes option"

text \<open>\<open>Delta\<close>: the prior value of each key that was written.\<close>
type_synonym delta = "(bytes \<times> stored_value) list"

section \<open>Encoding\<close>

definition delta_erase :: "delta \<Rightarrow> bytes list" where
  "delta_erase d = concat (map (\<lambda>(k, v). case v of None \<Rightarrow> [k] | Some _ \<Rightarrow> []) d)"

definition delta_reinstate :: "delta \<Rightarrow> (bytes \<times> bytes) list" where
  "delta_reinstate d = concat (map (\<lambda>(k, v). case v of None \<Rightarrow> [] | Some x \<Rightarrow> [(k, x)]) d)"

text \<open>\<open>n as u32\<close>, little endian.\<close>
definition u32_bytes :: "nat \<Rightarrow> bytes" where
  "u32_bytes n = to_le 4 (unat (word_of_nat n :: u32))"

definition print_prior :: "bytes \<times> bytes \<Rightarrow> bytes" where
  "print_prior = (\<lambda>(k, v). k @ u32_bytes (length v) @ v)"

definition delta_encode :: "delta \<Rightarrow> bytes" where
  "delta_encode d =
     (let to_erase = delta_erase d; to_reinstate = delta_reinstate d
      in u32_bytes (length to_erase) @ concat to_erase @
         u32_bytes (length to_reinstate) @ concat (map print_prior to_reinstate))"

datatype delta_error = DeltaEof | DuplicateErase bytes | DuplicateReinstate bytes

text \<open>\<open>read_exact\<close> on a cursor; the state is the bytes left.\<close>
definition cursor_read :: "nat \<Rightarrow> bytes \<Rightarrow> delta_error + bytes \<times> bytes" where
  "cursor_read n s = (if n \<le> length s then Inr (take n s, drop n s) else Inl DeltaEof)"

definition cursor_u32 :: "bytes \<Rightarrow> delta_error + nat \<times> bytes" where
  "cursor_u32 s = try_bind (cursor_read 4 s) (\<lambda>(b, s). Inr (unat (word_of_nat (from_le b) :: u32), s))"

fun decode_erase :: "nat \<Rightarrow> delta \<Rightarrow> bytes \<Rightarrow> delta_error + delta \<times> bytes" where
  "decode_erase 0 priors s = Inr (priors, s)"
| "decode_erase (Suc n) priors s =
     try_bind (cursor_read 32 s) (\<lambda>(key_path, s).
       case map_of priors key_path of
         Some _ \<Rightarrow> Inl (DuplicateErase key_path)
       | None \<Rightarrow> decode_erase n (priors @ [(key_path, None)]) s)"

fun decode_reinstate :: "nat \<Rightarrow> delta \<Rightarrow> bytes \<Rightarrow> delta_error + delta \<times> bytes" where
  "decode_reinstate 0 priors s = Inr (priors, s)"
| "decode_reinstate (Suc n) priors s =
     try_bind (cursor_read 32 s) (\<lambda>(key_path, s).
     try_bind (cursor_u32 s) (\<lambda>(value_len, s).
     try_bind (cursor_read value_len s) (\<lambda>(value, s).
       case map_of priors key_path of
         Some _ \<Rightarrow> Inl (DuplicateReinstate key_path)
       | None \<Rightarrow> decode_reinstate n (priors @ [(key_path, Some value)]) s)))"

definition delta_decode :: "bytes \<Rightarrow> delta_error + delta \<times> bytes" where
  "delta_decode s =
     try_bind (cursor_u32 s) (\<lambda>(to_erase_len, s).
     try_bind (decode_erase to_erase_len [] s) (\<lambda>(priors, s).
     try_bind (cursor_u32 s) (\<lambda>(to_reinstate_len, s).
       decode_reinstate to_reinstate_len priors s)))"

section \<open>Round trip\<close>

lemma cursor_read_append [simp]: "length b = n \<Longrightarrow> cursor_read n (b @ s) = Inr (b, s)"
  by (simp add: cursor_read_def)

lemma cursor_u32_bytes [simp]: "n < 2 ^ 32 \<Longrightarrow> cursor_u32 (u32_bytes n @ s) = Inr (n, s)"
proof -
  assume "n < 2 ^ 32"
  hence n: "unat (word_of_nat n :: u32) = n" by (simp add: unsigned_of_nat take_bit_nat_eq_self)
  have "cursor_u32 (u32_bytes n @ s) = Inr (unat (word_of_nat n :: u32), s)" by (simp add: cursor_u32_def u32_bytes_def)
  thus ?thesis by (simp only: n)
qed

lemma decode_erase_printed:
  assumes "\<forall>k\<in>set ks. length k = 32" "distinct (map fst priors @ ks)"
  shows "decode_erase (length ks) priors (concat ks @ s) = Inr (priors @ map (\<lambda>k. (k, None)) ks, s)"
  using assms
proof (induction ks arbitrary: priors)
  case (Cons k ks)
  have "map_of priors k = None" using Cons.prems(2) by (auto simp: map_of_eq_None_iff)
  then show ?case using Cons.IH[of "priors @ [(k, None)]"] Cons.prems by simp
qed simp

lemma decode_reinstate_printed:
  assumes "\<forall>(k, v)\<in>set kvs. length k = 32 \<and> length v < 2 ^ 32" "distinct (map fst priors @ map fst kvs)"
  shows "decode_reinstate (length kvs) priors (concat (map print_prior kvs) @ s) =
    Inr (priors @ map (\<lambda>(k, v). (k, Some v)) kvs, s)"
  using assms
proof (induction kvs arbitrary: priors)
  case (Cons kv kvs)
  obtain k v where kv: "kv = (k, v)" by (cases kv)
  have "map_of priors k = None" using Cons.prems(2) kv by (auto simp: map_of_eq_None_iff)
  moreover have "length k = 32" "length v < 2 ^ 32" using Cons.prems(1) kv by auto
  ultimately show ?case using Cons.IH[of "priors @ [(k, Some v)]"] Cons.prems kv by (simp add: print_prior_def)
qed simp

text \<open>The entries in the order they are written: first the erased keys.\<close>
lemma delta_parts:
  "mset (map (\<lambda>k. (k, None)) (delta_erase d) @ map (\<lambda>(k, v). (k, Some v)) (delta_reinstate d)) = mset d"
  by (induction d) (auto simp: delta_erase_def delta_reinstate_def split: option.splits)

definition delta_ok :: "delta \<Rightarrow> bool" where
  "delta_ok d \<longleftrightarrow> distinct (map fst d) \<and> length d < 2 ^ 32 \<and>
     (\<forall>(k, v)\<in>set d. length k = 32 \<and> (case v of None \<Rightarrow> True | Some x \<Rightarrow> length x < 2 ^ 32))"

lemma delta_erase_set: "k \<in> set (delta_erase d) \<longleftrightarrow> (k, None) \<in> set d"
  by (auto simp: delta_erase_def split: option.splits)

lemma delta_reinstate_set: "(k, v) \<in> set (delta_reinstate d) \<longleftrightarrow> (k, Some v) \<in> set d"
  by (force simp: delta_reinstate_def split: option.splits)

lemma delta_lengths: "length (delta_erase d) + length (delta_reinstate d) = length d"
  by (induction d) (auto simp: delta_erase_def delta_reinstate_def split: option.splits)

lemma delta_decoded:
  assumes "delta_ok d"
  obtains d' where "delta_decode (delta_encode d @ rest) = Inr (d', rest)" "map_of d' = map_of d" "distinct (map fst d')"
proof -
  let ?e = "delta_erase d" and ?r = "delta_reinstate d"
  let ?d = "map (\<lambda>k. (k, None)) ?e @ map (\<lambda>(k, v). (k, Some v)) ?r"
  have mk: "mset (map fst ?d) = mset (map fst d)" by (simp only: mset_map delta_parts)
  have dist: "distinct (map fst ?d)" using mset_eq_imp_distinct_iff[OF mk] assms unfolding delta_ok_def by blast
  have sets: "set ?d = set d" by (rule mset_eq_setD[OF delta_parts])
  have keys: "map fst ?d = ?e @ map fst ?r" by (simp add: comp_def case_prod_beta)
  have d2: "distinct (?e @ map fst ?r)" using dist unfolding keys .
  have lens: "length ?e < 2 ^ 32" "length ?r < 2 ^ 32" using delta_lengths[of d] assms by (auto simp: delta_ok_def)
  have ek: "\<forall>k\<in>set ?e. length k = 32" "\<forall>(k, v)\<in>set ?r. length k = 32 \<and> length v < 2 ^ 32"
    using assms by (fastforce simp: delta_ok_def delta_erase_set delta_reinstate_set)+
  have "decode_erase (length ?e) [] (concat ?e @ s) = Inr (map (\<lambda>k. (k, None)) ?e, s)" for s
    using decode_erase_printed[of ?e "[]" s] ek(1) d2 by simp
  moreover have "decode_reinstate (length ?r) (map (\<lambda>k. (k, None)) ?e) (concat (map print_prior ?r) @ rest) = Inr (?d, rest)"
    by (rule decode_reinstate_printed[OF ek(2)]) (use d2 in \<open>simp add: comp_def\<close>)
  ultimately have "delta_decode (delta_encode d @ rest) = Inr (?d, rest)"
    using lens by (simp add: delta_decode_def delta_encode_def Let_def)
  moreover have "map_of ?d = map_of d"
    using map_of_inject_set[OF dist] assms sets by (simp add: delta_ok_def)
  ultimately show thesis using that dist by blast
qed

text \<open>C34: decoding an encoded reverse delta, in whatever order its
  hash map was iterated, gives back the prior value of every key, and nothing else, and consumes
  exactly the encoding.\<close>
theorem delta_round_trip:
  assumes "delta_ok d"
  shows "\<exists>d'. delta_decode (delta_encode d @ rest) = Inr (d', rest) \<and> map_of d' = map_of d"
  by (rule delta_decoded[OF assms, of rest]) blast

definition sample_delta :: delta where
  "sample_delta = [(replicate 32 1, Some [4, 5, 6]), (replicate 32 2, None), (replicate 32 3, Some [])]"

lemma sample_delta_ok: "delta_ok sample_delta"
proof -
  have "replicate 32 (1 :: u8) \<noteq> replicate 32 2" "replicate 32 (1 :: u8) \<noteq> replicate 32 3" "replicate 32 (2 :: u8) \<noteq> replicate 32 3"
    by simp_all
  thus ?thesis by (simp add: delta_ok_def sample_delta_def)
qed

theorem delta_round_trip_witness:
  "\<exists>d'. delta_decode (delta_encode sample_delta @ [9]) = Inr (d', [9]) \<and> map_of d' = map_of sample_delta"
  by (rule delta_round_trip) (rule sample_delta_ok)

section \<open>What a session records\<close>

datatype key_read_write = Read stored_value | Write stored_value | ReadThenWrite stored_value stored_value

fun last_value :: "key_read_write \<Rightarrow> stored_value" where
  "last_value (Read v) = v"
| "last_value (Write v) = v"
| "last_value (ReadThenWrite _ v) = v"

fun is_write :: "key_read_write \<Rightarrow> bool" where
  "is_write (Read _) = False"
| "is_write _ = True"

fun krw_write :: "stored_value \<Rightarrow> key_read_write \<Rightarrow> key_read_write" where
  "krw_write new_value (Read v) = ReadThenWrite v new_value"
| "krw_write new_value (Write v) = Write new_value"
| "krw_write new_value (ReadThenWrite p v) = ReadThenWrite p new_value"

fun krw_read :: "stored_value \<Rightarrow> key_read_write \<Rightarrow> key_read_write" where
  "krw_read read_value (Read v) = Read v"
| "krw_read read_value (ReadThenWrite p v) = ReadThenWrite p v"
| "krw_read read_value (Write v) = ReadThenWrite read_value v"

text \<open>\<open>finalize\<close>: what is known of the priors before, the value each outstanding key loads from the
  store, and the keys written.  The keys looked up in the loop are added at the end.\<close>
fun finalize_loop ::
  "(bytes \<times> key_read_write) list \<Rightarrow> delta \<Rightarrow> delta \<Rightarrow> bytes list \<Rightarrow> delta \<times> bytes list" where
  "finalize_loop [] tentative final lookups = (final, lookups)"
| "finalize_loop ((path, Read _) # actuals) tentative final lookups = finalize_loop actuals tentative final lookups"
| "finalize_loop ((path, Write _) # actuals) tentative final lookups =
     (case map_of tentative path of
        Some value \<Rightarrow> finalize_loop actuals (filter (\<lambda>kv. fst kv \<noteq> path) tentative) (final @ [(path, value)]) lookups
      | None \<Rightarrow> finalize_loop actuals tentative final (lookups @ [path]))"
| "finalize_loop ((path, ReadThenWrite prior _) # actuals) tentative final lookups =
     finalize_loop actuals tentative (final @ [(path, prior)]) lookups"

definition finalize :: "delta \<Rightarrow> (bytes \<Rightarrow> stored_value) \<Rightarrow> (bytes \<times> key_read_write) list \<Rightarrow> delta" where
  "finalize tentative load actuals =
     (let (final, lookups) = finalize_loop actuals tentative [] [] in final @ map (\<lambda>k. (k, load k)) lookups)"

text \<open>What a session relies on: the keys are distinct, the reads it reports and the priors fetched
  so far are those of the store.\<close>
definition actuals_ok :: "(bytes \<Rightarrow> stored_value) \<Rightarrow> (bytes \<times> key_read_write) list \<Rightarrow> bool" where
  "actuals_ok load actuals \<longleftrightarrow> distinct (map fst actuals) \<and>
     (\<forall>(k, a)\<in>set actuals. case a of ReadThenWrite p _ \<Rightarrow> p = load k | _ \<Rightarrow> True)"

definition writes_of :: "(bytes \<times> key_read_write) list \<Rightarrow> bytes set" where
  "writes_of actuals = set (map fst (filter (\<lambda>ka. is_write (snd ka)) actuals))"

text \<open>The entries collected so far, and the keys still to be looked up.\<close>
definition priors_ok :: "(bytes \<Rightarrow> stored_value) \<Rightarrow> delta \<Rightarrow> bytes list \<Rightarrow> bool" where
  "priors_ok load final lookups \<longleftrightarrow> (\<forall>kv\<in>set final. snd kv = load (fst kv)) \<and> distinct (map fst final @ lookups)"

abbreviation prior_keys :: "delta \<Rightarrow> bytes list \<Rightarrow> bytes set" where
  "prior_keys final lookups \<equiv> fst ` set final \<union> set lookups"

lemma priors_ok_entry:
  "priors_ok load final lookups \<Longrightarrow> k \<notin> prior_keys final lookups \<Longrightarrow> priors_ok load (final @ [(k, load k)]) lookups"
  by (auto simp: priors_ok_def)

lemma priors_ok_lookup:
  "priors_ok load final lookups \<Longrightarrow> k \<notin> prior_keys final lookups \<Longrightarrow> priors_ok load final (lookups @ [k])"
  by (auto simp: priors_ok_def)

lemma actuals_ok_Cons:
  assumes "actuals_ok load ((k, a) # actuals)"
  shows "actuals_ok load actuals" "k \<notin> fst ` set actuals" "a = ReadThenWrite p v \<Longrightarrow> p = load k"
  using assms by (auto simp: actuals_ok_def)

lemma writes_of_Cons:
  "writes_of ((k, a) # actuals) = (if is_write a then insert k (writes_of actuals) else writes_of actuals)"
  by (simp add: writes_of_def)

lemma finalize_loop_spec:
  assumes "actuals_ok load actuals" "\<forall>kv\<in>set tentative. snd kv = load (fst kv)"
    and "finalize_loop actuals tentative final lookups = (final', lookups')"
    and "priors_ok load final lookups" "prior_keys final lookups \<inter> fst ` set actuals = {}"
  shows "priors_ok load final' lookups' \<and> prior_keys final' lookups' = prior_keys final lookups \<union> writes_of actuals"
  using assms
proof (induction actuals tentative final lookups rule: finalize_loop.induct)
  case (1 tentative final lookups)
  then show ?case by (simp add: writes_of_def)
next
  case (2 path v actuals tentative final lookups)
  have "prior_keys final lookups \<inter> fst ` set actuals = {}" using "2.prems"(5) by auto
  then show ?case
    using "2.IH"[OF actuals_ok_Cons(1)[OF "2.prems"(1)] "2.prems"(2) _ "2.prems"(4)] "2.prems"(3) by (simp add: writes_of_Cons)
next
  case (3 path v actuals tentative final lookups)
  note ok = actuals_ok_Cons(1,2)[OF "3.prems"(1)]
  have nin: "path \<notin> prior_keys final lookups" using "3.prems"(5) by auto
  show ?case
  proof (cases "map_of tentative path")
    case None
    have "prior_keys final (lookups @ [path]) \<inter> fst ` set actuals = {}" using "3.prems"(5) ok(2) by auto
    then show ?thesis
      using "3.IH"(1)[OF None ok(1) "3.prems"(2) _ priors_ok_lookup[OF "3.prems"(4) nin]] "3.prems"(3) None
      by (simp add: writes_of_Cons)
  next
    case (Some x)
    have val: "x = load path" using map_of_SomeD[OF Some] "3.prems"(2) by fastforce
    have "prior_keys (final @ [(path, x)]) lookups \<inter> fst ` set actuals = {}" using "3.prems"(5) ok(2) by auto
    moreover have "\<forall>kv\<in>set (filter (\<lambda>kv. fst kv \<noteq> path) tentative). snd kv = load (fst kv)" using "3.prems"(2) by simp
    ultimately show ?thesis
      using "3.IH"(2)[OF Some ok(1)] priors_ok_entry[OF "3.prems"(4) nin] "3.prems"(3) Some val
      by (simp add: writes_of_Cons)
  qed
next
  case (4 path prior v actuals tentative final lookups)
  note ok = actuals_ok_Cons(1,2)[OF "4.prems"(1)] actuals_ok_Cons(3)[OF "4.prems"(1) refl]
  have nin: "path \<notin> prior_keys final lookups" using "4.prems"(5) by auto
  have "prior_keys (final @ [(path, prior)]) lookups \<inter> fst ` set actuals = {}" using "4.prems"(5) ok(2) by auto
  then show ?case
    using "4.IH"[OF ok(1) "4.prems"(2)] priors_ok_entry[OF "4.prems"(4) nin] "4.prems"(3) ok(3) by (simp add: writes_of_Cons)
qed

text \<open>The priors of a delta are the values of the written keys before the commit.\<close>
lemma finalize_priors:
  assumes "actuals_ok load actuals" "\<forall>kv\<in>set tentative. snd kv = load (fst kv)"
  shows "map_of (finalize tentative load actuals) k = (if k \<in> writes_of actuals then Some (load k) else None)"
    "distinct (map fst (finalize tentative load actuals))"
proof -
  obtain final lookups where f: "finalize_loop actuals tentative [] [] = (final, lookups)" by (meson surj_pair)
  have sp: "priors_ok load final lookups" "prior_keys final lookups = writes_of actuals"
    using finalize_loop_spec[OF assms f] by (simp_all add: priors_ok_def)
  let ?d = "final @ map (\<lambda>k. (k, load k)) lookups"
  have d: "finalize tentative load actuals = ?d" using f by (simp add: finalize_def)
  show "distinct (map fst (finalize tentative load actuals))"
    unfolding d using sp(1) by (simp add: priors_ok_def comp_def)
  have keys: "fst ` set ?d = writes_of actuals" using sp(2) by (simp add: image_Un image_image)
  have vals: "\<forall>kv\<in>set ?d. snd kv = load (fst kv)" using sp(1) by (auto simp: priors_ok_def)
  show "map_of (finalize tentative load actuals) k = (if k \<in> writes_of actuals then Some (load k) else None)"
  proof (cases "k \<in> writes_of actuals")
    case True
    hence "map_of ?d k \<noteq> None" using keys unfolding map_of_eq_None_iff by blast
    then obtain v where v: "map_of ?d k = Some v" by blast
    hence "v = load k" using map_of_SomeD[OF v] vals by fastforce
    then show ?thesis using True v d by simp
  next
    case False
    hence "map_of ?d k = None" using keys unfolding map_of_eq_None_iff by blast
    then show ?thesis using False d by simp
  qed
qed

end
