(* ===== verification/RollbackLog.thy ===== *)
theory RollbackLog
  imports RollbackDeltas SegLogOpen
begin

text \<open>
  The rollback log, \<open>nomt/src/rollback/mod.rs\<close>: the deltas in memory and their segmented log on
  disk, committing and truncating, the two phases of a sync, and reading the log back.
\<close>

declare upt_Suc [simp del]

section \<open>The log in memory and on disk\<close>

definition MAX_SEGMENT_SIZE :: nat where "MAX_SEGMENT_SIZE = 64 * 1024 * 1024"

text \<open>\<open>InMemory\<close> and \<open>Shared\<close>; the oldest delta is at the front of the log.\<close>
record rollback =
  rb_log :: "(record_id \<times> delta) list"
  rb_pending_truncate :: "u64 option"
  rb_seglog :: segmented_log
  rb_max_rollback_log_len :: nat

text \<open>The callback of \<open>Rollback::read\<close>.\<close>
definition read_delta :: "((record_id \<times> delta) list, delta_error) process_record" where
  "read_delta log record_id payload =
     (case delta_decode payload of Inl e \<Rightarrow> Inl e | Inr (delta, _) \<Rightarrow> Inr (log @ [(record_id, delta)]))"

definition rollback_read ::
  "u32 \<Rightarrow> directory \<Rightarrow> u64 \<Rightarrow> u64 \<Rightarrow> ((delta_error open_error + rollback) \<times> directory) option" where
  "rollback_read max_len dir start_active end_active =
     map_option (\<lambda>(res, dir). (map_sum id (\<lambda>(seglog, log).
         \<lparr>rb_log = log, rb_pending_truncate = None, rb_seglog = seglog, rb_max_rollback_log_len = unat max_len\<rparr>) res, dir))
       (seglog_open read_delta dir ''rollback'' MAX_SEGMENT_SIZE start_active end_active [])"

definition rollback_commit ::
  "rollback \<Rightarrow> directory \<Rightarrow> delta \<Rightarrow> ((append_error + unit) \<times> rollback \<times> directory) option" where
  "rollback_commit rb dir delta =
     map_option (\<lambda>(res, seglog, dir). case res of
         Inl e \<Rightarrow> (Inl e, rb\<lparr>rb_seglog := seglog\<rparr>, dir)
       | Inr record_id \<Rightarrow> (Inr (), rb\<lparr>rb_seglog := seglog, rb_log := rb_log rb @ [(record_id, delta)]\<rparr>, dir))
       (log_append (rb_seglog rb) dir (delta_encode delta))"

section \<open>Truncation\<close>

text \<open>\<open>BTreeMap::insert\<close>, on the entries in order.\<close>
fun bt_insert :: "'k::linorder \<Rightarrow> 'v \<Rightarrow> ('k \<times> 'v) list \<Rightarrow> ('k \<times> 'v) list" where
  "bt_insert k v [] = [(k, v)]"
| "bt_insert k v ((a, b) # xs) =
     (if k < a then (k, v) # (a, b) # xs else if k = a then (k, v) # xs else (a, b) # bt_insert k v xs)"

lemma map_of_bt_insert: "map_of (bt_insert k v xs) = (map_of xs)(k \<mapsto> v)"
  by (induction k v xs rule: bt_insert.induct) auto

lemma set_bt_insert: "fst ` set (bt_insert k v xs) = insert k (fst ` set xs)"
  by (induction k v xs rule: bt_insert.induct) auto

lemma sorted_bt_insert: "sorted_wrt (<) (map fst xs) \<Longrightarrow> sorted_wrt (<) (map fst (bt_insert k v xs))"
proof (induction k v xs rule: bt_insert.induct)
  case (2 k v a b xs)
  have "x \<in> fst ` set (bt_insert k v xs) \<Longrightarrow> a < k \<Longrightarrow> a < x" for x
    using "2.prems" by (auto simp: set_bt_insert)
  then show ?case using 2 by (auto simp: image_iff)
qed simp

definition insert_priors :: "delta \<Rightarrow> (bytes \<times> stored_value) list \<Rightarrow> (bytes \<times> stored_value) list" where
  "insert_priors delta traceback = foldl (\<lambda>tb (k, v). bt_insert k v tb) traceback delta"

text \<open>The loop of \<open>truncate\<close>: the log is popped at its end.\<close>
fun truncate_loop :: "nat \<Rightarrow> (record_id \<times> delta) list \<Rightarrow> (bytes \<times> stored_value) list \<Rightarrow> record_id option \<Rightarrow>
    ((record_id \<times> delta) list \<times> (bytes \<times> stored_value) list \<times> record_id option) option" where
  "truncate_loop 0 log traceback earliest = Some (log, traceback, earliest)"
| "truncate_loop (Suc n) log traceback earliest =
     (if log = [] then None
      else let (record_id, delta) = last log
           in truncate_loop n (butlast log) (insert_priors delta traceback) (Some record_id))"

definition rollback_truncate :: "rollback \<Rightarrow> nat \<Rightarrow> ((bytes \<times> stored_value) list option \<times> rollback) option" where
  "rollback_truncate rb n = do {
     assert_that (n > 0);
     if n > length (rb_log rb) then Some (None, rb)
     else do {
       (log, traceback, earliest) \<leftarrow> truncate_loop n (rb_log rb) [] None;
       earliest_record_id \<leftarrow> earliest;
       new_end_live \<leftarrow> record_prev earliest_record_id;
       Some (Some traceback, rb\<lparr>rb_log := log, rb_pending_truncate := Some new_end_live\<rparr>) } }"

text \<open>\<open>Nomt::rollback\<close> writes the traceback.\<close>
definition traceback_actuals :: "(bytes \<times> stored_value) list \<Rightarrow> (bytes \<times> key_read_write) list" where
  "traceback_actuals traceback = map (\<lambda>(k, v). (k, Write v)) traceback"

section \<open>Syncing\<close>

record writeout_data =
  wd_rollback_start_live :: u64
  wd_rollback_end_live :: u64
  wd_prune_to_new_start_live :: "u64 option"
  wd_prune_to_new_end_live :: "u64 option"

definition writeout_start :: "rollback \<Rightarrow> (writeout_data \<times> rollback) option" where
  "writeout_start rb =
     (let pending = rb_pending_truncate rb; rb = rb\<lparr>rb_pending_truncate := None\<rparr>;
          (start_live, end_live) = live_range (rb_seglog rb)
      in case pending of
           Some pending_truncate \<Rightarrow>
             Some (\<lparr>wd_rollback_start_live = min start_live pending_truncate, wd_rollback_end_live = pending_truncate,
                    wd_prune_to_new_start_live = None, wd_prune_to_new_end_live = Some pending_truncate\<rparr>, rb)
         | None \<Rightarrow> do {
             (prune, rb) \<leftarrow> (if length (rb_log rb) > rb_max_rollback_log_len rb
               then (case rb_log rb of [] \<Rightarrow> None
                 | (record_id, _) # log \<Rightarrow> map_option (\<lambda>r. (Some r, rb\<lparr>rb_log := log\<rparr>)) (record_next record_id))
               else Some (None, rb));
             Some (\<lparr>wd_rollback_start_live = start_live, wd_rollback_end_live = end_live,
                    wd_prune_to_new_start_live = prune, wd_prune_to_new_end_live = None\<rparr>, rb) })"

definition writeout_end ::
  "rollback \<Rightarrow> directory \<Rightarrow> u64 option \<Rightarrow> u64 option \<Rightarrow> ((io_error + unit) \<times> rollback \<times> directory) option" where
  "writeout_end rb dir new_start_live new_end_live = do {
     (res, seglog, dir) \<leftarrow> (case new_start_live of None \<Rightarrow> Some (Inr (), rb_seglog rb, dir)
       | Some n \<Rightarrow> prune_oldest (rb_seglog rb) dir n);
     (case res of Inl e \<Rightarrow> Some (Inl e, rb\<lparr>rb_seglog := seglog\<rparr>, dir)
      | Inr _ \<Rightarrow> do {
          (res, seglog, dir) \<leftarrow> (case new_end_live of None \<Rightarrow> Some (Inr (), seglog, dir)
            | Some n \<Rightarrow> prune_recent seglog dir n);
          Some (res, rb\<lparr>rb_seglog := seglog\<rparr>, dir) }) }"

section \<open>Rolling back restores the store\<close>

definition apply_writes :: "(bytes \<Rightarrow> stored_value) \<Rightarrow> (bytes \<times> key_read_write) list \<Rightarrow> bytes \<Rightarrow> stored_value" where
  "apply_writes st actuals k =
     (case map_of actuals k of Some a \<Rightarrow> if is_write a then last_value a else st k | None \<Rightarrow> st k)"

text \<open>Sessions one after the other: each is the priors fetched ahead and its reads and writes.\<close>
fun run_sessions :: "(bytes \<Rightarrow> stored_value) \<Rightarrow> (delta \<times> (bytes \<times> key_read_write) list) list \<Rightarrow>
    delta list \<times> (bytes \<Rightarrow> stored_value)" where
  "run_sessions st [] = ([], st)"
| "run_sessions st ((tentative, actuals) # ss) =
     (let (ds, st') = run_sessions (apply_writes st actuals) ss in (finalize tentative st actuals # ds, st'))"

fun sessions_ok :: "(bytes \<Rightarrow> stored_value) \<Rightarrow> (delta \<times> (bytes \<times> key_read_write) list) list \<Rightarrow> bool" where
  "sessions_ok st [] = True"
| "sessions_ok st ((tentative, actuals) # ss) \<longleftrightarrow>
     actuals_ok st actuals \<and> (\<forall>kv\<in>set tentative. snd kv = st (fst kv)) \<and> sessions_ok (apply_writes st actuals) ss"

text \<open>A traceback on top of a store.\<close>
definition overlay_map :: "(bytes \<Rightarrow> stored_value) \<Rightarrow> (bytes \<rightharpoonup> stored_value) \<Rightarrow> bytes \<Rightarrow> stored_value" where
  "overlay_map st m k = (case m k of Some v \<Rightarrow> v | None \<Rightarrow> st k)"

lemma map_of_insert_priors: "map_of (insert_priors d tb) = map_of tb ++ map_of (rev d)"
  unfolding insert_priors_def
  by (induction d arbitrary: tb) (auto simp: map_of_bt_insert map_add_assoc[symmetric] fun_eq_iff map_add_def split: option.splits)

lemma sorted_insert_priors: "sorted_wrt (<) (map fst tb) \<Longrightarrow> sorted_wrt (<) (map fst (insert_priors d tb))"
  unfolding insert_priors_def by (induction d arbitrary: tb) (auto intro: sorted_bt_insert)

lemma apply_writes_unwritten: "distinct (map fst actuals) \<Longrightarrow> k \<notin> writes_of actuals \<Longrightarrow> apply_writes st actuals k = st k"
  by (auto simp: apply_writes_def writes_of_def split: option.splits dest!: map_of_SomeD) force


lemma truncate_loop_entries:
  "truncate_loop (length es) (old @ es) tb earliest =
     Some (old, foldl (\<lambda>tb e. insert_priors (snd e) tb) tb (rev es), if es = [] then earliest else Some (fst (hd es)))"
proof (induction es arbitrary: tb earliest rule: rev_induct)
  case (snoc e es)
  then show ?case by (cases e; cases es) (simp_all add: Let_def butlast_append)
qed simp

definition traceback_of :: "(record_id \<times> delta) list \<Rightarrow> (bytes \<times> stored_value) list" where
  "traceback_of es = foldl (\<lambda>tb e. insert_priors (snd e) tb) [] (rev es)"

lemma truncate_entries:
  assumes "rb_log rb = old @ es" "es \<noteq> []" "fst (hd es) \<noteq> 0"
  shows "rollback_truncate rb (length es) =
    Some (Some (traceback_of es), rb\<lparr>rb_log := old, rb_pending_truncate := Some (fst (hd es) - 1)\<rparr>)"
  using truncate_loop_entries[of es old "[]" None] assms by (simp add: rollback_truncate_def record_prev_def traceback_of_def)

text \<open>The priors of a run of sessions, the earlier ones taking precedence.\<close>
fun priors_map :: "delta list \<Rightarrow> bytes \<rightharpoonup> stored_value" where
  "priors_map [] = Map.empty"
| "priors_map (d # ds) = priors_map ds ++ map_of d"

lemma traceback_map:
  "\<forall>e\<in>set es. distinct (map fst (snd e)) \<Longrightarrow>
   map_of (traceback_of es) = priors_map (map snd es)"
proof (induction es)
  case (Cons e es)
  have "map_of (rev (snd e)) = map_of (snd e)" using Cons.prems by (simp add: map_of_inject_set rev_map[symmetric])
  then show ?case using Cons by (simp add: map_of_insert_priors traceback_of_def)
qed (simp add: traceback_of_def)

lemma traceback_sorted: "sorted_wrt (<) (map fst (traceback_of es))"
  by (induction es) (auto simp: traceback_of_def intro: sorted_insert_priors)

lemma priors_restore:
  assumes "sessions_ok st ss" "run_sessions st ss = (ds, st')"
  shows "overlay_map st' (priors_map ds) = st"
  using assms
proof (induction ss arbitrary: st ds)
  case Nil
  then show ?case by (auto simp: overlay_map_def)
next
  case (Cons s ss)
  obtain tentative actuals where s: "s = (tentative, actuals)" by (cases s)
  obtain ds1 where ds1: "run_sessions (apply_writes st actuals) ss = (ds1, st')" "ds = finalize tentative st actuals # ds1"
    using Cons.prems(2) s by (auto split: prod.splits)
  have ok: "actuals_ok st actuals" "\<forall>kv\<in>set tentative. snd kv = st (fst kv)" "sessions_ok (apply_writes st actuals) ss"
    using Cons.prems(1) s by auto
  have IH: "overlay_map st' (priors_map ds1) = apply_writes st actuals" by (rule Cons.IH[OF ok(3) ds1(1)])
  have d: "distinct (map fst actuals)" using ok(1) by (simp add: actuals_ok_def)
  show ?case
  proof
    fix k
    have "overlay_map st' (priors_map ds) k =
        (if k \<in> writes_of actuals then st k else overlay_map st' (priors_map ds1) k)"
      using finalize_priors(1)[OF ok(1,2), of k] by (simp add: overlay_map_def ds1(2) map_add_def)
    thus "overlay_map st' (priors_map ds) k = st k"
      using apply_writes_unwritten[OF d, of k st] unfolding IH by (cases "k \<in> writes_of actuals") simp_all
  qed
qed

lemma run_sessions_distinct:
  "sessions_ok st ss \<Longrightarrow> run_sessions st ss = (ds, st') \<Longrightarrow> length ds = length ss \<and> (\<forall>d\<in>set ds. distinct (map fst d))"
proof (induction ss arbitrary: st ds)
  case (Cons s ss)
  then show ?case
    by (cases s) (auto split: prod.splits dest!: finalize_priors(2) Cons.IH)
qed simp

lemma apply_traceback: "apply_writes st (traceback_actuals tb) = overlay_map st (map_of tb)"
  by (induction tb) (auto simp: apply_writes_def overlay_map_def traceback_actuals_def fun_eq_iff)

text \<open>C15: truncating the log by the last \<open>n\<close> sessions, whatever they read
  and wrote and whichever priors had been fetched ahead, returns the writes, sorted by key, that
  take the store back to its contents before these sessions, and leaves the deltas before them.\<close>
theorem rollback_restores:
  assumes "sessions_ok st ss" "ss \<noteq> []" "run_sessions st ss = (ds, st')"
    and "rb_log rb = old @ zip ids ds" "length ids = length ss" "hd ids \<noteq> 0"
  shows "\<exists>tb. rollback_truncate rb (length ss) =
      Some (Some tb, rb\<lparr>rb_log := old, rb_pending_truncate := Some (hd ids - 1)\<rparr>) \<and>
    apply_writes st' (traceback_actuals tb) = st \<and> sorted_wrt (<) (map fst tb)"
proof -
  have ds: "length ds = length ss" "\<forall>d\<in>set ds. distinct (map fst d)" using run_sessions_distinct[OF assms(1,3)] by auto
  let ?es = "zip ids ds"
  let ?tb = "traceback_of ?es"
  have es: "length ?es = length ss" "map snd ?es = ds" using ds(1) assms(5) by simp_all
  hence ne: "?es \<noteq> []" using assms(2) by auto
  have hd: "fst (hd ?es) = hd ids" using ne by (cases ids; cases ds) auto
  have "\<forall>e\<in>set ?es. distinct (map fst (snd e))" using ds(2) by (auto dest: set_zip_rightD)
  hence "map_of ?tb = priors_map ds" using traceback_map[of ?es] es(2) by simp
  hence "apply_writes st' (traceback_actuals ?tb) = st"
    using priors_restore[OF assms(1,3)] by (simp add: apply_traceback)
  moreover have "rollback_truncate rb (length ss) =
      Some (Some ?tb, rb\<lparr>rb_log := old, rb_pending_truncate := Some (hd ids - 1)\<rparr>)"
    using truncate_entries[OF assms(4) ne] es(1) hd assms(6) by simp
  ultimately show ?thesis using traceback_sorted by blast
qed

definition sample_store :: "bytes \<Rightarrow> stored_value" where
  "sample_store k = (if k = [1] then Some [10] else None)"

definition sample_sessions :: "(delta \<times> (bytes \<times> key_read_write) list) list" where
  "sample_sessions =
     [([([2], None)], [([1], ReadThenWrite (Some [10]) None), ([2], Write (Some [20]))]),
      ([], [([2], Write (Some [21])), ([3], Write (Some [30]))])]"

definition sample_rollback :: rollback where
  "sample_rollback = \<lparr>rb_log = zip [4, 5] (fst (run_sessions sample_store sample_sessions)),
     rb_pending_truncate = None, rb_seglog = sample_seglog, rb_max_rollback_log_len = 100\<rparr>"

theorem rollback_restores_witness:
  "\<exists>tb. rollback_truncate sample_rollback 2 =
      Some (Some tb, sample_rollback\<lparr>rb_log := [], rb_pending_truncate := Some 3\<rparr>) \<and>
    apply_writes (snd (run_sessions sample_store sample_sessions)) (traceback_actuals tb) = sample_store \<and>
    sorted_wrt (<) (map fst tb)"
proof -
  have "sessions_ok sample_store sample_sessions"
    by (simp add: sample_sessions_def sample_store_def actuals_ok_def apply_writes_def)
  moreover have "rb_log sample_rollback = [] @ zip [4, 5] (fst (run_sessions sample_store sample_sessions))"
    by (simp add: sample_rollback_def)
  moreover have "length sample_sessions = 2" "sample_sessions \<noteq> []" by (simp_all add: sample_sessions_def)
  ultimately show ?thesis
    using rollback_restores[of sample_store sample_sessions "fst (run_sessions sample_store sample_sessions)"
        "snd (run_sessions sample_store sample_sessions)" sample_rollback "[]" "[4, 5]"] by simp
qed


section \<open>Rolling back after a restart\<close>

text \<open>A record of the log holds a delta: its payload encodes the same priors.\<close>
definition holds_delta :: "log_record \<Rightarrow> record_id \<times> delta \<Rightarrow> bool" where
  "holds_delta r e \<longleftrightarrow> fst r = fst e \<and> distinct (map fst (snd e)) \<and>
     (\<exists>d. snd r = delta_encode d \<and> delta_ok d \<and> map_of d = map_of (snd e))"

text \<open>The live records on disk that a pending truncation keeps.\<close>
definition kept_records :: "rollback \<Rightarrow> log_record list \<Rightarrow> log_record list" where
  "kept_records rb recs = (case rb_pending_truncate rb of None \<Rightarrow> recs | Some n \<Rightarrow> filter (\<lambda>r. fst r \<le> n) recs)"

text \<open>The deltas in memory are those of the records on disk, up to the pending truncation, whose
  first record is still there.\<close>
definition rollback_rep :: "rollback \<Rightarrow> directory \<Rightarrow> bool" where
  "rollback_rep rb dir \<longleftrightarrow>
     (\<exists>recs. log_abs (rb_seglog rb) dir recs \<and> list_all2 holds_delta (kept_records rb recs) (rb_log rb) \<and>
        (\<forall>n. rb_pending_truncate rb = Some n \<longrightarrow> (\<exists>r\<in>set recs. unat (fst r) = unat n + 1))) \<and>
     sl_filename_prefix (rb_seglog rb) = ''rollback''"

definition same_delta :: "record_id \<times> delta \<Rightarrow> record_id \<times> delta \<Rightarrow> bool" where
  "same_delta e e' \<longleftrightarrow> fst e' = fst e \<and> map_of (snd e') = map_of (snd e) \<and> distinct (map fst (snd e'))"

lemma read_deltas:
  "list_all2 holds_delta recs es \<Longrightarrow>
   \<exists>es'. process_all read_delta acc recs = Inr (acc @ es') \<and> list_all2 same_delta es es' \<and> list_all2 holds_delta recs es'"
proof (induction recs es arbitrary: acc rule: list_all2_induct)
  case (Cons r recs e es)
  obtain rid p where r: "r = (rid, p)" by (cases r)
  obtain d where d: "p = delta_encode d" "delta_ok d" "map_of d = map_of (snd e)" "rid = fst e"
    using Cons.hyps(1) r unfolding holds_delta_def by auto
  obtain d' where d': "delta_decode p = Inr (d', [])" "map_of d' = map_of d" "distinct (map fst d')"
    by (rule delta_decoded[OF d(2), of "[]"]) (simp add: d(1))
  obtain es' where es': "process_all read_delta (acc @ [(rid, d')]) recs = Inr ((acc @ [(rid, d')]) @ es')"
    "list_all2 same_delta es es'" "list_all2 holds_delta recs es'" using Cons.IH by blast
  have "same_delta e (rid, d')" "holds_delta r (rid, d')" using d d' r by (auto simp: same_delta_def holds_delta_def)
  moreover have "read_delta acc rid p = Inr (acc @ [(rid, d')])" using d'(1) by (simp add: read_delta_def)
  ultimately show ?case using es' r by (intro exI[of _ "(rid, d') # es'"]) simp
qed simp

text \<open>Reading the log under a range that ends at one of its records.\<close>
lemma rollback_read_range:
  assumes rep: "log_rep l dir segs" "sl_filename_prefix l = ''rollback''"
    and s: "s \<noteq> 0" "s \<le> e" and e: "(e, p) \<in> set (concat segs)"
    and ds: "list_all2 holds_delta (filter (in_range s e) (concat segs)) es"
  shows "\<exists>rb' dir'. rollback_read mx dir s e = Some (Inr rb', dir') \<and> rollback_rep rb' dir' \<and>
    list_all2 same_delta es (rb_log rb')"
proof -
  let ?recs = "filter (in_range s e) (concat segs)"
  obtain log where r: "process_all read_delta [] ?recs = Inr log" "list_all2 same_delta es log" "list_all2 holds_delta ?recs log"
    using read_deltas[OF ds, of "[]"] by auto
  from open_rep[OF rep(1) s e r(1), of MAX_SEGMENT_SIZE] obtain l' dir' segs' where
    l: "seglog_open read_delta dir ''rollback'' MAX_SEGMENT_SIZE s e [] = Some (Inr (l', log), dir')"
    "log_rep l' dir' segs'" "sl_start_live l' = s" "sl_filename_prefix l' = ''rollback''"
    "filter (\<lambda>r. s \<le> fst r) (concat segs') = ?recs"
    unfolding rep(2) by blast
  have "log_abs l' dir' ?recs" using log_absI[OF l(2)] l(3,5) by simp
  thus ?thesis using l(1,4) r(2,3) by (auto simp: rollback_read_def rollback_rep_def kept_records_def)
qed

lemma same_delta_priors:
  "list_all2 same_delta es es' \<Longrightarrow>
   priors_map (map snd es') = priors_map (map snd es) \<and> (\<forall>e\<in>set es'. distinct (map fst (snd e)))"
  by (induction es es' rule: list_all2_induct) (auto simp: same_delta_def)

lemma rollback_ids: "rollback_rep rb dir \<Longrightarrow> e \<in> set (rb_log rb) \<Longrightarrow> fst e \<noteq> 0"
proof -
  assume "rollback_rep rb dir" and e: "e \<in> set (rb_log rb)"
  then obtain recs where abs: "log_abs (rb_seglog rb) dir recs" and ds: "list_all2 holds_delta (kept_records rb recs) (rb_log rb)"
    unfolding rollback_rep_def by blast
  obtain r where r: "r \<in> set (kept_records rb recs)" "holds_delta r e"
    using ds e unfolding list_all2_conv_all_nth in_set_conv_nth by metis
  hence "r \<in> set recs" by (auto simp: kept_records_def split: option.splits)
  moreover from this have "recs \<noteq> []" by auto
  ultimately have "fst r \<noteq> 0" by (metis live_records[OF abs])
  thus ?thesis using r(2) by (simp add: holds_delta_def)
qed

section \<open>The log refines the stack of deltas\<close>

datatype rollback_op = Commit delta | Truncate nat | Sync

definition run_sync :: "rollback \<Rightarrow> directory \<Rightarrow> ((io_error + unit) \<times> rollback \<times> directory) option" where
  "run_sync rb dir = do {
     (wd, rb) \<leftarrow> writeout_start rb;
     writeout_end rb dir (wd_prune_to_new_start_live wd) (wd_prune_to_new_end_live wd) }"

fun run_rollback_op :: "rollback_op \<Rightarrow> rollback \<Rightarrow> directory \<Rightarrow> (rollback \<times> directory) option" where
  "run_rollback_op (Commit d) rb dir =
     (case rollback_commit rb dir d of Some (Inr _, rb', dir') \<Rightarrow> Some (rb', dir') | _ \<Rightarrow> None)"
| "run_rollback_op (Truncate n) rb dir = map_option (\<lambda>(_, rb'). (rb', dir)) (rollback_truncate rb n)"
| "run_rollback_op Sync rb dir =
     (case run_sync rb dir of Some (Inr _, rb', dir') \<Rightarrow> Some (rb', dir') | _ \<Rightarrow> None)"

text \<open>The same on the deltas alone; \<open>pending\<close> is whether a truncation is.\<close>
fun spec_rollback_op :: "nat \<Rightarrow> rollback_op \<Rightarrow> bool \<times> delta list \<Rightarrow> bool \<times> delta list" where
  "spec_rollback_op mx (Commit d) (pending, ds) = (pending, ds @ [d])"
| "spec_rollback_op mx (Truncate n) (pending, ds) =
     (if n > length ds then (pending, ds) else (True, take (length ds - n) ds))"
| "spec_rollback_op mx Sync (pending, ds) = (False, if \<not> pending \<and> length ds > mx then tl ds else ds)"

text \<open>A commit or a truncation has no truncation before it in the same sync; a sync that truncates
  leaves a delta, or ends below the first record of all.\<close>
fun rollback_op_ok :: "rollback_op \<Rightarrow> rollback \<Rightarrow> bool" where
  "rollback_op_ok (Commit d) rb \<longleftrightarrow> rb_pending_truncate rb = None \<and> delta_ok d \<and>
     length (delta_encode d) \<le> MAX_RECORD_PAYLOAD_SIZE \<and> unat (sl_end_live (rb_seglog rb)) + 1 < 2 ^ 64 \<and>
     (sl_segments (rb_seglog rb) \<noteq> [] \<longrightarrow> unat (sg_id (last (sl_segments (rb_seglog rb)))) + 1 < 2 ^ 32)"
| "rollback_op_ok (Truncate n) rb \<longleftrightarrow> rb_pending_truncate rb = None \<and> n > 0"
| "rollback_op_ok Sync rb \<longleftrightarrow> rb_max_rollback_log_len rb > 0 \<and>
     (\<forall>n. rb_pending_truncate rb = Some n \<longrightarrow> n = 0 \<or> rb_log rb \<noteq> [])"

definition rollback_state :: "rollback \<Rightarrow> bool \<times> delta list" where
  "rollback_state rb = (rb_pending_truncate rb \<noteq> None, map snd (rb_log rb))"

lemma commit_rep:
  assumes rep: "rollback_rep rb dir" and ok: "rollback_op_ok (Commit d) rb"
  shows "\<exists>rb' dir'. rollback_commit rb dir d = Some (Inr (), rb', dir') \<and> rollback_rep rb' dir' \<and>
    rb_log rb' = rb_log rb @ [(sl_end_live (rb_seglog rb) + 1, d)] \<and> rb_pending_truncate rb' = None \<and>
    rb_max_rollback_log_len rb' = rb_max_rollback_log_len rb"
proof -
  let ?l = "rb_seglog rb" let ?r = "(sl_end_live ?l + 1, delta_encode d)"
  have pend: "rb_pending_truncate rb = None" using ok by simp
  obtain recs where abs: "log_abs ?l dir recs" and ds: "list_all2 holds_delta recs (rb_log rb)"
    and pre: "sl_filename_prefix ?l = ''rollback''" using rep pend by (auto simp: rollback_rep_def kept_records_def)
  obtain segs where s: "log_rep ?l dir segs" "recs = filter (\<lambda>r. sl_start_live ?l \<le> fst r) (concat segs)"
    using abs unfolding log_abs_def by blast
  have aok: "op_ok (Append (delta_encode d)) ?l recs" using ok by simp
  obtain l' dir' where l: "run_op (Append (delta_encode d)) ?l dir = Some (l', dir')"
    "log_abs l' dir' (recs @ [?r])" using append_abs[OF s(1) aok] unfolding s(2) by blast
  have "append_to ?l dir segs (delta_encode d)" using append_rep[OF s(1)] ok by simp
  then obtain l2 dir2 where a: "log_append ?l dir (delta_encode d) = Some (Inr (sl_end_live ?l + 1), l2, dir2)"
    "sl_filename_prefix l2 = sl_filename_prefix ?l" unfolding append_to_def by blast
  have eq: "l2 = l'" "dir2 = dir'" using l(1) a(1) by simp_all
  have "holds_delta ?r (sl_end_live ?l + 1, d)" using ok by (auto simp: holds_delta_def delta_ok_def)
  hence "rollback_rep (rb\<lparr>rb_seglog := l', rb_log := rb_log rb @ [(sl_end_live ?l + 1, d)]\<rparr>) dir'"
    using l(2) ds a(2) pre pend eq
    by (auto simp: rollback_rep_def kept_records_def intro!: exI[of _ "recs @ [?r]"] list_all2_appendI)
  thus ?thesis using a(1) eq pend by (simp add: rollback_commit_def)
qed


lemma le_pred: "(x :: u64) \<noteq> 0 \<Longrightarrow> y \<le> x - 1 \<longleftrightarrow> y < x"
  by (simp add: word_le_nat_alt word_less_nat_alt unat_minus_one) (metis Suc_pred less_Suc_eq_le unat_gt_0)

lemma filter_before:
  assumes "ids_upto lo (xs @ (x, p) # ys) hi" "lo > 0"
  shows "filter (\<lambda>r. fst r \<le> x - 1) (xs @ (x, p) # ys) = xs" "x \<noteq> 0" "unat x = unat (x - 1) + 1"
    "ys \<noteq> [] \<Longrightarrow> filter (\<lambda>r. x + 1 \<le> fst r) (xs @ (x, p) # ys) = ys"
proof -
  have "lo \<le> unat x" using ids_upto_bounds[OF assms(1), of "(x, p)"] by simp
  thus x: "x \<noteq> 0" using assms(2) by auto
  thus "unat x = unat (x - 1) + 1" by (simp add: unat_minus_one) (metis Suc_pred unat_gt_0)
  note b = ids_upto_split(2,3)[OF assms(1)]
  show "filter (\<lambda>r. fst r \<le> x - 1) (xs @ (x, p) # ys) = xs"
    using b x by (auto simp: le_pred filter_id_conv filter_empty_conv intro: less_imp_le dest: less_asym)
  show "filter (\<lambda>r. x + 1 \<le> fst r) (xs @ (x, p) # ys) = ys" if ne: "ys \<noteq> []"
  proof -
    have "x < fst (hd ys)" using b(2) ne by simp
    hence "unat x + 1 < 2 ^ 64" using unsigned_less[where 'a = nat, of "fst (hd ys)"] by (simp add: word_less_nat_alt)
    hence "x + 1 \<le> y \<longleftrightarrow> x < y" for y by (simp add: word_le_nat_alt word_less_nat_alt unat_next Suc_le_eq)
    thus ?thesis using b by (auto simp: filter_id_conv filter_empty_conv dest: less_asym)
  qed
qed

lemma truncate_rep:
  assumes rep: "rollback_rep rb dir" and ok: "rollback_op_ok (Truncate n) rb" and n: "n \<le> length (rb_log rb)"
  shows "\<exists>tb rb'. rollback_truncate rb n = Some (Some tb, rb') \<and> rollback_rep rb' dir \<and>
    rb_log rb' = take (length (rb_log rb) - n) (rb_log rb) \<and> rb_pending_truncate rb' \<noteq> None"
proof -
  let ?k = "length (rb_log rb) - n" let ?es = "drop ?k (rb_log rb)" let ?old = "take ?k (rb_log rb)"
  have pend: "rb_pending_truncate rb = None" "n > 0" using ok by simp_all
  obtain recs where abs: "log_abs (rb_seglog rb) dir recs" and ds: "list_all2 holds_delta recs (?old @ ?es)"
    and pre: "sl_filename_prefix (rb_seglog rb) = ''rollback''" using rep pend by (auto simp: rollback_rep_def kept_records_def)
  obtain x d es' where es: "?es = (x, d) # es'" using n pend(2) by (cases ?es) auto
  obtain r1 p r2 where r: "recs = r1 @ (x, p) # r2" "list_all2 holds_delta r1 ?old"
    using ds unfolding es by (auto simp: list_all2_append2 list_all2_Cons2 holds_delta_def)
  have "recs \<noteq> []" using r(1) by simp
  from live_ids[OF abs this] obtain lo where lo: "lo > 0" "ids_upto lo (r1 @ (x, p) # r2) (unat (sl_end_live (rb_seglog rb)))"
    using r(1) by blast
  note f = filter_before[OF lo(2,1)]
  let ?rb = "rb\<lparr>rb_log := ?old, rb_pending_truncate := Some (x - 1)\<rparr>"
  have "rollback_rep ?rb dir" unfolding rollback_rep_def
    by (rule conjI, rule exI[of _ recs]) (use abs r f pre in \<open>auto simp: kept_records_def\<close>)
  moreover have "length ?es = n" using n by simp
  hence "\<exists>tb. rollback_truncate rb n = Some (Some tb, ?rb)"
    using truncate_entries[OF append_take_drop_id[symmetric], of ?k rb] es f(2) by simp
  ultimately show ?thesis by auto
qed


text \<open>A sync with no truncation pending drops the oldest delta when there are too many.\<close>
lemma sync_prune_rep:
  assumes rep: "rollback_rep rb dir" and ok: "rollback_op_ok Sync rb" and pend: "rb_pending_truncate rb = None"
  shows "\<exists>rb' dir'. run_sync rb dir = Some (Inr (), rb', dir') \<and> rollback_rep rb' dir' \<and> rb_pending_truncate rb' = None \<and>
    rb_log rb' = (if length (rb_log rb) > rb_max_rollback_log_len rb then tl (rb_log rb) else rb_log rb)"
proof (cases "length (rb_log rb) > rb_max_rollback_log_len rb")
  case False
  hence "run_sync rb dir = Some (Inr (), rb, dir)"
    using pend by (cases rb) (simp add: run_sync_def writeout_start_def writeout_end_def live_range_def)
  thus ?thesis using rep pend False by auto
next
  case True
  let ?l = "rb_seglog rb"
  obtain recs where abs: "log_abs ?l dir recs" and ds: "list_all2 holds_delta recs (rb_log rb)"
    and pre: "sl_filename_prefix ?l = ''rollback''" using rep pend by (auto simp: rollback_rep_def kept_records_def)
  have "2 \<le> length (rb_log rb)" using True ok by simp
  then obtain x d e es where log: "rb_log rb = (x, d) # e # es"
    by (metis Suc_le_length_iff numeral_2_eq_2 surj_pair)
  obtain q r rs where q: "recs = q # r # rs" "holds_delta q (x, d)" "list_all2 holds_delta (r # rs) (e # es)"
    using ds unfolding log by (auto simp: list_all2_Cons2)
  then obtain p where recs: "recs = (x, p) # r # rs" by (cases q) (simp add: holds_delta_def)
  obtain lo where lo: "lo > 0" "ids_upto lo ([] @ (x, p) # r # rs) (unat (sl_end_live ?l))"
    using live_ids[OF abs] recs by auto
  have r: "x < fst r" "fst r \<le> sl_end_live ?l"
    using ids_upto_split(3)[OF lo(2)] ids_upto_bounds[OF lo(2), of r] by (simp_all add: word_le_nat_alt)
  hence x: "unat x + 1 < 2 ^ 64" "x + 1 \<le> sl_end_live ?l" "x \<le> x + 1"
    using unsigned_less[where 'a = nat, of "fst r"] unat_next[of x] by (simp_all add: word_le_nat_alt word_less_nat_alt)
  obtain segs where "recs = filter (\<lambda>r. sl_start_live ?l \<le> fst r) (concat segs)" using abs unfolding log_abs_def by blast
  hence "\<forall>r\<in>set recs. sl_start_live ?l \<le> fst r" by simp
  hence "sl_start_live ?l \<le> x" using recs by simp
  hence "op_ok (PruneOldest (x + 1)) ?l recs" "x + 1 \<noteq> 0" using x recs unat_next[of x] by auto
  from prune_abs(1)[OF abs this] obtain l' dir' where
    l: "prune_oldest ?l dir (x + 1) = Some (Inr (), l', dir')" "sl_filename_prefix l' = sl_filename_prefix ?l"
    "log_abs l' dir' (r # rs)" using filter_before(4)[OF lo(2,1)] recs by auto
  let ?rb = "rb\<lparr>rb_pending_truncate := None, rb_log := e # es, rb_seglog := l'\<rparr>"
  have "run_sync rb dir = Some (Inr (), ?rb, dir')"
    using True pend log l(1) x(1) by (simp add: run_sync_def writeout_start_def writeout_end_def live_range_def record_next_def)
  moreover have "rollback_rep ?rb dir'" using l(2,3) q(3) pre by (auto simp: rollback_rep_def kept_records_def)
  ultimately show ?thesis using True log by auto
qed

text \<open>A sync with a truncation pending drops its records.\<close>
lemma sync_truncate_rep:
  assumes rep: "rollback_rep rb dir" and ok: "rollback_op_ok Sync rb" and pend: "rb_pending_truncate rb = Some n"
  shows "\<exists>rb' dir'. run_sync rb dir = Some (Inr (), rb', dir') \<and> rollback_rep rb' dir' \<and> rb_pending_truncate rb' = None \<and>
    rb_log rb' = rb_log rb"
proof -
  let ?l = "rb_seglog rb"
  obtain recs r where abs: "log_abs ?l dir recs" and ds: "list_all2 holds_delta (filter (\<lambda>r. fst r \<le> n) recs) (rb_log rb)"
    and r: "r \<in> set recs" "unat (fst r) = unat n + 1"
    and pre: "sl_filename_prefix ?l = ''rollback''" using rep pend by (auto simp: rollback_rep_def kept_records_def)
  have "recs \<noteq> []" using r(1) by auto
  from live_ids[OF abs this] obtain lo where lo: "ids_upto lo recs (unat (sl_end_live ?l))" by blast
  have "n = 0 \<or> n \<in> fst ` set recs"
  proof (cases "rb_log rb = []")
    case True
    then show ?thesis using ok pend by auto
  next
    case False
    hence "filter (\<lambda>r. fst r \<le> n) recs \<noteq> []" using ds by auto
    then obtain q where q: "q \<in> set recs" "fst q \<le> n" by (auto simp: filter_empty_conv)
    hence "lo \<le> unat n" "unat n \<le> unat (sl_end_live ?l)"
      using ids_upto_bounds[OF lo q(1)] ids_upto_bounds[OF lo r(1)] r(2) by (auto simp: word_le_nat_alt)
    then show ?thesis using ids_upto_ex[OF lo] by force
  qed
  hence "op_ok (PruneRecent n) ?l recs" by simp
  from prune_abs(2)[OF abs this] obtain l' dir' where
    l: "prune_recent ?l dir n = Some (Inr (), l', dir')" "sl_filename_prefix l' = sl_filename_prefix ?l"
    "log_abs l' dir' (filter (\<lambda>r. fst r \<le> n) recs)" by blast
  let ?rb = "rb\<lparr>rb_pending_truncate := None, rb_seglog := l'\<rparr>"
  have "run_sync rb dir = Some (Inr (), ?rb, dir')"
    using pend l(1) by (simp add: run_sync_def writeout_start_def writeout_end_def live_range_def)
  moreover have "rollback_rep ?rb dir'" using l(2,3) ds pre by (auto simp: rollback_rep_def kept_records_def)
  ultimately show ?thesis by auto
qed

text \<open>C17: the rollback log, in memory and on disk, implements a
  bounded stack of deltas: a commit pushes its delta, a truncation pops deltas or does nothing
  when there are too few, and a sync forgets the oldest delta over the limit.\<close>
theorem rollback_refines_stack:
  assumes "rollback_rep rb dir" "rollback_op_ok op rb"
  shows "\<exists>rb' dir'. run_rollback_op op rb dir = Some (rb', dir') \<and> rollback_rep rb' dir' \<and>
    rollback_state rb' = spec_rollback_op (rb_max_rollback_log_len rb) op (rollback_state rb)"
proof (cases op)
  case (Commit d)
  then show ?thesis using commit_rep[OF assms(1)] assms(2) by (fastforce simp: rollback_state_def)
next
  case (Truncate n)
  show ?thesis
  proof (cases "n > length (rb_log rb)")
    case True
    then show ?thesis using Truncate assms by (auto simp: rollback_truncate_def rollback_state_def)
  next
    case False
    then show ?thesis using truncate_rep[OF assms(1), of n] assms(2) Truncate by (fastforce simp: rollback_state_def take_map)
  qed
next
  case Sync
  show ?thesis
  proof (cases "rb_pending_truncate rb")
    case None
    then show ?thesis using sync_prune_rep[OF assms(1) _ None] assms(2) Sync by (fastforce simp: rollback_state_def map_tl)
  next
    case (Some n)
    then show ?thesis using sync_truncate_rep[OF assms(1) _ Some] assms(2) Sync by (fastforce simp: rollback_state_def)
  qed
qed


section \<open>A log on disk\<close>

text \<open>A log whose first segment was pruned: one delta, the second ever.\<close>
definition pruned_path :: string where "pruned_path = segment_filename ''rollback'' 2"

definition pruned_record :: log_record where "pruned_record = (2, delta_encode sample_delta)"

definition pruned_rollback :: rollback where
  "pruned_rollback = \<lparr>rb_log = [(2, sample_delta)], rb_pending_truncate = None,
     rb_seglog = \<lparr>sl_filename_prefix = ''rollback'', sl_max_segment_size = MAX_SEGMENT_SIZE, sl_start_live = 2, sl_end_live = 2,
       sl_segments = [\<lparr>sg_id = 2, sg_path = pruned_path, sg_min = 2, sg_max = 2\<rparr>],
       sl_head_segment_writer = Some (pruned_path, length (seg_bytes [pruned_record]))\<rparr>,
     rb_max_rollback_log_len = 1\<rparr>"

lemma pruned_log_rep: "log_rep (rb_seglog pruned_rollback) [(pruned_path, seg_bytes [pruned_record])] [[pruned_record]]"
proof -
  have "segs_rep ''rollback'' [(pruned_path, seg_bytes [pruned_record])] (sl_segments (rb_seglog pruned_rollback)) [[pruned_record]]"
    by (auto simp: segs_rep_def pruned_rollback_def seg_rep_def pruned_record_def pruned_path_def upt_rec intro!: exI[of _ "2::nat"])
  moreover have "ids_upto 2 [pruned_record] 2" by (simp add: ids_upto_def pruned_record_def upt_rec)
  hence "\<exists>lo>0. ids_upto lo [pruned_record] 2" by (intro exI[of _ 2]) simp
  moreover have "record_ok pruned_record"
    by (simp add: pruned_record_def record_ok_def MAX_RECORD_PAYLOAD_SIZE_def delta_encode_def sample_delta_def
        delta_erase_def delta_reinstate_def print_prior_def u32_bytes_def)
  ultimately show ?thesis by (simp add: log_rep_def pruned_rollback_def)
qed

lemma pruned_holds: "holds_delta pruned_record (2, sample_delta)"
  using sample_delta_ok by (auto simp: holds_delta_def pruned_record_def delta_ok_def)

lemma pruned_rollback_rep: "rollback_rep pruned_rollback [(pruned_path, seg_bytes [pruned_record])]"
proof -
  have "log_abs (rb_seglog pruned_rollback) [(pruned_path, seg_bytes [pruned_record])] [pruned_record]"
    by (rule log_absI[OF pruned_log_rep]) (simp add: pruned_rollback_def pruned_record_def)
  thus ?thesis using pruned_holds by (auto simp: rollback_rep_def kept_records_def pruned_rollback_def)
qed

definition pruned_store :: "bytes \<Rightarrow> stored_value" where
  "pruned_store k = (if k = replicate 32 1 then Some [4, 5, 6] else if k = replicate 32 3 then Some [] else None)"

definition pruned_session :: "delta \<times> (bytes \<times> key_read_write) list" where
  "pruned_session = ([], [(replicate 32 1, Write None), (replicate 32 2, Write (Some [7])), (replicate 32 3, Write None)])"

theorem rollback_refines_stack_witness:
  "\<exists>rb' dir'. run_rollback_op (Commit sample_delta) pruned_rollback [(pruned_path, seg_bytes [pruned_record])] = Some (rb', dir') \<and>
    rollback_rep rb' dir' \<and> rollback_state rb' = (False, [sample_delta, sample_delta])"
proof -
  have "length (delta_encode sample_delta) \<le> MAX_RECORD_PAYLOAD_SIZE"
    using pruned_log_rep by (simp add: log_rep_def record_ok_def pruned_record_def)
  hence "rollback_op_ok (Commit sample_delta) pruned_rollback" using sample_delta_ok by (simp add: pruned_rollback_def)
  moreover have "spec_rollback_op 1 (Commit sample_delta) (rollback_state pruned_rollback) = (False, [sample_delta, sample_delta])"
    "rb_max_rollback_log_len pruned_rollback = 1"
    by (simp_all add: rollback_state_def pruned_rollback_def)
  ultimately show ?thesis using rollback_refines_stack[OF pruned_rollback_rep] by metis
qed

end
