(* ===== verification/RollbackRestart.thy ===== *)
theory RollbackRestart
  imports RollbackLog
begin

text \<open>
  Restarting after a sync: the range that a sync puts in the metadata page lets the rollback log be
  read back, both when the process stops before the sync has pruned the log and when it stops
  after, and the sessions that the sync kept can be rolled back from the log that was read.
\<close>

declare upt_Suc [simp del]

section \<open>Reading the log back\<close>

text \<open>A log read back ends with the given deltas.\<close>
definition reads_back :: "u32 \<Rightarrow> directory \<Rightarrow> writeout_data \<Rightarrow> (record_id \<times> delta) list \<Rightarrow> bool" where
  "reads_back mx dir wd es \<longleftrightarrow> (\<exists>rb dir' old es'.
     rollback_read mx dir (wd_rollback_start_live wd) (wd_rollback_end_live wd) = Some (Inr rb, dir') \<and>
     rollback_rep rb dir' \<and> rb_log rb = old @ es' \<and> list_all2 same_delta es es')"

lemma reads_backI:
  assumes "log_rep l dir segs" "sl_filename_prefix l = ''rollback''"
    and "wd_rollback_start_live wd \<noteq> 0" "wd_rollback_start_live wd \<le> wd_rollback_end_live wd"
    and "(wd_rollback_end_live wd, p) \<in> set (concat segs)"
    and "list_all2 holds_delta (filter (in_range (wd_rollback_start_live wd) (wd_rollback_end_live wd)) (concat segs)) (old @ es)"
  shows "reads_back mx dir wd es"
proof -
  obtain rb dir' where r: "rollback_read mx dir (wd_rollback_start_live wd) (wd_rollback_end_live wd) = Some (Inr rb, dir')"
    "rollback_rep rb dir'" "list_all2 same_delta (old @ es) (rb_log rb)"
    using rollback_read_range[OF assms] by blast
  then show ?thesis unfolding reads_back_def by (auto simp: list_all2_append1)
qed

text \<open>From a log read back, the sessions whose deltas it ends with can be rolled back.\<close>
lemma reads_back_restores:
  assumes "reads_back mx dir wd (old @ zip ids ds)" "sessions_ok st ss" "ss \<noteq> []" "run_sessions st ss = (ds, st')"
    and "length ids = length ss"
  shows "\<exists>rb dir' tb rb'. rollback_read mx dir (wd_rollback_start_live wd) (wd_rollback_end_live wd) = Some (Inr rb, dir') \<and>
    rollback_rep rb dir' \<and> rollback_truncate rb (length ss) = Some (Some tb, rb') \<and>
    apply_writes st' (traceback_actuals tb) = st"
proof -
  let ?es = "zip ids ds"
  have "length ds = length ss" using run_sessions_distinct[OF assms(2,4)] by blast
  then have es: "length ?es = length ss" "map snd ?es = ds" using assms(5) by auto
  obtain rb dir' front es' where r: "rollback_read mx dir (wd_rollback_start_live wd) (wd_rollback_end_live wd) = Some (Inr rb, dir')"
    "rollback_rep rb dir'" "rb_log rb = front @ es'" "list_all2 same_delta ?es es'"
    using assms(1) unfolding reads_back_def by (auto simp: list_all2_append1) (metis append.assoc)
  have e': "length es' = length ss" "es' \<noteq> []" "priors_map (map snd es') = priors_map (map snd ?es)"
    "\<forall>e\<in>set es'. distinct (map fst (snd e))"
    using es assms(3) list_all2_lengthD[OF r(4)] same_delta_priors[OF r(4)] by auto
  have "fst (hd es') \<noteq> 0" using rollback_ids[OF r(2)] r(3) e'(2) by auto
  then have "\<exists>rb'. rollback_truncate rb (length ss) = Some (Some (traceback_of es'), rb')"
    using truncate_entries[OF r(3) e'(2)] e'(1) by simp
  moreover have "apply_writes st' (traceback_actuals (traceback_of es')) = st"
    using traceback_map[OF e'(4)] e'(3) es(2) priors_restore[OF assms(2,4)] by (simp add: apply_traceback)
  ultimately show ?thesis using r(1,2) by blast
qed

section \<open>The syncs\<close>

text \<open>What a restart finds around the end of a sync, before and after the log is pruned.\<close>
definition sync_reads_back :: "u32 \<Rightarrow> directory \<Rightarrow> writeout_data \<Rightarrow> rollback \<Rightarrow> bool" where
  "sync_reads_back mx dir wd rb \<longleftrightarrow> (\<exists>rb' dir'.
     writeout_end rb dir (wd_prune_to_new_start_live wd) (wd_prune_to_new_end_live wd) = Some (Inr (), rb', dir') \<and>
     reads_back mx dir wd (rb_log rb) \<and> reads_back mx dir' wd (rb_log rb))"

lemma filter_swap: "filter P (filter Q xs) = filter Q (filter P xs)"
  by (induction xs) auto

lemma sync_keep_reads_back:
  assumes rep: "rollback_rep rb dir" and pend: "rb_pending_truncate rb = None"
    and le: "length (rb_log rb) \<le> rb_max_rollback_log_len rb" and ne: "rb_log rb \<noteq> []"
    and wd: "writeout_start rb = Some (wd, rb1)"
  shows "sync_reads_back mx dir wd rb1"
proof -
  let ?l = "rb_seglog rb"
  obtain recs where abs: "log_abs ?l dir recs" and ds: "list_all2 holds_delta recs (rb_log rb)"
    and pre: "sl_filename_prefix ?l = ''rollback''" using rep pend by (auto simp: rollback_rep_def kept_records_def)
  have "recs \<noteq> []" using ds ne by auto
  then obtain segs p where l: "log_rep ?l dir segs" "recs = filter (in_range (sl_start_live ?l) (sl_end_live ?l)) (concat segs)"
    "sl_start_live ?l \<noteq> 0" "sl_start_live ?l \<le> sl_end_live ?l" "(sl_end_live ?l, p) \<in> set (concat segs)"
    using live_records[OF abs] by metis
  have wd': "wd = \<lparr>wd_rollback_start_live = sl_start_live ?l, wd_rollback_end_live = sl_end_live ?l,
      wd_prune_to_new_start_live = None, wd_prune_to_new_end_live = None\<rparr>" "rb_log rb1 = rb_log rb"
    using wd pend le by (auto simp: writeout_start_def live_range_def)
  have "reads_back mx dir wd (rb_log rb1)"
    by (rule reads_backI[OF l(1) pre, of wd p "[]"]) (use l ds wd' in simp_all)
  then show ?thesis using wd'(1) by (simp add: sync_reads_back_def writeout_end_def)
qed

lemma sync_prune_reads_back:
  assumes rep: "rollback_rep rb dir" and pend: "rb_pending_truncate rb = None"
    and gt: "length (rb_log rb) > rb_max_rollback_log_len rb" and wd: "writeout_start rb = Some (wd, rb1)"
    and ne: "rb_log rb1 \<noteq> []"
  shows "sync_reads_back mx dir wd rb1"
proof -
  let ?l = "rb_seglog rb"
  obtain recs where abs: "log_abs ?l dir recs" and ds: "list_all2 holds_delta recs (rb_log rb)"
    and pre: "sl_filename_prefix ?l = ''rollback''" using rep pend by (auto simp: rollback_rep_def kept_records_def)
  obtain x d es where log: "rb_log rb = (x, d) # es" "rb_log rb1 = es" "rb_seglog rb1 = ?l"
    and wd': "wd = \<lparr>wd_rollback_start_live = sl_start_live ?l, wd_rollback_end_live = sl_end_live ?l,
      wd_prune_to_new_start_live = record_next x, wd_prune_to_new_end_live = None\<rparr>" and nx: "record_next x \<noteq> None"
    using wd pend gt by (auto simp: writeout_start_def live_range_def bind_eq_Some_conv split: list.splits)
  obtain p rs where recs: "recs = (x, p) # rs" "list_all2 holds_delta rs es" "rs \<noteq> []"
    using ds ne log by (auto simp: list_all2_Cons2 holds_delta_def)
  obtain segs q where l: "log_rep ?l dir segs" "recs = filter (in_range (sl_start_live ?l) (sl_end_live ?l)) (concat segs)"
    "recs = filter (\<lambda>r. sl_start_live ?l \<le> fst r) (concat segs)"
    "sl_start_live ?l \<noteq> 0" "sl_start_live ?l \<le> sl_end_live ?l" "(sl_end_live ?l, q) \<in> set (concat segs)"
    using live_records[OF abs] recs(1) by (metis list.distinct(1))
  have all: "reads_back mx dir wd es"
    by (rule reads_backI[OF l(1) pre, of wd q "[(x, d)]"]) (use l ds wd' log(1) in simp_all)
  obtain lo where lo: "lo > 0" "ids_upto lo ([] @ (x, p) # rs) (unat (sl_end_live ?l))"
    using live_ids[OF abs] recs(1) by auto
  have hd: "x < fst (hd rs)" "fst (hd rs) \<le> sl_end_live ?l"
    using ids_upto_split(3)[OF lo(2)] ids_upto_bounds[OF lo(2), of "hd rs"] recs(3) by (simp_all add: word_le_nat_alt)
  then have x: "unat x + 1 < 2 ^ 64" "x + 1 \<le> sl_end_live ?l" "x < x + 1"
    using unsigned_less[where 'a = nat, of "fst (hd rs)"] unat_next[of x] by (simp_all add: word_le_nat_alt word_less_nat_alt)
  have "(x, p) \<in> set recs" using recs(1) by simp
  then have "sl_start_live ?l \<le> x" unfolding l(3) by simp
  then have sx: "sl_start_live ?l \<le> x + 1" using x(3) by simp
  have "segs \<noteq> []" using l(6) by auto
  from prune_oldest_rep[OF l(1) this sx x(2)] obtain l' dir' segs' old where
    l': "prune_oldest ?l dir (x + 1) = Some (Inr (), l', dir')" "log_rep l' dir' segs'" "sl_filename_prefix l' = ''rollback''"
    "filter (\<lambda>r. x + 1 \<le> fst r) (concat segs') = filter (\<lambda>r. x + 1 \<le> fst r) (concat segs)"
    and old: "concat segs = old @ concat segs'" unfolding pre by blast
  let ?in = "in_range (sl_start_live ?l) (sl_end_live ?l)"
  have split: "recs = filter ?in old @ filter ?in (concat segs')" using l(2) old by simp
  have e: "(sl_end_live ?l, q) \<in> set (concat segs')"
  proof -
    have "(sl_end_live ?l, q) \<in> set (filter (\<lambda>r. x + 1 \<le> fst r) (concat segs))" using l(6) x(2) by simp
    then show ?thesis unfolding l'(4)[symmetric] by simp
  qed
  have "rs = filter (\<lambda>r. x + 1 \<le> fst r) (filter ?in (concat segs'))"
    using filter_before(4)[OF lo(2,1) recs(3)] unfolding append_Nil recs(1)[symmetric] l(2) filter_swap[of _ ?in] l'(4) by (rule sym)
  then have "length rs \<le> length (filter ?in (concat segs'))" using length_filter_le by metis
  then have "filter ?in old = [] \<or> filter ?in (concat segs') = rs"
    using split recs(1) by (cases "filter ?in old") (auto dest: arg_cong[of _ _ length])
  then obtain front where "list_all2 holds_delta (filter ?in (concat segs')) (front @ es)"
    using split ds log(1) recs(1,2) by (metis append_Cons append_Nil)
  then have "reads_back mx dir' wd es"
    using reads_backI[OF l'(2,3), of wd q front es] l(4,5) e wd' by simp
  moreover have "writeout_end rb1 dir (wd_prune_to_new_start_live wd) (wd_prune_to_new_end_live wd) =
      Some (Inr (), rb1\<lparr>rb_seglog := l'\<rparr>, dir')"
    using wd' l'(1) x(1) log(3) by (simp add: writeout_end_def record_next_def)
  ultimately show ?thesis using all log(2) by (simp add: sync_reads_back_def)
qed

lemma sync_truncate_reads_back:
  assumes rep: "rollback_rep rb dir" and pend: "rb_pending_truncate rb = Some n"
    and wd: "writeout_start rb = Some (wd, rb1)" and ne: "rb_log rb1 \<noteq> []"
  shows "sync_reads_back mx dir wd rb1"
proof -
  let ?l = "rb_seglog rb"
  obtain recs where abs: "log_abs ?l dir recs" and ds: "list_all2 holds_delta (filter (\<lambda>r. fst r \<le> n) recs) (rb_log rb)"
    and nn: "\<exists>r\<in>set recs. unat (fst r) = unat n + 1"
    and pre: "sl_filename_prefix ?l = ''rollback''" using rep pend by (auto simp: rollback_rep_def kept_records_def)
  have log: "rb_log rb1 = rb_log rb" "rb_seglog rb1 = ?l"
    and wd': "wd = \<lparr>wd_rollback_start_live = min (sl_start_live ?l) n, wd_rollback_end_live = n,
      wd_prune_to_new_start_live = None, wd_prune_to_new_end_live = Some n\<rparr>"
    using wd pend by (auto simp: writeout_start_def live_range_def)
  have "filter (\<lambda>r. fst r \<le> n) recs \<noteq> []" using ds ne log(1) by auto
  then obtain k where k: "k \<in> set recs" "fst k \<le> n" by (auto simp: filter_empty_conv)
  then have "recs \<noteq> []" by auto
  then obtain segs where l: "log_rep ?l dir segs" "recs = filter (\<lambda>r. sl_start_live ?l \<le> fst r) (concat segs)"
    "sl_start_live ?l \<noteq> 0" using live_records[OF abs] by metis
  obtain lo where lo: "ids_upto lo recs (unat (sl_end_live ?l))" using live_ids[OF abs \<open>recs \<noteq> []\<close>] by blast
  have "lo \<le> unat n" "unat n \<le> unat (sl_end_live ?l)"
    using ids_upto_bounds[OF lo k(1)] k(2) nn ids_upto_bounds[OF lo] by (force simp: word_le_nat_alt)+
  then obtain p where p: "(n, p) \<in> set recs" using ids_upto_ex[OF lo] by force
  then have n: "sl_start_live ?l \<le> n" "(n, p) \<in> set (concat segs)" unfolding l(2) by simp_all
  then have mn: "min (sl_start_live ?l) n = sl_start_live ?l" by simp
  have rng: "filter (in_range (sl_start_live ?l) n) (concat segs) = filter (\<lambda>r. fst r \<le> n) recs"
    unfolding l(2) filter_filter by (intro filter_cong) (auto simp: in_range_def)
  have "segs \<noteq> []" using n(2) by auto
  from prune_recent_rep[OF l(1) this n] obtain l' dir' segs' where
    l': "prune_recent ?l dir n = Some (Inr (), l', dir')" "log_rep l' dir' segs'" "sl_filename_prefix l' = ''rollback''"
    "concat segs' = filter (\<lambda>r. fst r \<le> n) (concat segs)" unfolding pre by blast
  have rng': "filter (in_range (sl_start_live ?l) n) (concat segs') = filter (\<lambda>r. fst r \<le> n) recs"
    unfolding l'(4) rng[symmetric] filter_filter by (intro filter_cong) (auto simp: in_range_def)
  have "reads_back mx dir wd (rb_log rb)"
    by (rule reads_backI[OF l(1) pre, of wd p "[]"]) (use wd' mn n l(3) rng ds in simp_all)
  moreover have "reads_back mx dir' wd (rb_log rb)"
    by (rule reads_backI[OF l'(2,3), of wd p "[]"]) (use wd' mn n l(3) l'(4) rng' ds in simp_all)
  moreover have "writeout_end rb1 dir (wd_prune_to_new_start_live wd) (wd_prune_to_new_end_live wd) =
      Some (Inr (), rb1\<lparr>rb_seglog := l'\<rparr>, dir')"
    using wd' l'(1) log(2) by (simp add: writeout_end_def)
  ultimately show ?thesis using log(1) by (simp add: sync_reads_back_def)
qed

text \<open>C16: every sync of the rollback log that leaves sessions in
  it survives a restart, be it one that keeps the log, one that prunes the oldest delta because
  the log is over its limit, or one that carries out a truncation.  The sync succeeds, and reading
  the log under the range it put in the metadata page, from the directory as it is before the sync
  prunes or as it is afterwards, gives a log from which the last of the kept sessions are rolled
  back: the traceback takes the store back to its contents before them.\<close>
theorem rollback_survives_restart:
  assumes "rollback_rep rb dir" "writeout_start rb = Some (wd, rb1)"
    and "sessions_ok st ss" "ss \<noteq> []" "run_sessions st ss = (ds, st')"
    and "rb_log rb1 = old @ zip ids ds" "length ids = length ss"
  shows "\<exists>rb' dir'.
    writeout_end rb1 dir (wd_prune_to_new_start_live wd) (wd_prune_to_new_end_live wd) = Some (Inr (), rb', dir') \<and>
    (\<forall>d\<in>{dir, dir'}. \<exists>rb2 dir2 tb rb3.
      rollback_read mx d (wd_rollback_start_live wd) (wd_rollback_end_live wd) = Some (Inr rb2, dir2) \<and>
      rollback_rep rb2 dir2 \<and> rollback_truncate rb2 (length ss) = Some (Some tb, rb3) \<and>
      apply_writes st' (traceback_actuals tb) = st)"
proof -
  have "length ds = length ss" using run_sessions_distinct[OF assms(3,5)] by blast
  then have ne: "rb_log rb1 \<noteq> []" using assms(4,6,7) by (cases ids; cases ds) auto
  have "sync_reads_back mx dir wd rb1"
  proof (cases "rb_pending_truncate rb")
    case None
    show ?thesis
    proof (cases "length (rb_log rb) > rb_max_rollback_log_len rb")
      case True
      show ?thesis by (rule sync_prune_reads_back[OF assms(1) None True assms(2) ne])
    next
      case False
      then have "rb_log rb1 = rb_log rb" using assms(2) None by (auto simp: writeout_start_def live_range_def)
      then show ?thesis using sync_keep_reads_back[OF assms(1) None _ _ assms(2)] False ne by simp
    qed
  next
    case (Some n)
    show ?thesis by (rule sync_truncate_reads_back[OF assms(1) Some assms(2) ne])
  qed
  then obtain rb' dir' where
    w: "writeout_end rb1 dir (wd_prune_to_new_start_live wd) (wd_prune_to_new_end_live wd) = Some (Inr (), rb', dir')"
    and r: "reads_back mx dir wd (rb_log rb1)" "reads_back mx dir' wd (rb_log rb1)"
    unfolding sync_reads_back_def by blast
  show ?thesis
    using w reads_back_restores[OF r(1)[unfolded assms(6)] assms(3-5,7)]
      reads_back_restores[OF r(2)[unfolded assms(6)] assms(3-5,7)] by (intro exI[of _ rb'] exI[of _ dir']) blast
qed

section \<open>A log over its limit\<close>

text \<open>The log of one delta at its limit of one, after one more commit.\<close>
definition full_rollback :: rollback where
  "full_rollback = fst (snd (the (rollback_commit pruned_rollback [(pruned_path, seg_bytes [pruned_record])] sample_delta)))"

definition full_dir :: directory where
  "full_dir = snd (snd (the (rollback_commit pruned_rollback [(pruned_path, seg_bytes [pruned_record])] sample_delta)))"

lemma full_rollback_rep:
  "rollback_rep full_rollback full_dir" "rb_log full_rollback = [(2, sample_delta), (3, sample_delta)]"
  "rb_pending_truncate full_rollback = None" "rb_max_rollback_log_len full_rollback = 1"
proof -
  have "length (delta_encode sample_delta) \<le> MAX_RECORD_PAYLOAD_SIZE"
    using pruned_log_rep by (simp add: log_rep_def record_ok_def pruned_record_def)
  then have "rollback_op_ok (Commit sample_delta) pruned_rollback" using sample_delta_ok by (simp add: pruned_rollback_def)
  from commit_rep[OF pruned_rollback_rep this]
  show "rollback_rep full_rollback full_dir" "rb_log full_rollback = [(2, sample_delta), (3, sample_delta)]"
    "rb_pending_truncate full_rollback = None" "rb_max_rollback_log_len full_rollback = 1"
    by (auto simp: full_rollback_def full_dir_def pruned_rollback_def)
qed

text \<open>Its sync prunes the older delta.\<close>
theorem rollback_survives_restart_witness:
  "\<exists>wd rb1 rb' dir'. writeout_start full_rollback = Some (wd, rb1) \<and> wd_prune_to_new_start_live wd = Some 3 \<and>
    writeout_end rb1 full_dir (wd_prune_to_new_start_live wd) (wd_prune_to_new_end_live wd) = Some (Inr (), rb', dir') \<and>
    (\<forall>d\<in>{full_dir, dir'}. \<exists>rb2 dir2 tb rb3.
      rollback_read 1 d (wd_rollback_start_live wd) (wd_rollback_end_live wd) = Some (Inr rb2, dir2) \<and>
      rollback_rep rb2 dir2 \<and> rollback_truncate rb2 1 = Some (Some tb, rb3) \<and>
      apply_writes (apply_writes pruned_store (snd pruned_session)) (traceback_actuals tb) = pruned_store)"
proof -
  have ne: "replicate 32 (1 :: u8) \<noteq> replicate 32 2" "replicate 32 (1 :: u8) \<noteq> replicate 32 3" "replicate 32 (2 :: u8) \<noteq> replicate 32 3"
    by simp_all
  have "finalize [] pruned_store (snd pruned_session) = sample_delta"
    using ne by (simp add: finalize_def pruned_session_def pruned_store_def sample_delta_def)
  hence run: "run_sessions pruned_store [pruned_session] = ([sample_delta], apply_writes pruned_store (snd pruned_session))"
    by (simp add: pruned_session_def)
  have ok: "sessions_ok pruned_store [pruned_session]" using ne by (simp add: pruned_session_def actuals_ok_def)
  note full = full_rollback_rep
  obtain wd rb1 where wd: "writeout_start full_rollback = Some (wd, rb1)" "wd_prune_to_new_start_live wd = Some 3"
    "rb_log rb1 = [] @ zip [3] [sample_delta]"
    using full(2-4) by (simp add: writeout_start_def live_range_def record_next_def)
  show ?thesis using rollback_survives_restart[OF full(1) wd(1) ok _ run wd(3), of 1] wd(1,2) by simp
qed

end
