(* ===== verification/RollbackFaults.thy ===== *)
theory RollbackFaults
  imports RollbackLog
begin

text \<open>
  Rolling back every delta of a rollback log whose older segments have been pruned away: the sync
  that follows fails, and the log cannot be read again.
\<close>

section \<open>Scanning behind the live range\<close>

lemma on_next_record_after:
  assumes "rc_start_live rc \<noteq> 0" "rc_live_segment_start rc \<noteq> None" "rc_live_segment_end rc \<noteq> None"
  shows "on_next_record i rid rc = Some ((False, False, False), rc)"
  using assms by (simp add: on_next_record_eq)

lemma scan_loop_after:
  assumes "reader_at r (pr @ seg_bytes recs) (length pr)" "PAGE_SIZE dvd length pr" "ids_at k (seen @ recs)"
    and "\<forall>x\<in>set recs. record_ok x"
    and rc: "rc_start_live rc \<noteq> 0" "rc_live_segment_start rc \<noteq> None" "rc_live_segment_end rc \<noteq> None"
  shows "scan_segment_loop f i r (scanned seen) rc st = Some (Inr (scanned (seen @ recs), rc, st))"
  using assms(1-4)
proof (induction recs arbitrary: r pr seen)
  case Nil
  then show ?case by (simp add: scan_segment_loop.simps[of f i r] read_header_end)
next
  case (Cons x recs)
  obtain rid p where x: "x = (rid, p)" by (cases x)
  have ids: "ids_at k (seen @ [(rid, p)])" "ids_at k ((seen @ [(rid, p)]) @ recs)"
    using Cons.prems(3) x by (simp_all add: ids_at_append ids_at_Cons) (simp add: ids_at_def)
  have "reader_at r (pr @ rec_bytes (rid, p) @ seg_bytes recs) (length pr)" using Cons.prems(1) x by simp
  from read_record[OF this Cons.prems(2)] obtain r1 r2 where rd:
    "read_header r = Some (Inr (Some \<lparr>rh_payload_length = word_of_nat (length p), rh_record_id = rid\<rparr>, r1))"
    "skip_payload r1 = Some r2"
    "reader_at r2 ((pr @ rec_bytes (rid, p)) @ seg_bytes recs) (length (pr @ rec_bytes (rid, p)))"
    using Cons.prems(4) x by auto
  have "scan_segment_loop f i r (scanned seen) rc st = scan_segment_loop f i r2 (scanned (seen @ [(rid, p)])) rc st"
    unfolding scan_segment_loop.simps[of f i r]
    using rd(1,2) by (simp add: scanned_snoc[OF ids(1)] on_next_record_after[OF rc] scan_payload_def)
  also have "\<dots> = Some (Inr (scanned ((seen @ [(rid, p)]) @ recs), rc, st))"
    by (rule Cons.IH[OF rd(3) _ ids(2)]) (use Cons.prems(2,4) in simp_all)
  finally show ?case using x by simp
qed

text \<open>Opening a single segment whose records all lie behind the live range.\<close>
lemma open_behind:
  fixes f :: "('s, 'e) process_record"
  assumes rep: "segs_rep pre dir [sg] [(rid, p) # recs]" and ids: "ids_at (unat rid) ((rid, p) # recs)"
    and ok: "\<forall>x\<in>set ((rid, p) # recs). record_ok x" and s: "s \<noteq> 0" "s \<le> e" "e < rid" and f: "f st rid p = Inr st'"
  shows "seglog_open f dir pre mx s e st = Some (Inl (OpenIo RecordNotFound), dir)"
proof -
  let ?recs = "(rid, p) # recs"
  define fl where "fl = seg_bytes ?recs"
  let ?rc = "(recovery_new s e)\<lparr>rc_candidates := map blank [sg]\<rparr>"
  let ?rc1 = "?rc\<lparr>rc_live_segment_start := Some 0, rc_live_segment_end := Some 0\<rparr>"
  have e0: "e \<noteq> 0" using s by auto
  have file0: "map_of dir (sg_path sg) = Some (seg_bytes ?recs)" using segs_rep_nth(5)[OF rep, of 0] by simp
  hence file1: "map_of dir (sg_path sg) = Some fl" by (simp add: fl_def)
  have fl2: "fl = rec_bytes (rid, p) @ seg_bytes recs" by (simp add: fl_def)
  have "reader_at (sr_new fl (Some (length fl))) ([] @ rec_bytes (rid, p) @ seg_bytes recs) (length [])"
    unfolding fl2[symmetric] append_Nil list.size by (rule reader_at_new)
  from read_record[OF this] obtain r1 r2 where rd:
    "read_header (sr_new fl (Some (length fl))) =
       Some (Inr (Some \<lparr>rh_payload_length = word_of_nat (length p), rh_record_id = rid\<rparr>, r1))"
    "read_payload r1 = Some (Inr (p, r2))" "reader_at r2 (rec_bytes (rid, p) @ seg_bytes recs) (length (rec_bytes (rid, p)))"
    using ok by auto
  have "on_next_record 0 rid ?rc = Some ((False, True, True), ?rc1)"
    using s less_imp_le[OF s(3)] by (simp add: on_next_record_eq recovery_new_def)
  moreover have ids0: "ids_at (unat rid) ([] @ [(rid, p)])" by (simp add: ids_at_Cons) (simp add: ids_at_def)
  ultimately have "scan_segment_loop f 0 (sr_new fl (Some (length fl))) (scanned []) ?rc st =
      scan_segment_loop f 0 r2 (scanned [(rid, p)]) ?rc1 st'"
    unfolding scan_segment_loop.simps[of f 0 "sr_new fl (Some (length fl))"]
    using rd(1,2) f by (simp add: scan_payload_def scanned_snoc[OF ids0] scanned_snoc(1)[OF ids0, simplified])
  also have "\<dots> = Some (Inr (scanned ([(rid, p)] @ recs), ?rc1, st'))"
    by (rule scan_loop_after[OF rd(3) _ _, of "unat rid"]) (use ids ok s in \<open>simp_all add: recovery_new_def\<close>)
  finally have loop: "scan_segment_loop f 0 (sr_new fl (Some (length fl))) (scanned []) ?rc st =
      Some (Inr (scanned ?recs, ?rc1, st'))" by simp
  obtain sg' where scan: "scan_segments f dir [0..<length (map blank [sg])] ?rc st =
      Some (Inr (?rc1\<lparr>rc_candidates := [sg']\<rparr>, st'))" "sg_path sg' = sg_path sg"
    using loop file1 by (simp add: scan_segment_def get_at_def scanned_def recovery_new_def blank_def upt_rec)
  have "\<forall>r\<in>set ?recs. record_ok r \<and> fst r \<noteq> e"
  proof
    fix r assume r: "r \<in> set ?recs"
    hence "unat (fst r) \<in> set (map (\<lambda>r. unat (fst r)) ?recs)" by (metis image_eqI list.set_map)
    hence "unat rid \<le> unat (fst r)" unfolding ids[unfolded ids_at_def] by simp
    thus "record_ok r \<and> fst r \<noteq> e" using ok r s(3) by (auto simp: word_less_nat_alt)
  qed
  hence "truncate_head_segment (sg_path sg) dir e = Some (Inl RecordNotFound)" by (rule truncate_misses[OF file0])
  moreover have "(remove_nonlive_segments (?rc1\<lparr>rc_candidates := [sg']\<rparr>) dir :: (('e open_error + segment list) \<times> directory) option) =
      Some (Inr [sg'], dir)" by (simp add: remove_nonlive_segments_def slice_of_def)
  ultimately show ?thesis using scan s(1) e0 by (simp add: seglog_open_def scan_root_dir_spec[OF rep refl])
qed

section \<open>Rolling back everything\<close>

lemma locate_below: "\<forall>j\<le>i. n < sg_min (ss ! j) \<Longrightarrow> locate_segment n ss i = 0"
  by (induction i) auto

lemma prune_recent_below:
  assumes rep: "log_rep log dir segs" and ne: "segs \<noteq> []" and n: "n \<noteq> 0" "n < fst (hd (concat segs))"
  shows "\<exists>log' dir'. prune_recent log dir n = Some (Inl RecordNotFound, log', dir') \<and>
    segs_rep (sl_filename_prefix log) dir' [hd (sl_segments log)] [hd segs]"
proof -
  let ?pre = "sl_filename_prefix log" and ?ss = "sl_segments log"
  have srep: "segs_rep ?pre dir ?ss segs" by (rule log_repD(1)[OF rep])
  have len: "length ?ss = length segs" by (rule segs_rep_length[OF srep])
  hence ss: "?ss \<noteq> []" "0 < length ?ss" using ne by auto
  obtain lo where lo: "ids_upto lo (concat segs) (unat (sl_end_live log))" using log_rep_liveD(1)[OF rep ne] by blast
  have above: "n < fst r" if "r \<in> set (concat segs)" for r
    using ascending_hd[OF ids_upto_ascending[OF lo] that] n(2) by simp
  have "n < sg_min (?ss ! j)" if "j < length ?ss" for j
  proof -
    have "hd (segs ! j) \<in> set (segs ! j)" "segs ! j \<in> set segs" using segs_rep_nth(1)[OF srep that] that len by simp_all
    hence "hd (segs ! j) \<in> set (concat segs)" by (metis UN_iff set_concat)
    thus ?thesis using above segs_rep_nth(3)[OF srep that] by simp
  qed
  hence loc: "locate_segment n ?ss (length ?ss - 1) = 0" using ss(2) by (intro locate_below allI impI) (metis One_nat_def Suc_pred less_Suc_eq_le)
  have tk: "take 1 ?ss = [hd ?ss]" "take 1 segs = [hd segs]" "hd ?ss = ?ss ! 0" "hd segs = segs ! 0"
    using ss ne by (simp_all add: take_Suc hd_conv_nth)
  have "length ?ss - 1 \<le> length ?ss" "length ?ss - (length ?ss - 1) = 1" using ss(2) by linarith+
  from prune_recent_loop_spec[OF srep this(1)] this(2) obtain dir1 where
    loop: "prune_recent_loop ?pre (length ?ss - 1) ?ss dir = (Inr (), [hd ?ss], dir1)"
    and rep1: "segs_rep ?pre dir1 [hd ?ss] [hd segs]" unfolding tk(1,2)[symmetric] by auto
  have "\<forall>r\<in>set (hd segs). record_ok r \<and> fst r \<noteq> n"
    using log_repD(2)[OF rep] above ne by (cases segs) auto
  from truncate_misses[OF _ this, of dir1 "sg_path (hd ?ss)"]
  have "truncate_head_segment (sg_path (hd ?ss)) dir1 n = Some (Inl RecordNotFound)"
    using segs_rep_nth(5)[OF rep1, of 0] by simp
  hence "\<exists>log'. prune_recent log dir n = Some (Inl RecordNotFound, log', dir1)"
    using loc loop ss n(1) segs_rep_nth(2)[OF srep ss(2)] tk(3) by (simp add: prune_recent_def get_at_def)
  thus ?thesis using rep1 by blast
qed


text \<open>The first record on disk when it is the oldest delta.\<close>
lemma first_record:
  assumes rep: "log_rep log dir segs" and ds: "list_all2 holds_delta (concat segs) es" "es \<noteq> []"
  obtains p rest where "hd segs = (fst (hd es), p) # rest" "ids_at (unat (fst (hd es))) ((fst (hd es), p) # rest)"
    "\<forall>r\<in>set ((fst (hd es), p) # rest). record_ok r" "\<exists>d. delta_decode p = Inr d"
    "fst (hd es) \<noteq> 0" "fst (hd (concat segs)) = fst (hd es)" "segs \<noteq> []"
proof -
  have ne: "segs \<noteq> []" using ds by auto
  have "0 < length (sl_segments log)" using segs_rep_length[OF log_repD(1)[OF rep]] ne by simp
  from segs_rep_nth(1)[OF log_repD(1)[OF rep] this] obtain r rest more where r: "segs = (r # rest) # more"
    using ne by (cases segs; cases "hd segs") auto
  obtain e es' where e: "es = e # es'" "holds_delta r e" using ds r by (auto simp: list_all2_Cons1)
  then obtain d where d: "fst r = fst e" "snd r = delta_encode d" "delta_ok d" unfolding holds_delta_def by blast
  hence r': "r = (fst (hd es), delta_encode d)" using e(1) by (cases r) simp
  obtain lo where lo: "lo > 0" "ids_upto lo (concat segs) (unat (sl_end_live log))" using log_rep_liveD(1)[OF rep ne] by blast
  have "ids_at lo ((r # rest) @ concat more)" using ids_upto_at[OF lo(2)] r by simp
  hence ids: "ids_at lo (r # rest)" by (simp only: ids_at_append)
  hence "unat (fst r) = lo" by (simp add: ids_at_Cons)
  moreover have "\<exists>d'. delta_decode (delta_encode d) = Inr d'" by (rule delta_decoded[OF d(3), of "[]"]) auto
  moreover have "\<forall>q\<in>set (r # rest). record_ok q" using log_repD(2)[OF rep] r by simp
  ultimately show thesis using that[of "delta_encode d" rest] r r' ids lo(1) ne by (auto simp: unat_gt_0)
qed

text \<open>C39: when the oldest delta is the first record on disk
  and not the first one ever, rolling back all the deltas puts a live range in the meta page whose
  end was pruned away; the sync fails looking for it, and so does every later attempt to read the
  log.\<close>
theorem rollback_past_prune_fails:
  assumes segs: "log_rep (rb_seglog rb) dir segs" "sl_filename_prefix (rb_seglog rb) = ''rollback''"
    and log: "list_all2 holds_delta (concat segs) (rb_log rb)" "rb_log rb \<noteq> []" "fst (hd (rb_log rb)) \<noteq> 1"
  shows "\<exists>tb rb1 wd rb2 rb3 dir3. rollback_truncate rb (length (rb_log rb)) = Some (Some tb, rb1) \<and>
    writeout_start rb1 = Some (wd, rb2) \<and>
    writeout_end rb2 dir (wd_prune_to_new_start_live wd) (wd_prune_to_new_end_live wd) = Some (Inl RecordNotFound, rb3, dir3) \<and>
    rollback_read mx dir3 (wd_rollback_start_live wd) (wd_rollback_end_live wd) = Some (Inl (OpenIo RecordNotFound), dir3)"
proof -
  let ?l = "rb_seglog rb" and ?x = "fst (hd (rb_log rb))" let ?n = "?x - 1"
  obtain p rest where hd: "hd segs = (?x, p) # rest" "ids_at (unat ?x) ((?x, p) # rest)"
    "\<forall>r\<in>set ((?x, p) # rest). record_ok r" "\<exists>d. delta_decode p = Inr d"
    and x0: "?x \<noteq> 0" and fst: "fst (hd (concat segs)) = ?x" and ne: "segs \<noteq> []"
    by (rule first_record[OF segs(1) log(1,2)])
  have x: "?n < ?x" "?n \<noteq> 0" using x0 log(3) le_pred[OF x0, of ?n] by auto
  let ?start = "min (sl_start_live ?l) ?n"
  have s: "?start \<noteq> 0" "?start \<le> ?n" using log_rep_liveD(4)[OF segs(1) ne] x(2) by (auto simp: min_def)
  let ?rb2 = "rb\<lparr>rb_log := [], rb_pending_truncate := None\<rparr>"
  let ?wd = "\<lparr>wd_rollback_start_live = ?start, wd_rollback_end_live = ?n,
      wd_prune_to_new_start_live = None, wd_prune_to_new_end_live = Some ?n\<rparr>"
  obtain l' dir3 where pr: "prune_recent ?l dir ?n = Some (Inl RecordNotFound, l', dir3)"
    "segs_rep ''rollback'' dir3 [hd (sl_segments ?l)] [hd segs]"
    using prune_recent_below[OF segs(1) ne x(2)] x(1) fst segs(2) by auto
  have "\<exists>st. read_delta [] ?x p = Inr st" using hd(4) by (auto simp: read_delta_def)
  then obtain st where "read_delta [] ?x p = Inr st" by blast
  from open_behind[where f = read_delta and st = "[]" and mx = MAX_SEGMENT_SIZE, OF pr(2)[unfolded hd(1)] hd(2,3) s x(1) this]
  have "rollback_read mx dir3 ?start ?n = Some (Inl (OpenIo RecordNotFound), dir3)" by (simp add: rollback_read_def)
  moreover have "rollback_truncate rb (length (rb_log rb)) =
      Some (Some (traceback_of (rb_log rb)), rb\<lparr>rb_log := [], rb_pending_truncate := Some ?n\<rparr>)"
    using truncate_entries[of rb "[]"] log(2) x0 by simp
  moreover have "writeout_start (rb\<lparr>rb_log := [], rb_pending_truncate := Some ?n\<rparr>) = Some (?wd, ?rb2)"
    by (simp add: writeout_start_def live_range_def)
  moreover have "writeout_end ?rb2 dir None (Some ?n) = Some (Inl RecordNotFound, ?rb2\<lparr>rb_seglog := l'\<rparr>, dir3)"
    using pr(1) by (simp add: writeout_end_def)
  ultimately show ?thesis by (intro exI[of _ "traceback_of (rb_log rb)"] exI[of _ ?wd] exI[of _ ?rb2] exI conjI) simp_all
qed


theorem rollback_past_prune_fails_witness:
  "\<exists>tb rb1 wd rb2 rb3 dir3. rollback_truncate pruned_rollback 1 = Some (Some tb, rb1) \<and>
    writeout_start rb1 = Some (wd, rb2) \<and>
    writeout_end rb2 [(pruned_path, seg_bytes [pruned_record])] (wd_prune_to_new_start_live wd) (wd_prune_to_new_end_live wd) =
      Some (Inl RecordNotFound, rb3, dir3) \<and>
    rollback_read 1 dir3 (wd_rollback_start_live wd) (wd_rollback_end_live wd) = Some (Inl (OpenIo RecordNotFound), dir3)"
proof -
  have "list_all2 holds_delta (concat [[pruned_record]]) (rb_log pruned_rollback)"
    using pruned_holds by (simp add: pruned_rollback_def)
  from rollback_past_prune_fails[OF pruned_log_rep _ this, of 1] show ?thesis by (simp add: pruned_rollback_def)
qed

end
