(* ===== verification/FreeLists.thy ===== *)
theory FreeLists
  imports ByteReaders "HOL-Library.Multiset"
begin

text \<open>
  The embedded free list of a beatree store, \<open>nomt/src/beatree/allocator/free_list.rs\<close>: a paginated
  stack of free page numbers, kept on disk as a chain of pages that is updated by copy-on-write.
  The operations that pop, discard, look up and commit, and the encoding of the chain.
\<close>

section \<open>Layout of a free-list page\<close>

definition MAX_PNS_PER_PAGE :: nat where "MAX_PNS_PER_PAGE = (PAGE_SIZE - 6) div 4"
definition FREELIST_EMPTY :: u32 where "FREELIST_EMPTY = 0"

definition prev_pn :: "bytes \<Rightarrow> u32 option" where
  "prev_pn page = map_option (\<lambda>b. word_of_nat (from_le b)) (slice_of page 0 4)"

definition item_count :: "bytes \<Rightarrow> nat option" where
  "item_count page = map_option from_le (slice_of page 4 6)"

definition fl_item :: "bytes \<Rightarrow> nat \<Rightarrow> u32 option" where
  "fl_item page i = map_option (\<lambda>b. word_of_nat (from_le b)) (slice_of page (6 + i * 4) (6 + i * 4 + 4))"

definition set_prev_pn :: "bytes \<Rightarrow> u32 \<Rightarrow> bytes option" where
  "set_prev_pn page pn = copy_at page 0 (to_le 4 (unat pn))"

definition set_item_count :: "bytes \<Rightarrow> nat \<Rightarrow> bytes option" where
  "set_item_count page cnt = copy_at page 4 (to_le 2 cnt)"

definition set_item :: "bytes \<Rightarrow> nat \<Rightarrow> u32 \<Rightarrow> bytes option" where
  "set_item page i pn = copy_at page (6 + i * 4) (to_le 4 (unat pn))"

fun set_items :: "bytes \<Rightarrow> nat \<Rightarrow> u32 list \<Rightarrow> bytes option" where
  "set_items page i [] = Some page"
| "set_items page i (pn # pns) = do { page \<leftarrow> set_item page i pn; set_items page (i + 1) pns }"

text \<open>\<open>encode_free_list_page\<close>; \<open>page\<close> is the buffer the page pool hands out.\<close>
definition encode_free_list_page :: "bytes \<Rightarrow> u32 \<Rightarrow> u32 list \<Rightarrow> bytes option" where
  "encode_free_list_page page prev pns = do {
     page \<leftarrow> set_prev_pn page prev;
     page \<leftarrow> set_item_count page (length pns mod 2 ^ 16);
     set_items page 0 pns }"

fun decode_items :: "bytes \<Rightarrow> u32 \<Rightarrow> nat \<Rightarrow> nat \<Rightarrow> u32 list option" where
  "decode_items page max_pn i 0 = Some []"
| "decode_items page max_pn i (Suc n) = do {
     pn \<leftarrow> fl_item page i;
     assert_that (pn < max_pn);
     pns \<leftarrow> decode_items page max_pn (i + 1) n;
     Some (pn # pns) }"

definition decode_free_list_page :: "bytes \<Rightarrow> u32 \<Rightarrow> (u32 \<times> u32 list) option" where
  "decode_free_list_page page max_pn = do {
     prev \<leftarrow> prev_pn page;
     cnt \<leftarrow> item_count page;
     pns \<leftarrow> decode_items page max_pn 0 cnt;
     Some (prev, pns) }"

section \<open>The list in memory\<close>

text \<open>A portion is a page of the chain and the free pages it lists; the head is the last portion.\<close>
type_synonym portion = "u32 \<times> u32 list"

record free_list =
  fl_portions :: "portion list"
  fl_pop :: bool
  fl_len :: nat
  fl_fragmented :: bool
  fl_released :: "u32 list"

definition len_and_fragmented :: "portion list \<Rightarrow> nat \<times> bool" where
  "len_and_fragmented ps =
     (if ps = [] then (0, False)
      else if 1 < length ps \<and> length (snd (last ps)) = 1 then
        (let penultimate_len = length (snd (ps ! (length ps - 2)))
         in ((length ps - 2) * MAX_PNS_PER_PAGE + penultimate_len + 1, penultimate_len \<noteq> MAX_PNS_PER_PAGE))
      else ((length ps - 1) * MAX_PNS_PER_PAGE + length (snd (last ps)), False))"

text \<open>The loop of \<open>FreeList::read\<close>, which follows the chain from its head; \<open>None\<close> when a page lists
  a page outside the file, or when the chain never ends.\<close>
partial_function (option) read_portions ::
  "bytes \<Rightarrow> u32 \<Rightarrow> u32 \<Rightarrow> portion list \<Rightarrow> (unit + portion list) option" where
  "read_portions fd max_pn pn acc =
     (if pn = 0 then Some (Inr acc)
      else (case read_page fd (unat pn) of
              None \<Rightarrow> Some (Inl ())
            | Some page \<Rightarrow>
                Option.bind (decode_free_list_page page max_pn)
                  (\<lambda>(prev, pns). read_portions fd max_pn prev (acc @ [(pn, pns)]))))"

definition free_list_read :: "bytes \<Rightarrow> u32 option \<Rightarrow> (unit + free_list) option" where
  "free_list_read fd head =
     (case head of
        None \<Rightarrow> Some (Inr \<lparr>fl_portions = [], fl_pop = False, fl_len = 0, fl_fragmented = False, fl_released = []\<rparr>)
      | Some pn \<Rightarrow> do {
          r \<leftarrow> read_portions fd (word_of_nat (length fd div PAGE_SIZE)) pn [];
          Some (case r of
                  Inl e \<Rightarrow> Inl e
                | Inr found \<Rightarrow>
                    (let ps = rev found; (len, fragmented) = len_and_fragmented ps
                     in Inr \<lparr>fl_portions = ps, fl_pop = False, fl_len = len, fl_fragmented = fragmented,
                             fl_released = []\<rparr>)) })"

definition all_tracked_pages :: "free_list \<Rightarrow> u32 set" where
  "all_tracked_pages fl = set (concat (map (\<lambda>(pn, pns). pn # pns) (fl_portions fl)))"

definition head_pn :: "free_list \<Rightarrow> u32 option" where
  "head_pn fl = (if fl_portions fl = [] then None else Some (fst (last (fl_portions fl))))"

text \<open>\<open>FreeList::pop\<close>; a head without items panics.\<close>
definition fl_pop_one :: "free_list \<Rightarrow> (u32 option \<times> free_list) option" where
  "fl_pop_one fl =
     (if fl_portions fl = [] then Some (None, fl)
      else (let ps = butlast (fl_portions fl); (pn, items) = last (fl_portions fl)
            in if items = [] then None
               else if butlast items = []
               then Some (Some (last items),
                      fl\<lparr>fl_portions := ps, fl_pop := True, fl_released := fl_released fl @ [pn]\<rparr>)
               else Some (Some (last items),
                      fl\<lparr>fl_portions := ps @ [(pn, butlast items)], fl_pop := True\<rparr>)))"

function discard_loop :: "free_list \<Rightarrow> nat \<Rightarrow> nat \<Rightarrow> nat \<times> free_list" where
  "discard_loop fl n discarded =
     (if discarded < n then
        (if fl_portions fl = [] then (discarded, fl)
         else (let (pn, items) = last (fl_portions fl);
                   ps = butlast (fl_portions fl);
                   to_discard = min (length items) (n - discarded);
                   items' = take (length items - to_discard) items
               in discard_loop
                    (if items' \<noteq> [] then fl\<lparr>fl_portions := ps @ [(pn, items')], fl_pop := True\<rparr>
                     else fl\<lparr>fl_portions := ps, fl_pop := True, fl_released := fl_released fl @ [pn]\<rparr>)
                    n (discarded + to_discard)))
      else (n, fl))"
  by auto
termination
  by (relation "measure (\<lambda>(fl, n, discarded). (n - discarded) + length (fl_portions fl))")
     (auto simp flip: length_greater_0_conv)

definition fl_discard :: "free_list \<Rightarrow> nat \<Rightarrow> nat \<times> free_list" where
  "fl_discard fl n = discard_loop fl n 0"

text \<open>\<open>as_clean\<close> panics on a list with pops that were not committed.\<close>
definition as_clean :: "free_list \<Rightarrow> free_list option" where
  "as_clean fl = (if fl_pop fl then None else Some fl)"

definition nth_from :: "portion list \<Rightarrow> nat \<Rightarrow> nat \<Rightarrow> u32 option" where
  "nth_from ps offset i = do {
     k \<leftarrow> sub_checked (length ps) offset;
     p \<leftarrow> get_at ps k;
     get_at (snd p) i }"

definition get_nth_pop :: "free_list \<Rightarrow> nat \<Rightarrow> u32 option" where
  "get_nth_pop fl n =
     (let ps = fl_portions fl in
      if fl_fragmented fl then
        (if n = 0 then nth_from ps 1 0
         else if n < MAX_PNS_PER_PAGE then nth_from ps 2 (MAX_PNS_PER_PAGE - n - 1)
         else nth_from ps (2 + n div MAX_PNS_PER_PAGE) (MAX_PNS_PER_PAGE - n mod MAX_PNS_PER_PAGE - 1))
      else do {
        k \<leftarrow> sub_checked (length ps) 1;
        head \<leftarrow> get_at ps k;
        let head_len = length (snd head);
        if n < head_len then nth_from ps 1 (head_len - n - 1)
        else (let m = n - head_len
              in nth_from ps (2 + m div MAX_PNS_PER_PAGE) (MAX_PNS_PER_PAGE - m mod MAX_PNS_PER_PAGE - 1)) })"

section \<open>Committing\<close>

definition set_last :: "free_list \<Rightarrow> portion \<Rightarrow> free_list" where
  "set_last fl p = fl\<lparr>fl_portions := butlast (fl_portions fl) @ [p]\<rparr>"

text \<open>The first part of \<open>preallocate\<close>, a page for rewriting the head: the list, \<open>to_push\<close>,
  \<open>new_pages\<close>, \<open>new_full_portion\<close> and the cursor \<open>i\<close>.\<close>
definition prealloc_head :: "free_list \<Rightarrow> u32 list \<Rightarrow>
    (free_list \<times> u32 list \<times> u32 list \<times> bool \<times> nat) option" where
  "prealloc_head fl to_push = do {
     (popped, fl) \<leftarrow> fl_pop_one fl;
     case popped of
       None \<Rightarrow> Some (fl, to_push, [], True, 0)
     | Some pn \<Rightarrow>
         (if fl_released fl \<noteq> [] then
            (let x = last (fl_released fl); fl = fl\<lparr>fl_released := butlast (fl_released fl)\<rparr>
             in if fl_portions fl \<noteq> [] \<and> length (snd (last (fl_portions fl))) = MAX_PNS_PER_PAGE - 1
                then (let (new_head_pn, new_head_pns) = last (fl_portions fl)
                      in Some (set_last fl (pn, new_head_pns), to_push @ [new_head_pn, x], [], False,
                               MAX_PNS_PER_PAGE - length new_head_pns))
                else Some (fl, to_push @ [x], [pn], True, MAX_PNS_PER_PAGE))
          else if fl_portions fl = [] then None
          else (let (h, head_pns) = last (fl_portions fl)
                in map_option (\<lambda>i. (set_last fl (pn, head_pns), to_push @ [h], [], False, i))
                     (sub_checked MAX_PNS_PER_PAGE (length head_pns)))) }"

text \<open>The loop of \<open>preallocate\<close>.\<close>
function prealloc_loop :: "free_list \<Rightarrow> u32 list \<Rightarrow> u32 \<Rightarrow> u32 list \<Rightarrow> bool \<Rightarrow> nat \<Rightarrow>
    (free_list \<times> u32 list \<times> u32 \<times> u32 list) option" where
  "prealloc_loop fl to_push bump new_pages new_full i =
     (if i < length to_push then
        (if fl_portions fl \<noteq> [] \<and> new_full then
           (let (h, head_pns) = last (fl_portions fl)
            in if head_pns = [] then None
               else prealloc_loop (set_last fl (last head_pns, butlast head_pns)) (to_push @ [h]) bump
                      new_pages False (i + 1))
         else (case fl_pop_one fl of
                 None \<Rightarrow> None
               | Some (None, fl) \<Rightarrow>
                   (if bump + 1 = 0 then None
                    else prealloc_loop fl to_push (bump + 1) (new_pages @ [bump]) new_full (i + MAX_PNS_PER_PAGE))
               | Some (Some pn, fl) \<Rightarrow>
                   (if fl_released fl \<noteq> []
                    then prealloc_loop (fl\<lparr>fl_released := butlast (fl_released fl)\<rparr>) to_push bump
                           (new_pages @ [pn, last (fl_released fl)]) True (i + 1 + MAX_PNS_PER_PAGE)
                    else prealloc_loop fl to_push bump (new_pages @ [pn]) new_full (i + 1 + MAX_PNS_PER_PAGE))))
      else Some (fl, to_push, bump, new_pages))"
  by pat_completeness auto
termination
  by (relation "measures [\<lambda>(fl, to_push, bump, new_pages, new_full, i). length to_push - i,
                           \<lambda>(fl, to_push, bump, new_pages, new_full, i). of_bool new_full]")
     (auto simp: MAX_PNS_PER_PAGE_def PAGE_SIZE_def)

definition preallocate :: "free_list \<Rightarrow> u32 list \<Rightarrow> u32 \<Rightarrow>
    (free_list \<times> u32 list \<times> u32 \<times> u32 list) option" where
  "preallocate fl to_push bump = do {
     (fl, to_push, new_pages, new_full, i) \<leftarrow> prealloc_head fl to_push;
     prealloc_loop fl to_push bump new_pages new_full i }"

text \<open>\<open>encode_head\<close>: the page to write for the head, if there is one; \<open>pool pn\<close> is the buffer the page
  pool hands out for page \<open>pn\<close>.\<close>
definition encode_head :: "(u32 \<Rightarrow> bytes) \<Rightarrow> portion list \<Rightarrow> (u32 \<times> bytes) list option" where
  "encode_head pool ps =
     (if ps = [] then Some []
      else (let prev = (if 2 \<le> length ps then fst (ps ! (length ps - 2)) else FREELIST_EMPTY)
            in map_option (\<lambda>page. [(fst (last ps), page)])
                 (encode_free_list_page (pool (fst (last ps))) prev (snd (last ps)))))"

definition fl_push :: "portion list \<Rightarrow> u32 \<Rightarrow> portion list option" where
  "fl_push ps pn =
     (if ps = [] \<or> MAX_PNS_PER_PAGE \<le> length (snd (last ps)) then None
      else Some (butlast ps @ [(fst (last ps), snd (last ps) @ [pn])]))"

text \<open>The loop of \<open>push_and_encode\<close> over the remaining items of \<open>to_push\<close>: an item is the last one
  when none follows it.\<close>
fun push_loop :: "(u32 \<Rightarrow> bytes) \<Rightarrow> portion list \<Rightarrow> u32 list \<Rightarrow> u32 list \<Rightarrow> (u32 \<times> bytes) list \<Rightarrow>
    (portion list \<times> u32 list \<times> (u32 \<times> bytes) list) option" where
  "push_loop pool ps new_pages [] encoded = Some (ps, new_pages, encoded)"
| "push_loop pool ps new_pages (pn # rest) encoded =
     (let head_full = (ps = [] \<or> length (snd (last ps)) = MAX_PNS_PER_PAGE);
          fragmentation = (ps \<noteq> [] \<and> length (snd (last ps)) = MAX_PNS_PER_PAGE - 1 \<and>
                           new_pages \<noteq> [] \<and> rest = [])
      in if head_full \<or> fragmentation then
           (case encode_head pool ps of
              None \<Rightarrow> None
            | Some e \<Rightarrow>
                (case new_pages of
                   [] \<Rightarrow> None
                 | p # new_pages \<Rightarrow>
                     (case fl_push (ps @ [(p, [])]) pn of
                        None \<Rightarrow> None
                      | Some ps \<Rightarrow> push_loop pool ps new_pages rest (encoded @ e))))
         else (case fl_push ps pn of
                 None \<Rightarrow> None
               | Some ps \<Rightarrow> push_loop pool ps new_pages rest encoded))"

definition push_and_encode :: "(u32 \<Rightarrow> bytes) \<Rightarrow> free_list \<Rightarrow> u32 list \<Rightarrow> u32 list \<Rightarrow>
    (free_list \<times> (u32 \<times> bytes) list) option" where
  "push_and_encode pool fl to_push new_pages = do {
     (ps, left, encoded) \<leftarrow> push_loop pool (fl_portions fl) new_pages to_push [];
     assert_that (left = []);
     e \<leftarrow> encode_head pool ps;
     Some (fl\<lparr>fl_portions := ps\<rparr>, encoded @ e) }"

definition fl_commit :: "(u32 \<Rightarrow> bytes) \<Rightarrow> free_list \<Rightarrow> u32 list \<Rightarrow> u32 \<Rightarrow>
    ((u32 \<times> bytes) list \<times> free_list \<times> u32) option" where
  "fl_commit pool fl to_push bump =
     (if \<not> fl_pop fl \<and> to_push = [] then Some ([], fl\<lparr>fl_pop := False\<rparr>, bump)
      else do {
        (fl, to_push, bump, new_pages) \<leftarrow>
          preallocate (fl\<lparr>fl_pop := False, fl_released := []\<rparr>) (to_push @ fl_released fl) bump;
        (fl, pages) \<leftarrow> push_and_encode pool fl to_push new_pages;
        let (len, fragmented) = len_and_fragmented (fl_portions fl);
        Some (pages, fl\<lparr>fl_pop := False, fl_len := len, fl_fragmented := fragmented\<rparr>, bump) })"

end
