(* ===== verification/FreeListFacts.thy ===== *)
theory FreeListFacts
  imports FreeLists "HOL-Library.Sublist"
begin

text \<open>
  Facts on the free list: the shape of its portions and the order in which pages are popped,
  discarding, committing without losing a page, and the chain on disk.
\<close>

section \<open>The shape of the portions\<close>

abbreviation PNS :: nat where "PNS \<equiv> MAX_PNS_PER_PAGE"

lemma PNS_value: "PNS = 1022"
  by (simp add: MAX_PNS_PER_PAGE_def PAGE_SIZE_def)

lemma PNS_ge: "2 \<le> PNS" "0 < PNS" "1 < PNS" "PNS \<noteq> 0"
  by (simp_all add: PNS_value)

definition free_items :: "portion list \<Rightarrow> u32 list" where
  "free_items ps = concat (map snd ps)"

text \<open>Every page the list accounts for: the pages of the chain and the free pages they list.\<close>
definition tracked :: "portion list \<Rightarrow> u32 multiset" where
  "tracked ps = mset (map fst ps) + mset (free_items ps)"

definition all_full :: "portion list \<Rightarrow> bool" where
  "all_full ps \<longleftrightarrow> (\<forall>p\<in>set ps. length (snd p) = PNS)"

text \<open>All portions but the head are full, up to the fragmentation a commit may leave.\<close>
definition fragmented :: "portion list \<Rightarrow> bool" where
  "fragmented ps \<longleftrightarrow> 2 \<le> length ps \<and> length (snd (last ps)) = 1 \<and>
     length (snd (last (butlast ps))) = PNS - 1 \<and> all_full (butlast (butlast ps))"

definition portions_ok :: "portion list \<Rightarrow> bool" where
  "portions_ok ps \<longleftrightarrow> ps = [] \<or> fragmented ps \<or>
     (all_full (butlast ps) \<and> 0 < length (snd (last ps)) \<and> length (snd (last ps)) \<le> PNS)"

text \<open>A list between commits.\<close>
definition clean_ok :: "free_list \<Rightarrow> bool" where
  "clean_ok fl \<longleftrightarrow> portions_ok (fl_portions fl) \<and> \<not> fl_pop fl \<and> fl_released fl = [] \<and>
     (fl_len fl, fl_fragmented fl) = len_and_fragmented (fl_portions fl)"

lemma free_items_simps [simp]:
  "free_items [] = []" "free_items (ps @ qs) = free_items ps @ free_items qs" "free_items (p # ps) = snd p @ free_items ps"
  by (simp_all add: free_items_def)

lemma tracked_simps [simp]:
  "tracked [] = {#}" "tracked (ps @ qs) = tracked ps + tracked qs"
  "tracked ((h, xs) # ps) = add_mset h (mset xs) + tracked ps"
  by (simp_all add: tracked_def)

lemma all_full_simps [simp]:
  "all_full []" "all_full (ps @ qs) \<longleftrightarrow> all_full ps \<and> all_full qs"
  "all_full (p # ps) \<longleftrightarrow> length (snd p) = PNS \<and> all_full ps"
  by (auto simp: all_full_def)

lemma all_full_length: "all_full ps \<Longrightarrow> length (free_items ps) = length ps * PNS"
  by (induction ps rule: rev_induct) auto

lemma fragmented_snoc:
  "fragmented ps \<longleftrightarrow> (\<exists>qs f g h x. ps = qs @ [(f, g), (h, [x])] \<and> all_full qs \<and> length g = PNS - 1)"
proof
  assume frag: "fragmented ps"
  then obtain rs a where rs: "ps = rs @ [a]" "rs \<noteq> []"
    by (cases ps rule: rev_cases) (force simp: fragmented_def)+
  then obtain qs b where ps: "ps = qs @ [b, a]" by (cases rs rule: rev_cases) auto
  then show "\<exists>qs f g h x. ps = qs @ [(f, g), (h, [x])] \<and> all_full qs \<and> length g = PNS - 1"
    using frag by (cases a; cases b) (auto simp: fragmented_def butlast_append length_Suc_conv)
qed (auto simp: fragmented_def butlast_append)

lemma portions_ok_cases:
  assumes "portions_ok ps"
  obtains (Nil) "ps = []"
  | (Frag) qs f g h x where "ps = qs @ [(f, g), (h, [x])]" "all_full qs" "length g = PNS - 1"
  | (Full) qs h xs x where "ps = qs @ [(h, xs @ [x])]" "all_full qs" "length xs < PNS"
proof -
  consider "ps = []" | "fragmented ps" | "ps \<noteq> []" "all_full (butlast ps)" "snd (last ps) \<noteq> []" "length (snd (last ps)) \<le> PNS"
    using assms by (auto simp: portions_ok_def)
  then show thesis
  proof cases
    case 3
    from 3(1) obtain qs h ys where ps: "ps = qs @ [(h, ys)]" by (metis append_butlast_last_id surj_pair)
    with 3(3) obtain xs x where "ys = xs @ [x]" by (cases ys rule: rev_cases) auto
    then show ?thesis using ps 3 Full[of qs h xs x] by auto
  qed (use Nil Frag in \<open>auto simp: fragmented_snoc\<close>)
qed

lemma portions_ok_full: "all_full qs \<Longrightarrow> xs \<noteq> [] \<Longrightarrow> length xs \<le> PNS \<Longrightarrow> portions_ok (qs @ [(h, xs)])"
  by (simp add: portions_ok_def)

lemma portions_ok_all_full: "all_full ps \<Longrightarrow> portions_ok ps"
  by (cases ps rule: rev_cases) (auto simp: portions_ok_def PNS_ge)

lemma portions_ok_frag: "all_full qs \<Longrightarrow> length g = PNS - 1 \<Longrightarrow> portions_ok (qs @ [(f, g), (h, [x])])"
  by (auto simp: portions_ok_def fragmented_snoc)

lemma not_fragmented: "all_full qs \<Longrightarrow> \<not> fragmented (qs @ [p])"
proof
  assume full: "all_full qs" and "fragmented (qs @ [p])"
  then obtain rs f g k y where "qs @ [p] = (rs @ [(f, g)]) @ [(k, [y])]" "length g = PNS - 1"
    by (auto simp: fragmented_snoc)
  then show False using full PNS_ge by auto
qed

lemma len_and_fragmented_ok:
  assumes "portions_ok ps"
  shows "len_and_fragmented ps = (length (free_items ps), fragmented ps)"
  using assms
proof (cases rule: portions_ok_cases)
  case (Frag qs f g h x)
  then show ?thesis using all_full_length[OF Frag(2)] PNS_ge
    by (auto simp: len_and_fragmented_def fragmented_snoc Let_def nth_append)
next
  case (Full qs h xs x)
  have nf: "\<not> fragmented ps" using Full not_fragmented by simp
  show ?thesis
  proof (cases qs rule: rev_cases)
    case Nil
    then show ?thesis using Full nf by (auto simp: len_and_fragmented_def)
  next
    case (snoc rs q)
    then show ?thesis using Full nf all_full_length[of rs] all_full_length[of qs]
      by (auto simp: len_and_fragmented_def Let_def nth_append)
  qed
qed (simp add: len_and_fragmented_def fragmented_def)

section \<open>The order of pops\<close>

lemma free_items_nth:
  assumes "all_full qs" "j < length qs * PNS"
  shows "rev (free_items qs) ! j = snd (qs ! (length qs - 1 - j div PNS)) ! (PNS - 1 - j mod PNS)"
    and "j div PNS < length qs"
  using assms
proof (induction qs arbitrary: j rule: rev_induct)
  case (snoc q qs)
  {
    case 1
    then show ?case
    proof (cases "j < PNS")
      case True
      then show ?thesis using 1 by (simp add: nth_append rev_nth)
    next
      case False
      then have j: "j = PNS + (j - PNS)" "j - PNS < length qs * PNS" using 1 by auto
      have "j div PNS = Suc ((j - PNS) div PNS)" "j mod PNS = (j - PNS) mod PNS"
        using False PNS_ge by (auto simp: le_div_geq le_mod_geq)
      moreover have "length qs - Suc ((j - PNS) div PNS) < length qs" using 1 snoc.IH(2)[OF _ j(2)] by auto
      ultimately show ?thesis using False 1 snoc.IH[OF _ j(2)] by (simp add: nth_append rev_nth)
    qed
  next
    case 2
    then show ?case using PNS_ge by (simp add: less_mult_imp_div_less)
  }
qed auto

lemma nth_from_Some:
  "0 < k \<Longrightarrow> k \<le> length ps \<Longrightarrow> i < length (snd (ps ! (length ps - k))) \<Longrightarrow>
     nth_from ps k i = Some (snd (ps ! (length ps - k)) ! i)"
  by (simp add: nth_from_def slice_simps)

text \<open>Below the head the pages of full portions follow each other.\<close>
lemma nth_from_full:
  assumes "all_full qs" "j < length qs * PNS"
  shows "nth_from (qs @ rest) (length rest + 1 + j div PNS) (PNS - j mod PNS - 1) = Some (rev (free_items qs) ! j)"
proof -
  have k: "j div PNS < length qs" by (rule free_items_nth(2)[OF assms])
  have m: "PNS - j mod PNS - 1 < PNS" using PNS_ge by simp
  have len: "length (snd (qs ! (length qs - 1 - j div PNS))) = PNS" using assms(1) k by (auto simp: all_full_def)
  show ?thesis using k m len free_items_nth(1)[OF assms] by (subst nth_from_Some) (auto simp: nth_append)
qed

lemma get_nth_pop_ok:
  assumes "clean_ok fl" "n < fl_len fl"
  shows "get_nth_pop fl n = Some (rev (free_items (fl_portions fl)) ! n)"
proof -
  let ?ps = "fl_portions fl"
  have ok: "portions_ok ?ps" and len: "fl_len fl = length (free_items ?ps)" and fr: "fl_fragmented fl = fragmented ?ps"
    using assms(1) len_and_fragmented_ok[of ?ps] by (auto simp: clean_ok_def)
  from ok show ?thesis
  proof (cases rule: portions_ok_cases)
    case Nil
    then show ?thesis using assms len by simp
  next
    case (Frag qs f g h x)
    have fr: "fl_fragmented fl" using fr Frag by (auto simp: fragmented_snoc)
    consider "n = 0" | "0 < n" "n < PNS" | "PNS \<le> n" by linarith
    then show ?thesis
    proof cases
      case 3
      have n: "n div PNS = 1 + (n - PNS) div PNS" "n mod PNS = (n - PNS) mod PNS"
        using 3 PNS_ge by (auto simp: le_div_geq le_mod_geq)
      have "n - PNS < length qs * PNS"
        using assms(2) len Frag all_full_length[OF Frag(2)] 3 PNS_ge by auto
      then have "nth_from ?ps (2 + n div PNS) (PNS - n mod PNS - 1) = Some (rev (free_items qs) ! (n - PNS))"
        using nth_from_full[OF Frag(2), of "n - PNS" "[(f, g), (h, [x])]"] n Frag(1) by simp
      moreover have "rev (free_items ?ps) ! n = rev (free_items qs) ! (n - PNS)"
        using 3 Frag PNS_ge by (auto simp: nth_append nth_Cons' Suc_diff_Suc)
      ultimately show ?thesis using 3 fr PNS_ge by (simp add: get_nth_pop_def)
    qed (use Frag fr PNS_ge in \<open>auto simp: get_nth_pop_def nth_from_def slice_simps nth_append rev_nth nth_Cons' Let_def\<close>)
  next
    case (Full qs h xs x)
    have fr: "\<not> fl_fragmented fl" using fr not_fragmented Full by simp
    show ?thesis
    proof (cases "n < length (xs @ [x])")
      case True
      then have "rev (free_items ?ps) ! n = (xs @ [x]) ! (length (xs @ [x]) - n - 1)"
        using Full(1) by (auto simp: nth_append rev_nth nth_Cons')
      then show ?thesis using True fr Full(1) by (simp add: get_nth_pop_def nth_from_Some slice_simps Let_def)
    next
      case False
      let ?m = "n - length (xs @ [x])"
      have "?m < length qs * PNS" using assms(2) len Full all_full_length[OF Full(2)] False by auto
      then have "nth_from ?ps (2 + ?m div PNS) (PNS - ?m mod PNS - 1) = Some (rev (free_items qs) ! ?m)"
        using nth_from_full[OF Full(2), of ?m "[(h, xs @ [x])]"] Full(1) by simp
      moreover have "rev (free_items ?ps) ! n = rev (free_items qs) ! ?m"
        using False Full(1) by (auto simp: nth_append nth_Cons')
      ultimately show ?thesis using False fr Full(1) by (simp add: get_nth_pop_def slice_simps Let_def)
    qed
  qed
qed


section \<open>Discarding\<close>

lemma portions_ok_snocD:
  assumes "portions_ok (qs @ [(h, xs)])"
  shows "portions_ok qs" "xs \<noteq> []" "length xs \<le> PNS" "0 < k \<Longrightarrow> portions_ok (qs @ [(h, take k xs)])"
proof -
  from assms have "portions_ok qs \<and> xs \<noteq> [] \<and> length xs \<le> PNS \<and> (0 < k \<longrightarrow> portions_ok (qs @ [(h, take k xs)]))"
  proof (cases rule: portions_ok_cases)
    case (Frag rs f g h' x)
    have g: "g \<noteq> []" "length g \<le> PNS" using Frag(3) PNS_ge by auto
    have qs: "qs = rs @ [(f, g)]" and xs: "xs = [x]" "h' = h" using Frag(1) by auto
    have "take k [x] = [x]" if "0 < k" using that by (cases k) auto
    then show ?thesis unfolding qs xs
      using portions_ok_full[OF Frag(2) g] portions_ok_frag[OF Frag(2,3)] PNS_ge by auto
  next
    case (Full rs h' ys y)
    have "qs = rs" "xs = ys @ [y]" "length xs \<le> PNS" using Full(1,3) by auto
    then show ?thesis using portions_ok_full[OF Full(2), of "take k xs"] portions_ok_all_full[OF Full(2)]
      by (simp add: take_eq_Nil)
  qed auto
  then show "portions_ok qs" "xs \<noteq> []" "length xs \<le> PNS" "0 < k \<Longrightarrow> portions_ok (qs @ [(h, take k xs)])" by auto
qed

text \<open>One round of \<open>discard\<close>, on the head.\<close>
lemma discard_loop_step:
  assumes "fl_portions fl = qs @ [(h, xs)]" "d < n" "xs \<noteq> []"
  shows "discard_loop fl n d =
    (if length xs \<le> n - d
     then discard_loop (fl\<lparr>fl_portions := qs, fl_pop := True, fl_released := fl_released fl @ [h]\<rparr>) n (d + length xs)
     else (n, fl\<lparr>fl_portions := qs @ [(h, take (length xs - (n - d)) xs)], fl_pop := True\<rparr>))"
proof (cases "length xs \<le> n - d")
  case True
  then show ?thesis using assms by (subst discard_loop.simps) (simp add: min_def Let_def)
next
  case False
  then have "discard_loop fl n d =
    discard_loop (fl\<lparr>fl_portions := qs @ [(h, take (length xs - (n - d)) xs)], fl_pop := True\<rparr>) n (d + (n - d))"
    using assms by (subst discard_loop.simps) (simp add: min_def Let_def)
  then show ?thesis using False assms(2) by simp
qed

text \<open>What discarding \<open>k\<close> pages of \<open>fl\<close> leaves.\<close>
definition discarded_by :: "nat \<Rightarrow> free_list \<Rightarrow> free_list \<Rightarrow> bool" where
  "discarded_by k fl fl' \<longleftrightarrow>
     (let ps = fl_portions fl; ps' = fl_portions fl'; items = free_items ps; cut = length items - k
      in portions_ok ps' \<and> free_items ps' = take cut items \<and>
         tracked ps + mset (fl_released fl) = tracked ps' + mset (fl_released fl') + mset (drop cut items) \<and>
         prefix (butlast ps') ps \<and> fl_pop fl' = (fl_pop fl \<or> 0 < k) \<and>
         fl_len fl' = fl_len fl \<and> fl_fragmented fl' = fl_fragmented fl)"

lemma discard_loop_ok:
  assumes "portions_ok (fl_portions fl)" "d \<le> n"
  shows "\<exists>fl'. discard_loop fl n d = (d + min (n - d) (length (free_items (fl_portions fl))), fl') \<and>
    discarded_by (min (n - d) (length (free_items (fl_portions fl)))) fl fl'"
  using assms
proof (induction "length (fl_portions fl)" arbitrary: fl d)
  case 0
  then show ?case by (auto simp: discarded_by_def)
next
  case (Suc l)
  then obtain qs h xs where ps: "fl_portions fl = qs @ [(h, xs)]"
    by (metis append_butlast_last_id length_0_conv nat.simps(3) surj_pair)
  note ok = portions_ok_snocD[OF Suc.prems(1)[unfolded ps]]
  consider "d = n" | "d < n" "length xs \<le> n - d" | "d < n" "n - d < length xs" using Suc.prems(2) by linarith
  then show ?case
  proof cases
    case 1
    then show ?thesis using Suc.prems(1) by (auto simp: ps discarded_by_def)
  next
    case 2
    let ?fl = "fl\<lparr>fl_portions := qs, fl_pop := True, fl_released := fl_released fl @ [h]\<rparr>"
    let ?k = "min (n - (d + length xs)) (length (free_items qs))"
    have "l = length (fl_portions ?fl)" "portions_ok (fl_portions ?fl)" "d + length xs \<le> n"
      using Suc.hyps(2) ps ok(1) 2 by auto
    from Suc.hyps(1)[OF this] obtain fl' where
      fl': "discard_loop ?fl n (d + length xs) = (d + length xs + ?k, fl')" and by': "discarded_by ?k ?fl fl'" by auto
    have "discard_loop fl n d = (d + (length xs + ?k), fl')"
      using discard_loop_step[OF ps 2(1) ok(2)] 2(2) fl' by simp
    moreover have "discarded_by (length xs + ?k) fl fl'"
      using by' ok(2) by (auto simp: discarded_by_def Let_def ps take_append prefix_append algebra_simps prefix_def)
    moreover have "length xs + ?k = min (n - d) (length (free_items (fl_portions fl)))" using 2(2) ps by auto
    ultimately show ?thesis by metis
  next
    case 3
    have "length (free_items (fl_portions fl)) - (n - d) = length (free_items qs) + (length xs - (n - d))"
      using 3(2) ps by auto
    moreover have "add_mset h (mset xs) = add_mset h (mset (take (length xs - (n - d)) xs) + mset (drop (length xs - (n - d)) xs))"
      by (simp flip: mset_append)
    ultimately show ?thesis using discard_loop_step[OF ps 3(1) ok(2)] 3 ok(4)[of "length xs - (n - d)"] ps
      by (auto simp: discarded_by_def Let_def min_def algebra_simps)
  qed
qed

lemma fl_discard_ok:
  assumes "portions_ok (fl_portions fl)"
  obtains fl' where "fl_discard fl n = (min n (length (free_items (fl_portions fl))), fl')"
    "discarded_by (min n (length (free_items (fl_portions fl)))) fl fl'"
  using discard_loop_ok[OF assms, of 0 n] by (auto simp: fl_discard_def)


section \<open>Preallocating\<close>

text \<open>The page numbers taken from the end of the store.\<close>
definition bumped :: "u32 \<Rightarrow> u32 \<Rightarrow> u32 list" where
  "bumped b b' = map word_of_nat [unat b..<unat b']"

lemma bumped_refl [simp]: "bumped b b = []"
  by (simp add: bumped_def)

lemma bumped_Suc:
  assumes "b0 \<le> b" "b + 1 \<noteq> 0"
  shows "bumped b0 (b + 1) = bumped b0 b @ [b]" "b0 \<le> b + 1" "unat (b + 1) = unat b + 1"
proof -
  show un: "unat (b + 1) = unat b + 1" using assms(2) by (metis Suc_eq_plus1 add.commute unatSuc)
  show "b0 \<le> b + 1" using un assms(1) by (simp add: word_le_nat_alt)
  show "bumped b0 (b + 1) = bumped b0 b @ [b]" using un assms(1) by (simp add: bumped_def word_le_nat_alt)
qed

lemma bump_no_wrap: "unat b + 1 < 2 ^ 32 \<Longrightarrow> b + 1 \<noteq> (0 :: u32)"
  using unat_word_ariths(1)[of b 1] by auto

lemma fl_pop_one_Nil: "fl_portions fl = [] \<Longrightarrow> fl_pop_one fl = Some (None, fl)"
  by (simp add: fl_pop_one_def)

lemma fl_pop_one_snoc:
  "fl_portions fl = qs @ [(h, xs @ [x])] \<Longrightarrow> xs \<noteq> [] \<Longrightarrow>
    fl_pop_one fl = Some (Some x, fl\<lparr>fl_portions := qs @ [(h, xs)], fl_pop := True\<rparr>)"
  by (simp add: fl_pop_one_def)

lemma fl_pop_one_single:
  "fl_portions fl = qs @ [(h, [x])] \<Longrightarrow>
    fl_pop_one fl = Some (Some x, fl\<lparr>fl_portions := qs, fl_pop := True, fl_released := fl_released fl @ [h]\<rparr>)"
  by (simp add: fl_pop_one_def)

text \<open>
  Between the rounds of \<open>preallocate\<close>: the head was rewritten to a page drawn from the list, unless
  only untouched full portions are left (\<open>new_full\<close>); \<open>i\<close> is the number of free slots in the head and
  in the new pages; and only the last of the new pages may turn out not to be needed.
\<close>
definition pre_shape :: "portion list \<Rightarrow> portion list \<Rightarrow> nat \<Rightarrow> bool \<Rightarrow> nat \<Rightarrow> bool" where
  "pre_shape ps0 ps n new_full i \<longleftrightarrow>
     (if new_full then all_full ps \<and> prefix ps (butlast ps0) \<and> i = n * PNS
      else \<exists>qs h xs. ps = qs @ [(h, xs)] \<and> all_full qs \<and> prefix qs (butlast ps0) \<and> h \<in> set (free_items ps0) \<and>
             xs \<noteq> [] \<and> length xs < PNS \<and> i = n * PNS + (PNS - length xs))"

definition pre_pages :: "portion list \<Rightarrow> u32 \<Rightarrow> u32 multiset \<Rightarrow> portion list \<Rightarrow> u32 list \<Rightarrow> u32 \<Rightarrow> u32 list \<Rightarrow> bool" where
  "pre_pages ps0 b0 T0 ps to_push bump new_pages \<longleftrightarrow>
     b0 \<le> bump \<and> mset to_push + mset new_pages + tracked ps = T0 + mset (bumped b0 bump) \<and>
     set (free_items ps) \<subseteq> set (free_items ps0) \<and>
     set new_pages \<subseteq> set (free_items ps0) \<union> set (bumped b0 bump)"

definition pre_fits :: "u32 list \<Rightarrow> u32 \<Rightarrow> u32 list \<Rightarrow> nat \<Rightarrow> bool" where
  "pre_fits to_push bump new_pages i \<longleftrightarrow>
     (new_pages \<noteq> [] \<longrightarrow> to_push \<noteq> [] \<and> i \<le> length to_push + PNS) \<and> unat bump + (length to_push - i) < 2 ^ 32"

declare prealloc_loop.simps [simp del] and discard_loop.simps [simp del]

lemma prealloc_loop_done:
  "\<not> i < length to_push \<Longrightarrow> prealloc_loop fl to_push bump new_pages new_full i = Some (fl, to_push, bump, new_pages)"
  by (subst prealloc_loop.simps) simp

lemma prealloc_loop_touch:
  "i < length to_push \<Longrightarrow> fl_portions fl = qs @ [(h, xs @ [x])] \<Longrightarrow>
    prealloc_loop fl to_push bump new_pages True i =
    prealloc_loop (fl\<lparr>fl_portions := qs @ [(x, xs)]\<rparr>) (to_push @ [h]) bump new_pages False (i + 1)"
  by (subst prealloc_loop.simps) (simp add: set_last_def)

lemma prealloc_loop_bump:
  "i < length to_push \<Longrightarrow> fl_portions fl = [] \<Longrightarrow> bump + 1 \<noteq> 0 \<Longrightarrow>
    prealloc_loop fl to_push bump new_pages new_full i =
    prealloc_loop fl to_push (bump + 1) (new_pages @ [bump]) new_full (i + PNS)"
  by (subst prealloc_loop.simps) (simp add: fl_pop_one_Nil)

lemma prealloc_loop_pop:
  "i < length to_push \<Longrightarrow> fl_portions fl = qs @ [(h, xs @ [x])] \<Longrightarrow> xs \<noteq> [] \<Longrightarrow> fl_released fl = [] \<Longrightarrow>
    prealloc_loop fl to_push bump new_pages False i =
    prealloc_loop (fl\<lparr>fl_portions := qs @ [(h, xs)], fl_pop := True\<rparr>) to_push bump (new_pages @ [x]) False (i + 1 + PNS)"
  by (subst prealloc_loop.simps) (simp add: fl_pop_one_snoc)

lemma prealloc_loop_release:
  "i < length to_push \<Longrightarrow> fl_portions fl = qs @ [(h, [x])] \<Longrightarrow> fl_released fl = [] \<Longrightarrow>
    prealloc_loop fl to_push bump new_pages False i =
    prealloc_loop (fl\<lparr>fl_portions := qs, fl_pop := True, fl_released := []\<rparr>) to_push bump (new_pages @ [x, h]) True (i + 1 + PNS)"
  by (subst prealloc_loop.simps) (simp add: fl_pop_one_single)

lemma pre_shape_cases:
  assumes "pre_shape ps0 ps n new_full i"
  obtains (Touch) qs h xs x where "new_full" "ps = qs @ [(h, xs @ [x])]" "all_full qs" "length xs = PNS - 1"
      "prefix qs (butlast ps0)" "i = n * PNS"
  | (Empty) "new_full" "ps = []" "i = n * PNS"
  | (Pop) qs h xs x where "\<not> new_full" "ps = qs @ [(h, xs @ [x])]" "xs \<noteq> []" "all_full qs" "prefix qs (butlast ps0)"
      "h \<in> set (free_items ps0)" "length xs + 1 < PNS" "i = n * PNS + (PNS - (length xs + 1))"
  | (Release) qs h x where "\<not> new_full" "ps = qs @ [(h, [x])]" "all_full qs" "prefix qs (butlast ps0)"
      "h \<in> set (free_items ps0)" "i = n * PNS + (PNS - 1)"
proof (cases new_full)
  case True
  then have full: "all_full ps" "prefix ps (butlast ps0)" "i = n * PNS" using assms by (auto simp: pre_shape_def)
  show thesis
  proof (cases ps rule: rev_cases)
    case Nil
    then show ?thesis using Empty True full by simp
  next
    case (snoc qs p)
    obtain h ys where p: "p = (h, ys)" by (cases p)
    have "ys \<noteq> []" using full(1) snoc p PNS_ge by auto
    then obtain xs x where "ys = xs @ [x]" by (cases ys rule: rev_cases) auto
    then show ?thesis using Touch[of qs h xs x] True full snoc p append_prefixD[of qs "[p]"] by auto
  qed
next
  case False
  then obtain qs h ys where q: "ps = qs @ [(h, ys)]" "all_full qs" "prefix qs (butlast ps0)" "h \<in> set (free_items ps0)"
      "ys \<noteq> []" "length ys < PNS" "i = n * PNS + (PNS - length ys)"
    using assms by (auto simp: pre_shape_def)
  from q(5) obtain xs x where ys: "ys = xs @ [x]" by (cases ys rule: rev_cases) auto
  show thesis
  proof (cases "xs = []")
    case True
    then show ?thesis using Release[of qs h x] q ys False by simp
  next
    case xs: False
    then show ?thesis using Pop[of qs h xs x] q ys False by simp
  qed
qed

text \<open>The state \<open>preallocate\<close> ends in: every item of \<open>to_push\<close> has a slot.\<close>
definition pre_end :: "portion list \<Rightarrow> u32 \<Rightarrow> u32 multiset \<Rightarrow> u32 list \<Rightarrow> nat \<Rightarrow>
    (free_list \<times> u32 list \<times> u32 \<times> u32 list) option \<Rightarrow> bool" where
  "pre_end ps0 b0 T0 pushed bound r \<longleftrightarrow> (\<exists>fl to_push bump new_pages new_full i.
     r = Some (fl, to_push, bump, new_pages) \<and> pre_shape ps0 (fl_portions fl) (length new_pages) new_full i \<and>
     pre_pages ps0 b0 T0 (fl_portions fl) to_push bump new_pages \<and> pre_fits to_push bump new_pages i \<and>
     fl_released fl = [] \<and> length to_push \<le> i \<and> prefix pushed to_push \<and> unat bump \<le> bound)"

lemma pre_end_mono:
  "pre_end ps0 b0 T0 pushed bound r \<Longrightarrow> prefix pushed' pushed \<Longrightarrow> bound \<le> bound' \<Longrightarrow> pre_end ps0 b0 T0 pushed' bound' r"
  unfolding pre_end_def by (elim exE conjE, intro exI conjI, assumption+) (auto intro: prefix_order.trans)

lemma prealloc_loop_ok:
  assumes "pre_shape ps0 (fl_portions fl) (length new_pages) new_full i"
    and "pre_pages ps0 b0 T0 (fl_portions fl) to_push bump new_pages"
    and "pre_fits to_push bump new_pages i" "fl_released fl = []"
  shows "pre_end ps0 b0 T0 to_push (unat bump + (length to_push - i))
    (prealloc_loop fl to_push bump new_pages new_full i)"
  using assms
proof (induction "2 * (length to_push - i) + of_bool new_full" arbitrary: fl to_push bump new_pages new_full i
    rule: less_induct)
  case less
  note shape = less.prems(1) and pages = less.prems(2) and fits = less.prems(3) and rel = less.prems(4)
  show ?case
  proof (cases "i < length to_push")
    case False
    then show ?thesis using less.prems
      unfolding prealloc_loop_done[OF False] pre_end_def by (intro exI conjI) auto
  next
    case i: True
    from shape show ?thesis
    proof (cases rule: pre_shape_cases)
      case (Touch qs h xs x)
      let ?fl = "fl\<lparr>fl_portions := qs @ [(x, xs)]\<rparr>"
      have "pre_shape ps0 (fl_portions ?fl) (length new_pages) False (i + 1)"
        using Touch pages PNS_ge by (auto simp: pre_shape_def pre_pages_def)
      moreover have "pre_pages ps0 b0 T0 (fl_portions ?fl) (to_push @ [h]) bump new_pages"
        using pages Touch by (auto simp: pre_pages_def add_mset_commute)
      moreover have "pre_fits (to_push @ [h]) bump new_pages (i + 1)"
        using fits by (auto simp: pre_fits_def)
      moreover have "fl_released ?fl = []" using rel by simp
      ultimately have "pre_end ps0 b0 T0 (to_push @ [h]) (unat bump + (length (to_push @ [h]) - (i + 1)))
          (prealloc_loop ?fl (to_push @ [h]) bump new_pages False (i + 1))"
        using less.hyps[of "to_push @ [h]" "i + 1" False ?fl new_pages bump] Touch(1) by simp
      then show ?thesis unfolding eqTrueI[OF Touch(1)] prealloc_loop_touch[OF i Touch(2)]
        by (rule pre_end_mono) auto
    next
      case Empty
      have "unat bump + 1 < 2 ^ 32" using fits i unfolding pre_fits_def by linarith
      then have nz: "bump + 1 \<noteq> 0" by (rule bump_no_wrap)
      have "pre_shape ps0 (fl_portions fl) (length (new_pages @ [bump])) new_full (i + PNS)"
        using Empty by (simp add: pre_shape_def)
      moreover have "pre_pages ps0 b0 T0 (fl_portions fl) to_push (bump + 1) (new_pages @ [bump])"
        using pages bumped_Suc[OF _ nz] by (auto simp: pre_pages_def)
      moreover have "pre_fits to_push (bump + 1) (new_pages @ [bump]) (i + PNS)"
        using fits i bumped_Suc(3)[OF order.refl nz] PNS_ge by (auto simp: pre_fits_def)
      ultimately have "pre_end ps0 b0 T0 to_push (unat (bump + 1) + (length to_push - (i + PNS)))
          (prealloc_loop fl to_push (bump + 1) (new_pages @ [bump]) new_full (i + PNS))"
        using less.hyps[of to_push "i + PNS" new_full fl "new_pages @ [bump]" "bump + 1"] rel i PNS_ge by simp
      then show ?thesis unfolding prealloc_loop_bump[OF i Empty(2) nz]
        by (rule pre_end_mono) (use i PNS_ge bumped_Suc(3)[OF order.refl nz] in auto)
    next
      case (Pop qs h xs x)
      let ?fl = "fl\<lparr>fl_portions := qs @ [(h, xs)], fl_pop := True\<rparr>"
      have "pre_shape ps0 (fl_portions ?fl) (length (new_pages @ [x])) new_full (i + 1 + PNS)"
        using Pop by (auto simp: pre_shape_def)
      moreover have "pre_pages ps0 b0 T0 (fl_portions ?fl) to_push bump (new_pages @ [x])"
        using pages Pop by (auto simp: pre_pages_def)
      moreover have "pre_fits to_push bump (new_pages @ [x]) (i + 1 + PNS)"
        using fits i by (auto simp: pre_fits_def)
      moreover have "fl_released ?fl = []" using rel by simp
      ultimately have "pre_end ps0 b0 T0 to_push (unat bump + (length to_push - (i + 1 + PNS)))
          (prealloc_loop ?fl to_push bump (new_pages @ [x]) new_full (i + 1 + PNS))"
        using less.hyps[of to_push "i + 1 + PNS" new_full ?fl "new_pages @ [x]" bump] i by simp
      then show ?thesis unfolding eq_False[THEN iffD2, OF Pop(1)] prealloc_loop_pop[OF i Pop(2,3) rel]
        by (rule pre_end_mono) auto
    next
      case (Release qs h x)
      let ?fl = "fl\<lparr>fl_portions := qs, fl_pop := True, fl_released := []\<rparr>"
      have "pre_shape ps0 (fl_portions ?fl) (length (new_pages @ [x, h])) True (i + 1 + PNS)"
        using Release PNS_ge by (auto simp: pre_shape_def)
      moreover have "pre_pages ps0 b0 T0 (fl_portions ?fl) to_push bump (new_pages @ [x, h])"
        using pages Release by (auto simp: pre_pages_def add_mset_commute)
      moreover have "pre_fits to_push bump (new_pages @ [x, h]) (i + 1 + PNS)"
        using fits i by (auto simp: pre_fits_def)
      moreover have "fl_released ?fl = []" by simp
      ultimately have "pre_end ps0 b0 T0 to_push (unat bump + (length to_push - (i + 1 + PNS)))
          (prealloc_loop ?fl to_push bump (new_pages @ [x, h]) True (i + 1 + PNS))"
        using less.hyps[of to_push "i + 1 + PNS" True ?fl "new_pages @ [x, h]" bump] i PNS_ge by simp
      then show ?thesis unfolding eq_False[THEN iffD2, OF Release(1)] prealloc_loop_release[OF i Release(2) rel]
        by (rule pre_end_mono) auto
    qed
  qed
qed


lemma prealloc_head_ok:
  assumes "portions_ok (fl_portions fl)" "fl_released fl = []"
    and "mset to_push + tracked (fl_portions fl) = T0" "unat b0 + length to_push + 2 < 2 ^ 32"
  obtains fl' to_push' new_pages new_full i where
    "prealloc_head fl to_push = Some (fl', to_push', new_pages, new_full, i)"
    "pre_shape (fl_portions fl) (fl_portions fl') (length new_pages) new_full i"
    "pre_pages (fl_portions fl) b0 T0 (fl_portions fl') to_push' b0 new_pages"
    "pre_fits to_push' b0 new_pages i" "fl_released fl' = []"
    "prefix to_push to_push'" "length to_push' \<le> length to_push + 2"
  using assms(1)
proof (cases rule: portions_ok_cases)
  case Nil
  then have "prealloc_head fl to_push = Some (fl, to_push, [], True, 0)"
    by (simp add: prealloc_head_def fl_pop_one_Nil)
  moreover have "pre_shape (fl_portions fl) (fl_portions fl) (length []) True 0" using Nil by (simp add: pre_shape_def)
  moreover have "pre_pages (fl_portions fl) b0 T0 (fl_portions fl) to_push b0 []" using assms(3) Nil by (auto simp: pre_pages_def)
  ultimately show thesis using that assms(2,4) by (auto simp: pre_fits_def)
next
  case (Frag qs f g h x)
  let ?fl = "fl\<lparr>fl_portions := qs @ [(x, g)], fl_pop := True, fl_released := []\<rparr>"
  have g: "length g < PNS" "g \<noteq> []" "PNS - length g = 1" using Frag(3) PNS_ge by auto
  have "fl_pop_one fl = Some (Some x, fl\<lparr>fl_portions := qs @ [(f, g)], fl_pop := True, fl_released := [h]\<rparr>)"
    using fl_pop_one_single[of fl "qs @ [(f, g)]" h x] Frag(1) assms(2) by simp
  then have "prealloc_head fl to_push = Some (?fl, to_push @ [f, h], [], False, 1)"
    using Frag(3) g by (simp add: prealloc_head_def set_last_def)
  moreover have "pre_shape (fl_portions fl) (fl_portions ?fl) (length []) False 1"
    using Frag g by (auto simp: pre_shape_def butlast_append)
  moreover have "pre_pages (fl_portions fl) b0 T0 (fl_portions ?fl) (to_push @ [f, h]) b0 []"
    using assms(3) Frag(1) by (auto simp: pre_pages_def add_mset_commute)
  ultimately show thesis using that[of ?fl "to_push @ [f, h]" "[]" False 1] assms(4) by (auto simp: pre_fits_def)
next
  case (Full qs h xs x)
  show thesis
  proof (cases "xs = []")
    case True
    let ?fl = "fl\<lparr>fl_portions := qs, fl_pop := True, fl_released := []\<rparr>"
    have "fl_pop_one fl = Some (Some x, fl\<lparr>fl_portions := qs, fl_pop := True, fl_released := [h]\<rparr>)"
      using fl_pop_one_single[of fl qs h x] Full(1) True assms(2) by simp
    moreover have "\<not> (qs \<noteq> [] \<and> length (snd (last qs)) = PNS - 1)"
      using Full(2) PNS_ge by (auto simp: all_full_def)
    ultimately have "prealloc_head fl to_push = Some (?fl, to_push @ [h], [x], True, PNS)"
      by (auto simp: prealloc_head_def)
    moreover have "pre_shape (fl_portions fl) (fl_portions ?fl) (length [x]) True PNS"
      using Full by (auto simp: pre_shape_def)
    moreover have "pre_pages (fl_portions fl) b0 T0 (fl_portions ?fl) (to_push @ [h]) b0 [x]"
      using assms(3) Full(1) True by (auto simp: pre_pages_def add_mset_commute)
    ultimately show thesis using that[of ?fl "to_push @ [h]" "[x]" True PNS] assms(4) by (auto simp: pre_fits_def)
  next
    case False
    let ?fl = "fl\<lparr>fl_portions := qs @ [(x, xs)], fl_pop := True\<rparr>"
    have "prealloc_head fl to_push = Some (?fl, to_push @ [h], [], False, PNS - length xs)"
      using fl_pop_one_snoc[OF Full(1) False] assms(2) Full(3)
      by (simp add: prealloc_head_def set_last_def slice_simps)
    moreover have "pre_shape (fl_portions fl) (fl_portions ?fl) (length []) False (PNS - length xs)"
      using Full False by (auto simp: pre_shape_def)
    moreover have "pre_pages (fl_portions fl) b0 T0 (fl_portions ?fl) (to_push @ [h]) b0 []"
      using assms(3) Full(1) by (auto simp: pre_pages_def add_mset_commute)
    ultimately show thesis using that[of ?fl "to_push @ [h]" "[]" False "PNS - length xs"] assms(2,4)
      by (auto simp: pre_fits_def)
  qed
qed

lemma preallocate_ok:
  assumes "portions_ok (fl_portions fl)" "fl_released fl = []"
    and "mset to_push + tracked (fl_portions fl) = T0" "unat b0 + length to_push + 2 < 2 ^ 32"
  shows "pre_end (fl_portions fl) b0 T0 to_push (unat b0 + length to_push + 2) (preallocate fl to_push b0)"
proof -
  obtain fl' to_push' new_pages new_full i where
    head: "prealloc_head fl to_push = Some (fl', to_push', new_pages, new_full, i)"
    and inv: "pre_shape (fl_portions fl) (fl_portions fl') (length new_pages) new_full i"
      "pre_pages (fl_portions fl) b0 T0 (fl_portions fl') to_push' b0 new_pages"
      "pre_fits to_push' b0 new_pages i" "fl_released fl' = []"
    and len: "prefix to_push to_push'" "length to_push' \<le> length to_push + 2"
    by (rule prealloc_head_ok[OF assms])
  have "pre_end (fl_portions fl) b0 T0 to_push' (unat b0 + (length to_push' - i))
      (prealloc_loop fl' to_push' b0 new_pages new_full i)"
    by (rule prealloc_loop_ok[OF inv])
  then have "pre_end (fl_portions fl) b0 T0 to_push (unat b0 + length to_push + 2)
      (prealloc_loop fl' to_push' b0 new_pages new_full i)"
    by (rule pre_end_mono) (use len in auto)
  then show ?thesis by (simp add: preallocate_def head)
qed

section \<open>Pages of the chain\<close>

definition items_bytes :: "u32 list \<Rightarrow> bytes" where
  "items_bytes pns = concat (map (\<lambda>pn. to_le 4 (unat pn)) pns)"

lemma items_bytes_length [simp]: "length (items_bytes pns) = 4 * length pns"
  by (induction pns) (auto simp: items_bytes_def)

lemma set_items_bytes:
  assumes "length pre = 6 + 4 * i" "4 * length pns \<le> length rest"
  shows "set_items (pre @ rest) i pns = Some (pre @ items_bytes pns @ drop (4 * length pns) rest)"
  using assms
proof (induction pns arbitrary: pre rest i)
  case (Cons pn pns)
  have "set_item (pre @ rest) i pn = Some ((pre @ to_le 4 (unat pn)) @ drop 4 rest)"
    using Cons.prems by (simp add: set_item_def slice_simps)
  then show ?case using Cons.IH[of "pre @ to_le 4 (unat pn)" "i + 1" "drop 4 rest"] Cons.prems
    by (simp add: items_bytes_def add.commute)
qed (simp add: items_bytes_def)

lemma encode_page_bytes:
  assumes "length page = PAGE_SIZE" "length pns \<le> PNS"
  shows "encode_free_list_page page prev pns =
    Some (to_le 4 (unat prev) @ to_le 2 (length pns) @ items_bytes pns @ drop (6 + 4 * length pns) page)"
proof -
  have "length pns \<le> 1022" using assms(2) by (simp add: PNS_value)
  then have "set_items ((to_le 4 (unat prev) @ to_le 2 (length pns)) @ drop 6 page) 0 pns =
      Some ((to_le 4 (unat prev) @ to_le 2 (length pns)) @ items_bytes pns @ drop (4 * length pns) (drop 6 page))"
    using assms(1) by (intro set_items_bytes) (simp_all add: PAGE_SIZE_def)
  moreover have "set_prev_pn page prev = Some (to_le 4 (unat prev) @ drop 4 page)"
    using assms(1) by (simp add: set_prev_pn_def slice_simps PAGE_SIZE_def)
  moreover have "set_item_count (to_le 4 (unat prev) @ drop 4 page) (length pns mod 2 ^ 16) =
      Some (to_le 4 (unat prev) @ to_le 2 (length pns) @ drop 6 page)"
    using assms(1) \<open>length pns \<le> 1022\<close> by (simp add: set_item_count_def slice_simps PAGE_SIZE_def)
  ultimately show ?thesis by (simp add: encode_free_list_page_def add.commute)
qed

lemma decode_items_bytes:
  assumes "length pre = 6 + 4 * i" "\<forall>pn\<in>set pns. pn < max_pn"
  shows "decode_items (pre @ items_bytes pns @ rest) max_pn i (length pns) = Some pns"
  using assms
proof (induction pns arbitrary: pre i)
  case (Cons pn pns)
  have "fl_item (pre @ items_bytes (pn # pns) @ rest) i = Some pn"
    using Cons.prems(1) by (simp add: fl_item_def items_bytes_def slice_simps)
  moreover have "decode_items ((pre @ to_le 4 (unat pn)) @ items_bytes pns @ rest) max_pn (i + 1) (length pns) = Some pns"
    using Cons.prems by (intro Cons.IH) auto
  ultimately show ?case using Cons.prems(2) by (simp add: items_bytes_def)
qed simp

lemma decode_encoded_page:
  assumes "length page = PAGE_SIZE" "length pns \<le> PNS" "\<forall>pn\<in>set pns. pn < max_pn"
  obtains p where "encode_free_list_page page prev pns = Some p" "length p = PAGE_SIZE"
    "decode_free_list_page p max_pn = Some (prev, pns)"
proof -
  have le: "length pns \<le> 1022" using assms(2) by (simp add: PNS_value)
  let ?p = "to_le 4 (unat prev) @ to_le 2 (length pns) @ items_bytes pns @ drop (6 + 4 * length pns) page"
  have "decode_items ((to_le 4 (unat prev) @ to_le 2 (length pns)) @ items_bytes pns @ drop (6 + 4 * length pns) page)
      max_pn 0 (length pns) = Some pns"
    using assms(3) by (intro decode_items_bytes) auto
  then have "decode_free_list_page ?p max_pn = Some (prev, pns)"
    using le by (simp add: decode_free_list_page_def prev_pn_def item_count_def slice_simps from_le_to_le_id)
  moreover have "length ?p = PAGE_SIZE" using assms(1) le by (simp add: PAGE_SIZE_def)
  ultimately show thesis using that encode_page_bytes[OF assms(1,2)] by blast
qed


text \<open>The page the chain \<open>ps\<close> needs at its portion \<open>j\<close>.\<close>
definition prev_of :: "portion list \<Rightarrow> nat \<Rightarrow> u32" where
  "prev_of ps j = (if j = 0 then FREELIST_EMPTY else fst (ps ! (j - 1)))"

definition chain_page :: "(u32 \<Rightarrow> bytes) \<Rightarrow> portion list \<Rightarrow> nat \<Rightarrow> u32 \<times> bytes" where
  "chain_page pool ps j =
     (fst (ps ! j), the (encode_free_list_page (pool (fst (ps ! j))) (prev_of ps j) (snd (ps ! j))))"

lemma chain_page_take:
  assumes "take k ps' = take k ps" "j < k" "k \<le> length ps" "k \<le> length ps'"
  shows "chain_page pool ps' j = chain_page pool ps j" "prev_of ps' j = prev_of ps j" "ps' ! j = ps ! j"
proof -
  have nth: "ps' ! i = ps ! i" if "i < k" for i using assms(1) that by (metis nth_take)
  then show "ps' ! j = ps ! j" using assms(2) by simp
  show "prev_of ps' j = prev_of ps j" using nth assms(2) by (simp add: prev_of_def)
  then show "chain_page pool ps' j = chain_page pool ps j" using nth assms(2) by (simp add: chain_page_def)
qed

lemma encode_head_ok:
  assumes "\<forall>pn. length (pool pn) = PAGE_SIZE" "ps \<noteq> [] \<longrightarrow> length (snd (last ps)) \<le> PNS"
  shows "encode_head pool ps = Some (map (chain_page pool ps) [length ps - 1..<length ps])"
proof (cases ps rule: rev_cases)
  case (snoc qs p)
  have prev: "(if 2 \<le> length ps then fst (ps ! (length ps - 2)) else FREELIST_EMPTY) = prev_of ps (length qs)"
    using snoc by (auto simp: prev_of_def Suc_le_eq)
  show ?thesis unfolding encode_head_def Let_def prev
    using snoc assms encode_page_bytes[of "pool (fst p)" "snd p" "prev_of ps (length qs)"]
    by (simp add: chain_page_def)
qed (simp add: encode_head_def)

section \<open>Pushing\<close>

definition slots :: "portion list \<Rightarrow> nat" where
  "slots ps = (if ps = [] then 0 else PNS - length (snd (last ps)))"

definition head_ok :: "portion list \<Rightarrow> bool" where
  "head_ok ps \<longleftrightarrow> all_full (butlast ps) \<and> (ps \<noteq> [] \<longrightarrow> snd (last ps) \<noteq> [] \<and> length (snd (last ps)) \<le> PNS)"

text \<open>\<open>ps'\<close> extends the head of \<open>ps\<close> and continues with new portions.\<close>
definition grows :: "portion list \<Rightarrow> portion list \<Rightarrow> bool" where
  "grows ps ps' \<longleftrightarrow> take (length ps - 1) ps' = butlast ps \<and> length ps \<le> length ps' \<and>
     (ps \<noteq> [] \<longrightarrow> prefix (snd (last ps)) (snd (ps' ! (length ps - 1))))"

lemma head_ok_portions: "head_ok ps \<Longrightarrow> portions_ok ps"
  by (auto simp: head_ok_def portions_ok_def)

lemma push_new_page:
  "fl_push (ps @ [(p, [])]) pn = Some (ps @ [(p, [pn])])"
  using PNS_ge by (simp add: fl_push_def)

lemma push_loop_new:
  assumes "\<forall>pn. length (pool pn) = PAGE_SIZE" "head_ok ps"
    and "ps = [] \<or> length (snd (last ps)) = PNS \<or> (length (snd (last ps)) = PNS - 1 \<and> rest = [])"
  shows "push_loop pool ps (p # np) (pn # rest) enc =
    push_loop pool (ps @ [(p, [pn])]) np rest (enc @ map (chain_page pool ps) [length ps - 1..<length ps])"
proof -
  have "ps \<noteq> [] \<longrightarrow> length (snd (last ps)) \<le> PNS" using assms(2) by (simp add: head_ok_def)
  then show ?thesis using encode_head_ok[OF assms(1)] assms(3) by (auto simp: Let_def push_new_page)
qed

lemma push_loop_same:
  assumes "ps = qs @ [(h, xs)]" "length xs < PNS" "length xs = PNS - 1 \<longrightarrow> np = [] \<or> rest \<noteq> []"
  shows "push_loop pool ps np (pn # rest) enc = push_loop pool (qs @ [(h, xs @ [pn])]) np rest enc"
  using assms by (auto simp: Let_def fl_push_def)

definition pushed :: "(u32 \<Rightarrow> bytes) \<Rightarrow> portion list \<Rightarrow> u32 list \<Rightarrow> u32 list \<Rightarrow> (u32 \<times> bytes) list \<Rightarrow>
    (portion list \<times> u32 list \<times> (u32 \<times> bytes) list) option \<Rightarrow> bool" where
  "pushed pool ps np items enc r \<longleftrightarrow> (\<exists>ps'.
     r = Some (ps', [], enc @ map (chain_page pool ps') [length ps - 1..<length ps' - 1]) \<and> portions_ok ps' \<and>
     map fst ps' = map fst ps @ np \<and> free_items ps' = free_items ps @ items \<and> grows ps ps')"

lemma pushed_new:
  assumes "pushed pool (ps @ [(p, [pn])]) np rest (enc @ map (chain_page pool ps) [length ps - 1..<length ps]) r"
  shows "pushed pool ps (p # np) (pn # rest) enc r"
proof -
  from assms obtain ps' where r: "r = Some (ps', [], (enc @ map (chain_page pool ps) [length ps - 1..<length ps]) @
      map (chain_page pool ps') [length ps..<length ps' - 1])"
    and ok: "portions_ok ps'" "map fst ps' = map fst ps @ p # np" "free_items ps' = free_items ps @ pn # rest"
    and gr: "take (length ps) ps' = ps" "length ps < length ps'"
    by (auto simp: pushed_def grows_def)
  have same: "map (chain_page pool ps) [length ps - 1..<length ps] = map (chain_page pool ps') [length ps - 1..<length ps]"
    using chain_page_take(1)[of "length ps" ps' ps] gr by auto
  have "[length ps - 1..<length ps' - 1] = [length ps - 1..<length ps] @ [length ps..<length ps' - 1]"
    using gr(2) upt_add_eq_append[of "length ps - 1" "length ps" "length ps' - 1 - length ps"] by simp
  then have "r = Some (ps', [], enc @ map (chain_page pool ps') [length ps - 1..<length ps' - 1])"
    using r same by simp
  moreover have "grows ps ps'"
  proof -
    have "take (length ps - 1) ps' = take (length ps - 1) (take (length ps) ps')" by simp
    then have "take (length ps - 1) ps' = butlast ps" using gr(1) by (simp add: butlast_conv_take)
    moreover have "ps' ! (length ps - 1) = last ps" if "ps \<noteq> []"
      using gr that by (metis last_conv_nth diff_less length_greater_0_conv less_numeral_extra(1) nth_take)
    ultimately show ?thesis using gr by (auto simp: grows_def)
  qed
  ultimately show ?thesis using ok by (auto simp: pushed_def)
qed

lemma pushed_same:
  assumes "pushed pool (qs @ [(h, xs @ [pn])]) np rest enc r"
  shows "pushed pool (qs @ [(h, xs)]) np (pn # rest) enc r"
  using assms by (auto simp: pushed_def grows_def dest: append_prefixD)

lemma push_loop_ok:
  assumes "\<forall>pn. length (pool pn) = PAGE_SIZE" "head_ok ps" "length items \<le> slots ps + length np * PNS"
    and "np \<noteq> [] \<longrightarrow> items \<noteq> [] \<and> slots ps + length np * PNS \<le> length items + PNS"
  shows "pushed pool ps np items enc (push_loop pool ps np items enc)"
  using assms(2-4)
proof (induction items arbitrary: ps np enc)
  case Nil
  then show ?case using head_ok_portions[OF Nil.prems(1)]
    by (auto simp: pushed_def grows_def butlast_conv_take last_conv_nth)
next
  case (Cons pn rest)
  have head: "ps \<noteq> [] \<Longrightarrow> snd (last ps) \<noteq> [] \<and> length (snd (last ps)) \<le> PNS" and full: "all_full (butlast ps)"
    using Cons.prems(1) by (auto simp: head_ok_def)
  consider (Full) p np' where "ps = [] \<or> length (snd (last ps)) = PNS" "np = p # np'"
    | (Frag) p np' where "ps \<noteq> []" "length (snd (last ps)) = PNS - 1" "rest = []" "np = p # np'"
    | (Same) qs h xs where "ps = qs @ [(h, xs)]" "length xs < PNS" "length xs = PNS - 1 \<longrightarrow> np = [] \<or> rest \<noteq> []"
  proof (cases "ps = [] \<or> length (snd (last ps)) = PNS")
    case True
    then have "np \<noteq> []" using Cons.prems(2) by (auto simp: slots_def split: if_splits)
    then show thesis using that(1) True by (cases np) auto
  next
    case False
    then obtain qs h xs where "ps = qs @ [(h, xs)]" "length xs < PNS"
      using head by (metis append_butlast_last_id nat_less_le snd_conv surj_pair)
    then show thesis using that(2,3) False by (cases np) auto
  qed
  then show ?case
  proof cases
    case Full
    let ?ps = "ps @ [(p, [pn])]" and ?enc = "enc @ map (chain_page pool ps) [length ps - 1..<length ps]"
    have "all_full ps" using Full(1) full by (cases ps rule: rev_cases) auto
    then have "head_ok ?ps" using PNS_ge by (simp add: head_ok_def)
    moreover have "slots ps = 0" "slots ?ps = PNS - 1" using Full(1) by (auto simp: slots_def)
    then have "length rest \<le> slots ?ps + length np' * PNS"
      "np' \<noteq> [] \<longrightarrow> rest \<noteq> [] \<and> slots ?ps + length np' * PNS \<le> length rest + PNS"
      using Cons.prems(2,3) Full(2) PNS_ge by (cases np'; auto)+
    ultimately have "pushed pool ?ps np' rest ?enc (push_loop pool ?ps np' rest ?enc)" by (rule Cons.IH)
    then show ?thesis using Full(1)
      unfolding Full(2) by (subst push_loop_new[OF assms(1) Cons.prems(1)]) (auto intro: pushed_new)
  next
    case Frag
    let ?ps = "ps @ [(p, [pn])]" and ?enc = "enc @ map (chain_page pool ps) [length ps - 1..<length ps]"
    have np': "np' = []" using Cons.prems(3) Frag PNS_ge by (cases np') (auto simp: slots_def)
    obtain qs f g where ps: "ps = qs @ [(f, g)]" using Frag(1) by (metis append_butlast_last_id surj_pair)
    have "portions_ok ?ps" using portions_ok_frag[of qs g f p pn] Frag(2) full ps by simp
    then have "pushed pool ?ps np' rest ?enc (push_loop pool ?ps np' rest ?enc)"
      using np' Frag(3) by (auto simp: pushed_def grows_def)
    then show ?thesis using Frag(2,3)
      unfolding Frag(4) by (subst push_loop_new[OF assms(1) Cons.prems(1)]) (auto intro: pushed_new)
  next
    case Same
    let ?ps = "qs @ [(h, xs @ [pn])]"
    have sl: "slots ps = Suc (slots ?ps)" using Same(1,2) by (simp add: slots_def)
    have "head_ok ?ps" using Same(1,2) full by (simp add: head_ok_def)
    moreover have "length rest \<le> slots ?ps + length np * PNS" using Cons.prems(2) sl by simp
    moreover have "np \<noteq> [] \<longrightarrow> rest \<noteq> [] \<and> slots ?ps + length np * PNS \<le> length rest + PNS"
    proof
      assume np: "np \<noteq> []"
      then have le: "Suc (slots ?ps + length np * PNS) \<le> Suc (length rest + PNS)" using Cons.prems(3) sl by simp
      have "rest \<noteq> []"
      proof
        assume "rest = []"
        then have "slots ?ps = 0" using le np by (cases np) auto
        then show False using Same np \<open>rest = []\<close> by (auto simp: slots_def)
      qed
      then show "rest \<noteq> [] \<and> slots ?ps + length np * PNS \<le> length rest + PNS" using le by simp
    qed
    ultimately have "pushed pool ?ps np rest enc (push_loop pool ?ps np rest enc)" by (rule Cons.IH)
    then have "pushed pool (qs @ [(h, xs)]) np (pn # rest) enc (push_loop pool ?ps np rest enc)" by (rule pushed_same)
    then show ?thesis unfolding push_loop_same[OF Same] unfolding Same(1) .
  qed
qed


section \<open>Committing\<close>

lemma portions_ok_le: "portions_ok ps \<Longrightarrow> p \<in> set ps \<Longrightarrow> length (snd p) \<le> PNS"
  by (erule portions_ok_cases) (auto simp: all_full_def Suc_le_eq PNS_ge)

lemma prefix_butlast:
  assumes "prefix qs (butlast ps)"
  shows "take (length qs) ps = qs" "length qs \<le> length (butlast ps)"
proof -
  show "length qs \<le> length (butlast ps)" by (rule prefix_length_le[OF assms])
  show "take (length qs) ps = qs"
    using assms by (cases ps rule: rev_cases) (auto simp: prefix_def)
qed

text \<open>
  A commit leaves \<open>k\<close> portions of the chain as they are, draws the pages of all others from the
  free pages or from the end of the store, and writes exactly those (and possibly the last
  untouched portion once more, as it is).
\<close>
definition rewritten :: "(u32 \<Rightarrow> bytes) \<Rightarrow> portion list \<Rightarrow> u32 set \<Rightarrow> portion list \<Rightarrow> (u32 \<times> bytes) list \<Rightarrow> bool" where
  "rewritten pool ps fresh ps' pages \<longleftrightarrow> ps' = ps \<and> pages = [] \<or> (\<exists>k s. k \<le> length ps' \<and> k \<le> length (butlast ps) \<and> take k ps' = take k ps \<and>
     set (map fst (drop k ps')) \<subseteq> fresh \<and> pages = map (chain_page pool ps') [s..<length ps'] \<and> (s = k \<or> s = k - 1))"

lemma grows_rewritten:
  assumes "pre_shape ps0 ps n new_full i" "grows ps ps'" "portions_ok ps'" "map fst ps' = map fst ps @ np"
    and "set np \<subseteq> fresh" "set (free_items ps0) \<subseteq> fresh"
  shows "rewritten pool ps0 fresh ps' (map (chain_page pool ps') [length ps - 1..<length ps'])"
proof (cases new_full)
  case True
  then have full: "all_full ps" and pre: "prefix ps (butlast ps0)" using assms(1) by (auto simp: pre_shape_def)
  have same: "take (length ps) ps' = ps"
  proof (cases ps rule: rev_cases)
    case (snoc qs p)
    let ?q = "ps' ! length qs"
    have len: "length qs < length ps'" using assms(2) snoc by (simp add: grows_def)
    have "prefix (snd p) (snd ?q)" using assms(2) snoc by (simp add: grows_def)
    moreover have "length (snd ?q) \<le> length (snd p)" using portions_ok_le[OF assms(3)] len full snoc by simp
    ultimately have "snd ?q = snd p" by (auto simp: prefix_def)
    moreover have "fst ?q = fst p" using arg_cong[OF assms(4), of "\<lambda>l. l ! length qs"] len snoc by (simp add: nth_append)
    ultimately have "?q = p" by (simp add: prod_eq_iff)
    then show ?thesis using assms(2) snoc len by (simp add: grows_def take_Suc_conv_app_nth)
  qed simp
  have "map fst (drop (length ps) ps') = np" using assms(4) by (simp flip: drop_map)
  then show ?thesis unfolding rewritten_def using same prefix_butlast[OF pre] assms(2,5)
    by (intro disjI2 exI[of _ "length ps"] exI[of _ "length ps - 1"]) (auto simp: grows_def)
next
  case False
  then obtain qs h xs where ps: "ps = qs @ [(h, xs)]" "prefix qs (butlast ps0)" "h \<in> set (free_items ps0)"
    using assms(1) by (auto simp: pre_shape_def)
  have "map fst (drop (length qs) ps') = drop (length qs) (map fst ps')" by (simp add: drop_map)
  then have "map fst (drop (length qs) ps') = h # np" using assms(4) ps(1) by simp
  then show ?thesis unfolding rewritten_def using prefix_butlast[OF ps(2)] ps(1,3) assms(2,5,6)
    by (intro disjI2 exI[of _ "length qs"] exI[of _ "length qs"]) (auto simp: grows_def)
qed

text \<open>What a commit yields: no page is lost, none is tracked twice that was not before.\<close>
definition committed :: "(u32 \<Rightarrow> bytes) \<Rightarrow> free_list \<Rightarrow> u32 list \<Rightarrow> u32 \<Rightarrow> (u32 \<times> bytes) list \<Rightarrow> free_list \<Rightarrow> u32 \<Rightarrow> bool" where
  "committed pool fl to_push b pages fl' b' \<longleftrightarrow> clean_ok fl' \<and> b \<le> b' \<and>
     unat b' \<le> unat b + length to_push + length (fl_released fl) + 2 \<and>
     tracked (fl_portions fl') =
       tracked (fl_portions fl) + mset to_push + mset (fl_released fl) + mset (bumped b b') \<and>
     rewritten pool (fl_portions fl) (set (free_items (fl_portions fl)) \<union> set (bumped b b')) (fl_portions fl') pages \<and>
     (pages = [] \<longrightarrow> fl_portions fl' = [] \<or> \<not> fl_pop fl)"

lemma pre_end_pushed:
  assumes "pre_end ps0 b T0 pushed0 bound (Some (fl, to_push, b', np))" "\<forall>pn. length (pool pn) = PAGE_SIZE"
  obtains ps' where "push_and_encode pool fl to_push np =
      Some (fl\<lparr>fl_portions := ps'\<rparr>, map (chain_page pool ps') [length (fl_portions fl) - 1..<length ps'])"
    "portions_ok ps'" "tracked ps' = T0 + mset (bumped b b')"
    "rewritten pool ps0 (set (free_items ps0) \<union> set (bumped b b')) ps'
       (map (chain_page pool ps') [length (fl_portions fl) - 1..<length ps'])"
    "length (fl_portions fl) \<le> length ps'"
proof -
  let ?ps = "fl_portions fl"
  obtain new_full i where
    shape: "pre_shape ps0 ?ps (length np) new_full i" and pages: "pre_pages ps0 b T0 ?ps to_push b' np"
    and fits: "pre_fits to_push b' np i" "length to_push \<le> i"
    using assms(1) by (auto simp: pre_end_def)
  have i: "i = slots ?ps + length np * PNS" and ok: "head_ok ?ps"
    using shape PNS_ge by (cases rule: pre_shape_cases; auto simp: slots_def head_ok_def)+
  have "pushed pool ?ps np to_push [] (push_loop pool ?ps np to_push [])"
    using fits i by (intro push_loop_ok[OF assms(2) ok]) (auto simp: pre_fits_def)
  then obtain ps' where
    loop: "push_loop pool ?ps np to_push [] = Some (ps', [], map (chain_page pool ps') [length ?ps - 1..<length ps' - 1])"
    and ps': "portions_ok ps'" "map fst ps' = map fst ?ps @ np" "free_items ps' = free_items ?ps @ to_push" "grows ?ps ps'"
    by (auto simp: pushed_def)
  have "encode_head pool ps' = Some (map (chain_page pool ps') [length ps' - 1..<length ps'])"
    using portions_ok_le[OF ps'(1)] by (intro encode_head_ok[OF assms(2)]) auto
  moreover have "[length ?ps - 1..<length ps'] = [length ?ps - 1..<length ps' - 1] @ [length ps' - 1..<length ps']"
    using ps'(4) upt_add_eq_append[of "length ?ps - 1" "length ps' - 1" "length ps' - (length ps' - 1)"]
      diff_le_mono[of "length ?ps" "length ps'" 1] by (simp add: grows_def)
  ultimately have "push_and_encode pool fl to_push np =
      Some (fl\<lparr>fl_portions := ps'\<rparr>, map (chain_page pool ps') [length ?ps - 1..<length ps'])"
    by (simp add: push_and_encode_def loop)
  moreover have "tracked ps' = T0 + mset (bumped b b')"
    using pages ps'(2,3) by (simp add: pre_pages_def tracked_def algebra_simps)
  moreover have "rewritten pool ps0 (set (free_items ps0) \<union> set (bumped b b')) ps'
       (map (chain_page pool ps') [length ?ps - 1..<length ps'])"
    using pages by (intro grows_rewritten[OF shape ps'(4,1,2)]) (auto simp: pre_pages_def)
  moreover have "length ?ps \<le> length ps'" using ps'(4) by (simp add: grows_def)
  ultimately show thesis using that ps'(1) by blast
qed

lemma fl_commit_ok:
  assumes "portions_ok (fl_portions fl)" "\<forall>pn. length (pool pn) = PAGE_SIZE"
    and "\<not> fl_pop fl \<longrightarrow> clean_ok fl" "unat b + length to_push + length (fl_released fl) + 2 < 2 ^ 32"
  shows "\<exists>pages fl' b'. fl_commit pool fl to_push b = Some (pages, fl', b') \<and> committed pool fl to_push b pages fl' b'"
proof (cases "\<not> fl_pop fl \<and> to_push = []")
  case True
  then have "fl_commit pool fl to_push b = Some ([], fl\<lparr>fl_pop := False\<rparr>, b)" by (simp add: fl_commit_def)
  moreover have "rewritten pool (fl_portions fl) (set (free_items (fl_portions fl))) (fl_portions fl) []"
    by (simp add: rewritten_def)
  ultimately show ?thesis using True assms(3) by (auto simp: committed_def clean_ok_def)
next
  case False
  let ?fl = "fl\<lparr>fl_pop := False, fl_released := []\<rparr>" and ?tp = "to_push @ fl_released fl"
  let ?T = "mset ?tp + tracked (fl_portions ?fl)"
  have pe: "pre_end (fl_portions ?fl) b ?T ?tp (unat b + length ?tp + 2) (preallocate ?fl ?tp b)"
    using assms(1,4) by (intro preallocate_ok) auto
  then obtain fl1 tp b' np where pre: "preallocate ?fl ?tp b = Some (fl1, tp, b', np)"
    unfolding pre_end_def by blast
  note pe = pe[unfolded pre]
  obtain ps' where
    pushed: "push_and_encode pool fl1 tp np =
      Some (fl1\<lparr>fl_portions := ps'\<rparr>, map (chain_page pool ps') [length (fl_portions fl1) - 1..<length ps'])"
    and ps': "portions_ok ps'" "tracked ps' = ?T + mset (bumped b b')"
      "rewritten pool (fl_portions ?fl) (set (free_items (fl_portions ?fl)) \<union> set (bumped b b')) ps'
       (map (chain_page pool ps') [length (fl_portions fl1) - 1..<length ps'])"
      "length (fl_portions fl1) \<le> length ps'"
    by (rule pre_end_pushed[OF pe assms(2)])
  have b': "b \<le> b'" "unat b' \<le> unat b + length ?tp + 2" "fl_released fl1 = []"
    using pe by (auto simp: pre_end_def pre_pages_def)
  have ne: "map (chain_page pool ps') [length (fl_portions fl1) - 1..<length ps'] = [] \<longrightarrow> ps' = []"
    using ps'(4) by (cases ps') auto
  show ?thesis using False pre pushed ps' b' ne len_and_fragmented_ok[OF ps'(1)]
    by (auto simp: fl_commit_def committed_def clean_ok_def)
qed

end
