(* ===== verification/FreeListDisk.thy ===== *)
theory FreeListDisk
  imports FreeListFacts
begin

text \<open>
  The free list on disk: reading back the chain a commit writes, and the chain of the previous
  commit, which stays readable whatever part of the new one has reached the disk.
\<close>

section \<open>The chain\<close>

definition chain_at :: "bytes \<Rightarrow> u32 \<Rightarrow> portion list \<Rightarrow> bool" where
  "chain_at fd max_pn ps \<longleftrightarrow> (\<forall>j < length ps. fst (ps ! j) \<noteq> 0 \<and>
     (\<exists>page. read_page fd (unat (fst (ps ! j))) = Some page \<and>
             decode_free_list_page page max_pn = Some (prev_of ps j, snd (ps ! j))))"

definition file_pages :: "bytes \<Rightarrow> u32" where
  "file_pages fd = word_of_nat (length fd div PAGE_SIZE)"

lemma read_portions_chain:
  assumes "chain_at fd m ps" "k \<le> length ps"
  shows "read_portions fd m (prev_of ps k) acc = Some (Inr (acc @ rev (take k ps)))"
  using assms(2)
proof (induction k arbitrary: acc)
  case 0
  then show ?case by (subst read_portions.simps) (simp add: prev_of_def FREELIST_EMPTY_def)
next
  case (Suc k)
  obtain page where page: "fst (ps ! k) \<noteq> 0" "read_page fd (unat (fst (ps ! k))) = Some page"
    "decode_free_list_page page m = Some (prev_of ps k, snd (ps ! k))"
    using assms(1) Suc.prems unfolding chain_at_def by (metis Suc_le_eq)
  have "read_portions fd m (prev_of ps (Suc k)) acc =
      read_portions fd m (prev_of ps k) (acc @ [(fst (ps ! k), snd (ps ! k))])"
    using page by (subst read_portions.simps) (simp add: prev_of_def)
  also have "\<dots> = Some (Inr ((acc @ [ps ! k]) @ rev (take k ps)))" using Suc by simp
  finally show ?case using Suc.prems by (simp add: take_Suc_conv_app_nth)
qed

lemma free_list_read_chain:
  assumes "chain_at fd (file_pages fd) (fl_portions fl)" "clean_ok fl"
  shows "free_list_read fd (head_pn fl) = Some (Inr fl)"
proof (cases "fl_portions fl = []")
  case True
  then show ?thesis using assms(2)
    by (cases fl) (simp add: free_list_read_def head_pn_def clean_ok_def len_and_fragmented_def)
next
  case False
  then have "fst (last (fl_portions fl)) = prev_of (fl_portions fl) (length (fl_portions fl))"
    by (simp add: prev_of_def last_conv_nth)
  then show ?thesis using False assms(2) read_portions_chain[OF assms(1), of "length (fl_portions fl)" "[]"]
    by (cases fl) (auto simp: free_list_read_def head_pn_def file_pages_def clean_ok_def Let_def split: prod.splits)
qed

section \<open>Writing pages\<close>

definition write_pages :: "(u32 \<times> bytes) list \<Rightarrow> bytes \<Rightarrow> bytes" where
  "write_pages ws fd = fold (\<lambda>(pn, page) fd. write_page_at fd (unat pn) page) ws fd"

definition pages_fit :: "bytes \<Rightarrow> (u32 \<times> bytes) set \<Rightarrow> bool" where
  "pages_fit fd ws \<longleftrightarrow> (\<forall>(pn, page)\<in>ws. in_file fd (unat pn) \<and> length page = PAGE_SIZE)"

lemma write_pages_length: "pages_fit fd (set ws) \<Longrightarrow> length (write_pages ws fd) = length fd"
  by (induction ws arbitrary: fd) (auto simp: write_pages_def pages_fit_def in_file_def)

lemma read_write_pages:
  assumes "pages_fit fd (set ws)"
  shows "read_page (write_pages ws fd) q =
    (case map_of (rev (map (\<lambda>(pn, page). (unat pn, page)) ws)) q of Some page \<Rightarrow> Some page | None \<Rightarrow> read_page fd q)"
  using assms
proof (induction ws arbitrary: fd)
  case (Cons w ws)
  obtain pn page where w: "w = (pn, page)" by (cases w)
  let ?fd = "write_page_at fd (unat pn) page"
  have fit: "in_file fd (unat pn)" "length page = PAGE_SIZE" using Cons.prems w by (auto simp: pages_fit_def)
  then have "pages_fit ?fd (set ws)" using Cons.prems by (auto simp: pages_fit_def in_file_def)
  from Cons.IH[OF this] show ?case using w read_write_page[OF fit, of q]
    by (auto simp: write_pages_def map_add_def split: option.splits)
qed (simp add: write_pages_def)

text \<open>The pages to write have one content each; any of them may have been written, in any order.\<close>
lemma read_write_some:
  assumes "pages_fit fd pages" "set ws \<subseteq> pages"
  shows "read_page (write_pages ws fd) (unat q) = read_page fd (unat q) \<or>
    (\<exists>page. (q, page) \<in> pages \<and> read_page (write_pages ws fd) (unat q) = Some page)"
proof -
  have "pages_fit fd (set ws)" using assms by (auto simp: pages_fit_def)
  from read_write_pages[OF this, of "unat q"] show ?thesis
    using assms(2) by (auto split: option.splits dest!: map_of_SomeD unsigned_word_eqI)
qed

lemma read_write_done:
  assumes "pages_fit fd (set ws)" "(q, page) \<in> set ws" "\<forall>page'. (q, page') \<in> set ws \<longrightarrow> page' = page"
  shows "read_page (write_pages ws fd) (unat q) = Some page"
proof -
  let ?m = "rev (map (\<lambda>(pn, page). (unat pn, page)) ws)"
  have "unat q \<in> fst ` set ?m" using assms(2) by force
  then obtain page' where page': "map_of ?m (unat q) = Some page'" by (metis map_of_eq_None_iff not_None_eq)
  then have "(unat q, page') \<in> set ?m" by (rule map_of_SomeD)
  then have "(q, page') \<in> set ws" by (auto dest!: unsigned_word_eqI)
  then show ?thesis using page' assms(3) read_write_pages[OF assms(1), of "unat q"] by simp
qed


section \<open>A commit on disk\<close>

lemma chain_page_decodes:
  assumes "\<forall>pn. length (pool pn) = PAGE_SIZE" "portions_ok ps" "\<forall>pn\<in>set (free_items ps). pn < m" "j < length ps"
  shows "decode_free_list_page (snd (chain_page pool ps j)) m = Some (prev_of ps j, snd (ps ! j))"
    "length (snd (chain_page pool ps j)) = PAGE_SIZE" "fst (chain_page pool ps j) = fst (ps ! j)"
proof -
  have "length (snd (ps ! j)) \<le> PNS" using portions_ok_le[OF assms(2)] assms(4) by simp
  moreover have "\<forall>pn\<in>set (snd (ps ! j)). pn < m"
    using assms(3,4) by (auto simp: free_items_def)
  ultimately obtain p where "encode_free_list_page (pool (fst (ps ! j))) (prev_of ps j) (snd (ps ! j)) = Some p"
    "length p = PAGE_SIZE" "decode_free_list_page p m = Some (prev_of ps j, snd (ps ! j))"
    using decode_encoded_page[of "pool (fst (ps ! j))" "snd (ps ! j)" m "prev_of ps j"] assms(1) by metis
  then show "decode_free_list_page (snd (chain_page pool ps j)) m = Some (prev_of ps j, snd (ps ! j))"
    "length (snd (chain_page pool ps j)) = PAGE_SIZE" "fst (chain_page pool ps j) = fst (ps ! j)"
    by (simp_all add: chain_page_def)
qed

text \<open>The chain \<open>ps'\<close> of a commit on top of the chain \<open>disk\<close>, of which the first \<open>k\<close> portions are kept.\<close>
definition continues :: "(u32 \<Rightarrow> bytes) \<Rightarrow> portion list \<Rightarrow> u32 set \<Rightarrow> portion list \<Rightarrow> (u32 \<times> bytes) list \<Rightarrow> bool" where
  "continues pool disk fresh ps' pages \<longleftrightarrow> (\<exists>k s. k \<le> length ps' \<and> k \<le> length disk \<and> take k ps' = take k disk \<and>
     set (map fst (drop k ps')) \<subseteq> fresh \<and> pages = map (chain_page pool ps') [s..<length ps'] \<and> (s = k \<or> s = k - 1))"

lemma rewritten_continues:
  assumes "rewritten pool ps fresh ps' pages" "prefix (butlast ps) disk" "ps' = ps \<and> pages = [] \<longrightarrow> ps = disk"
  shows "continues pool disk fresh ps' pages"
proof (cases "ps' = ps \<and> pages = []")
  case True
  then show ?thesis using assms(3) unfolding continues_def by (intro exI[of _ "length ps"]) auto
next
  case False
  then obtain k s where k: "k \<le> length ps'" "k \<le> length (butlast ps)" "take k ps' = take k ps"
    "set (map fst (drop k ps')) \<subseteq> fresh" "pages = map (chain_page pool ps') [s..<length ps']" "s = k \<or> s = k - 1"
    using assms(1) by (auto simp: rewritten_def)
  obtain zs where zs: "disk = butlast ps @ zs" using assms(2) by (auto simp: prefix_def)
  then have "k \<le> length disk" "take k disk = take k ps" using k(2) by (auto simp: butlast_conv_take)
  then show ?thesis unfolding continues_def using k by (intro exI[of _ k] exI[of _ s]) simp
qed

lemma continues_fit:
  assumes "continues pool disk fresh ps' pages" "\<forall>pn. length (pool pn) = PAGE_SIZE" "portions_ok ps'"
    and "\<forall>pn\<in>set (free_items ps'). pn < m" "\<forall>pn\<in>set (map fst ps'). in_file fd (unat pn)"
  shows "pages_fit fd (set pages)"
  using assms(1) chain_page_decodes(2,3)[OF assms(2-4)] assms(5)
  by (fastforce simp: continues_def pages_fit_def prod_eq_iff)

text \<open>Once all its pages are written, in any order and among other writes, the new chain is there.\<close>
lemma continues_new:
  assumes "continues pool disk fresh ps' pages" "chain_at fd m disk" "\<forall>pn. length (pool pn) = PAGE_SIZE" "portions_ok ps'"
    and "\<forall>pn\<in>set (free_items ps'). pn < m" "\<forall>pn\<in>set (map fst ps'). in_file fd (unat pn)"
    and "distinct (map fst ps')" "\<forall>pn\<in>set (map fst ps'). pn \<noteq> 0"
    and "set pages \<subseteq> set ws" "set ws \<subseteq> set pages \<union> extra" "pages_fit fd extra" "fst ` extra \<inter> set (map fst ps') = {}"
  shows "chain_at (write_pages ws fd) m ps'"
  unfolding chain_at_def
proof (intro allI impI conjI)
  note dec = chain_page_decodes[OF assms(3-5)]
  have fit: "pages_fit fd (set pages \<union> extra)"
    using continues_fit[OF assms(1,3-6)] assms(11) by (auto simp: pages_fit_def)
  then have fit_ws: "pages_fit fd (set ws)" using assms(10) by (auto simp: pages_fit_def)
  obtain k s where k: "k \<le> length ps'" "k \<le> length disk" "take k ps' = take k disk"
    "pages = map (chain_page pool ps') [s..<length ps']" "s = k \<or> s = k - 1"
    using assms(1) by (auto simp: continues_def)
  have fst_pages: "map fst pages = drop s (map fst ps')"
    using k(4) dec(3) by (intro nth_equalityI) auto
  fix j assume j: "j < length ps'"
  show "fst (ps' ! j) \<noteq> 0" using assms(8) j by simp
  have other: "fst (ps' ! j) \<notin> fst ` extra" using assms(12) j by (metis disjoint_iff length_map nth_map nth_mem)
  show "\<exists>page. read_page (write_pages ws fd) (unat (fst (ps' ! j))) = Some page \<and>
      decode_free_list_page page m = Some (prev_of ps' j, snd (ps' ! j))"
  proof (cases "j < s")
    case True
    then have jk: "j < k" using k(5) by auto
    note same = chain_page_take(2,3)[OF k(3) jk k(2,1)]
    have "fst (ps' ! j) \<notin> fst ` set pages"
    proof -
      have "distinct (map fst ps')" by fact
      then have "set (take s (map fst ps')) \<inter> set (drop s (map fst ps')) = {}" by (simp add: set_take_disj_set_drop_if_distinct)
      moreover have "fst (ps' ! j) \<in> set (take s (map fst ps'))" using True j by (auto simp: in_set_conv_nth intro!: exI[of _ j])
      ultimately show ?thesis using fst_pages by (metis disjoint_iff set_map)
    qed
    then have "read_page (write_pages ws fd) (unat (fst (ps' ! j))) = read_page fd (unat (fst (ps' ! j)))"
      using read_write_some[OF fit assms(10), of "fst (ps' ! j)"] other by (force simp: image_iff)
    then show ?thesis using same assms(2) jk k(2) by (auto simp: chain_at_def)
  next
    case False
    then have pg: "(fst (ps' ! j), snd (chain_page pool ps' j)) \<in> set pages"
      using k(4) dec(3)[OF j] j by (auto simp: image_iff prod_eq_iff intro!: bexI[of _ j])
    then have "(fst (ps' ! j), snd (chain_page pool ps' j)) \<in> set ws" using assms(9) by blast
    moreover have "page' = snd (chain_page pool ps' j)" if "(fst (ps' ! j), page') \<in> set ws" for page'
    proof -
      have "(fst (ps' ! j), page') \<in> set pages" using that assms(10) other by (force simp: image_iff)
      moreover have "distinct (map fst pages)" using assms(7) fst_pages by (simp add: distinct_drop)
      ultimately show ?thesis using pg by (metis eq_key_imp_eq_value)
    qed
    ultimately show ?thesis using read_write_done[OF fit_ws] assms(9) dec(1)[OF j] by blast
  qed
qed

lemma continues_old:
  assumes "continues pool disk fresh ps' pages" "chain_at fd m disk" "\<forall>pn. length (pool pn) = PAGE_SIZE" "portions_ok ps'"
    and "\<forall>pn\<in>set (free_items ps'). pn < m" "\<forall>pn\<in>set (map fst ps'). in_file fd (unat pn)"
    and "distinct (map fst disk)" "fresh \<inter> set (map fst disk) = {}" "set ws \<subseteq> set pages \<union> extra"
    and "pages_fit fd extra" "fst ` extra \<inter> set (map fst disk) = {}"
  shows "chain_at (write_pages ws fd) m disk"
  unfolding chain_at_def
proof (intro allI impI conjI)
  note dec = chain_page_decodes[OF assms(3-5)]
  have fit: "pages_fit fd (set pages \<union> extra)"
    using continues_fit[OF assms(1,3-6)] assms(10) by (auto simp: pages_fit_def)
  obtain k s where k: "k \<le> length ps'" "k \<le> length disk" "take k ps' = take k disk" "set (map fst (drop k ps')) \<subseteq> fresh"
    "pages = map (chain_page pool ps') [s..<length ps']" "s = k \<or> s = k - 1"
    using assms(1) by (auto simp: continues_def)
  fix j assume j: "j < length disk"
  show "fst (disk ! j) \<noteq> 0" using assms(2) j by (simp add: chain_at_def)
  have "\<exists>page. read_page fd (unat (fst (disk ! j))) = Some page \<and>
      decode_free_list_page page m = Some (prev_of disk j, snd (disk ! j))" using assms(2) j by (simp add: chain_at_def)
  moreover have "decode_free_list_page page m = Some (prev_of disk j, snd (disk ! j))"
    if pg: "(fst (disk ! j), page) \<in> set pages \<union> extra" for page
  proof -
    have "fst (disk ! j) \<in> set (map fst disk)" using j by simp
    then have "(fst (disk ! j), page) \<in> set pages" using pg assms(11) by (metis IntI UnE empty_iff fst_conv imageI)
    with k(5) obtain i where i: "s \<le> i" "i < length ps'" "chain_page pool ps' i = (fst (disk ! j), page)" by auto
    have ij: "fst (ps' ! i) = fst (disk ! j)" using dec(3)[OF i(2)] i(3) by simp
    have "i < k"
    proof (rule ccontr)
      assume "\<not> i < k"
      then have "ps' ! i \<in> set (drop k ps')" using i(2) by (auto simp: in_set_conv_nth intro!: exI[of _ "i - k"])
      then have "fst (ps' ! i) \<in> fresh" using k(4) by auto
      then show False using assms(8) ij j by auto
    qed
    note same = chain_page_take(2,3)[OF k(3) this k(2,1)]
    have "i = j" using nth_eq_iff_index_eq[OF assms(7), of i j] ij same(2) \<open>i < k\<close> k(2) j by simp
    then show ?thesis using dec(1)[OF i(2)] i(3) same by simp
  qed
  ultimately show "\<exists>page. read_page (write_pages ws fd) (unat (fst (disk ! j))) = Some page \<and>
      decode_free_list_page page m = Some (prev_of disk j, snd (disk ! j))"
    using read_write_some[OF fit assms(9), of "fst (disk ! j)"] by metis
qed

text \<open>The pages a commit writes.\<close>
lemma continues_numbers:
  assumes "continues pool disk fresh ps' pages"
  shows "fst ` set pages \<subseteq> set (map fst disk) \<union> fresh"
proof -
  obtain k s where k: "k \<le> length ps'" "k \<le> length disk" "take k ps' = take k disk" "set (map fst (drop k ps')) \<subseteq> fresh"
    "pages = map (chain_page pool ps') [s..<length ps']"
    using assms by (auto simp: continues_def)
  have "set (map fst ps') = set (map fst (take k ps')) \<union> set (map fst (drop k ps'))"
    by (metis append_take_drop_id map_append set_append)
  also have "\<dots> \<subseteq> set (map fst disk) \<union> fresh" using k(3,4) set_take_subset[of k "map fst disk"] by (auto simp: take_map)
  finally have "set (map fst ps') \<subseteq> set (map fst disk) \<union> fresh" .
  moreover have "fst ` set pages \<subseteq> set (map fst ps')" using k(5) by (auto simp: chain_page_def)
  ultimately show ?thesis by blast
qed

end
