(* ===== verification/PageAllocators.thy ===== *)
theory PageAllocators
  imports FreeListDisk
begin

text \<open>
  The page allocator of a beatree store, \<open>nomt/src/beatree/allocator/mod.rs\<close>: a sync allocates pages
  from the free list and from the end of the file, possibly from several threads at once, and
  finishes by committing the freed pages to the free list.
\<close>

section \<open>Stores\<close>

record store_sync =
  ss_bump :: u32
  ss_max_bump :: u32
  ss_free_list :: free_list

record page_store =
  ps_file :: bytes
  ps_sync :: store_sync

definition GROW_STORE_BY_PAGES :: nat where "GROW_STORE_BY_PAGES = 8192"

text \<open>\<open>Store::open\<close>.\<close>
definition page_store_open :: "bytes \<Rightarrow> u32 \<Rightarrow> u32 option \<Rightarrow> (unit + page_store) option" where
  "page_store_open fd bump free_list_head =
     map_option (\<lambda>r. case r of
         Inl e \<Rightarrow> Inl e
       | Inr fl \<Rightarrow> Inr \<lparr>ps_file = fd, ps_sync = \<lparr>ss_bump = bump, ss_max_bump = file_pages fd, ss_free_list = fl\<rparr>\<rparr>)
       (free_list_read fd free_list_head)"

text \<open>The page numbers of the metadata: \<open>FREELIST_EMPTY\<close> stands for no free list.\<close>
definition freelist_head :: "u32 \<Rightarrow> u32 option" where
  "freelist_head pn = (if pn \<noteq> FREELIST_EMPTY then Some pn else None)"

text \<open>\<open>Store::query\<close> panics when the page cannot be read.\<close>
definition store_query :: "bytes \<Rightarrow> u32 \<Rightarrow> bytes option" where
  "store_query fd pn = read_page fd (unat pn)"

section \<open>Allocating\<close>

record sync_allocator =
  sa_file :: bytes
  sa_sync :: store_sync
  sa_allocations :: nat
  sa_max_bump :: u32
  sa_set_len :: u32

definition start_sync :: "page_store \<Rightarrow> sync_allocator" where
  "start_sync st = \<lparr>sa_file = ps_file st, sa_sync = ps_sync st, sa_allocations = 0,
     sa_max_bump = ss_max_bump (ps_sync st), sa_set_len = ss_max_bump (ps_sync st)\<rparr>"

definition next_multiple_of :: "nat \<Rightarrow> nat \<Rightarrow> nat" where
  "next_multiple_of n k = (if n mod k = 0 then n else n + (k - n mod k))"

text \<open>\<open>grow\<close>: \<open>os\<close> tells which lengths the operating system grants; \<open>None\<close> is arithmetic overflow.\<close>
definition grow_store :: "(nat \<Rightarrow> bool) \<Rightarrow> bytes \<Rightarrow> u32 \<Rightarrow> (unit + (u32 \<times> bytes)) option" where
  "grow_store os fd pn = do {
     assert_that (unat pn + GROW_STORE_BY_PAGES < 2 ^ 32);
     let next_bump = next_multiple_of (unat pn + GROW_STORE_BY_PAGES - 1) GROW_STORE_BY_PAGES;
     assert_that (next_bump < 2 ^ 32);
     Some (if os (next_bump * PAGE_SIZE) then Inr (word_of_nat next_bump, set_len fd (next_bump * PAGE_SIZE))
           else Inl ()) }"

text \<open>\<open>allocate\<close> after it has drawn its allocation index.\<close>
definition allocate_at :: "(nat \<Rightarrow> bool) \<Rightarrow> sync_allocator \<Rightarrow> nat \<Rightarrow> ((unit + u32) \<times> sync_allocator) option" where
  "allocate_at os sa ix = do {
     fl \<leftarrow> as_clean (ss_free_list (sa_sync sa));
     if fl_len fl \<le> ix then
       (let n = unat (ss_bump (sa_sync sa)) + (ix - fl_len fl) mod 2 ^ 32; pn = word_of_nat n
        in if 2 ^ 32 \<le> n then None
           else if pn < sa_max_bump sa then Some (Inr pn, sa)
           else if pn < sa_set_len sa then Some (Inr pn, sa)
           else do {
             r \<leftarrow> grow_store os (sa_file sa) pn;
             Some (case r of
                     Inl e \<Rightarrow> (Inl e, sa)
                   | Inr (b, fd) \<Rightarrow> (Inr pn, sa\<lparr>sa_file := fd, sa_set_len := b, sa_max_bump := b\<rparr>)) })
     else do {
       pn \<leftarrow> get_nth_pop fl ix;
       Some (Inr pn, sa) } }"

definition allocate :: "(nat \<Rightarrow> bool) \<Rightarrow> sync_allocator \<Rightarrow> ((unit + u32) \<times> sync_allocator) option" where
  "allocate os sa = allocate_at os (sa\<lparr>sa_allocations := sa_allocations sa + 1\<rparr>) (sa_allocations sa)"

text \<open>
  Threads sharing the allocator: each draws its index from the atomic counter and looks its page up
  later, in any order; \<open>drawn\<close> are the indices that have no page yet, \<open>given\<close> the pages handed out.
\<close>
inductive alloc_reach :: "(nat \<Rightarrow> bool) \<Rightarrow> sync_allocator \<Rightarrow> sync_allocator \<Rightarrow> nat set \<Rightarrow> u32 list \<Rightarrow> bool"
  for os sa0 where
  start: "alloc_reach os sa0 sa0 {} []"
| draw: "alloc_reach os sa0 sa drawn given \<Longrightarrow>
    alloc_reach os sa0 (sa\<lparr>sa_allocations := sa_allocations sa + 1\<rparr>) (insert (sa_allocations sa) drawn) given"
| give: "alloc_reach os sa0 sa drawn given \<Longrightarrow> ix \<in> drawn \<Longrightarrow> allocate_at os sa ix = Some (Inr pn, sa') \<Longrightarrow>
    alloc_reach os sa0 sa' (drawn - {ix}) (given @ [pn])"

section \<open>Finishing\<close>

record sync_meta =
  sm_freelist_pn :: u32
  sm_bump :: u32

text \<open>\<open>SyncFinisher::finish\<close>, with the counters the dropped allocator sends over.\<close>
definition sync_finish :: "(nat \<Rightarrow> bool) \<Rightarrow> (u32 \<Rightarrow> bytes) \<Rightarrow> sync_allocator \<Rightarrow> u32 list \<Rightarrow>
    ((unit + (u32 \<times> bytes) list \<times> sync_meta) \<times> page_store) option" where
  "sync_finish os pool sa freed =
     (let ss = sa_sync sa; (discarded, fl) = fl_discard (ss_free_list ss) (sa_allocations sa) in do {
       bumps \<leftarrow> sub_checked (sa_allocations sa) discarded;
       assert_that (unat (ss_bump ss) + bumps mod 2 ^ 32 < 2 ^ 32);
       (pages, fl, next_bump) \<leftarrow> fl_commit pool fl freed (ss_bump ss + word_of_nat bumps);
       r \<leftarrow> (if sa_set_len sa < next_bump then grow_store os (sa_file sa) next_bump
             else Some (Inr (sa_set_len sa, sa_file sa)));
       Some (case r of
               Inl e \<Rightarrow> (Inl e, \<lparr>ps_file = sa_file sa, ps_sync = ss\<lparr>ss_free_list := fl\<rparr>\<rparr>)
             | Inr (max_bump, fd) \<Rightarrow>
                 (Inr (pages, \<lparr>sm_freelist_pn = (case head_pn fl of None \<Rightarrow> FREELIST_EMPTY | Some pn \<Rightarrow> pn),
                              sm_bump = next_bump\<rparr>),
                  \<lparr>ps_file = fd, ps_sync = \<lparr>ss_bump = next_bump, ss_max_bump = max_bump, ss_free_list = fl\<rparr>\<rparr>)) })"

end
