(* ===== verification/AllocatorFacts.thy ===== *)
theory AllocatorFacts
  imports PageAllocators
begin

text \<open>
  The page allocator accounts for every page of its file: across allocations from any number of
  threads and a finished sync, a page is in use or tracked by the free list, and never both; and
  until the metadata switches over, unpopped that is in use or in the old free list is overwritten.
\<close>

section \<open>Growing the file\<close>

lemma read_page_prefix: "read_page fd q = Some p \<Longrightarrow> prefix fd fd' \<Longrightarrow> read_page fd' q = Some p"
  by (auto simp: read_page_def prefix_def slice_of_def split: if_splits)

lemma decode_items_mono: "decode_items p m i n = Some xs \<Longrightarrow> m \<le> m' \<Longrightarrow> decode_items p m' i n = Some xs"
  by (induction n arbitrary: i xs) (auto split: Option.bind_splits if_splits simp: assert_that_def)

lemma decode_page_mono:
  assumes "decode_free_list_page p m = Some r" "m \<le> m'"
  shows "decode_free_list_page p m' = Some r"
proof -
  from assms(1) obtain prev n pns where r: "prev_pn p = Some prev" "item_count p = Some n"
    "decode_items p m 0 n = Some pns" "r = (prev, pns)"
    by (auto simp: decode_free_list_page_def split: Option.bind_splits)
  have "decode_items p m' 0 n = Some pns" by (rule decode_items_mono[OF r(3) assms(2)])
  then show ?thesis using r(1,2,4) by (simp add: decode_free_list_page_def)
qed

lemma chain_at_grow:
  assumes "chain_at fd m ps" "prefix fd fd'" "m \<le> m'"
  shows "chain_at fd' m' ps"
  unfolding chain_at_def
proof (intro allI impI conjI)
  fix j assume "j < length ps"
  with assms(1) obtain page where page: "fst (ps ! j) \<noteq> 0" "read_page fd (unat (fst (ps ! j))) = Some page"
    "decode_free_list_page page m = Some (prev_of ps j, snd (ps ! j))" unfolding chain_at_def by blast
  then show "fst (ps ! j) \<noteq> 0" by blast
  show "\<exists>page. read_page fd' (unat (fst (ps ! j))) = Some page \<and>
      decode_free_list_page page m' = Some (prev_of ps j, snd (ps ! j))"
    using read_page_prefix[OF page(2) assms(2)] decode_page_mono[OF page(3) assms(3)] by blast
qed

lemma set_len_prefix: "length fd \<le> n \<Longrightarrow> prefix fd (set_len fd n)"
  by (simp add: set_len_def)

lemma length_set_len [simp]: "length (set_len fd n) = n"
  by (simp add: set_len_def)

lemma next_multiple_of_bounds:
  assumes "0 < k"
  shows "n \<le> next_multiple_of n k" "next_multiple_of n k < n + k"
  using mod_less_divisor[OF assms, of n] by (auto simp: next_multiple_of_def)

lemma grow_store_SomeD:
  assumes "grow_store os fd pn = Some (Inr (b, fd'))"
  shows "unat pn < unat b" "fd' = set_len fd (unat b * PAGE_SIZE)"
proof -
  let ?b = "next_multiple_of (unat pn + GROW_STORE_BY_PAGES - 1) GROW_STORE_BY_PAGES"
  have b: "?b < 2 ^ 32" "b = word_of_nat ?b" "fd' = set_len fd (?b * PAGE_SIZE)"
    using assms by (auto simp: grow_store_def Let_def split: Option.bind_splits if_splits)
  then have "unat b = ?b" by (simp add: unat_of_nat)
  then show "unat pn < unat b" "fd' = set_len fd (unat b * PAGE_SIZE)"
    using b next_multiple_of_bounds(1)[of GROW_STORE_BY_PAGES "unat pn + GROW_STORE_BY_PAGES - 1"]
    by (auto simp: GROW_STORE_BY_PAGES_def)
qed

lemma grow_store_ok:
  assumes "unat pn + 2 * GROW_STORE_BY_PAGES < 2 ^ 32" "\<forall>n. os n"
  obtains b fd' where "grow_store os fd pn = Some (Inr (b, fd'))"
proof -
  have "next_multiple_of (unat pn + GROW_STORE_BY_PAGES - 1) GROW_STORE_BY_PAGES < 2 ^ 32"
    using next_multiple_of_bounds(2)[of GROW_STORE_BY_PAGES "unat pn + GROW_STORE_BY_PAGES - 1"] assms(1)
    by (simp add: GROW_STORE_BY_PAGES_def)
  then show thesis using that assms by (auto simp: grow_store_def Let_def GROW_STORE_BY_PAGES_def)
qed

text \<open>The file of a store and the number of its pages the store knows.\<close>
definition file_ok :: "bytes \<Rightarrow> u32 \<Rightarrow> bool" where
  "file_ok fd max_bump \<longleftrightarrow> unat max_bump = length fd div PAGE_SIZE"

lemma file_ok_pages: "file_ok fd b \<Longrightarrow> file_pages fd = b"
  unfolding file_ok_def file_pages_def by (metis of_nat_unat ucast_id)

lemma file_ok_in_file: "file_ok fd b \<Longrightarrow> pn < b \<Longrightarrow> in_file fd (unat pn)"
proof -
  assume "file_ok fd b" "pn < b"
  then have "Suc (unat pn) \<le> length fd div PAGE_SIZE" by (simp add: file_ok_def word_less_nat_alt)
  then have "Suc (unat pn) * PAGE_SIZE \<le> length fd div PAGE_SIZE * PAGE_SIZE" by (rule mult_le_mono1)
  also have "\<dots> \<le> length fd" by (rule div_times_less_eq_dividend)
  finally show "in_file fd (unat pn)" by (simp add: in_file_def)
qed

lemma grow_file_ok:
  assumes "grow_store os fd pn = Some (Inr (b, fd'))" "file_ok fd max_bump" "max_bump \<le> pn"
  shows "file_ok fd' b" "prefix fd fd'" "max_bump \<le> b" "pn < b"
proof -
  note b = grow_store_SomeD[OF assms(1)]
  show "pn < b" using b(1) by (simp add: word_less_nat_alt)
  then show "max_bump \<le> b" using assms(3) by simp
  show "file_ok fd' b" using b(2) by (simp add: file_ok_def PAGE_SIZE_def)
  have "Suc (length fd div PAGE_SIZE) \<le> unat b"
    using assms(2,3) b(1) by (simp add: file_ok_def word_le_nat_alt)
  then have "Suc (length fd div PAGE_SIZE) * PAGE_SIZE \<le> unat b * PAGE_SIZE" by (rule mult_le_mono1)
  then have "length fd \<le> unat b * PAGE_SIZE"
    using dividend_less_div_times[of PAGE_SIZE "length fd"] by (simp add: PAGE_SIZE_def)
  then show "prefix fd fd'" using b(2) set_len_prefix by simp
qed

section \<open>Page numbers from the end of the file\<close>

lemma set_bumped: "set (bumped b b') = {pn. b \<le> pn \<and> pn < b'}"
proof -
  have "pn \<in> set (bumped b b') \<longleftrightarrow> b \<le> pn \<and> pn < b'" for pn
  proof
    assume "pn \<in> set (bumped b b')"
    then obtain n where n: "pn = word_of_nat n" "unat b \<le> n" "n < unat b'" by (auto simp: bumped_def)
    then have "unat pn = n" using unsigned_less[of b', where ?'a = nat] by (simp add: unsigned_of_nat take_bit_nat_eq_self)
    then show "b \<le> pn \<and> pn < b'" using n by (simp add: word_le_nat_alt word_less_nat_alt)
  next
    assume "b \<le> pn \<and> pn < b'"
    then show "pn \<in> set (bumped b b')"
      by (auto simp: bumped_def word_le_nat_alt word_less_nat_alt intro!: image_eqI[of _ _ "unat pn"])
  qed
  then show ?thesis by blast
qed

lemma distinct_bumped [simp]: "distinct (bumped b b')"
  unfolding bumped_def distinct_map
proof (intro conjI inj_onI)
  fix x y assume xy: "x \<in> set [unat b..<unat b']" "y \<in> set [unat b..<unat b']" "word_of_nat x = (word_of_nat y :: u32)"
  then have "x < 2 ^ 32" "y < 2 ^ 32" using unsigned_less[of b', where ?'a = nat] by auto
  then show "x = y" using arg_cong[OF xy(3), of unat] by (simp add: unsigned_of_nat take_bit_nat_eq_self)
qed simp

lemma bumped_append:
  assumes "b \<le> b1" "b1 \<le> b2"
  shows "bumped b b2 = bumped b b1 @ bumped b1 b2"
proof -
  have "[unat b..<unat b2] = [unat b..<unat b1] @ [unat b1..<unat b2]"
    using assms upt_add_eq_append[of "unat b" "unat b1" "unat b2 - unat b1"] by (simp add: word_le_nat_alt)
  then show ?thesis by (simp add: bumped_def)
qed

section \<open>The invariant of a store\<close>

text \<open>\<open>live\<close> are the pages in use: with those the free list tracks they are exactly the pages below
  \<open>bump\<close>, page zero aside, each once.\<close>
definition store_ok :: "page_store \<Rightarrow> u32 set \<Rightarrow> bool" where
  "store_ok st live \<longleftrightarrow>
     clean_ok (ss_free_list (ps_sync st)) \<and> 0 < ss_bump (ps_sync st) \<and> ss_bump (ps_sync st) \<le> ss_max_bump (ps_sync st) \<and>
     file_ok (ps_file st) (ss_max_bump (ps_sync st)) \<and>
     chain_at (ps_file st) (ss_max_bump (ps_sync st)) (fl_portions (ss_free_list (ps_sync st))) \<and>
     tracked (fl_portions (ss_free_list (ps_sync st))) + mset_set live = mset (bumped 1 (ss_bump (ps_sync st)))"

lemma store_ok_page:
  assumes "store_ok st live" "pn \<in># tracked (fl_portions (ss_free_list (ps_sync st))) + mset_set live"
  shows "pn \<noteq> 0" "pn < ss_bump (ps_sync st)" "pn < ss_max_bump (ps_sync st)"
proof -
  have "pn \<in> set (bumped 1 (ss_bump (ps_sync st)))" using assms by (metis store_ok_def set_mset_mset)
  then show "pn \<noteq> 0" "pn < ss_bump (ps_sync st)" by (auto simp: set_bumped)
  then show "pn < ss_max_bump (ps_sync st)" using assms(1) by (auto simp: store_ok_def)
qed

lemma free_item_tracked: "pn \<in> set (free_items ps) \<Longrightarrow> pn \<in># tracked ps"
  by (simp add: tracked_def)

lemma chain_page_tracked: "pn \<in> set (map fst ps) \<Longrightarrow> pn \<in># tracked ps"
  by (simp add: tracked_def)


section \<open>Allocating\<close>

text \<open>The page of the allocation with the given index.\<close>
definition page_of :: "store_sync \<Rightarrow> nat \<Rightarrow> u32" where
  "page_of ss ix =
     (let items = free_items (fl_portions (ss_free_list ss)) in
      if ix < length items then rev items ! ix else word_of_nat (unat (ss_bump ss) + (ix - length items)))"

text \<open>What the threads have made of the allocator of a sync.\<close>
definition alloc_inv :: "sync_allocator \<Rightarrow> sync_allocator \<Rightarrow> nat set \<Rightarrow> u32 list \<Rightarrow> bool" where
  "alloc_inv sa0 sa drawn given \<longleftrightarrow>
     sa_sync sa = sa_sync sa0 \<and> sa_max_bump sa = sa_set_len sa \<and> file_ok (sa_file sa) (sa_set_len sa) \<and>
     prefix (sa_file sa0) (sa_file sa) \<and> sa_set_len sa0 \<le> sa_set_len sa \<and> drawn \<subseteq> {..<sa_allocations sa} \<and>
     (\<exists>ixs. given = map (page_of (sa_sync sa0)) ixs \<and> distinct ixs \<and> set ixs = {..<sa_allocations sa} - drawn) \<and>
     (\<forall>pn\<in>set given. pn < sa_set_len sa)"

text \<open>An allocation past the end of the free list.\<close>
lemma allocate_at_bump:
  assumes "clean_ok (ss_free_list (sa_sync sa))" "length (free_items (fl_portions (ss_free_list (sa_sync sa)))) \<le> ix"
    and "unat (ss_bump (sa_sync sa)) + ix < 2 ^ 32" "sa_max_bump sa = sa_set_len sa"
  shows "allocate_at os sa ix = (let q = page_of (sa_sync sa) ix in
     if q < sa_set_len sa then Some (Inr q, sa) else do {
        r \<leftarrow> grow_store os (sa_file sa) q;
        Some (case r of Inl e \<Rightarrow> (Inl e, sa)
          | Inr (b, fd) \<Rightarrow> (Inr q, sa\<lparr>sa_file := fd, sa_set_len := b, sa_max_bump := b\<rparr>)) })"
proof -
  let ?ss = "sa_sync sa" and ?items = "free_items (fl_portions (ss_free_list (sa_sync sa)))"
  define n where "n = unat (ss_bump ?ss) + (ix - length ?items)"
  have n: "n < 2 ^ 32" "unat (ss_bump ?ss) + (ix - length ?items) mod 2 ^ 32 = n" using assms(2,3) by (auto simp: n_def)
  have pg: "page_of ?ss ix = word_of_nat n" using assms(2) by (simp add: page_of_def Let_def n_def)
  have clean: "fl_len (ss_free_list ?ss) = length ?items" "\<not> fl_pop (ss_free_list ?ss)"
    using assms(1) len_and_fragmented_ok[of "fl_portions (ss_free_list ?ss)"] by (auto simp: clean_ok_def)
  show ?thesis unfolding pg Let_def using assms(2,4) clean n by (simp add: allocate_at_def as_clean_def Let_def)
qed

lemma allocate_at_item:
  assumes "clean_ok (ss_free_list (sa_sync sa))" "ix < length (free_items (fl_portions (ss_free_list (sa_sync sa))))"
  shows "allocate_at os sa ix = Some (Inr (page_of (sa_sync sa) ix), sa)"
    "page_of (sa_sync sa) ix \<in> set (free_items (fl_portions (ss_free_list (sa_sync sa))))"
proof -
  let ?fl = "ss_free_list (sa_sync sa)" and ?items = "free_items (fl_portions (ss_free_list (sa_sync sa)))"
  have clean: "fl_len ?fl = length ?items" "\<not> fl_pop ?fl"
    using assms(1) len_and_fragmented_ok[of "fl_portions ?fl"] by (auto simp: clean_ok_def)
  have pg: "page_of (sa_sync sa) ix = rev ?items ! ix" using assms(2) by (simp add: page_of_def Let_def)
  have "get_nth_pop ?fl ix = Some (rev ?items ! ix)" using assms clean by (intro get_nth_pop_ok) auto
  then show "allocate_at os sa ix = Some (Inr (page_of (sa_sync sa) ix), sa)"
    using assms(2) clean pg by (simp add: allocate_at_def as_clean_def)
  show "page_of (sa_sync sa) ix \<in> set ?items" using assms(2) unfolding pg by (metis length_rev nth_mem set_rev)
qed

lemma allocate_at_ok:
  assumes "store_ok st live" "alloc_inv (start_sync st) sa drawn given" "ix \<in> drawn"
    and "unat (ss_bump (ps_sync st)) + sa_allocations sa < 2 ^ 32" "allocate_at os sa ix = Some (Inr pn, sa')"
  shows "alloc_inv (start_sync st) sa' (drawn - {ix}) (given @ [pn]) \<and> sa_allocations sa' = sa_allocations sa"
proof -
  let ?ss = "ps_sync st" and ?items = "free_items (fl_portions (ss_free_list (ps_sync st)))"
  have inv: "sa_sync sa = ?ss" "sa_max_bump sa = sa_set_len sa" "file_ok (sa_file sa) (sa_set_len sa)"
    "prefix (ps_file st) (sa_file sa)" "ss_max_bump ?ss \<le> sa_set_len sa" "drawn \<subseteq> {..<sa_allocations sa}"
    "\<forall>pn\<in>set given. pn < sa_set_len sa"
    using assms(2) by (auto simp: alloc_inv_def start_sync_def)
  obtain ixs where ixs: "given = map (page_of ?ss) ixs" "distinct ixs" "set ixs = {..<sa_allocations sa} - drawn"
    using assms(2) by (auto simp: alloc_inv_def start_sync_def)
  have clean: "clean_ok (ss_free_list (sa_sync sa))" using assms(1) inv(1) by (simp add: store_ok_def)
  have "ix < sa_allocations sa" using assms(3) inv(6) by auto
  then have ix: "unat (ss_bump (sa_sync sa)) + ix < 2 ^ 32" using assms(4) inv(1) by simp
  have "pn = page_of ?ss ix \<and> sa_sync sa' = sa_sync sa \<and> sa_max_bump sa' = sa_set_len sa' \<and> file_ok (sa_file sa') (sa_set_len sa') \<and>
    prefix (sa_file sa) (sa_file sa') \<and> sa_set_len sa \<le> sa_set_len sa' \<and> pn < sa_set_len sa' \<and> sa_allocations sa' = sa_allocations sa"
  proof (cases "length ?items \<le> ix")
    case True
    let ?q = "page_of ?ss ix"
    from assms(5) allocate_at_bump[OF clean _ ix inv(2), of os] True inv(1)
    consider "?q < sa_set_len sa" "pn = ?q" "sa' = sa"
      | b fd' where "\<not> ?q < sa_set_len sa" "grow_store os (sa_file sa) ?q = Some (Inr (b, fd'))" "pn = ?q"
          "sa' = sa\<lparr>sa_file := fd', sa_set_len := b, sa_max_bump := b\<rparr>"
      by (auto simp: Let_def split: Option.bind_splits if_splits sum.splits)
    then show ?thesis
    proof cases
      case 1
      then show ?thesis using inv by simp
    next
      case (2 b fd')
      show ?thesis using grow_file_ok[OF 2(2) inv(3)] 2 by simp
    qed
  next
    case False
    then have pn: "pn = page_of ?ss ix" "sa' = sa" "pn \<in> set ?items"
      using allocate_at_item(1)[OF clean, of ix os] allocate_at_item(2)[OF clean, of ix] assms(5) inv(1) by auto
    have "pn < ss_max_bump ?ss" using pn(3) free_item_tracked store_ok_page(3)[OF assms(1)] by simp
    then show ?thesis using pn inv by auto
  qed
  moreover have "drawn - {ix} \<subseteq> {..<sa_allocations sa}" using inv(6) by auto
  moreover have "distinct (ixs @ [ix])" "set (ixs @ [ix]) = {..<sa_allocations sa} - (drawn - {ix})"
    using ixs assms(3) inv(6) by auto
  ultimately show ?thesis unfolding alloc_inv_def
    using inv(1,4,5,7) ixs(1) by (auto simp: start_sync_def intro!: exI[of _ "ixs @ [ix]"] elim: prefix_order.trans order.strict_trans2)
qed

lemma allocate_at_succeeds:
  assumes "store_ok st live" "alloc_inv (start_sync st) sa drawn given" "ix \<in> drawn" "\<forall>n. os n"
    and "unat (ss_bump (ps_sync st)) + sa_allocations sa + 2 * GROW_STORE_BY_PAGES < 2 ^ 32"
  shows "\<exists>pn sa'. allocate_at os sa ix = Some (Inr pn, sa')"
proof -
  let ?items = "free_items (fl_portions (ss_free_list (sa_sync sa)))"
  have inv: "sa_sync sa = ps_sync st" "sa_max_bump sa = sa_set_len sa" "ix < sa_allocations sa"
    using assms(2,3) by (auto simp: alloc_inv_def start_sync_def)
  have clean: "clean_ok (ss_free_list (sa_sync sa))" using assms(1) inv(1) by (simp add: store_ok_def)
  have ix: "unat (ss_bump (sa_sync sa)) + ix < 2 ^ 32" using assms(5) inv by simp
  show ?thesis
  proof (cases "length ?items \<le> ix")
    case True
    have "page_of (sa_sync sa) ix = word_of_nat (unat (ss_bump (sa_sync sa)) + (ix - length ?items))"
      using True by (simp add: page_of_def Let_def)
    moreover have "unat (ss_bump (sa_sync sa)) + (ix - length ?items) + 2 * GROW_STORE_BY_PAGES < 2 ^ 32"
      using assms(5) inv by simp
    ultimately have "unat (page_of (sa_sync sa) ix) + 2 * GROW_STORE_BY_PAGES < 2 ^ 32"
      by (simp add: unsigned_of_nat take_bit_nat_eq_self del: of_nat_add)
    from grow_store_ok[OF this assms(4), of "sa_file sa"] obtain b fd'
      where "grow_store os (sa_file sa) (page_of (sa_sync sa) ix) = Some (Inr (b, fd'))" .
    then show ?thesis using allocate_at_bump[OF clean True ix inv(2), of os] by (simp add: Let_def)
  next
    case False
    then show ?thesis using allocate_at_item(1)[OF clean] by simp
  qed
qed

lemma alloc_reach_inv:
  assumes "alloc_reach os (start_sync st) sa drawn given" "store_ok st live"
    and "unat (ss_bump (ps_sync st)) + sa_allocations sa < 2 ^ 32"
  shows "alloc_inv (start_sync st) sa drawn given"
  using assms(1,3)
proof (induction rule: alloc_reach.induct)
  case start
  then show ?case using assms(2) by (auto simp: alloc_inv_def start_sync_def store_ok_def)
next
  case (draw sa drawn given)
  then have inv: "alloc_inv (start_sync st) sa drawn given" by simp
  have "{..<sa_allocations sa + 1} - insert (sa_allocations sa) drawn = {..<sa_allocations sa} - drawn" by auto
  then show ?case using inv unfolding alloc_inv_def by auto
next
  case (give sa drawn given ix pn sa')
  have same: "sa_allocations sa' = sa_allocations sa"
    using give.hyps(3) by (auto simp: allocate_at_def Let_def split: Option.bind_splits if_splits sum.splits)
  then have "alloc_inv (start_sync st) sa drawn given" using give by simp
  then show ?case using allocate_at_ok[OF assms(2) _ give.hyps(2) _ give.hyps(3)] give.prems same by simp
qed

text \<open>With no index left to be served, the pages given are the ones the free list discards and those
  bumped.\<close>
lemma pages_given:
  assumes "alloc_inv (start_sync st) sa {} given" "unat (ss_bump (ps_sync st)) + sa_allocations sa < 2 ^ 32"
  defines "items \<equiv> free_items (fl_portions (ss_free_list (ps_sync st)))"
  defines "k \<equiv> min (sa_allocations sa) (length items)"
  shows "mset given = mset (drop (length items - k) items) +
    mset (bumped (ss_bump (ps_sync st)) (ss_bump (ps_sync st) + word_of_nat (sa_allocations sa - k)))"
proof -
  let ?b = "ss_bump (ps_sync st)" and ?n = "sa_allocations sa"
  obtain ixs where ixs: "given = map (page_of (ps_sync st)) ixs" "distinct ixs" "set ixs = {..<?n}"
    using assms(1) by (auto simp: alloc_inv_def start_sync_def)
  have "mset ixs = mset [0..<?n]" 
    using set_eq_iff_mset_eq_distinct[OF ixs(2) distinct_upt, of 0 ?n] ixs(3) by (simp only: set_upt atLeast0LessThan simp_thms)
  also have "[0..<?n] = [0..<k] @ [k..<?n]" using upt_add_eq_append[of 0 k "?n - k"] by (simp add: k_def)
  finally have given: "mset given = mset (map (page_of (ps_sync st)) [0..<k]) + mset (map (page_of (ps_sync st)) [k..<?n])"
    by (simp only: ixs(1) mset_map mset_append image_mset_union)
  have "map (page_of (ps_sync st)) [0..<k] = take k (rev items)"
    by (intro nth_equalityI) (auto simp: page_of_def Let_def k_def items_def)
  then have one: "mset (map (page_of (ps_sync st)) [0..<k]) = mset (drop (length items - k) items)"
    by (simp add: take_rev)
  have un: "unat (?b + word_of_nat (?n - k)) = unat ?b + (?n - k)"
    using assms(2) by (simp add: unat_word_ariths(1) unsigned_of_nat take_bit_nat_eq_self)
  have "map (page_of (ps_sync st)) [k..<?n] = bumped ?b (?b + word_of_nat (?n - k))"
    unfolding bumped_def un by (intro nth_equalityI) (auto simp: page_of_def Let_def k_def items_def)
  then show ?thesis using given one by simp
qed


section \<open>Finishing\<close>

lemma fl_discard_nothing:
  assumes "portions_ok (fl_portions fl)" "min n (length (free_items (fl_portions fl))) = 0"
  shows "fl_discard fl n = (0, fl)"
proof (cases "n = 0")
  case True
  then show ?thesis by (subst fl_discard_def, subst discard_loop.simps) simp
next
  case False
  then have "free_items (fl_portions fl) = []" using assms(2) by (simp add: min_def split: if_splits)
  with assms(1) have "fl_portions fl = []" using PNS_ge by (cases rule: portions_ok_cases) auto
  then show ?thesis using False by (subst fl_discard_def, subst discard_loop.simps) simp
qed

lemma count_distinct: "A \<subseteq># mset D \<Longrightarrow> distinct D \<Longrightarrow> count A x \<le> 1"
  using mset_subset_eq_count[of A "mset D" x] by (auto simp: distinct_count_atmost_1 split: if_splits)

lemma distinct_sub:
  assumes "mset xs \<subseteq># mset D" "distinct D"
  shows "distinct xs"
  unfolding distinct_count_atmost_1
proof
  fix x
  show "count (mset xs) x = (if x \<in> set xs then 1 else 0)"
  proof (cases "x \<in> set xs")
    case True
    then have "0 < count (mset xs) x" by (simp add: count_greater_zero_iff)
    then have "count (mset xs) x = 1" using count_distinct[OF assms, of x] by linarith
    then show ?thesis using True by simp
  qed (simp add: count_eq_zero_iff)
qed

lemma disjoint_parts:
  assumes "A + B \<subseteq># mset D" "distinct D"
  shows "set_mset A \<inter> set_mset B = {}"
proof -
  have "False" if "x \<in># A" "x \<in># B" for x
  proof -
    have "0 < count A x" "0 < count B x" using that by (simp_all add: count_greater_zero_iff)
    moreover have "count A x + count B x \<le> 1" using count_distinct[OF assms, of x] by simp
    ultimately show False by linarith
  qed
  then show ?thesis by blast
qed

text \<open>What the discarded and committed free list of a finished sync tracks and writes.\<close>
definition sync_commits :: "(u32 \<Rightarrow> bytes) \<Rightarrow> page_store \<Rightarrow> u32 list \<Rightarrow> u32 list \<Rightarrow> u32 \<Rightarrow> free_list \<Rightarrow>
    (u32 \<times> bytes) list \<Rightarrow> free_list \<Rightarrow> u32 \<Rightarrow> bool" where
  "sync_commits pool st given freed b1 fl1 pages fl' b' \<longleftrightarrow>
     clean_ok fl' \<and> ss_bump (ps_sync st) \<le> b1 \<and> b1 \<le> b' \<and>
     set given \<subseteq> set (free_items (fl_portions (ss_free_list (ps_sync st)))) \<union> set (bumped (ss_bump (ps_sync st)) b1) \<and>
     set (free_items (fl_portions fl1)) \<subseteq> set (free_items (fl_portions (ss_free_list (ps_sync st)))) \<and>
     tracked (fl_portions (ss_free_list (ps_sync st))) + mset (bumped (ss_bump (ps_sync st)) b1) =
       tracked (fl_portions fl1) + mset (fl_released fl1) + mset given \<and>
     tracked (fl_portions fl') = tracked (fl_portions fl1) + mset (fl_released fl1) + mset freed + mset (bumped b1 b') \<and>
     continues pool (fl_portions (ss_free_list (ps_sync st))) (set (free_items (fl_portions fl1)) \<union> set (bumped b1 b'))
       (fl_portions fl') pages"

lemma sync_commits_ok:
  assumes "store_ok st live" "alloc_inv (start_sync st) sa {} given" "\<forall>pn. length (pool pn) = PAGE_SIZE"
    and bound: "unat (ss_bump (ps_sync st)) + sa_allocations sa + length freed +
      length (fl_portions (ss_free_list (ps_sync st))) + 2 < 2 ^ 32"
  obtains k fl1 pages fl' b1 b' where
    "fl_discard (ss_free_list (ps_sync st)) (sa_allocations sa) = (k, fl1)" "k \<le> sa_allocations sa"
    "b1 = ss_bump (ps_sync st) + word_of_nat (sa_allocations sa - k)"
    "fl_commit pool fl1 freed b1 = Some (pages, fl', b')"
    "sync_commits pool st given freed b1 fl1 pages fl' b'"
    "unat b' \<le> unat (ss_bump (ps_sync st)) + sa_allocations sa + length freed + length (fl_portions (ss_free_list (ps_sync st))) + 2"
proof -
  let ?fl = "ss_free_list (ps_sync st)" and ?b = "ss_bump (ps_sync st)" and ?n = "sa_allocations sa"
  let ?items = "free_items (fl_portions ?fl)"
  define k where "k = min ?n (length ?items)"
  define b1 where "b1 = ?b + word_of_nat (?n - k)"
  have clean: "clean_ok ?fl" "portions_ok (fl_portions ?fl)" "\<not> fl_pop ?fl" "fl_released ?fl = []"
    using assms(1) by (auto simp: store_ok_def clean_ok_def)
  obtain fl1 where fl1: "fl_discard ?fl ?n = (k, fl1)" "discarded_by k ?fl fl1"
    using fl_discard_ok[OF clean(2)] unfolding k_def by metis
  have unpopped: "fl1 = ?fl" if "\<not> fl_pop fl1"
  proof -
    have "k = 0" using that fl1(2) by (auto simp: discarded_by_def Let_def)
    then show ?thesis using fl_discard_nothing[OF clean(2)] fl1(1) by (simp add: k_def)
  qed
  have d: "portions_ok (fl_portions fl1)" "prefix (butlast (fl_portions fl1)) (fl_portions ?fl)"
    "tracked (fl_portions ?fl) = tracked (fl_portions fl1) + mset (fl_released fl1) + mset (drop (length ?items - k) ?items)"
    using fl1(2) clean(4) by (auto simp: discarded_by_def Let_def)
  have left: "free_items (fl_portions fl1) = take (length ?items - k) ?items" using fl1(2) by (simp add: discarded_by_def Let_def)
  then have rel: "length (fl_portions ?fl) = length (fl_portions fl1) + length (fl_released fl1)"
    using arg_cong[OF d(3), of size] by (simp add: tracked_def k_def)
  have un: "unat b1 = unat ?b + (?n - k)"
    using bound by (simp add: b1_def unat_word_ariths(1) unsigned_of_nat take_bit_nat_eq_self)
  have "\<not> fl_pop fl1 \<longrightarrow> clean_ok fl1" using unpopped clean(1) by metis
  moreover have "unat b1 + length freed + length (fl_released fl1) + 2 < 2 ^ 32" using un rel bound by linarith
  ultimately obtain pages fl' b' where c: "fl_commit pool fl1 freed b1 = Some (pages, fl', b')" "committed pool fl1 freed b1 pages fl' b'"
    using fl_commit_ok[OF d(1) assms(3)] by blast
  have "continues pool (fl_portions ?fl) (set (free_items (fl_portions fl1)) \<union> set (bumped b1 b')) (fl_portions fl') pages"
  proof (rule rewritten_continues[OF _ d(2)])
    show "rewritten pool (fl_portions fl1) (set (free_items (fl_portions fl1)) \<union> set (bumped b1 b')) (fl_portions fl') pages"
      using c(2) by (simp add: committed_def)
    show "fl_portions fl' = fl_portions fl1 \<and> pages = [] \<longrightarrow> fl_portions fl1 = fl_portions ?fl"
    proof (intro impI, elim conjE)
      assume same: "fl_portions fl' = fl_portions fl1" "pages = []"
      then have "fl_portions fl' = [] \<or> fl1 = ?fl" using c(2) unpopped by (auto simp: committed_def)
      moreover have "fl_released fl1 = []" using c(2) same(1) by (auto simp: committed_def)
      ultimately show "fl_portions fl1 = fl_portions ?fl" using same(1) rel by auto
    qed
  qed
  moreover have given: "mset given = mset (drop (length ?items - k) ?items) + mset (bumped ?b b1)"
    unfolding b1_def k_def using pages_given[OF assms(2)] bound by simp
  moreover have "set given \<subseteq> set ?items \<union> set (bumped ?b b1)" "set (free_items (fl_portions fl1)) \<subseteq> set ?items"
    using arg_cong[OF given, of set_mset] left set_drop_subset set_take_subset by fastforce+
  ultimately have "sync_commits pool st given freed b1 fl1 pages fl' b'"
    using c(2) d(3) un by (simp add: sync_commits_def committed_def word_le_nat_alt)
  moreover have "unat b' \<le> unat ?b + ?n + length freed + length (fl_portions ?fl) + 2"
  proof -
    have "unat b' \<le> unat b1 + length freed + length (fl_released fl1) + 2" using c(2) by (simp add: committed_def)
    then show ?thesis using un rel by linarith
  qed
  moreover have "k \<le> ?n" by (simp add: k_def)
  ultimately show thesis using that fl1(1) b1_def c(1) by blast
qed

text \<open>Where the pages of the store are after a sync.\<close>
lemma sync_pages:
  assumes "store_ok st live" "sync_commits pool st given freed b1 fl1 pages fl' b'" "distinct freed" "set freed \<subseteq> live"
  shows "tracked (fl_portions fl') + mset given + mset_set (live - set freed) = mset (bumped 1 b')"
    "distinct given" "set given \<inter> live = {}" "set given \<inter> set (map fst (fl_portions (ss_free_list (ps_sync st)))) = {}"
    "(set (free_items (fl_portions fl1)) \<union> set (bumped b1 b')) \<inter> (live \<union> set (map fst (fl_portions (ss_free_list (ps_sync st))))) = {}"
proof -
  let ?ps = "fl_portions (ss_free_list (ps_sync st))" and ?b = "ss_bump (ps_sync st)"
  have sc: "?b \<le> b1" "b1 \<le> b'" "set given \<subseteq> set (free_items ?ps) \<union> set (bumped ?b b1)"
    "set (free_items (fl_portions fl1)) \<subseteq> set (free_items ?ps)"
    "tracked ?ps + mset (bumped ?b b1) = tracked (fl_portions fl1) + mset (fl_released fl1) + mset given"
    "tracked (fl_portions fl') = tracked (fl_portions fl1) + mset (fl_released fl1) + mset freed + mset (bumped b1 b')"
    using assms(2) by (simp_all add: sync_commits_def)
  have ok: "tracked ?ps + mset_set live = mset (bumped 1 ?b)" "1 \<le> ?b"
    using assms(1) by (auto simp: store_ok_def word_le_nat_alt word_less_nat_alt)
  have b: "bumped 1 b1 = bumped 1 ?b @ bumped ?b b1" "bumped 1 b' = bumped 1 b1 @ bumped b1 b'"
    using ok(2) sc(1,2) by (auto intro!: bumped_append)
  have all: "tracked (fl_portions fl1) + mset (fl_released fl1) + mset given + mset_set live = mset (bumped 1 b1)"
    using sc(5) ok(1) unfolding b(1) by (simp add: algebra_simps flip: ok(1))
  have "live = (live - set freed) \<union> set freed" "(live - set freed) \<inter> set freed = {}" using assms(4) by auto
  then have "mset_set live = mset_set (live - set freed) + mset freed"
    using mset_set_Union[of "live - set freed" "set freed"] assms(3) by (simp add: mset_set_set)
  then show "tracked (fl_portions fl') + mset given + mset_set (live - set freed) = mset (bumped 1 b')"
    unfolding sc(6) b(2) using all by (simp add: algebra_simps flip: all)
  have sub: "mset given + mset_set live \<subseteq># mset (bumped 1 b1)" unfolding all[symmetric] by (simp add: ac_simps)
  show "distinct given"
    using sub by (intro distinct_sub[of given "bumped 1 b1"]) (auto intro: subset_mset.order_trans mset_subset_eq_add_left)
  show "set given \<inter> live = {}" using disjoint_parts[OF sub] by simp
  have "mset (map fst ?ps) + mset (free_items ?ps) + mset_set live \<subseteq># mset (bumped 1 ?b)"
    unfolding ok(1)[symmetric] by (simp add: tracked_def)
  from disjoint_parts[OF this] have disj: "set (free_items ?ps) \<inter> live = {}" by auto
  have "mset (map fst ?ps) + mset (free_items ?ps) \<subseteq># mset (bumped 1 ?b)"
    unfolding ok(1)[symmetric] by (simp add: tracked_def)
  from disjoint_parts[OF this] have disj2: "set (map fst ?ps) \<inter> set (free_items ?ps) = {}" by simp
  have small: "pn < ?b" if "pn \<in> live \<union> set (map fst ?ps)" for pn
    using that store_ok_page(2)[OF assms(1), of pn] chain_page_tracked[of pn ?ps] by auto
  have high: "\<not> pn < ?b" if "pn \<in> set (bumped ?b b1) \<union> set (bumped b1 b')" for pn
    using that sc(1) by (auto simp: set_bumped)
  have "False" if "pn \<in> set given" "pn \<in> set (map fst ?ps)" for pn
    using that(1) subsetD[OF sc(3) that(1)] disj2 small[of pn] high[of pn] that(2) by blast
  then show "set given \<inter> set (map fst ?ps) = {}" by blast
  have "False" if "pn \<in> set (free_items (fl_portions fl1)) \<union> set (bumped b1 b')" "pn \<in> live \<union> set (map fst ?ps)" for pn
    using that(1) subsetD[OF sc(4), of pn] disj disj2 small[OF that(2)] high[of pn] that(2) by blast
  then show "(set (free_items (fl_portions fl1)) \<union> set (bumped b1 b')) \<inter> (live \<union> set (map fst ?ps)) = {}" by blast
qed


section \<open>A sync of the store\<close>

definition meta_of :: "store_sync \<Rightarrow> sync_meta" where
  "meta_of ss = \<lparr>sm_freelist_pn = (case head_pn (ss_free_list ss) of None \<Rightarrow> FREELIST_EMPTY | Some pn \<Rightarrow> pn), sm_bump = ss_bump ss\<rparr>"

text \<open>Opening the store with the metadata of a sync.\<close>
definition reopen :: "bytes \<Rightarrow> sync_meta \<Rightarrow> (unit + page_store) option" where
  "reopen fd meta = page_store_open fd (sm_bump meta) (freelist_head (sm_freelist_pn meta))"

lemma reopen_ok:
  assumes "clean_ok (ss_free_list ss)" "file_ok fd (ss_max_bump ss)" "chain_at fd (ss_max_bump ss) (fl_portions (ss_free_list ss))"
  shows "reopen fd (meta_of ss) = Some (Inr \<lparr>ps_file = fd, ps_sync = ss\<rparr>)"
proof -
  let ?fl = "ss_free_list ss"
  have "freelist_head (sm_freelist_pn (meta_of ss)) = head_pn ?fl"
  proof (cases "fl_portions ?fl" rule: rev_cases)
    case (snoc ps p)
    then have "fst p \<noteq> 0" using assms(3) unfolding chain_at_def by (metis length_append_singleton lessI nth_append_length)
    then show ?thesis using snoc by (simp add: freelist_head_def meta_of_def head_pn_def FREELIST_EMPTY_def)
  qed (simp add: freelist_head_def meta_of_def head_pn_def)
  then show ?thesis using free_list_read_chain[of fd ?fl] assms file_ok_pages[OF assms(2)]
    by (cases ss) (simp add: reopen_def page_store_open_def meta_of_def)
qed

lemma finish_file:
  assumes "alloc_inv (start_sync st) sa drawn given" "unat b' + 2 * GROW_STORE_BY_PAGES < 2 ^ 32" "\<forall>n. os n"
  obtains m fd where
    "(if sa_set_len sa < b' then grow_store os (sa_file sa) b' else Some (Inr (sa_set_len sa, sa_file sa))) = Some (Inr (m, fd))"
    "file_ok fd m" "prefix (ps_file st) fd" "ss_max_bump (ps_sync st) \<le> m" "b' \<le> m" "\<forall>pn\<in>set given. pn < m"
proof -
  have inv: "file_ok (sa_file sa) (sa_set_len sa)" "prefix (ps_file st) (sa_file sa)"
    "ss_max_bump (ps_sync st) \<le> sa_set_len sa" "\<forall>pn\<in>set given. pn < sa_set_len sa"
    using assms(1) by (auto simp: alloc_inv_def start_sync_def)
  show thesis
  proof (cases "sa_set_len sa < b'")
    case True
    obtain m fd where g: "grow_store os (sa_file sa) b' = Some (Inr (m, fd))" by (rule grow_store_ok[OF assms(2,3)])
    note grown = grow_file_ok[OF g inv(1) order.strict_implies_order[OF True]]
    have "sa_set_len sa \<le> m" "b' \<le> m" using grown(3,4) by simp_all
    moreover from this have "ss_max_bump (ps_sync st) \<le> m" "\<forall>pn\<in>set given. pn < m" using inv(3,4) by auto
    ultimately show thesis using that[of m fd] g grown(1) prefix_order.trans[OF inv(2) grown(2)] True by simp
  qed (use that inv in auto)
qed

text \<open>The writes of a sync: the pages of the new free list and data to the pages given.\<close>
lemma sync_writes_fit:
  assumes "continues pool disk fresh ps' pages" "\<forall>pn. length (pool pn) = PAGE_SIZE" "portions_ok ps'"
    and "\<forall>pn\<in>set (free_items ps') \<union> set (map fst ps'). pn < m" "file_ok fd m"
    and "\<forall>(pn, page)\<in>data. pn < m \<and> length page = PAGE_SIZE" "set ws \<subseteq> set pages \<union> data"
  shows "pages_fit fd data" "\<forall>pn\<in>set (map fst ps'). in_file fd (unat pn)" "file_ok (write_pages ws fd) m"
    "pn \<notin> set (map fst disk) \<union> fresh \<union> fst ` data \<Longrightarrow> store_query (write_pages ws fd) pn = store_query fd pn"
proof -
  show data: "pages_fit fd data" using assms(6) file_ok_in_file[OF assms(5)] by (auto simp: pages_fit_def)
  show inf: "\<forall>pn\<in>set (map fst ps'). in_file fd (unat pn)" using assms(4) file_ok_in_file[OF assms(5)] by auto
  have "pages_fit fd (set pages)" using assms(4) inf by (intro continues_fit[OF assms(1-3), of m]) auto
  then have fit: "pages_fit fd (set pages \<union> data)" using data by (auto simp: pages_fit_def)
  then have "pages_fit fd (set ws)" using assms(7) by (auto simp: pages_fit_def)
  then show "file_ok (write_pages ws fd) m" using assms(5) write_pages_length[of fd ws] by (simp add: file_ok_def)
  assume pn: "pn \<notin> set (map fst disk) \<union> fresh \<union> fst ` data"
  have "fst ` set pages \<subseteq> set (map fst disk) \<union> fresh" by (rule continues_numbers[OF assms(1)])
  then show "store_query (write_pages ws fd) pn = store_query fd pn"
    using read_write_some[OF fit assms(7), of pn] pn by (force simp: store_query_def image_iff)
qed

text \<open>A finished sync: the file it may have grown, the free list and the pages to write.\<close>
definition sync_done :: "(u32 \<Rightarrow> bytes) \<Rightarrow> page_store \<Rightarrow> u32 list \<Rightarrow> u32 list \<Rightarrow> (u32 \<times> bytes) list \<Rightarrow> page_store \<Rightarrow> bool" where
  "sync_done pool st given freed pages st' \<longleftrightarrow>
     file_ok (ps_file st') (ss_max_bump (ps_sync st')) \<and> prefix (ps_file st) (ps_file st') \<and>
     ss_max_bump (ps_sync st) \<le> ss_max_bump (ps_sync st') \<and> ss_bump (ps_sync st') \<le> ss_max_bump (ps_sync st') \<and>
     (\<forall>pn\<in>set given. pn < ss_max_bump (ps_sync st')) \<and>
     (\<exists>b1 fl1. sync_commits pool st given freed b1 fl1 pages (ss_free_list (ps_sync st')) (ss_bump (ps_sync st')))"

lemma sync_finishes:
  assumes "store_ok st live" "alloc_reach os (start_sync st) sa {} given" "\<forall>n. os n" "\<forall>pn. length (pool pn) = PAGE_SIZE"
    and bound: "unat (ss_bump (ps_sync st)) + sa_allocations sa + length freed +
      length (fl_portions (ss_free_list (ps_sync st))) + 2 + 2 * GROW_STORE_BY_PAGES < 2 ^ 32"
  obtains pages st' where "sync_finish os pool sa freed = Some (Inr (pages, meta_of (ps_sync st')), st')"
    "sync_done pool st given freed pages st'"
proof -
  let ?ss = "ps_sync st" and ?ps = "fl_portions (ss_free_list (ps_sync st))" and ?n = "sa_allocations sa"
  have inv: "alloc_inv (start_sync st) sa {} given" by (rule alloc_reach_inv[OF assms(2,1)]) (use bound in linarith)
  have "unat (ss_bump ?ss) + ?n + length freed + length ?ps + 2 < 2 ^ 32" using bound by linarith
  then obtain k fl1 pages fl' b1 b' where
    disc: "fl_discard (ss_free_list ?ss) ?n = (k, fl1)" "k \<le> ?n" "b1 = ss_bump ?ss + word_of_nat (?n - k)"
    and com: "fl_commit pool fl1 freed b1 = Some (pages, fl', b')" and sc: "sync_commits pool st given freed b1 fl1 pages fl' b'"
    and bb: "unat b' \<le> unat (ss_bump ?ss) + ?n + length freed + length ?ps + 2"
    by (rule sync_commits_ok[OF assms(1) inv assms(4)])
  have "unat b' + 2 * GROW_STORE_BY_PAGES < 2 ^ 32" using bb bound by linarith
  then obtain m fd where
    grow: "(if sa_set_len sa < b' then grow_store os (sa_file sa) b' else Some (Inr (sa_set_len sa, sa_file sa))) = Some (Inr (m, fd))"
    and fd: "file_ok fd m" "prefix (ps_file st) fd" "ss_max_bump ?ss \<le> m" "b' \<le> m" "\<forall>pn\<in>set given. pn < m"
    by (rule finish_file[OF inv _ assms(3)])
  let ?st = "\<lparr>ps_file = fd, ps_sync = \<lparr>ss_bump = b', ss_max_bump = m, ss_free_list = fl'\<rparr>\<rparr>"
  have "sa_sync sa = ?ss" using inv by (simp add: alloc_inv_def start_sync_def)
  moreover have "sub_checked ?n k = Some (?n - k)" using disc(2) by (simp add: sub_checked_def)
  moreover have "unat (ss_bump ?ss) + (?n - k) mod 2 ^ 32 < 2 ^ 32" using bound by simp
  ultimately have "sync_finish os pool sa freed = Some (Inr (pages, meta_of (ps_sync ?st)), ?st)"
    using disc(1) com[unfolded disc(3)] grow by (simp add: sync_finish_def meta_of_def Let_def)
  moreover have "sync_done pool st given freed pages ?st" using fd sc by (auto simp: sync_done_def)
  ultimately show thesis by (rule that)
qed

lemma sync_done_cases:
  assumes "store_ok st live" "sync_done pool st given freed pages st'" "distinct freed" "set freed \<subseteq> live"
  obtains fresh where
    "continues pool (fl_portions (ss_free_list (ps_sync st))) fresh (fl_portions (ss_free_list (ps_sync st'))) pages"
    "fresh \<inter> (live \<union> set (map fst (fl_portions (ss_free_list (ps_sync st))))) = {}"
    "clean_ok (ss_free_list (ps_sync st'))" "distinct given" "set given \<inter> live = {}"
    "set given \<inter> set (map fst (fl_portions (ss_free_list (ps_sync st)))) = {}"
    "tracked (fl_portions (ss_free_list (ps_sync st'))) + mset given + mset_set (live - set freed) = mset (bumped 1 (ss_bump (ps_sync st')))"
    "portions_ok (fl_portions (ss_free_list (ps_sync st')))"
    "\<forall>pn\<in>set (free_items (fl_portions (ss_free_list (ps_sync st')))) \<union> set (map fst (fl_portions (ss_free_list (ps_sync st')))).
       pn \<noteq> 0 \<and> pn < ss_max_bump (ps_sync st')"
    "0 < ss_bump (ps_sync st')"
proof -
  let ?ps = "fl_portions (ss_free_list (ps_sync st'))"
  from assms(2) obtain b1 fl1 where
    sc: "sync_commits pool st given freed b1 fl1 pages (ss_free_list (ps_sync st')) (ss_bump (ps_sync st'))"
    by (auto simp: sync_done_def)
  note sp = sync_pages[OF assms(1) sc assms(3,4)]
  have "pn \<noteq> 0 \<and> pn < ss_max_bump (ps_sync st')" if "pn \<in> set (free_items ?ps) \<union> set (map fst ?ps)" for pn
  proof -
    have "pn \<in># tracked ?ps" using that by (auto simp: tracked_def)
    then have "pn \<in># mset (bumped 1 (ss_bump (ps_sync st')))" by (simp flip: sp(1))
    then have "pn \<noteq> 0" "pn < ss_bump (ps_sync st')" by (auto simp: set_bumped)
    then show ?thesis using assms(2) by (auto simp: sync_done_def)
  qed
  moreover have "clean_ok (ss_free_list (ps_sync st'))" "portions_ok ?ps" using sc by (simp_all add: sync_commits_def clean_ok_def)
  moreover have "0 < ss_bump (ps_sync st')" using assms(1) sc by (auto simp: store_ok_def sync_commits_def)
  ultimately show thesis using that[OF _ sp(5) _ sp(2-4,1)] sc by (simp add: sync_commits_def)
qed

text \<open>Until the metadata switches over.\<close>
lemma sync_keeps_old:
  assumes "store_ok st live" "sync_done pool st given freed pages st'" "\<forall>pn. length (pool pn) = PAGE_SIZE"
    and "distinct freed" "set freed \<subseteq> live" "\<forall>(pn, page)\<in>data. pn \<in> set given \<and> length page = PAGE_SIZE"
    and "set ws \<subseteq> set pages \<union> data"
  defines "fd \<equiv> write_pages ws (ps_file st')"
  shows "\<exists>old. reopen fd (meta_of (ps_sync st)) = Some (Inr old) \<and> store_ok old live \<and> ss_free_list (ps_sync old) = ss_free_list (ps_sync st)"
    "\<forall>pn\<in>live. store_query fd pn = store_query (ps_file st) pn"
proof -
  let ?ss = "ps_sync st" and ?ps = "fl_portions (ss_free_list (ps_sync st))" and ?m = "ss_max_bump (ps_sync st')"
  let ?old = "?ss\<lparr>ss_max_bump := ?m\<rparr>"
  obtain fresh where f: "continues pool ?ps fresh (fl_portions (ss_free_list (ps_sync st'))) pages"
    "fresh \<inter> (live \<union> set (map fst ?ps)) = {}" "clean_ok (ss_free_list (ps_sync st'))" "set given \<inter> live = {}"
    "set given \<inter> set (map fst ?ps) = {}" "portions_ok (fl_portions (ss_free_list (ps_sync st')))"
    "\<forall>pn\<in>set (free_items (fl_portions (ss_free_list (ps_sync st')))) \<union> set (map fst (fl_portions (ss_free_list (ps_sync st')))). pn \<noteq> 0 \<and> pn < ?m"
    using sync_done_cases[OF assms(1,2,4,5)] by metis
  have dn: "file_ok (ps_file st') ?m" "prefix (ps_file st) (ps_file st')" "ss_max_bump ?ss \<le> ?m" "\<forall>pn\<in>set given. pn < ?m"
    using assms(2) by (simp_all add: sync_done_def)
  have new: "\<forall>pn\<in>set (free_items (fl_portions (ss_free_list (ps_sync st')))) \<union> set (map fst (fl_portions (ss_free_list (ps_sync st')))). pn < ?m"
    using f(7) by blast
  have data: "\<forall>(pn, page)\<in>data. pn < ?m \<and> length page = PAGE_SIZE" using assms(6) dn(4) by auto
  note w = sync_writes_fit[OF f(1) assms(3) f(6) new dn(1) data assms(7), folded fd_def]
  have st: "clean_ok (ss_free_list ?ss)" "0 < ss_bump ?ss" "ss_bump ?ss \<le> ss_max_bump ?ss" "file_ok (ps_file st) (ss_max_bump ?ss)"
    "chain_at (ps_file st) (ss_max_bump ?ss) ?ps" "tracked ?ps + mset_set live = mset (bumped 1 (ss_bump ?ss))"
    using assms(1) by (simp_all add: store_ok_def)
  have disk: "distinct (map fst ?ps)"
    by (rule distinct_sub[OF _ distinct_bumped[of 1 "ss_bump ?ss"]]) (simp add: tracked_def flip: st(6))
  have data_given: "fst ` data \<subseteq> set given" using assms(6) by auto
  then have other: "fst ` data \<inter> set (map fst ?ps) = {}" using f(5) by blast
  have "mset (map fst ?ps) + mset_set live \<subseteq># mset (bumped 1 (ss_bump ?ss))" by (simp add: tracked_def flip: st(6))
  from disjoint_parts[OF this] have disj: "set (map fst ?ps) \<inter> live = {}" by simp
  have chain: "chain_at fd ?m ?ps" unfolding fd_def
    by (rule continues_old[OF f(1) chain_at_grow[OF st(5) dn(2,3)] assms(3) f(6) _ w(2) disk _ assms(7) w(1) other])
       (use new f(2) in auto)
  have "reopen fd (meta_of ?old) = Some (Inr \<lparr>ps_file = fd, ps_sync = ?old\<rparr>)"
    using st(1) w(3) chain by (intro reopen_ok) simp_all
  moreover have "meta_of ?old = meta_of ?ss" by (simp add: meta_of_def)
  moreover have "store_ok \<lparr>ps_file = fd, ps_sync = ?old\<rparr> live"
    using st dn(3) w(3) chain by (auto simp: store_ok_def)
  ultimately show "\<exists>old. reopen fd (meta_of ?ss) = Some (Inr old) \<and> store_ok old live \<and> ss_free_list (ps_sync old) = ss_free_list ?ss"
    by auto
  show "\<forall>pn\<in>live. store_query fd pn = store_query (ps_file st) pn"
  proof
    fix pn assume pn: "pn \<in> live"
    then have "in_file (ps_file st) (unat pn)" using store_ok_page(3)[OF assms(1)] file_ok_in_file[OF st(4)] by simp
    then obtain p where "read_page (ps_file st) (unat pn) = Some p"
      by (auto simp: read_page_def in_file_def slice_of_def)
    then have "store_query (ps_file st') pn = store_query (ps_file st) pn"
      using read_page_prefix[OF _ dn(2)] by (simp add: store_query_def)
    moreover have "pn \<notin> set (map fst ?ps) \<union> fresh \<union> fst ` data"
      using pn disj f(2) data_given f(4) by blast
    ultimately show "store_query fd pn = store_query (ps_file st) pn" using w(4) by simp
  qed
qed

text \<open>After it has.\<close>
lemma sync_makes_new:
  assumes "store_ok st live" "sync_done pool st given freed pages st'" "\<forall>pn. length (pool pn) = PAGE_SIZE"
    and "distinct freed" "set freed \<subseteq> live" "\<forall>(pn, page)\<in>data. pn \<in> set given \<and> length page = PAGE_SIZE"
    and "set ws \<subseteq> set pages \<union> data" "set pages \<subseteq> set ws"
  defines "fd \<equiv> write_pages ws (ps_file st')"
  shows "reopen fd (meta_of (ps_sync st')) = Some (Inr (st'\<lparr>ps_file := fd\<rparr>))"
    "store_ok (st'\<lparr>ps_file := fd\<rparr>) (live \<union> set given - set freed)"
proof -
  let ?ss = "ps_sync st'" and ?ps = "fl_portions (ss_free_list (ps_sync st))" and ?ps' = "fl_portions (ss_free_list (ps_sync st'))"
  let ?m = "ss_max_bump (ps_sync st')"
  obtain fresh where f: "continues pool ?ps fresh ?ps' pages" "clean_ok (ss_free_list ?ss)" "distinct given" "set given \<inter> live = {}"
    "tracked ?ps' + mset given + mset_set (live - set freed) = mset (bumped 1 (ss_bump ?ss))" "portions_ok ?ps'"
    "\<forall>pn\<in>set (free_items ?ps') \<union> set (map fst ?ps'). pn \<noteq> 0 \<and> pn < ?m" "0 < ss_bump ?ss"
    by (rule sync_done_cases[OF assms(1,2,4,5)])
  have dn: "file_ok (ps_file st') ?m" "prefix (ps_file st) (ps_file st')" "ss_max_bump (ps_sync st) \<le> ?m"
    "\<forall>pn\<in>set given. pn < ?m" "ss_bump ?ss \<le> ?m" using assms(2) by (simp_all add: sync_done_def)
  have data: "\<forall>(pn, page)\<in>data. pn < ?m \<and> length page = PAGE_SIZE" "fst ` data \<subseteq> set given" using assms(6) dn(4) by auto
  have new: "\<forall>pn\<in>set (free_items ?ps') \<union> set (map fst ?ps'). pn < ?m" using f(7) by blast
  note w = sync_writes_fit[OF f(1) assms(3) f(6) new dn(1) data(1) assms(7), folded fd_def]
  have "mset (map fst ?ps') + mset given \<subseteq># mset (bumped 1 (ss_bump ?ss))" by (simp add: tracked_def flip: f(5))
  from disjoint_parts[OF this] have other: "fst ` data \<inter> set (map fst ?ps') = {}" using data(2) by auto
  have dist: "distinct (map fst ?ps')"
    by (rule distinct_sub[OF _ distinct_bumped[of 1 "ss_bump ?ss"]]) (simp add: tracked_def flip: f(5))
  have "chain_at (ps_file st) (ss_max_bump (ps_sync st)) ?ps" using assms(1) by (simp add: store_ok_def)
  from chain_at_grow[OF this dn(2,3)] have chain: "chain_at fd ?m ?ps'" unfolding fd_def
    by (rule continues_new[OF f(1) _ assms(3) f(6) _ w(2) dist _ assms(8,7) w(1) other]) (use f(7) in auto)
  then show "reopen fd (meta_of ?ss) = Some (Inr (st'\<lparr>ps_file := fd\<rparr>))" using reopen_ok[OF f(2) w(3)] by (cases st') simp
  have "live \<union> set given - set freed = (live - set freed) \<union> set given" "(live - set freed) \<inter> set given = {}"
    using f(4) assms(5) by auto
  then have "mset_set (live \<union> set given - set freed) = mset_set (live - set freed) + mset given"
    using f(3) by (simp add: mset_set_Union mset_set_set)
  then show "store_ok (st'\<lparr>ps_file := fd\<rparr>) (live \<union> set given - set freed)"
    using f(2,5,8) dn(5) w(3) chain by (simp add: store_ok_def ac_simps)
qed

text \<open>C12: a sync of a page store is atomic.  Take a store whose free list,
  together with the pages in use, accounts for every page of the file once; any interleaving of threads
  that allocate pages from it; pages in use to be freed; and data for the allocated pages.  The allocated
  pages are distinct and were not in use; no allocation on the way panics or fails, and finishing the
  sync succeeds.  When only some of the data and
  of the new free-list pages have been written, in any order, opening the store with the old metadata
  gives the old free list and every page in use as it was.  Once all free-list pages have been
  written, opening it with the new metadata gives the store of the finished sync, which accounts
  for every page once, with the allocated pages in use and the freed ones free.\<close>
theorem sync_is_atomic:
  assumes "store_ok st live" "alloc_reach os (start_sync st) sa {} given" "\<forall>n. os n" "\<forall>pn. length (pool pn) = PAGE_SIZE"
    and "distinct freed" "set freed \<subseteq> live" "\<forall>(pn, page)\<in>data. pn \<in> set given \<and> length page = PAGE_SIZE"
    and "unat (ss_bump (ps_sync st)) + sa_allocations sa + length freed +
      length (fl_portions (ss_free_list (ps_sync st))) + 2 + 2 * GROW_STORE_BY_PAGES < 2 ^ 32"
  shows "distinct given \<and> set given \<inter> live = {} \<and>
    (\<forall>sa1 drawn given1. alloc_reach os (start_sync st) sa1 drawn given1 \<longrightarrow> sa_allocations sa1 \<le> sa_allocations sa \<longrightarrow>
      (\<forall>ix\<in>drawn. \<exists>pn sa2. allocate_at os sa1 ix = Some (Inr pn, sa2))) \<and>
    (\<exists>pages meta st'. sync_finish os pool sa freed = Some (Inr (pages, meta), st') \<and>
      (\<forall>ws. set ws \<subseteq> set pages \<union> data \<longrightarrow> (let fd = write_pages ws (ps_file st') in
        (\<exists>old. reopen fd (meta_of (ps_sync st)) = Some (Inr old) \<and> store_ok old live \<and>
          ss_free_list (ps_sync old) = ss_free_list (ps_sync st)) \<and>
        (\<forall>pn\<in>live. store_query fd pn = store_query (ps_file st) pn) \<and>
        (set pages \<subseteq> set ws \<longrightarrow> reopen fd meta = Some (Inr (st'\<lparr>ps_file := fd\<rparr>)) \<and>
          store_ok (st'\<lparr>ps_file := fd\<rparr>) (live \<union> set given - set freed)))))"
proof -
  obtain pages st' where fin: "sync_finish os pool sa freed = Some (Inr (pages, meta_of (ps_sync st')), st')"
    and dn: "sync_done pool st given freed pages st'"
    by (rule sync_finishes[OF assms(1-4,8)])
  then obtain b1 fl1 where "sync_commits pool st given freed b1 fl1 pages (ss_free_list (ps_sync st')) (ss_bump (ps_sync st'))"
    by (auto simp: sync_done_def)
  note given = sync_pages(2,3)[OF assms(1) this assms(5,6)]
  note old = sync_keeps_old[OF assms(1) dn assms(4-7)] and new = sync_makes_new[OF assms(1) dn assms(4-7)]
  have succ: "\<exists>pn sa2. allocate_at os sa1 ix = Some (Inr pn, sa2)"
    if "alloc_reach os (start_sync st) sa1 drawn given1" "sa_allocations sa1 \<le> sa_allocations sa" "ix \<in> drawn" for sa1 drawn given1 ix
    using that assms(8) by (intro allocate_at_succeeds[OF assms(1) alloc_reach_inv[OF that(1) assms(1)] that(3) assms(3)]) linarith+
  show ?thesis unfolding Let_def using given succ fin old new
    by (intro conjI exI[of _ pages] exI[of _ "meta_of (ps_sync st')"] exI[of _ st']) blast+
qed


subsection \<open>A sample store\<close>

text \<open>Pages 1 and 2 are in use, page 3 holds the free list with page 4.\<close>
definition sample_list_page :: bytes where
  "sample_list_page = [0, 0, 0, 0, 1, 0, 4, 0, 0, 0] @ replicate 4086 0"

definition sample_store :: page_store where
  "sample_store = \<lparr>ps_file = replicate 12288 0 @ sample_list_page @ replicate 4096 0,
     ps_sync = \<lparr>ss_bump = 5, ss_max_bump = 5,
       ss_free_list = \<lparr>fl_portions = [(3, [4])], fl_pop = False, fl_len = 1, fl_fragmented = False, fl_released = []\<rparr>\<rparr>\<rparr>"

text \<open>After one allocation.\<close>
definition sample_alloc :: sync_allocator where
  "sample_alloc = (start_sync sample_store)\<lparr>sa_allocations := 1\<rparr>"

lemma sample_page_decodes: "decode_free_list_page sample_list_page 5 = Some (0, [4])"
  by (simp add: decode_free_list_page_def sample_list_page_def prev_pn_def item_count_def fl_item_def slice_of_def)

lemma sample_store_ok: "store_ok sample_store {1, 2}"
proof -
  have "read_page (ps_file sample_store) 3 = Some sample_list_page"
    by (simp add: read_page_def sample_store_def slice_of_def PAGE_SIZE_def sample_list_page_def)
  then have "chain_at (ps_file sample_store) 5 [(3, [4])]"
    using sample_page_decodes by (simp add: chain_at_def prev_of_def FREELIST_EMPTY_def)
  moreover have "bumped 1 5 = [1, 2, 3, 4]" by (simp add: bumped_def upt_rec)
  moreover have "clean_ok (ss_free_list (ps_sync sample_store))"
    using PNS_ge by (simp add: clean_ok_def sample_store_def portions_ok_def len_and_fragmented_def)
  ultimately show ?thesis
    by (simp add: store_ok_def sample_store_def file_ok_def PAGE_SIZE_def sample_list_page_def)
qed

lemma sample_alloc_reached: "alloc_reach os (start_sync sample_store) sample_alloc {} [4]"
proof -
  have "alloc_reach os (start_sync sample_store) sample_alloc {0} []"
    using alloc_reach.draw[OF alloc_reach.start, of os "start_sync sample_store"] by (simp add: sample_alloc_def start_sync_def)
  moreover have "allocate_at os sample_alloc 0 = Some (Inr 4, sample_alloc)"
    by (simp add: allocate_at_def sample_alloc_def start_sync_def sample_store_def as_clean_def get_nth_pop_def
        nth_from_def sub_checked_def get_at_def)
  ultimately show ?thesis using alloc_reach.give[of os _ sample_alloc "{0}" "[]" 0 4 sample_alloc] by simp
qed

theorem sync_is_atomic_witness:
  "\<exists>pages meta st'. sync_finish (\<lambda>_. True) (\<lambda>_. replicate PAGE_SIZE 0) sample_alloc [1] = Some (Inr (pages, meta), st') \<and>
     (\<exists>old. reopen (write_pages [(4, replicate PAGE_SIZE 7)] (ps_file st')) (meta_of (ps_sync sample_store)) = Some (Inr old) \<and>
        store_ok old {1, 2}) \<and>
     (let fd = write_pages (pages @ [(4, replicate PAGE_SIZE 7)]) (ps_file st') in
      reopen fd meta = Some (Inr (st'\<lparr>ps_file := fd\<rparr>)) \<and> store_ok (st'\<lparr>ps_file := fd\<rparr>) {2, 4})"
proof -
  let ?d = "(4 :: u32, replicate PAGE_SIZE 7 :: bytes)"
  have bound: "unat (ss_bump (ps_sync sample_store)) + sa_allocations sample_alloc + length [1 :: u32] +
      length (fl_portions (ss_free_list (ps_sync sample_store))) + 2 + 2 * GROW_STORE_BY_PAGES < 2 ^ 32"
    by (simp add: sample_alloc_def sample_store_def GROW_STORE_BY_PAGES_def)
  have pool: "\<forall>pn :: u32. length (replicate PAGE_SIZE 0 :: bytes) = PAGE_SIZE"
    and data: "\<forall>(pn, page)\<in>{?d}. pn \<in> set [4] \<and> length page = PAGE_SIZE" by simp_all
  have freed: "distinct [1 :: u32]" "set [1] \<subseteq> {1, 2 :: u32}" and os: "\<forall>n::nat. True" by simp_all
  obtain pages meta st' where
    fin: "sync_finish (\<lambda>_. True) (\<lambda>_. replicate PAGE_SIZE 0) sample_alloc [1] = Some (Inr (pages, meta), st')"
    and all: "\<And>ws. set ws \<subseteq> set pages \<union> {?d} \<Longrightarrow> (let fd = write_pages ws (ps_file st') in
        (\<exists>old. reopen fd (meta_of (ps_sync sample_store)) = Some (Inr old) \<and> store_ok old {1, 2} \<and>
          ss_free_list (ps_sync old) = ss_free_list (ps_sync sample_store)) \<and>
        (\<forall>pn\<in>{1, 2}. store_query fd pn = store_query (ps_file sample_store) pn) \<and>
        (set pages \<subseteq> set ws \<longrightarrow> reopen fd meta = Some (Inr (st'\<lparr>ps_file := fd\<rparr>)) \<and>
          store_ok (st'\<lparr>ps_file := fd\<rparr>) ({1, 2} \<union> set [4] - set [1])))"
    using sync_is_atomic[OF sample_store_ok sample_alloc_reached os pool freed data bound, THEN conjunct2, THEN conjunct2, THEN conjunct2]
    by blast
  have used: "{1, 2} \<union> set [4] - set [1] = {2, 4 :: u32}" by auto
  have ws: "set [?d] \<subseteq> set pages \<union> {?d}" "set (pages @ [?d]) \<subseteq> set pages \<union> {?d}" "set pages \<subseteq> set (pages @ [?d])" by auto
  let ?fd = "write_pages (pages @ [?d]) (ps_file st')"
  from all[OF ws(1), unfolded Let_def] obtain old where
    old: "reopen (write_pages [?d] (ps_file st')) (meta_of (ps_sync sample_store)) = Some (Inr old)" "store_ok old {1, 2}" by blast
  from all[OF ws(2), unfolded Let_def used] ws(3) have
    new: "reopen ?fd meta = Some (Inr (st'\<lparr>ps_file := ?fd\<rparr>))" "store_ok (st'\<lparr>ps_file := ?fd\<rparr>) {2, 4}" by blast+
  show ?thesis unfolding Let_def using fin old new by blast
qed

end
