(* ===== verification/Overlays.thy ===== *)
theory Overlays
  imports RollbackLog PageIds
begin

text \<open>
  In-memory overlays, \<open>nomt/src/overlay.rs\<close>, with the value changes of \<open>nomt/src/beatree/mod.rs\<close>
  and the reads and commits over them of \<open>nomt/src/lib.rs\<close>.  The dirty pages are a type variable,
  and the store is the values and pages that are committed.  A reference counted \<open>Data\<close> never
  changes but for its status, so it is a record with the identity of its allocation; a heap holds
  every one ever made, which of them are still alive, and the statuses.
\<close>

section \<open>Value changes\<close>

datatype value_change = Delete | Insert bytes | InsertOverflow bytes bytes

definition LEAF_NODE_BODY_SIZE :: nat where "LEAF_NODE_BODY_SIZE = PAGE_SIZE - 2"

definition MAX_LEAF_VALUE_SIZE :: nat where "MAX_LEAF_VALUE_SIZE = LEAF_NODE_BODY_SIZE div 3 - 32"

definition change_insert :: "(bytes \<Rightarrow> bytes) \<Rightarrow> bytes \<Rightarrow> value_change" where
  "change_insert hasher v =
     (if length v > MAX_LEAF_VALUE_SIZE then InsertOverflow v (hasher v) else Insert v)"

definition from_option :: "(bytes \<Rightarrow> bytes) \<Rightarrow> stored_value \<Rightarrow> value_change" where
  "from_option hasher maybe_value =
     (case maybe_value of None \<Rightarrow> Delete | Some v \<Rightarrow> change_insert hasher v)"

fun as_option :: "value_change \<Rightarrow> stored_value" where
  "as_option Delete = None"
| "as_option (Insert v) = Some v"
| "as_option (InsertOverflow v _) = Some v"

lemma as_from_option [simp]: "as_option (from_option h v) = v"
  by (simp add: from_option_def change_insert_def split: option.splits)

section \<open>The index\<close>

text \<open>Which sequence number last changed a page or a key, and the changes in the order of their
  numbers.  The ordered map of the values is iterated by key.\<close>
record overlay_index =
  ix_pages :: "(page_id \<times> nat) list"
  ix_values :: "(bytes \<times> nat) list"
  ix_pages_by_seqn :: "(nat \<times> page_id) list"
  ix_values_by_seqn :: "(nat \<times> bytes) list"

definition index_default :: overlay_index where
  "index_default = \<lparr>ix_pages = [], ix_values = [], ix_pages_by_seqn = [], ix_values_by_seqn = []\<rparr>"

text \<open>One of the two loops of \<open>prune_below\<close>.\<close>
fun prune_loop :: "nat \<Rightarrow> (nat \<times> 'k) list \<Rightarrow> ('k \<times> nat) list \<Rightarrow> (nat \<times> 'k) list \<times> ('k \<times> nat) list" where
  "prune_loop mn [] m = ([], m)"
| "prune_loop mn ((seqn, key) # v) m =
     (if seqn \<ge> mn then ((seqn, key) # v, m)
      else prune_loop mn v
        (case map_of m key of
           None \<Rightarrow> AList.delete key m
         | Some got_seqn \<Rightarrow>
             if got_seqn \<noteq> seqn \<and> got_seqn \<ge> mn then AList.update key got_seqn (AList.delete key m)
             else AList.delete key m))"

definition prune_below :: "nat \<Rightarrow> overlay_index \<Rightarrow> overlay_index" where
  "prune_below mn ix =
     (let (pv, pm) = prune_loop mn (ix_pages_by_seqn ix) (ix_pages ix);
          (vv, vm) = prune_loop mn (ix_values_by_seqn ix) (ix_values ix)
      in \<lparr>ix_pages = pm, ix_values = vm, ix_pages_by_seqn = pv, ix_values_by_seqn = vv\<rparr>)"

fun insert_keys :: "nat \<Rightarrow> 'k list \<Rightarrow> (nat \<times> 'k) list \<Rightarrow> ('k \<times> nat) list \<Rightarrow> (nat \<times> 'k) list \<times> ('k \<times> nat) list" where
  "insert_keys seqn [] v m = (v, m)"
| "insert_keys seqn (k # ks) v m = insert_keys seqn ks (v @ [(seqn, k)]) (AList.update k seqn m)"

definition insert_pages :: "nat \<Rightarrow> page_id list \<Rightarrow> overlay_index \<Rightarrow> overlay_index" where
  "insert_pages seqn ids ix =
     (let (v, m) = insert_keys seqn ids (ix_pages_by_seqn ix) (ix_pages ix)
      in ix\<lparr>ix_pages_by_seqn := v, ix_pages := m\<rparr>)"

definition insert_values :: "nat \<Rightarrow> bytes list \<Rightarrow> overlay_index \<Rightarrow> overlay_index" where
  "insert_values seqn ks ix =
     (let (v, m) = insert_keys seqn ks (ix_values_by_seqn ix) (ix_values ix)
      in ix\<lparr>ix_values_by_seqn := v, ix_values := m\<rparr>)"

section \<open>Overlays\<close>

datatype overlay_status = Live | Dropped | Committed

definition status_drop :: "overlay_status \<Rightarrow> overlay_status" where
  "status_drop s = (if s = Live then Dropped else s)"

text \<open>The maps are the entries in the order they are iterated; the status of the parent is the one
  that was allocated with the data of the parent.\<close>
record 'p overlay_data =
  da_id :: nat
  da_pages :: "(page_id \<times> 'p) list"
  da_values :: "(bytes \<times> value_change) list"
  da_parent_status :: "nat option"

text \<open>\<open>OverlayInner\<close>; the ancestors are weak references.\<close>
record 'p overlay =
  ov_prev_root :: node
  ov_root :: node
  ov_index :: overlay_index
  ov_data :: "'p overlay_data"
  ov_seqn :: nat
  ov_ancestor_data :: "nat list"
  ov_rollback_delta :: "delta option"

record 'p overlay_heap =
  hp_data :: "'p overlay_data list"
  hp_alive :: "bool list"
  hp_status :: "overlay_status list"

definition upgrade :: "'p overlay_heap \<Rightarrow> nat \<Rightarrow> 'p overlay_data option" where
  "upgrade hp i = (if i < length (hp_data hp) \<and> hp_alive hp ! i then Some (hp_data hp ! i) else None)"

text \<open>The last strong reference to a data goes away.\<close>
definition drop_data :: "nat \<Rightarrow> 'p overlay_heap \<Rightarrow> 'p overlay_heap" where
  "drop_data i hp = hp\<lparr>hp_alive := (hp_alive hp)[i := False], hp_status := (hp_status hp)[i := status_drop (hp_status hp ! i)]\<rparr>"

definition is_committed :: "'p overlay_heap \<Rightarrow> nat \<Rightarrow> bool" where
  "is_committed hp i \<longleftrightarrow> hp_status hp ! i = Committed"

definition parent_matches_marker :: "'p overlay \<Rightarrow> nat option \<Rightarrow> bool" where
  "parent_matches_marker ov marker =
     (case (da_parent_status (ov_data ov), marker) of
        (None, _) \<Rightarrow> True
      | (Some parent, Some mk) \<Rightarrow> parent = mk
      | _ \<Rightarrow> False)"

definition mark_committed :: "'p overlay \<Rightarrow> 'p overlay_heap \<Rightarrow> nat \<times> 'p overlay_heap" where
  "mark_committed ov hp =
     (da_id (ov_data ov), hp\<lparr>hp_status := (hp_status hp)[da_id (ov_data ov) := Committed]\<rparr>)"

section \<open>Live overlays\<close>

record 'p live_overlay =
  lo_parent :: "'p overlay option"
  lo_ancestor_data :: "'p overlay_data list"
  lo_min_seqn :: nat

datatype invalid_ancestors = NotAncestor | Incomplete

fun match_ancestors :: "'p overlay_heap \<Rightarrow> ('p overlay \<times> nat) list \<Rightarrow> invalid_ancestors + 'p overlay_data list" where
  "match_ancestors hp [] = Inr []"
| "match_ancestors hp ((supposed, actual) # xs) =
     (case upgrade hp actual of
        None \<Rightarrow> Inl Incomplete
      | Some d \<Rightarrow>
          if da_id (ov_data supposed) \<noteq> da_id d then Inl NotAncestor
          else try_bind (match_ancestors hp xs) (\<lambda>ds. Inr (d # ds)))"

definition live_overlay_new :: "'p overlay_heap \<Rightarrow> 'p overlay list \<Rightarrow> (invalid_ancestors + 'p live_overlay) option" where
  "live_overlay_new hp live_ancestors =
     (case live_ancestors of
        [] \<Rightarrow> Some (Inr \<lparr>lo_parent = None, lo_ancestor_data = [], lo_min_seqn = 0\<rparr>)
      | parent # rest \<Rightarrow>
          (case match_ancestors hp (zip rest (ov_ancestor_data parent)) of
             Inl e \<Rightarrow> Some (Inl e)
           | Inr ancestor_data \<Rightarrow>
               let oldest = (if ancestor_data = [] then ov_data parent else last ancestor_data)
               in if (case da_parent_status oldest of None \<Rightarrow> False | Some st \<Rightarrow> \<not> is_committed hp st)
                  then Some (Inl Incomplete)
                  else do {
                    assert_that (length ancestor_data \<le> ov_seqn parent);
                    Some (Inr \<lparr>lo_parent = Some parent, lo_ancestor_data = ancestor_data,
                               lo_min_seqn = ov_seqn parent - length ancestor_data\<rparr>) }))"

text \<open>Where the index leads: the parent or one of the ancestors.\<close>
definition data_at :: "'p live_overlay \<Rightarrow> nat \<Rightarrow> 'p overlay_data option" where
  "data_at lo seqn_diff =
     (if seqn_diff = length (lo_ancestor_data lo) then map_option ov_data (lo_parent lo)
      else if seqn_diff + 1 \<le> length (lo_ancestor_data lo)
      then get_at (lo_ancestor_data lo) (length (lo_ancestor_data lo) - seqn_diff - 1) else None)"

definition checked_sub :: "nat \<Rightarrow> nat \<Rightarrow> nat option" where
  "checked_sub a b = (if b \<le> a then Some (a - b) else None)"

text \<open>\<open>page\<close> and \<open>value\<close>; the outer option is a panic.\<close>
definition lo_page :: "'p live_overlay \<Rightarrow> page_id \<Rightarrow> 'p option option" where
  "lo_page lo page_id =
     (case Option.bind (lo_parent lo) (\<lambda>parent. Option.bind (map_of (ix_pages (ov_index parent)) page_id)
        (\<lambda>seqn. checked_sub seqn (lo_min_seqn lo))) of
        None \<Rightarrow> Some None
      | Some seqn_diff \<Rightarrow> do { d \<leftarrow> data_at lo seqn_diff; p \<leftarrow> map_of (da_pages d) page_id; Some (Some p) })"

definition value_inner :: "'p live_overlay \<Rightarrow> bytes \<Rightarrow> nat \<Rightarrow> value_change option" where
  "value_inner lo key seqn_diff = Option.bind (data_at lo seqn_diff) (\<lambda>d. map_of (da_values d) key)"

definition lo_value :: "'p live_overlay \<Rightarrow> bytes \<Rightarrow> value_change option option" where
  "lo_value lo key =
     (case Option.bind (lo_parent lo) (\<lambda>parent. Option.bind (map_of (ix_values (ov_index parent)) key)
        (\<lambda>seqn. checked_sub seqn (lo_min_seqn lo))) of
        None \<Rightarrow> Some None
      | Some seqn_diff \<Rightarrow> map_option Some (value_inner lo key seqn_diff))"

text \<open>\<open>value_iter\<close>, collected.\<close>
definition value_iter :: "'p live_overlay \<Rightarrow> bytes \<Rightarrow> bytes option \<Rightarrow> (bytes \<times> value_change) list option" where
  "value_iter lo start end =
     (case lo_parent lo of
        None \<Rightarrow> Some []
      | Some parent \<Rightarrow>
          those (map (\<lambda>(k, d). map_option (Pair k) (value_inner lo k d))
            (List.map_filter (\<lambda>(k, seqn). map_option (Pair k) (checked_sub seqn (lo_min_seqn lo)))
              (takeWhile (\<lambda>(k, _). case end of None \<Rightarrow> True | Some e \<Rightarrow> e > k)
                (filter (\<lambda>(k, _). start \<le> k) (sort_key fst (ix_values (ov_index parent))))))))"

definition lo_finish ::
  "'p live_overlay \<Rightarrow> 'p overlay_heap \<Rightarrow> node \<Rightarrow> node \<Rightarrow> (page_id \<times> 'p) list \<Rightarrow> (bytes \<times> value_change) list \<Rightarrow>
   delta option \<Rightarrow> ('p overlay \<times> 'p overlay_heap) option" where
  "lo_finish lo hp prev_root root page_changes value_changes rollback_delta = do {
     new_seqn \<leftarrow> (case lo_parent lo of None \<Rightarrow> Some 0
       | Some p \<Rightarrow> do { assert_that (ov_seqn p + 1 < 2 ^ 64); Some (ov_seqn p + 1) });
     let index = (case lo_parent lo of None \<Rightarrow> index_default | Some p \<Rightarrow> ov_index p);
     let index = prune_below (lo_min_seqn lo) index;
     let index = insert_pages new_seqn (map fst page_changes) index;
     let index = insert_values new_seqn (map fst value_changes) index;
     let parent_status = map_option (\<lambda>p. da_id (ov_data p)) (lo_parent lo);
     let ancestor_data = (case lo_parent lo of None \<Rightarrow> []
       | Some p \<Rightarrow> da_id (ov_data p) # map da_id (lo_ancestor_data lo));
     let d = \<lparr>da_id = length (hp_data hp), da_pages = page_changes, da_values = value_changes, da_parent_status = parent_status\<rparr>;
     Some (\<lparr>ov_prev_root = prev_root, ov_root = root, ov_index = index, ov_data = d, ov_seqn = new_seqn,
            ov_ancestor_data = ancestor_data, ov_rollback_delta = rollback_delta\<rparr>,
           \<lparr>hp_data = hp_data hp @ [d], hp_alive = hp_alive hp @ [True], hp_status = hp_status hp @ [Live]\<rparr>) }"

section \<open>Sessions and commits\<close>

text \<open>The parts of \<open>Nomt\<close> that reads and commits use.\<close>
record 'p nomt =
  nt_heap :: "'p overlay_heap"
  nt_root :: node
  nt_last_commit_marker :: "nat option"
  nt_values :: "bytes \<Rightarrow> stored_value"
  nt_pages :: "page_id \<rightharpoonup> 'p"
  nt_deltas :: "delta list"

definition session_read :: "'p nomt \<Rightarrow> 'p live_overlay \<Rightarrow> bytes \<Rightarrow> stored_value option" where
  "session_read nt lo path = do {
     change \<leftarrow> lo_value lo path;
     Some (case change of Some c \<Rightarrow> as_option c | None \<Rightarrow> nt_values nt path) }"

text \<open>The value transaction of \<open>Session::finish\<close>.\<close>
definition session_changes :: "(bytes \<Rightarrow> bytes) \<Rightarrow> (bytes \<times> key_read_write) list \<Rightarrow> (bytes \<times> value_change) list" where
  "session_changes hasher actuals =
     List.map_filter (\<lambda>(path, read_write). case read_write of
         Read _ \<Rightarrow> None
       | Write v \<Rightarrow> Some (path, from_option hasher v)
       | ReadThenWrite _ v \<Rightarrow> Some (path, from_option hasher v)) actuals"

definition apply_changes :: "(bytes \<times> value_change) list \<Rightarrow> (bytes \<Rightarrow> stored_value) \<Rightarrow> bytes \<Rightarrow> stored_value" where
  "apply_changes changes st k = (case map_of changes k of Some c \<Rightarrow> as_option c | None \<Rightarrow> st k)"

datatype commit_error = ParentNotCommitted | ChangesetInvalid node node

text \<open>\<open>rollback.commit\<close> and \<open>store.commit\<close>.\<close>
definition store_commit ::
  "'p nomt \<Rightarrow> (bytes \<times> value_change) list \<Rightarrow> (page_id \<times> 'p) list \<Rightarrow> delta option \<Rightarrow> 'p nomt" where
  "store_commit nt values pages rollback_delta =
     nt\<lparr>nt_deltas := nt_deltas nt @ (case rollback_delta of None \<Rightarrow> [] | Some d \<Rightarrow> [d]),
        nt_values := apply_changes values (nt_values nt), nt_pages := nt_pages nt ++ map_of pages\<rparr>"

text \<open>\<open>FinishedSession::commit\<close>.\<close>
definition session_commit ::
  "'p nomt \<Rightarrow> node \<Rightarrow> node \<Rightarrow> (bytes \<times> value_change) list \<Rightarrow> (page_id \<times> 'p) list \<Rightarrow> delta option \<Rightarrow>
   (commit_error + unit) \<times> 'p nomt" where
  "session_commit nt prev_root root values pages rollback_delta =
     (if nt_root nt \<noteq> prev_root then (Inl (ChangesetInvalid prev_root (nt_root nt)), nt)
      else (Inr (), store_commit (nt\<lparr>nt_root := root, nt_last_commit_marker := None\<rparr>) values pages rollback_delta))"

text \<open>\<open>Overlay::commit\<close>.\<close>
definition overlay_commit :: "'p nomt \<Rightarrow> 'p overlay \<Rightarrow> (commit_error + unit) \<times> 'p nomt" where
  "overlay_commit nt ov =
     (if \<not> parent_matches_marker ov (nt_last_commit_marker nt) then (Inl ParentNotCommitted, nt)
      else
        let (marker, hp) = mark_committed ov (nt_heap nt);
            nt = nt\<lparr>nt_heap := hp\<rparr>
        in if nt_root nt \<noteq> ov_prev_root ov then (Inl (ChangesetInvalid (ov_prev_root ov) (nt_root nt)), nt)
           else (Inr (), store_commit (nt\<lparr>nt_root := ov_root ov, nt_last_commit_marker := Some marker\<rparr>)
             (da_values (ov_data ov)) (da_pages (ov_data ov)) (ov_rollback_delta ov)))"


text \<open>The changes of a session are its writes.\<close>
lemma session_changes_keys: "fst ` set (session_changes h actuals) \<subseteq> fst ` set actuals"
  by (force simp: session_changes_def map_filter_def split: key_read_write.splits)

lemma apply_session_changes:
  assumes "distinct (map fst actuals)"
  shows "apply_changes (session_changes h actuals) st = apply_writes st actuals"
proof
  fix k
  have "map_of (session_changes h actuals) k =
      (case map_of actuals k of Some a \<Rightarrow> if is_write a then Some (from_option h (last_value a)) else None | None \<Rightarrow> None)"
    using assms
  proof (induction actuals)
    case (Cons x xs)
    obtain k' a where x: "x = (k', a)" by (cases x)
    have "map_of (session_changes h xs) k' = None"
      using session_changes_keys[of h xs] Cons.prems x by (auto simp: map_of_eq_None_iff)
    then show ?case using Cons x by (cases a) (auto simp: session_changes_def map_filter_simps)
  qed (simp add: session_changes_def map_filter_simps)
  thus "apply_changes (session_changes h actuals) st k = apply_writes st actuals k"
    by (auto simp: apply_changes_def apply_writes_def split: option.split)
qed

end
