(* ===== verification/OverlayFacts.thy ===== *)
theory OverlayFacts
  imports Overlays
begin

text \<open>
  What a chain of overlays shows: the index always leads to the newest change among the live
  ancestors, and committing the oldest overlay of a chain does not change what a session reads.
\<close>

section \<open>The index\<close>

lemma map_of_delete_upd: "map_of (AList.delete k m) = (map_of m)(k := None)"
  by (simp add: AList.delete_conv')

lemma prune_loop_spec:
  assumes "prune_loop mn v m = (v', m')" "sorted (map fst v)"
    and "\<forall>k s. map_of m k = Some s \<and> s < mn \<longrightarrow> (s, k) \<in> set v"
  shows "v' = filter (\<lambda>e. mn \<le> fst e) v \<and>
    (\<forall>k. map_of m' k = (case map_of m k of Some s \<Rightarrow> if mn \<le> s then Some s else None | None \<Rightarrow> None))"
  using assms
proof (induction mn v m rule: prune_loop.induct)
  case (1 mn m)
  then show ?case by (auto simp: not_less split: option.splits)
next
  case (2 mn seqn key v m)
  show ?case
  proof (cases "mn \<le> seqn")
    case True
    hence "\<forall>e\<in>set ((seqn, key) # v). mn \<le> fst e" using "2.prems"(2) by auto
    moreover have "\<forall>k s. map_of m k = Some s \<longrightarrow> mn \<le> s"
      using "2.prems"(3) calculation by (metis fst_conv not_le)
    ultimately show ?thesis using "2.prems"(1) True by (auto simp: filter_id_conv split: option.splits)
  next
    case False
    let ?m = "case map_of m key of None \<Rightarrow> AList.delete key m | Some got_seqn \<Rightarrow>
        if got_seqn \<noteq> seqn \<and> got_seqn \<ge> mn then AList.update key got_seqn (AList.delete key m) else AList.delete key m"
    have m: "map_of ?m k = (if k = key then (case map_of m key of Some s \<Rightarrow> if mn \<le> s then Some s else None | None \<Rightarrow> None) else map_of m k)" for k
      using False by (auto simp: map_of_delete_upd AList.update_conv' split: option.splits)
    have "\<forall>k s. map_of ?m k = Some s \<and> s < mn \<longrightarrow> (s, k) \<in> set v"
      unfolding m using "2.prems"(3) by (auto split: if_splits option.splits)
    from "2.IH"[OF False _ _ this] have "v' = filter (\<lambda>e. mn \<le> fst e) v"
      "\<forall>k. map_of m' k = (case map_of ?m k of Some s \<Rightarrow> if mn \<le> s then Some s else None | None \<Rightarrow> None)"
      using "2.prems"(1,2) False by auto
    then show ?thesis unfolding m using False by (auto split: option.splits)
  qed
qed

lemma prune_loop_distinct: "distinct (map fst m) \<Longrightarrow> distinct (map fst (snd (prune_loop mn v m)))"
proof (induction mn v m rule: prune_loop.induct)
  case (2 mn seqn key v m)
  have "distinct (map fst (case map_of m key of None \<Rightarrow> AList.delete key m | Some got_seqn \<Rightarrow>
      if got_seqn \<noteq> seqn \<and> got_seqn \<ge> mn then AList.update key got_seqn (AList.delete key m) else AList.delete key m))"
    using "2.prems" by (auto simp: distinct_delete distinct_update split: option.split)
  then show ?case using 2 by simp
qed simp

lemma insert_keys_distinct: "distinct (map fst m) \<Longrightarrow> distinct (map fst (snd (insert_keys seqn ks v m)))"
  by (induction seqn ks v m rule: insert_keys.induct) (auto simp: distinct_update)

lemma insert_keys_spec:
  "insert_keys seqn ks v m = (v', m') \<Longrightarrow>
   v' = v @ map (Pair seqn) ks \<and> (\<forall>k. map_of m' k = (if k \<in> set ks then Some seqn else map_of m k))"
  by (induction seqn ks v m rule: insert_keys.induct) (auto simp: AList.update_conv')

text \<open>The number of the newest set with a key in a chain, newest first.\<close>
fun newest_seqn :: "nat \<Rightarrow> 'k set list \<Rightarrow> 'k \<Rightarrow> nat option" where
  "newest_seqn s [] k = None"
| "newest_seqn s (K # Ks) k = (if k \<in> K then Some s else newest_seqn (s - 1) Ks k)"

lemma newest_seqn_bound: "newest_seqn s Ks k = Some t \<Longrightarrow> length Ks \<le> s + 1 \<Longrightarrow> t \<le> s \<and> s < t + length Ks"
proof (induction s Ks k rule: newest_seqn.induct)
  case (2 s K Ks k)
  show ?case
  proof (cases "k \<in> K")
    case False
    hence "length Ks \<le> s - 1 + 1" "newest_seqn (s - 1) Ks k = Some t" using "2.prems" by auto
    from "2.IH"[OF False this(2,1)] show ?thesis by (simp; linarith)
  qed (use "2.prems" in simp)
qed simp

lemma newest_seqn_take:
  "length Ks \<le> s + 1 \<Longrightarrow>
   newest_seqn s (take n Ks) k = (case newest_seqn s Ks k of Some t \<Rightarrow> if s < t + n then Some t else None | None \<Rightarrow> None)"
proof (induction Ks arbitrary: s n)
  case (Cons K Ks)
  show ?case
  proof (cases n)
    case 0
    then show ?thesis using newest_seqn_bound[OF _ Cons.prems, of k]
      by (cases "newest_seqn s (K # Ks) k") (simp_all del: newest_seqn.simps add: newest_seqn.simps(1))
  next
    case (Suc n')
    show ?thesis
    proof (cases "k \<in> K \<or> Ks = []")
      case True
      then show ?thesis using Suc by auto
    next
      case False
      hence "length Ks > 0" by simp
      hence "s \<noteq> 0" "length Ks \<le> s - 1 + 1" using Cons.prems by (simp_all del: length_greater_0_conv)
      then show ?thesis using Cons.IH[of "s - 1" n'] Suc False by (auto split: option.split)
    qed
  qed
qed simp

definition index_ok :: "nat \<Rightarrow> ('k \<times> nat) list \<Rightarrow> (nat \<times> 'k) list \<Rightarrow> 'k set list \<Rightarrow> bool" where
  "index_ok s m v Ks \<longleftrightarrow> distinct (map fst m) \<and> sorted (map fst v) \<and> (\<forall>e\<in>set v. fst e \<le> s) \<and>
     (\<forall>k t. map_of m k = Some t \<longrightarrow> (t, k) \<in> set v) \<and> (\<forall>k. map_of m k = newest_seqn s Ks k)"

text \<open>Pruning keeps the index of the front of the chain, and inserting puts a set before it.\<close>
lemma index_ok_prune:
  assumes "index_ok s m v Ks" "length Ks \<le> s + 1" "n \<le> s" "prune_loop (s - n) v m = (v', m')"
  shows "index_ok s m' v' (take (Suc n) Ks)"
proof -
  have "\<forall>k t. map_of m k = Some t \<and> t < s - n \<longrightarrow> (t, k) \<in> set v" using assms(1) unfolding index_ok_def by blast
  from prune_loop_spec[OF assms(4) _ this] have p: "v' = filter (\<lambda>e. s - n \<le> fst e) v"
    "\<And>k. map_of m' k = (case map_of m k of Some t \<Rightarrow> if s - n \<le> t then Some t else None | None \<Rightarrow> None)"
    using assms(1) unfolding index_ok_def by blast+
  have "map_of m' k = newest_seqn s (take (Suc n) Ks) k" for k
    using assms(1,3) unfolding p(2) newest_seqn_take[OF assms(2)] index_ok_def by (auto split: option.splits)
  moreover have "map_of m' k = Some t \<Longrightarrow> (t, k) \<in> set v'" for k t
    using assms(1) unfolding p index_ok_def by (auto split: option.splits if_splits)
  moreover have "distinct (map fst m')" using prune_loop_distinct[of m "s - n" v] assms(1,4) unfolding index_ok_def by simp
  ultimately show ?thesis using assms(1) unfolding index_ok_def p(1)
    by (auto simp: sorted_wrt_filter sorted_map)
qed

lemma index_ok_insert:
  assumes "index_ok s m v Ks" "insert_keys (Suc s) ks v m = (v', m')"
  shows "index_ok (Suc s) m' v' (set ks # Ks)"
proof -
  have p: "v' = v @ map (Pair (Suc s)) ks" "\<And>k. map_of m' k = (if k \<in> set ks then Some (Suc s) else map_of m k)"
    using insert_keys_spec[OF assms(2)] by auto
  have "sorted (map fst v')" using assms(1) unfolding p(1) index_ok_def
    by (auto simp: sorted_append comp_def map_replicate_const intro: le_SucI)
  moreover have "distinct (map fst m')" using insert_keys_distinct[of m "Suc s" ks v] assms unfolding index_ok_def by simp
  ultimately show ?thesis using assms(1) unfolding p index_ok_def by (auto intro: le_SucI)
qed

lemma index_ok_first: "insert_keys 0 ks [] [] = (v, m) \<Longrightarrow> index_ok 0 m v [set ks]"
  using insert_keys_spec[of 0 ks "[]" "[]" v m] insert_keys_distinct[of "[]" 0 ks "[]"]
  by (auto simp: index_ok_def comp_def map_replicate_const)


section \<open>Chains of overlays\<close>

definition heap_ok :: "'p overlay_heap \<Rightarrow> bool" where
  "heap_ok hp \<longleftrightarrow> length (hp_alive hp) = length (hp_data hp) \<and> length (hp_status hp) = length (hp_data hp) \<and>
     (\<forall>i<length (hp_data hp). da_id (hp_data hp ! i) = i)"

text \<open>The ids of an overlay and its ancestors, newest first, and their data.\<close>
definition chain_ids :: "'p overlay \<Rightarrow> nat list" where
  "chain_ids ov = da_id (ov_data ov) # ov_ancestor_data ov"

definition chain_of :: "'p overlay_heap \<Rightarrow> 'p overlay \<Rightarrow> 'p overlay_data list" where
  "chain_of hp ov = map ((!) (hp_data hp)) (chain_ids ov)"

definition value_keys :: "'p overlay_data \<Rightarrow> bytes set" where "value_keys d = fst ` set (da_values d)"
definition page_keys :: "'p overlay_data \<Rightarrow> page_id set" where "page_keys d = fst ` set (da_pages d)"

definition overlay_ok :: "'p overlay_heap \<Rightarrow> 'p overlay \<Rightarrow> bool" where
  "overlay_ok hp ov \<longleftrightarrow>
     (\<forall>i\<in>set (chain_ids ov). i < length (hp_data hp)) \<and> hp_data hp ! da_id (ov_data ov) = ov_data ov \<and>
     length (ov_ancestor_data ov) \<le> ov_seqn ov \<and>
     index_ok (ov_seqn ov) (ix_values (ov_index ov)) (ix_values_by_seqn (ov_index ov)) (map value_keys (chain_of hp ov)) \<and>
     index_ok (ov_seqn ov) (ix_pages (ov_index ov)) (ix_pages_by_seqn (ov_index ov)) (map page_keys (chain_of hp ov)) \<and>
     (\<forall>j. Suc j < length (chain_ids ov) \<longrightarrow> da_parent_status (chain_of hp ov ! j) = Some (chain_ids ov ! Suc j))"

lemma overlay_okD:
  assumes "overlay_ok hp ov"
  shows "\<forall>i\<in>set (chain_ids ov). i < length (hp_data hp)" "hp_data hp ! da_id (ov_data ov) = ov_data ov"
    "length (ov_ancestor_data ov) \<le> ov_seqn ov"
    "index_ok (ov_seqn ov) (ix_values (ov_index ov)) (ix_values_by_seqn (ov_index ov)) (map value_keys (chain_of hp ov))"
    "index_ok (ov_seqn ov) (ix_pages (ov_index ov)) (ix_pages_by_seqn (ov_index ov)) (map page_keys (chain_of hp ov))"
    "\<And>j. Suc j < length (chain_ids ov) \<Longrightarrow> da_parent_status (chain_of hp ov ! j) = Some (chain_ids ov ! Suc j)"
  using assms unfolding overlay_ok_def by blast+

text \<open>A live overlay over the first \<open>n\<close> ancestors of its parent.\<close>
definition live_over :: "'p overlay_heap \<Rightarrow> 'p overlay \<Rightarrow> nat \<Rightarrow> 'p live_overlay" where
  "live_over hp p n = \<lparr>lo_parent = Some p, lo_ancestor_data = map ((!) (hp_data hp)) (take n (ov_ancestor_data p)),
     lo_min_seqn = ov_seqn p - n\<rparr>"

lemma live_over_simps [simp]:
  "lo_parent (live_over hp p n) = Some p" "lo_min_seqn (live_over hp p n) = ov_seqn p - n"
  "lo_ancestor_data (live_over hp p n) = map ((!) (hp_data hp)) (take n (ov_ancestor_data p))"
  by (simp_all add: live_over_def)

lemma match_ancestors_spec:
  "match_ancestors hp xs = Inr ds \<Longrightarrow>
   ds = map (\<lambda>x. hp_data hp ! snd x) xs \<and> (\<forall>(ov, i)\<in>set xs. i < length (hp_data hp) \<and> hp_alive hp ! i \<and> da_id (ov_data ov) = da_id (hp_data hp ! i))"
proof (induction xs arbitrary: ds)
  case (Cons x xs)
  obtain ov i where x: "x = (ov, i)" by (cases x)
  show ?case
  proof (cases "match_ancestors hp xs")
    case (Inl e)
    then show ?thesis using Cons.prems x by (auto split: option.splits if_splits)
  next
    case (Inr ds')
    then show ?thesis using Cons.IH[OF Inr] Cons.prems x
      by (auto simp: upgrade_def split: option.splits if_splits)
  qed
qed simp

lemma match_ancestors_data:
  assumes "match_ancestors hp (zip rest ids) = Inr ds"
  shows "ds = map ((!) (hp_data hp)) (take (min (length rest) (length ids)) ids)"
  using match_ancestors_spec[OF assms] map_snd_zip_take[of rest ids] by (metis (no_types, lifting) comp_apply list.map_comp map_eq_conv)

text \<open>What accepting ancestors comes down to.\<close>
lemma live_overlay_new_eq:
  assumes "overlay_ok hp p"
  defines "n \<equiv> \<lambda>rest. min (length rest) (length (ov_ancestor_data p))"
  shows "live_overlay_new hp (p # rest) =
    (case match_ancestors hp (zip rest (ov_ancestor_data p)) of
       Inl e \<Rightarrow> Some (Inl e)
     | Inr _ \<Rightarrow> if (case da_parent_status (chain_of hp p ! n rest) of None \<Rightarrow> False | Some st \<Rightarrow> \<not> is_committed hp st)
         then Some (Inl Incomplete) else Some (Inr (live_over hp p (n rest))))"
proof (cases "match_ancestors hp (zip rest (ov_ancestor_data p))")
  case (Inr ds)
  have d: "ds = map ((!) (hp_data hp)) (take (n rest) (ov_ancestor_data p))" "length ds = n rest"
    unfolding match_ancestors_data[OF Inr] n_def by simp_all
  have ns: "n rest \<le> ov_seqn p" using overlay_okD(3)[OF assms(1)] unfolding n_def by simp
  have oldest: "(if ds = [] then ov_data p else last ds) = chain_of hp p ! n rest"
  proof (cases "n rest")
    case 0
    then show ?thesis using d overlay_okD(2)[OF assms(1)] by (simp add: chain_of_def chain_ids_def)
  next
    case (Suc n')
    have n': "n' < length (ov_ancestor_data p)" using Suc unfolding n_def by (metis Suc_le_lessD min.cobounded2)
    have ne: "ds \<noteq> []" using d(2) Suc by auto
    hence "last ds = ds ! n'" using d(2) Suc by (simp add: last_conv_nth)
    also have "\<dots> = hp_data hp ! (ov_ancestor_data p ! n')" unfolding d(1) using n' Suc by simp
    finally show ?thesis using ne n' Suc by (simp add: chain_of_def chain_ids_def)
  qed
  have lo: "live_over hp p (n rest) = \<lparr>lo_parent = Some p, lo_ancestor_data = ds, lo_min_seqn = ov_seqn p - length ds\<rparr>"
    unfolding live_over_def d(2) by (simp add: d(1))
  show ?thesis unfolding live_overlay_new_def list.case Inr sum.case Let_def oldest lo using ns d(2) by simp
qed (simp add: live_overlay_new_def)

lemma live_overlay_new_spec:
  assumes "live_overlay_new hp (p # rest) = Some (Inr lo)" "heap_ok hp" "overlay_ok hp p"
  defines "n \<equiv> min (length rest) (length (ov_ancestor_data p))"
  shows "lo = live_over hp p n" "map (\<lambda>ov. da_id (ov_data ov)) (take n rest) = take n (ov_ancestor_data p)"
proof -
  note new = assms(1)[unfolded live_overlay_new_eq[OF assms(3)], folded n_def]
  thus "lo = live_over hp p n" by (auto split: sum.splits if_splits)
  obtain ds where "match_ancestors hp (zip rest (ov_ancestor_data p)) = Inr ds" using new by (auto split: sum.splits)
  note sp = match_ancestors_spec[OF this]
  have z: "map snd (zip rest (ov_ancestor_data p)) = take n (ov_ancestor_data p)"
    "map fst (zip rest (ov_ancestor_data p)) = take n rest" unfolding n_def by (simp_all add: map_snd_zip_take map_fst_zip_take)
  have "map (\<lambda>x. da_id (ov_data (fst x))) (zip rest (ov_ancestor_data p)) = map snd (zip rest (ov_ancestor_data p))"
    using sp assms(2) by (auto simp: heap_ok_def)
  thus "map (\<lambda>ov. da_id (ov_data ov)) (take n rest) = take n (ov_ancestor_data p)"
    using z by (metis (no_types, lifting) list.map_comp comp_apply map_eq_conv)
qed

section \<open>Looking up\<close>

text \<open>The newest change of a key in a chain of maps.\<close>
fun newest_change :: "('k \<times> 'v) list list \<Rightarrow> 'k \<Rightarrow> 'v option" where
  "newest_change [] k = None"
| "newest_change (d # ds) k = (case map_of d k of Some v \<Rightarrow> Some v | None \<Rightarrow> newest_change ds k)"

abbreviation keys_of :: "('k \<times> 'v) list \<Rightarrow> 'k set" where "keys_of d \<equiv> fst ` set d"

lemma newest_change_index:
  assumes "length ds \<le> s + 1"
  shows "newest_change (take (Suc n) ds) k =
      (case newest_seqn s (map keys_of ds) k of None \<Rightarrow> None | Some t \<Rightarrow> if s - t \<le> n then map_of (ds ! (s - t)) k else None)"
    "newest_seqn s (map keys_of ds) k = Some t \<Longrightarrow> map_of (ds ! (s - t)) k \<noteq> None"
  using assms
proof (induction ds arbitrary: s n t)
  case (Cons d ds)
  case 1
  show ?case
  proof (cases "map_of d k")
    case None
    hence k: "k \<notin> keys_of d" by (simp add: map_of_eq_None_iff)
    show ?thesis
    proof (cases "newest_seqn (s - 1) (map keys_of ds) k")
      case (Some t)
      hence s: "s \<ge> 1" "length ds \<le> s - 1 + 1" using 1 by (cases ds; cases s; simp)+
      have t: "t \<le> s - 1" using newest_seqn_bound[OF Some] s(2) by simp
      have st: "s - t = Suc (s - 1 - t)" using s(1) t by simp
      show ?thesis
      proof (cases n)
        case 0
        then show ?thesis using None k Some st by simp
      next
        case (Suc n')
        then show ?thesis using Cons.IH(1)[OF s(2), of n'] None k Some st by simp
      qed
    next
      case r: None
      have "newest_change (take n ds) k = None"
      proof (cases n)
        case (Suc n')
        have "length ds \<le> s - 1 + 1" using 1 by simp
        then show ?thesis using Cons.IH(1)[of "s - 1" n'] r Suc by simp
      qed simp
      then show ?thesis using None k r by simp
    qed
  next
    case (Some v)
    hence "k \<in> keys_of d" by (metis map_of_eq_None_iff option.distinct(1))
    then show ?thesis using Some by simp
  qed
next
  case (Cons d ds)
  case 2
  show ?case
  proof (cases "k \<in> keys_of d")
    case True
    then show ?thesis using 2 by (auto simp: map_of_eq_None_iff)
  next
    case False
    hence r: "newest_seqn (s - 1) (map keys_of ds) k = Some t" using 2 by simp
    hence s: "s \<ge> 1" "length ds \<le> s - 1 + 1" using 2 by (cases ds; cases s; simp)+
    have "t \<le> s - 1" using newest_seqn_bound[OF r] s(2) by simp
    hence "s - t = Suc (s - 1 - t)" using s(1) by simp
    then show ?thesis using Cons.IH(2)[OF r s(2)] by simp
  qed
qed simp_all

lemma data_at_live:
  assumes "overlay_ok hp p" "n \<le> length (ov_ancestor_data p)" "diff \<le> n"
  shows "data_at (live_over hp p n) diff = Some (chain_of hp p ! (n - diff))"
proof (cases "diff = n")
  case True
  then show ?thesis using assms overlay_okD(2)[OF assms(1)]
    by (simp add: data_at_def live_over_def chain_of_def chain_ids_def)
next
  case False
  hence "n - diff = Suc (n - diff - 1)" "n - diff - 1 < n" using assms(3) by simp_all
  then show ?thesis using assms(2,3) False
    by (simp add: data_at_def live_over_def chain_of_def chain_ids_def get_at_def)
qed

text \<open>The offset of the newest change within the live part of the chain.\<close>
lemma chain_lookup:
  assumes ok: "overlay_ok hp p" and n: "n \<le> length (ov_ancestor_data p)"
    and ix: "index_ok (ov_seqn p) m v (map (\<lambda>d. keys_of (f d)) (chain_of hp p))"
  shows "newest_change (map f (take (Suc n) (chain_of hp p))) k =
     (case Option.bind (map_of m k) (\<lambda>s. checked_sub s (ov_seqn p - n)) of
        None \<Rightarrow> None | Some diff \<Rightarrow> Option.bind (data_at (live_over hp p n) diff) (\<lambda>d. map_of (f d) k))"
    "Option.bind (map_of m k) (\<lambda>s. checked_sub s (ov_seqn p - n)) = Some diff \<Longrightarrow>
     \<exists>d. data_at (live_over hp p n) diff = Some d \<and> map_of (f d) k \<noteq> None"
proof -
  let ?s = "ov_seqn p" and ?ds = "map f (chain_of hp p)"
  have len: "length ?ds \<le> ?s + 1" "length (map (\<lambda>d. keys_of (f d)) (chain_of hp p)) \<le> ?s + 1"
    using overlay_okD(3)[OF ok] by (simp_all add: chain_of_def chain_ids_def)
  have ns: "n \<le> ?s" using n overlay_okD(3)[OF ok] by simp
  have m: "map_of m k = newest_seqn ?s (map keys_of ?ds) k" using ix by (simp add: index_ok_def comp_def)
  have at: "data_at (live_over hp p n) (t - (?s - n)) = Some (chain_of hp p ! (?s - t))" "?s - t < length (chain_of hp p)"
    if "map_of m k = Some t" "?s - n \<le> t" for t
  proof -
    have "t \<le> ?s" using newest_seqn_bound[OF that(1)[unfolded m]] len by simp
    hence "t - (?s - n) \<le> n" "n - (t - (?s - n)) = ?s - t" "?s - t \<le> n" using that(2) ns by simp_all
    thus "data_at (live_over hp p n) (t - (?s - n)) = Some (chain_of hp p ! (?s - t))" "?s - t < length (chain_of hp p)"
      using data_at_live[OF ok n] n by (simp_all add: chain_of_def chain_ids_def)
  qed
  have le: "?s - t \<le> n \<longleftrightarrow> ?s - n \<le> t" for t using ns by auto
  show "newest_change (map f (take (Suc n) (chain_of hp p))) k =
     (case Option.bind (map_of m k) (\<lambda>s. checked_sub s (?s - n)) of
        None \<Rightarrow> None | Some diff \<Rightarrow> Option.bind (data_at (live_over hp p n) diff) (\<lambda>d. map_of (f d) k))"
    using newest_change_index(1)[OF len(1), of n k] at le unfolding take_map[symmetric] m[symmetric]
    by (auto simp: checked_sub_def split: option.split)
  show "\<exists>d. data_at (live_over hp p n) diff = Some d \<and> map_of (f d) k \<noteq> None"
    if diff: "Option.bind (map_of m k) (\<lambda>s. checked_sub s (?s - n)) = Some diff"
  proof -
    obtain t where t: "map_of m k = Some t" "?s - n \<le> t" "diff = t - (?s - n)"
      using diff by (auto simp: bind_eq_Some_conv checked_sub_def split: if_splits)
    thus ?thesis using at[OF t(1,2)] newest_change_index(2)[OF len(1) t(1)[unfolded m]] by simp
  qed
qed

lemma live_value:
  assumes "overlay_ok hp p" "n \<le> length (ov_ancestor_data p)"
  shows "lo_value (live_over hp p n) k = Some (newest_change (map da_values (take (Suc n) (chain_of hp p))) k)"
proof -
  note ix = overlay_okD(4)[OF assms(1), unfolded value_keys_def]
  let ?b = "Option.bind (map_of (ix_values (ov_index p)) k) (\<lambda>s. checked_sub s (ov_seqn p - n))"
  have "lo_value (live_over hp p n) k = (case ?b of None \<Rightarrow> Some None
      | Some diff \<Rightarrow> map_option Some (Option.bind (data_at (live_over hp p n) diff) (\<lambda>d. map_of (da_values d) k)))"
    by (simp add: lo_value_def value_inner_def split: option.split)
  thus ?thesis unfolding chain_lookup(1)[OF assms ix]
    using chain_lookup(2)[OF assms ix, of k] by (cases ?b) auto
qed

lemma live_page:
  assumes "overlay_ok hp p" "n \<le> length (ov_ancestor_data p)"
  shows "lo_page (live_over hp p n) k = Some (newest_change (map da_pages (take (Suc n) (chain_of hp p))) k)"
proof -
  note ix = overlay_okD(5)[OF assms(1), unfolded page_keys_def]
  let ?b = "Option.bind (map_of (ix_pages (ov_index p)) k) (\<lambda>s. checked_sub s (ov_seqn p - n))"
  have "lo_page (live_over hp p n) k = (case ?b of None \<Rightarrow> Some None
      | Some diff \<Rightarrow> map_option Some (Option.bind (data_at (live_over hp p n) diff) (\<lambda>d. map_of (da_pages d) k)))"
    by (auto simp: lo_page_def map_option_bind split: option.split bind_split)
  thus ?thesis unfolding chain_lookup(1)[OF assms ix]
    using chain_lookup(2)[OF assms ix, of k] by (cases ?b) auto
qed


text \<open>The iterator over a range of keys gives the newest changes in the order of the keys.\<close>
lemma those_map: "\<forall>x\<in>set xs. f x = Some (g x) \<Longrightarrow> those (map f xs) = Some (map g xs)"
  by (induction xs) auto

lemma takeWhile_sorted:
  "sorted (map fst xs) \<Longrightarrow> takeWhile (\<lambda>(k, _). case e of None \<Rightarrow> True | Some e \<Rightarrow> e > k) xs =
     filter (\<lambda>(k, _). case e of None \<Rightarrow> True | Some e \<Rightarrow> e > k) xs"
proof (induction xs)
  case (Cons x xs)
  let ?P = "\<lambda>(k, _). case e of None \<Rightarrow> True | Some e \<Rightarrow> e > k"
  show ?case
  proof (cases "?P x")
    case False
    hence "\<not> ?P y" if "y \<in> set xs" for y using Cons.prems that by (cases x; cases y) (fastforce split: option.splits)
    then show ?thesis using False by (simp add: filter_empty_conv)
  qed (use Cons in simp)
qed simp

lemma set_map_filter: "x \<in> set (List.map_filter f xs) \<longleftrightarrow> (\<exists>y\<in>set xs. f y = Some x)"
  by (induction xs) (auto simp: map_filter_simps split: option.splits)

lemma sorted_map_filter:
  "sorted_wrt (<) (map fst xs) \<Longrightarrow> sorted_wrt (<) (map fst (List.map_filter (\<lambda>(k, s). map_option (Pair k) (g s)) xs))"
proof (induction xs)
  case (Cons x xs)
  have "fst x < fst y" if "y \<in> set (List.map_filter (\<lambda>(k, s). map_option (Pair k) (g s)) xs)" for y
    using that Cons.prems by (force simp: set_map_filter)
  then show ?case using Cons by (cases x) (auto simp: map_filter_simps split: option.split)
qed (simp add: map_filter_simps)

lemma live_value_iter:
  assumes ok: "overlay_ok hp p" and n: "n \<le> length (ov_ancestor_data p)"
  obtains xs where "value_iter (live_over hp p n) start e = Some xs" "sorted_wrt (<) (map fst xs)"
    "\<forall>k c. (k, c) \<in> set xs \<longleftrightarrow> start \<le> k \<and> (case e of None \<Rightarrow> True | Some e \<Rightarrow> k < e) \<and>
       newest_change (map da_values (take (Suc n) (chain_of hp p))) k = Some c"
proof -
  let ?m = "ix_values (ov_index p)" and ?new = "newest_change (map da_values (take (Suc n) (chain_of hp p)))"
  let ?lo = "live_over hp p n" and ?mn = "ov_seqn p - n"
  note ix = overlay_okD(4)[OF ok, unfolded value_keys_def]
  have dist: "distinct (map fst ?m)" using ix by (simp add: index_ok_def)
  let ?R = "\<lambda>k. start \<le> k \<and> (case e of None \<Rightarrow> True | Some e \<Rightarrow> e > k)"
  let ?ys = "filter (\<lambda>(k, _). ?R k) (sort_key fst ?m)"
  let ?zs = "List.map_filter (\<lambda>(k, seqn). map_option (Pair k) (checked_sub seqn ?mn)) ?ys"
  have "sorted (map fst (filter (\<lambda>(k, _). start \<le> k) (sort_key fst ?m)))" by (rule sorted_filter) simp
  from takeWhile_sorted[OF this, of e]
  have tw: "takeWhile (\<lambda>(k, _). case e of None \<Rightarrow> True | Some e \<Rightarrow> e > k) (filter (\<lambda>(k, _). start \<le> k) (sort_key fst ?m)) = ?ys"
    unfolding filter_filter by (auto intro!: filter_cong)
  have zs: "(k, diff) \<in> set ?zs \<longleftrightarrow> ?R k \<and> Option.bind (map_of ?m k) (\<lambda>s. checked_sub s ?mn) = Some diff" for k diff
    unfolding set_map_filter using dist by (auto simp: bind_eq_Some_conv)
  have "\<exists>c. value_inner ?lo k diff = Some c \<and> ?new k = Some c" if "(k, diff) \<in> set ?zs" for k diff
  proof -
    have b: "Option.bind (map_of ?m k) (\<lambda>s. checked_sub s ?mn) = Some diff" using zs that by blast
    obtain d where d: "data_at ?lo diff = Some d" "map_of (da_values d) k \<noteq> None" using chain_lookup(2)[OF ok n ix b] by blast
    thus ?thesis using chain_lookup(1)[OF ok n ix, of k] b by (auto simp: value_inner_def)
  qed
  hence "\<forall>x\<in>set ?zs. (\<lambda>(k, d). map_option (Pair k) (value_inner ?lo k d)) x = Some ((\<lambda>x. (fst x, the (?new (fst x)))) x)" by fastforce
  hence it: "value_iter ?lo start e = Some (map (\<lambda>x. (fst x, the (?new (fst x)))) ?zs)"
    using those_map[of ?zs] by (simp add: value_iter_def tw)
  show thesis
  proof (rule that[OF it])
    have "sorted_wrt (<) (map fst (sort_key fst ?m))"
      using dist by (simp add: strict_sorted_iff distinct_map)
    hence "sorted_wrt (<) (map fst ?ys)" by (simp add: sorted_wrt_map sorted_wrt_filter)
    from sorted_map_filter[OF this] show "sorted_wrt (<) (map fst (map (\<lambda>x. (fst x, the (?new (fst x)))) ?zs))"
      by (simp add: comp_def)
    show "\<forall>k c. (k, c) \<in> set (map (\<lambda>x. (fst x, the (?new (fst x)))) ?zs) \<longleftrightarrow> start \<le> k \<and> (case e of None \<Rightarrow> True | Some e \<Rightarrow> k < e) \<and> ?new k = Some c"
    proof (intro allI)
      fix k c
      have "(k, c) \<in> set (map (\<lambda>x. (fst x, the (?new (fst x)))) ?zs) \<longleftrightarrow> (\<exists>diff. (k, diff) \<in> set ?zs) \<and> c = the (?new k)" by force
      also have "\<dots> \<longleftrightarrow> ?R k \<and> ?new k = Some c"
        unfolding zs chain_lookup(1)[OF ok n ix, of k] using chain_lookup(2)[OF ok n ix, of k] by (auto split: option.splits)
      finally show "(k, c) \<in> set (map (\<lambda>x. (fst x, the (?new (fst x)))) ?zs) \<longleftrightarrow> start \<le> k \<and> (case e of None \<Rightarrow> True | Some e \<Rightarrow> k < e) \<and> ?new k = Some c"
        by simp
    qed
  qed
qed

section \<open>Freezing an overlay\<close>

lemma overlay_ok_heap:
  assumes "overlay_ok hp ov" "length (hp_data hp) \<le> length (hp_data hp')" "\<forall>i<length (hp_data hp). hp_data hp' ! i = hp_data hp ! i"
  shows "overlay_ok hp' ov"
proof -
  have ids: "\<forall>i\<in>set (chain_ids ov). i < length (hp_data hp)" by (rule overlay_okD(1)[OF assms(1)])
  hence "chain_of hp' ov = chain_of hp ov" using assms(3) by (simp add: chain_of_def)
  moreover have "da_id (ov_data ov) < length (hp_data hp)" using ids by (simp add: chain_ids_def)
  ultimately show ?thesis using assms ids unfolding overlay_ok_def by (auto intro: less_le_trans)
qed

lemma nth_append_old: "\<forall>i<length xs. (xs @ [x]) ! i = xs ! i"
  by (simp add: nth_append)

text \<open>The part of the index for one kind of key after freezing.\<close>
lemma index_ok_finish:
  assumes "index_ok s m v Ks" "length Ks \<le> s + 1" "n \<le> s" "prune_loop (s - n) v m = (v1, m1)"
    "insert_keys (Suc s) ks v1 m1 = (v2, m2)"
  shows "index_ok (Suc s) m2 v2 (set ks # take (Suc n) Ks)"
  by (rule index_ok_insert[OF index_ok_prune[OF assms(1-4)] assms(5)])

lemma finish_child:
  assumes hp: "heap_ok hp" and p: "overlay_ok hp p" and n: "n \<le> length (ov_ancestor_data p)"
    and fin: "lo_finish (live_over hp p n) hp prev_root root pages values delta = Some (ov, hp')"
  shows "heap_ok hp'" "overlay_ok hp' ov" "chain_of hp' ov = ov_data ov # take (Suc n) (chain_of hp p)"
    "hp_data hp' = hp_data hp @ [ov_data ov]" "da_values (ov_data ov) = values" "da_pages (ov_data ov) = pages"
proof -
  let ?s = "ov_seqn p" and ?ix = "ov_index p"
  obtain pv pm where pp: "prune_loop (?s - n) (ix_pages_by_seqn ?ix) (ix_pages ?ix) = (pv, pm)" by (meson surj_pair)
  obtain vv vm where vp: "prune_loop (?s - n) (ix_values_by_seqn ?ix) (ix_values ?ix) = (vv, vm)" by (meson surj_pair)
  obtain pv2 pm2 where pi: "insert_keys (Suc ?s) (map fst pages) pv pm = (pv2, pm2)" by (meson surj_pair)
  obtain vv2 vm2 where vi: "insert_keys (Suc ?s) (map fst values) vv vm = (vv2, vm2)" by (meson surj_pair)
  let ?d = "\<lparr>da_id = length (hp_data hp), da_pages = pages, da_values = values, da_parent_status = Some (da_id (ov_data p))\<rparr>"
  let ?ids = "take n (ov_ancestor_data p)"
  have old: "\<forall>i\<in>set (chain_ids p). i < length (hp_data hp)" by (rule overlay_okD(1)[OF p])
  hence "map da_id (map ((!) (hp_data hp)) ?ids) = ?ids"
    using hp by (auto simp: heap_ok_def chain_ids_def dest!: in_set_takeD intro!: map_idI)
  hence ov: "ov_data ov = ?d" "ov_seqn ov = Suc ?s" "ov_ancestor_data ov = take (Suc n) (chain_ids p)"
    "ix_values (ov_index ov) = vm2" "ix_values_by_seqn (ov_index ov) = vv2"
    "ix_pages (ov_index ov) = pm2" "ix_pages_by_seqn (ov_index ov) = pv2"
    and hp': "hp_data hp' = hp_data hp @ [?d]" "hp_alive hp' = hp_alive hp @ [True]" "hp_status hp' = hp_status hp @ [Live]"
    using fin pp vp pi vi
    by (auto simp: lo_finish_def Let_def bind_eq_Some_conv prune_below_def insert_pages_def insert_values_def chain_ids_def)
  show "hp_data hp' = hp_data hp @ [ov_data ov]" "da_values (ov_data ov) = values" "da_pages (ov_data ov) = pages"
    using hp' ov by simp_all
  show "heap_ok hp'" using hp unfolding heap_ok_def hp' by (auto simp: nth_append less_Suc_eq)
  have ids: "chain_ids ov = length (hp_data hp) # take (Suc n) (chain_ids p)" using ov by (simp add: chain_ids_def)
  have "chain_of hp' ov = ?d # map ((!) (hp_data hp')) (take (Suc n) (chain_ids p))" by (simp add: chain_of_def ids hp')
  also have "map ((!) (hp_data hp')) (take (Suc n) (chain_ids p)) = take (Suc n) (chain_of hp p)"
    unfolding chain_of_def take_map using old by (auto simp: hp' nth_append dest!: in_set_takeD)
  finally have ch: "chain_of hp' ov = ?d # take (Suc n) (chain_of hp p)" .
  thus "chain_of hp' ov = ov_data ov # take (Suc n) (chain_of hp p)" using ov by simp
  have len: "length (map value_keys (chain_of hp p)) \<le> ?s + 1" "length (map page_keys (chain_of hp p)) \<le> ?s + 1" "n \<le> ?s"
    using overlay_okD(3)[OF p] n by (simp_all add: chain_of_def chain_ids_def)
  have "index_ok (Suc ?s) vm2 vv2 (map value_keys (chain_of hp' ov))"
    using index_ok_finish[OF overlay_okD(4)[OF p] len(1,3) vp vi] by (simp add: ch value_keys_def take_map)
  moreover have "index_ok (Suc ?s) pm2 pv2 (map page_keys (chain_of hp' ov))"
    using index_ok_finish[OF overlay_okD(5)[OF p] len(2,3) pp pi] by (simp add: ch page_keys_def take_map)
  moreover have "da_parent_status (chain_of hp' ov ! j) = Some (chain_ids ov ! Suc j)" if "Suc j < length (chain_ids ov)" for j
  proof (cases j)
    case 0
    then show ?thesis unfolding ch ids by (simp add: chain_ids_def)
  next
    case (Suc i)
    hence i: "Suc i < length (chain_ids p)" "Suc i < Suc n" "i < length (chain_of hp p)" using that unfolding ids by (auto simp: chain_of_def)
    then show ?thesis using overlay_okD(6)[OF p i(1)] Suc unfolding ch ids by simp
  qed
  moreover have "\<forall>i\<in>set (chain_ids ov). i < length (hp_data hp')" using old unfolding ids hp' by (auto dest!: in_set_takeD intro: less_SucI)
  moreover have "length (ov_ancestor_data ov) \<le> ov_seqn ov" using n len(3) ov by simp
  ultimately show "overlay_ok hp' ov" unfolding overlay_ok_def ov by (auto simp: hp' nth_append)
qed

definition live_empty :: "'p live_overlay" where
  "live_empty = \<lparr>lo_parent = None, lo_ancestor_data = [], lo_min_seqn = 0\<rparr>"

lemma finish_root:
  assumes hp: "heap_ok hp" and fin: "lo_finish live_empty hp prev_root root pages values delta = Some (ov, hp')"
  shows "heap_ok hp'" "overlay_ok hp' ov" "hp_data hp' = hp_data hp @ [ov_data ov]"
proof -
  obtain pv pm where pi: "insert_keys 0 (map fst pages) [] [] = (pv, pm)" by (meson surj_pair)
  obtain vv vm where vi: "insert_keys 0 (map fst values) [] [] = (vv, vm)" by (meson surj_pair)
  let ?d = "\<lparr>da_id = length (hp_data hp), da_pages = pages, da_values = values, da_parent_status = None\<rparr>"
  have ov: "ov_data ov = ?d" "ov_seqn ov = 0" "ov_ancestor_data ov = []"
    "ix_values (ov_index ov) = vm" "ix_values_by_seqn (ov_index ov) = vv"
    "ix_pages (ov_index ov) = pm" "ix_pages_by_seqn (ov_index ov) = pv"
    and hp': "hp_data hp' = hp_data hp @ [?d]" "hp_alive hp' = hp_alive hp @ [True]" "hp_status hp' = hp_status hp @ [Live]"
    using fin pi vi
    by (auto simp: lo_finish_def Let_def live_empty_def prune_below_def insert_pages_def insert_values_def index_default_def)
  show "hp_data hp' = hp_data hp @ [ov_data ov]" using hp' ov by simp
  show "heap_ok hp'" using hp unfolding heap_ok_def hp' by (auto simp: nth_append less_Suc_eq)
  have "chain_of hp' ov = [?d]" "chain_ids ov = [length (hp_data hp)]" by (simp_all add: chain_of_def chain_ids_def ov hp')
  thus "overlay_ok hp' ov" using index_ok_first[OF vi] index_ok_first[OF pi]
    by (simp add: overlay_ok_def ov value_keys_def page_keys_def hp')
qed


section \<open>Sessions, overlays and commits in any order\<close>

text \<open>The state: the database, the overlays the user holds, and the live overlays of sessions.
  Sessions begin on any overlays and are frozen later; overlays are committed, whether it succeeds
  or not, or let go; data without a strong reference is dropped.\<close>
inductive overlays_reach :: "'p nomt \<Rightarrow> 'p overlay set \<Rightarrow> 'p live_overlay set \<Rightarrow> bool" where
  start: "nt_heap nt = \<lparr>hp_data = [], hp_alive = [], hp_status = []\<rparr> \<Longrightarrow> nt_last_commit_marker nt = None \<Longrightarrow>
    overlays_reach nt {} {}"
| session: "overlays_reach nt ovs los \<Longrightarrow> set ancestors \<subseteq> ovs \<Longrightarrow> live_overlay_new (nt_heap nt) ancestors = Some (Inr lo) \<Longrightarrow>
    overlays_reach nt ovs (insert lo los)"
| freeze: "overlays_reach nt ovs los \<Longrightarrow> lo \<in> los \<Longrightarrow>
    lo_finish lo (nt_heap nt) prev_root root pages values delta = Some (ov, hp) \<Longrightarrow>
    overlays_reach (nt\<lparr>nt_heap := hp\<rparr>) (insert ov ovs) (los - {lo})"
| commit: "overlays_reach nt ovs los \<Longrightarrow> ov \<in> ovs \<Longrightarrow> overlay_commit nt ov = (res, nt') \<Longrightarrow>
    overlays_reach nt' (ovs - {ov}) los"
| commit_session: "overlays_reach nt ovs los \<Longrightarrow> session_commit nt prev_root root values pages delta = (res, nt') \<Longrightarrow>
    overlays_reach nt' ovs los"
| let_go: "overlays_reach nt ovs los \<Longrightarrow> overlays_reach nt (ovs - gone) (los - gone')"
| drop_last: "overlays_reach nt ovs los \<Longrightarrow> \<forall>ov\<in>ovs. da_id (ov_data ov) \<noteq> i \<Longrightarrow>
    \<forall>lo\<in>los. \<forall>d\<in>set (lo_ancestor_data lo). da_id d \<noteq> i \<Longrightarrow> \<forall>lo\<in>los. \<forall>p. lo_parent lo = Some p \<longrightarrow> da_id (ov_data p) \<noteq> i \<Longrightarrow>
    overlays_reach (nt\<lparr>nt_heap := drop_data i (nt_heap nt)\<rparr>) ovs los"

definition live_ok :: "'p overlay_heap \<Rightarrow> 'p live_overlay \<Rightarrow> bool" where
  "live_ok hp lo \<longleftrightarrow> lo = live_empty \<or> (\<exists>p n. overlay_ok hp p \<and> n \<le> length (ov_ancestor_data p) \<and> lo = live_over hp p n)"

lemma live_ok_heap:
  assumes "live_ok hp lo" "length (hp_data hp) \<le> length (hp_data hp')" "\<forall>i<length (hp_data hp). hp_data hp' ! i = hp_data hp ! i"
  shows "live_ok hp' lo"
proof (cases "lo = live_empty")
  case False
  then obtain p n where p: "overlay_ok hp p" "n \<le> length (ov_ancestor_data p)" "lo = live_over hp p n"
    using assms(1) unfolding live_ok_def by blast
  have "lo = live_over hp' p n" unfolding p(3) live_over_def
    using overlay_okD(1)[OF p(1)] assms(3) by (auto simp: chain_ids_def dest!: in_set_takeD)
  then show ?thesis using overlay_ok_heap[OF p(1) assms(2,3)] p(2) unfolding live_ok_def by blast
qed (simp add: live_ok_def)

lemma heap_kept:
  "hp_data (nt_heap (store_commit nt values pages d)) = hp_data (nt_heap nt)"
  "hp_data (drop_data i hp) = hp_data hp" "heap_ok (drop_data i hp) = heap_ok hp"
  by (simp_all add: store_commit_def drop_data_def heap_ok_def)

lemma commit_heap:
  assumes "overlay_commit nt ov = (res, nt')"
  shows "hp_data (nt_heap nt') = hp_data (nt_heap nt)" "heap_ok (nt_heap nt') = heap_ok (nt_heap nt)"
    "hp_alive (nt_heap nt') = hp_alive (nt_heap nt)"
  using assms by (auto simp: overlay_commit_def Let_def mark_committed_def store_commit_def heap_ok_def split: if_splits)

lemma session_commit_heap: "session_commit nt a b v p d = (res, nt') \<Longrightarrow> nt_heap nt' = nt_heap nt"
  by (auto simp: session_commit_def store_commit_def split: if_splits)

lemma same_data_ok:
  assumes "hp_data hp' = hp_data hp"
  shows "overlay_ok hp ov \<Longrightarrow> overlay_ok hp' ov" "live_ok hp lo \<Longrightarrow> live_ok hp' lo"
  using overlay_ok_heap[of hp ov hp'] live_ok_heap[of hp lo hp'] assms by simp_all

lemma new_live_ok:
  assumes "live_overlay_new hp as = Some (Inr lo)" "heap_ok hp" "\<forall>ov\<in>set as. overlay_ok hp ov"
  shows "live_ok hp lo"
proof (cases as)
  case Nil
  then show ?thesis using assms(1) by (auto simp: live_overlay_new_def live_ok_def live_empty_def)
next
  case (Cons p rest)
  then show ?thesis using live_overlay_new_spec(1)[of hp p rest lo] assms unfolding live_ok_def
    by (metis list.set_intros(1) min.cobounded2)
qed

lemma finish_live_ok:
  assumes "lo_finish lo hp pr r pages values d = Some (ov, hp')" "heap_ok hp" "live_ok hp lo"
  shows "heap_ok hp'" "overlay_ok hp' ov" "\<exists>x. hp_data hp' = hp_data hp @ [x]"
proof -
  consider "lo = live_empty" | p n where "overlay_ok hp p" "n \<le> length (ov_ancestor_data p)" "lo = live_over hp p n"
    using assms(3) unfolding live_ok_def by blast
  hence "heap_ok hp' \<and> overlay_ok hp' ov \<and> (\<exists>x. hp_data hp' = hp_data hp @ [x])"
  proof cases
    case 1
    show ?thesis using finish_root[OF assms(2) assms(1)[unfolded 1]] by auto
  next
    case 2
    show ?thesis using finish_child[OF assms(2) 2(1,2) assms(1)[unfolded 2(3)]] by auto
  qed
  thus "heap_ok hp'" "overlay_ok hp' ov" "\<exists>x. hp_data hp' = hp_data hp @ [x]" by blast+
qed

lemma reach_ok:
  "overlays_reach nt ovs los \<Longrightarrow>
   heap_ok (nt_heap nt) \<and> (\<forall>ov\<in>ovs. overlay_ok (nt_heap nt) ov) \<and> (\<forall>lo\<in>los. live_ok (nt_heap nt) lo)"
proof (induction rule: overlays_reach.induct)
  case (start nt)
  then show ?case by (simp add: heap_ok_def)
next
  case (session nt ovs los ancestors lo)
  then show ?case using new_live_ok[OF session.hyps(3)] by blast
next
  case (freeze nt ovs los lo prev_root root pages "values" delta ov hp)
  note f = finish_live_ok[OF freeze.hyps(3)]
  obtain x where x: "hp_data hp = hp_data (nt_heap nt) @ [x]" using f freeze by blast
  hence "length (hp_data (nt_heap nt)) \<le> length (hp_data hp)" "\<forall>i<length (hp_data (nt_heap nt)). hp_data hp ! i = hp_data (nt_heap nt) ! i"
    by (simp_all add: nth_append)
  then show ?case using freeze f(1,2) overlay_ok_heap[of "nt_heap nt" _ hp] live_ok_heap[of "nt_heap nt" _ hp] by auto
next
  case (commit nt ovs los ov res nt')
  then show ?case using commit_heap[OF commit.hyps(3)] same_data_ok[of "nt_heap nt'" "nt_heap nt"] by blast
next
  case (commit_session nt ovs los prev_root root "values" pages delta res nt')
  then show ?case using session_commit_heap by metis
next
  case (let_go nt ovs los gone gone')
  then show ?case by blast
next
  case (drop_last nt ovs los i)
  then show ?case using same_data_ok[of "drop_data i (nt_heap nt)" "nt_heap nt"] by (simp add: heap_kept)
qed


text \<open>The live part of the chain is the overlays that were given.\<close>
lemma live_chain:
  assumes ok: "heap_ok hp" "\<forall>ov\<in>set (p # rest). overlay_ok hp ov" and new: "live_overlay_new hp (p # rest) = Some (Inr lo)"
  defines "n \<equiv> min (length rest) (length (ov_ancestor_data p))"
  shows "lo = live_over hp p n" "n \<le> length (ov_ancestor_data p)" "overlay_ok hp p"
    "take (Suc n) (chain_of hp p) = map ov_data (take (Suc (length (ov_ancestor_data p))) (p # rest))"
proof -
  show p: "overlay_ok hp p" using ok(2) by simp
  note sp = live_overlay_new_spec[OF new ok(1) p, folded n_def]
  show "lo = live_over hp p n" "n \<le> length (ov_ancestor_data p)" by (rule sp(1)) (simp add: n_def)
  have "map ((!) (hp_data hp)) (take n (ov_ancestor_data p)) = map (\<lambda>ov. hp_data hp ! da_id (ov_data ov)) (take n rest)"
    unfolding sp(2)[symmetric] by simp
  also have "\<dots> = map ov_data (take n rest)"
    using ok(2) by (auto dest!: in_set_takeD intro: overlay_okD(2))
  also have "take n rest = take (length (ov_ancestor_data p)) rest" unfolding n_def by (simp add: min_def)
  finally show "take (Suc n) (chain_of hp p) = map ov_data (take (Suc (length (ov_ancestor_data p))) (p # rest))"
    using overlay_okD(2)[OF p] by (simp add: chain_of_def chain_ids_def take_map)
qed

text \<open>C13: however sessions, commits and drops were interleaved, a
  session on overlays that were accepted as ancestors reads, for every key, the newest change
  among these overlays, and the stored value when none of them changed it.\<close>
theorem overlay_reads_newest:
  assumes "overlays_reach nt ovs los" "set as \<subseteq> ovs" "live_overlay_new (nt_heap nt) as = Some (Inr lo)"
  shows "session_read nt lo k = Some
    (case newest_change (map (\<lambda>ov. da_values (ov_data ov)) (take (Suc (length (ov_ancestor_data (hd as)))) as)) k of
       Some c \<Rightarrow> as_option c | None \<Rightarrow> nt_values nt k)"
proof (cases as)
  case Nil
  then show ?thesis using assms(3) by (auto simp: live_overlay_new_def session_read_def lo_value_def)
next
  case (Cons p rest)
  have ok: "heap_ok (nt_heap nt)" "\<forall>ov\<in>set (p # rest). overlay_ok (nt_heap nt) ov"
    using reach_ok[OF assms(1)] assms(2) unfolding Cons by blast+
  note lc = live_chain[OF ok assms(3)[unfolded Cons]]
  have "map da_values (take (Suc (min (length rest) (length (ov_ancestor_data p)))) (chain_of (nt_heap nt) p)) =
      map (\<lambda>ov. da_values (ov_data ov)) (take (Suc (length (ov_ancestor_data p))) (p # rest))"
    unfolding lc(4) by simp
  thus ?thesis unfolding session_read_def lc(1) live_value[OF lc(3,2)] Cons by simp
qed

lemma newest_change_snoc: "newest_change (ds @ [d]) k = (case newest_change ds k of Some v \<Rightarrow> Some v | None \<Rightarrow> map_of d k)"
  by (induction ds) (auto split: option.split)

lemma match_ancestors_prefix: "match_ancestors hp (xs @ ys) = Inr ds \<Longrightarrow> match_ancestors hp xs = Inr (take (length xs) ds)"
proof (induction xs arbitrary: ds)
  case (Cons x xs)
  obtain ov i where x: "x = (ov, i)" by (cases x)
  then obtain d ds' where d: "upgrade hp i = Some d" "da_id (ov_data ov) = da_id d" "match_ancestors hp (xs @ ys) = Inr ds'" "ds = d # ds'"
    using Cons.prems by (auto simp: try_bind_Inr split: option.splits if_splits)
  then show ?case using Cons.IH x by simp
qed simp

lemma match_ancestors_heap:
  "hp_data hp' = hp_data hp \<Longrightarrow> hp_alive hp' = hp_alive hp \<Longrightarrow> match_ancestors hp' xs = match_ancestors hp xs"
proof (induction xs)
  case (Cons x xs)
  then show ?case by (cases x) (simp add: upgrade_def)
qed simp

lemma new_prefix_committed:
  assumes ok: "heap_ok hp" "overlay_ok hp p" and new: "live_overlay_new hp (p # rest @ [a]) = Some (Inr lo)"
    and len: "length rest < length (ov_ancestor_data p)"
    and hp': "hp_data hp' = hp_data hp" "hp_alive hp' = hp_alive hp" "is_committed hp' (da_id (ov_data a))"
  shows "live_overlay_new hp' (p # rest) = Some (Inr (live_over hp' p (length rest)))" "ov_ancestor_data p ! length rest = da_id (ov_data a)"
proof -
  let ?anc = "ov_ancestor_data p" and ?n = "length rest"
  have n1: "min (length (rest @ [a])) (length ?anc) = Suc ?n" using len by simp
  note sp = live_overlay_new_spec[OF new ok, unfolded n1]
  have "take (Suc ?n) (rest @ [a]) = rest @ [a]" by simp
  hence a: "?anc ! ?n = da_id (ov_data a)"
    using arg_cong[OF sp(2), of "\<lambda>l. l ! ?n"] len by (simp add: nth_append)
  thus "?anc ! ?n = da_id (ov_data a)" .
  obtain ds where ds: "match_ancestors hp (zip (rest @ [a]) ?anc) = Inr ds"
    using new by (auto simp: live_overlay_new_def split: sum.splits)
  have "zip rest (take ?n ?anc) = zip rest ?anc" using len by (intro nth_equalityI) simp_all
  hence "zip (rest @ [a]) ?anc = zip rest ?anc @ [(a, ?anc ! ?n)]"
    using len by (simp add: zip_append1 Cons_nth_drop_Suc[symmetric])
  hence m: "match_ancestors hp' (zip rest ?anc) = Inr (take ?n ds)"
    using match_ancestors_prefix ds len hp'(1,2) match_ancestors_heap by fastforce
  have ok': "overlay_ok hp' p" by (rule same_data_ok(1)[OF hp'(1) ok(2)])
  have "da_parent_status (chain_of hp' p ! ?n) = Some (da_id (ov_data a))"
    using overlay_okD(6)[OF ok', of ?n] len a by (simp add: chain_ids_def)
  moreover have "min ?n (length ?anc) = ?n" using len by simp
  ultimately show "live_overlay_new hp' (p # rest) = Some (Inr (live_over hp' p ?n))"
    using live_overlay_new_eq[OF ok', of rest] m hp'(3) by simp
qed

text \<open>C14: committing the oldest of a chain of overlays is invisible to
  sessions on the rest of the chain: the remaining overlays are accepted as ancestors, and every
  key reads as it did before with the overlay in the chain.\<close>
theorem commit_keeps_view:
  assumes reach: "overlays_reach nt ovs los" "set (p # rest @ [a]) \<subseteq> ovs" "length rest < length (ov_ancestor_data p)"
    and lo: "live_overlay_new (nt_heap nt) (p # rest @ [a]) = Some (Inr lo)" and com: "overlay_commit nt a = (Inr (), nt')"
  shows "\<exists>lo'. live_overlay_new (nt_heap nt') (p # rest) = Some (Inr lo') \<and> session_read nt' lo' k = session_read nt lo k"
proof -
  let ?n = "length rest" and ?hp = "nt_heap nt" and ?hp' = "nt_heap nt'"
  have ok: "heap_ok ?hp" "overlay_ok ?hp p" "overlay_ok ?hp a" using reach_ok[OF reach(1)] reach(2) by auto
  note ch = commit_heap[OF com]
  have "da_id (ov_data a) < length (hp_status ?hp)" using overlay_okD(1)[OF ok(3)] ok(1) by (simp add: chain_ids_def heap_ok_def)
  hence cm: "is_committed ?hp' (da_id (ov_data a))" "nt_values nt' = apply_changes (da_values (ov_data a)) (nt_values nt)"
    using com by (auto simp: overlay_commit_def Let_def mark_committed_def store_commit_def is_committed_def split: if_splits)
  note np = new_prefix_committed[OF ok(1,2) lo reach(3) ch(1,3) cm(1)]
  have ok': "overlay_ok ?hp' p" by (rule same_data_ok(1)[OF ch(1) ok(2)])
  have "min (length (rest @ [a])) (length (ov_ancestor_data p)) = Suc ?n" using reach(3) by simp
  hence lo2: "lo = live_over ?hp p (Suc ?n)" using live_overlay_new_spec(1)[OF lo ok(1,2)] by simp
  have chain: "chain_of ?hp' p = chain_of ?hp p" by (simp add: chain_of_def ch(1))
  have "chain_of ?hp p ! Suc ?n = ov_data a"
    using np(2) overlay_okD(2)[OF ok(3)] reach(3) by (simp add: chain_of_def chain_ids_def)
  hence "take (Suc (Suc ?n)) (chain_of ?hp p) = take (Suc ?n) (chain_of ?hp p) @ [ov_data a]"
    using reach(3) take_Suc_conv_app_nth[of "Suc ?n" "chain_of ?hp p"] by (simp add: chain_of_def chain_ids_def)
  moreover have "session_read nt lo k = Some (case newest_change (map da_values (take (Suc (Suc ?n)) (chain_of ?hp p))) k of
      Some c \<Rightarrow> as_option c | None \<Rightarrow> nt_values nt k)"
    using live_value[OF ok(2), of "Suc ?n"] reach(3) by (simp add: session_read_def lo2)
  moreover have "session_read nt' (live_over ?hp' p ?n) k = Some (case newest_change (map da_values (take (Suc ?n) (chain_of ?hp p))) k of
      Some c \<Rightarrow> as_option c | None \<Rightarrow> apply_changes (da_values (ov_data a)) (nt_values nt) k)"
    unfolding session_read_def cm(2) using live_value[OF ok', of ?n] reach(3) by (simp add: chain)
  ultimately show ?thesis using np(1)
    by (auto simp: newest_change_snoc apply_changes_def split: option.split)
qed


text \<open>C40: an overlay whose commit fails because another
  changeset came first counts as committed from then on: its child is accepted without it, and a
  session on the child reads the stored value of a key that the overlay changed.\<close>
theorem failed_commit_hides_overlay:
  assumes reach: "overlays_reach nt ovs los" "a \<in> ovs" "b \<in> ovs" "ov_ancestor_data b \<noteq> []" "hd (ov_ancestor_data b) = da_id (ov_data a)"
    and live: "\<not> is_committed (nt_heap nt) (da_id (ov_data a))"
    and com: "parent_matches_marker a (nt_last_commit_marker nt)" "nt_root nt \<noteq> ov_prev_root a"
    and k: "map_of (da_values (ov_data b)) k = None"
  shows "live_overlay_new (nt_heap nt) [b] = Some (Inl Incomplete) \<and>
    (\<exists>nt' lo. overlay_commit nt a = (Inl (ChangesetInvalid (ov_prev_root a) (nt_root nt)), nt') \<and>
      live_overlay_new (nt_heap nt') [b] = Some (Inr lo) \<and> session_read nt' lo k = Some (nt_values nt k))"
proof -
  let ?hp = "nt_heap nt"
  let ?hp' = "?hp\<lparr>hp_status := (hp_status ?hp)[da_id (ov_data a) := Committed]\<rparr>"
  have ok: "heap_ok ?hp" "overlay_ok ?hp a" "overlay_ok ?hp b" using reach_ok[OF reach(1)] reach(2,3) by auto
  have ok': "overlay_ok ?hp' b" by (rule same_data_ok(1)[OF _ ok(3)]) simp
  have "da_id (ov_data a) < length (hp_status ?hp)" using overlay_okD(1)[OF ok(2)] ok(1) by (simp add: chain_ids_def heap_ok_def)
  hence cm: "is_committed ?hp' (da_id (ov_data a))" by (simp add: is_committed_def)
  have ps: "da_parent_status (chain_of ?hp b ! 0) = Some (da_id (ov_data a))"
    using overlay_okD(6)[OF ok(3), of 0] reach(4,5) by (simp add: chain_ids_def hd_conv_nth)
  have ch: "chain_of ?hp' b = chain_of ?hp b" by (simp add: chain_of_def)
  have "live_overlay_new ?hp [b] = Some (Inl Incomplete)"
    using live_overlay_new_eq[OF ok(3), of "[]"] ps live by simp
  moreover have "live_overlay_new ?hp' [b] = Some (Inr (live_over ?hp' b 0))"
    using live_overlay_new_eq[OF ok', of "[]"] ps cm ch by simp
  moreover have "overlay_commit nt a = (Inl (ChangesetInvalid (ov_prev_root a) (nt_root nt)), nt\<lparr>nt_heap := ?hp'\<rparr>)"
    using com by (simp add: overlay_commit_def mark_committed_def)
  moreover have "chain_of ?hp b ! 0 = ov_data b" using overlay_okD(2)[OF ok(3)] by (simp add: chain_of_def chain_ids_def)
  hence "take (Suc 0) (chain_of ?hp b) = [ov_data b]" by (simp add: chain_of_def chain_ids_def)
  hence "session_read (nt\<lparr>nt_heap := ?hp'\<rparr>) (live_over ?hp' b 0) k = Some (nt_values nt k)"
    using live_value[OF ok', of 0 k] k by (simp add: session_read_def ch)
  ultimately show ?thesis by simp
qed

section \<open>Samples\<close>

definition sample_nomt :: "unit nomt" where
  "sample_nomt = \<lparr>nt_heap = \<lparr>hp_data = [], hp_alive = [], hp_status = []\<rparr>, nt_root = [0], nt_last_commit_marker = None,
     nt_values = (\<lambda>k. if k = [1] then Some [9] else None), nt_pages = Map.empty, nt_deltas = []\<rparr>"

text \<open>An overlay that changes the keys 1 and 2, and a child that changes the key 2 again.\<close>
definition sample_freeze1 :: "unit overlay \<times> unit overlay_heap" where
  "sample_freeze1 = the (lo_finish live_empty (nt_heap sample_nomt) [0] [1] [([3], ())] [([1], Insert [10]), ([2], Insert [20])] None)"

definition sample_freeze2 :: "unit overlay \<times> unit overlay_heap" where
  "sample_freeze2 = the (lo_finish (live_over (snd sample_freeze1) (fst sample_freeze1) 0) (snd sample_freeze1) [1] [2] [] [([2], Delete)] None)"

lemma sample_freeze1_eq:
  "sample_freeze1 =
    (let ix = \<lparr>ix_pages = [([3], 0)], ix_values = [([1], 0), ([2], 0)], ix_pages_by_seqn = [(0, [3])], ix_values_by_seqn = [(0, [1]), (0, [2])]\<rparr>;
         d = \<lparr>da_id = 0, da_pages = [([3], ())], da_values = [([1], Insert [10]), ([2], Insert [20])], da_parent_status = None\<rparr>
     in (\<lparr>ov_prev_root = [0], ov_root = [1], ov_index = ix, ov_data = d, ov_seqn = 0, ov_ancestor_data = [], ov_rollback_delta = None\<rparr>,
         \<lparr>hp_data = [d], hp_alive = [True], hp_status = [Live]\<rparr>))"
  by (simp add: sample_freeze1_def lo_finish_def live_empty_def sample_nomt_def prune_below_def insert_pages_def
      insert_values_def index_default_def Let_def)

lemma sample_freeze2_eq:
  "sample_freeze2 =
    (let ix = \<lparr>ix_pages = [([3], 0)], ix_values = [([1], 0), ([2], 1)], ix_pages_by_seqn = [(0, [3])],
           ix_values_by_seqn = [(0, [1]), (0, [2]), (1, [2])]\<rparr>;
         d = \<lparr>da_id = 1, da_pages = [], da_values = [([2], Delete)], da_parent_status = Some 0\<rparr>
     in (\<lparr>ov_prev_root = [1], ov_root = [2], ov_index = ix, ov_data = d, ov_seqn = 1, ov_ancestor_data = [0], ov_rollback_delta = None\<rparr>,
         \<lparr>hp_data = hp_data (snd sample_freeze1) @ [d], hp_alive = [True, True], hp_status = [Live, Live]\<rparr>))"
  by (simp add: sample_freeze2_def lo_finish_def live_over_def sample_freeze1_eq prune_below_def insert_pages_def
      insert_values_def Let_def)

abbreviation sample_nomt2 :: "unit nomt" where "sample_nomt2 \<equiv> sample_nomt\<lparr>nt_heap := snd sample_freeze2\<rparr>"

lemma sample_reach: "overlays_reach sample_nomt2 {fst sample_freeze2, fst sample_freeze1} {}"
proof -
  let ?a = "fst sample_freeze1" and ?b = "fst sample_freeze2"
  have "overlays_reach sample_nomt {} {}" by (rule overlays_reach.start) (simp_all add: sample_nomt_def)
  from overlays_reach.session[OF this, of "[]" live_empty] have "overlays_reach sample_nomt {} {live_empty}"
    by (simp add: live_overlay_new_def live_empty_def)
  moreover have "lo_finish live_empty (nt_heap sample_nomt) [0] [1] [([3], ())] [([1], Insert [10]), ([2], Insert [20])] None =
      Some (?a, snd sample_freeze1)"
    by (simp add: sample_freeze1_def lo_finish_def live_empty_def Let_def)
  ultimately have r1: "overlays_reach (sample_nomt\<lparr>nt_heap := snd sample_freeze1\<rparr>) {?a} {}"
    using overlays_reach.freeze[of sample_nomt "{}" "{live_empty}" live_empty] by simp
  have new: "live_overlay_new (snd sample_freeze1) [?a] = Some (Inr (live_over (snd sample_freeze1) ?a 0))"
    by (simp add: live_overlay_new_def live_over_def sample_freeze1_eq Let_def)
  have r2: "overlays_reach (sample_nomt\<lparr>nt_heap := snd sample_freeze1\<rparr>) {?a} {live_over (snd sample_freeze1) ?a 0}"
    by (rule overlays_reach.session[OF r1, of "[?a]"]) (simp_all add: new)
  moreover have "lo_finish (live_over (snd sample_freeze1) ?a 0) (nt_heap (sample_nomt\<lparr>nt_heap := snd sample_freeze1\<rparr>))
      [1] [2] [] [([2], Delete)] None = Some (?b, snd sample_freeze2)"
    by (simp add: sample_freeze2_def lo_finish_def live_over_def sample_freeze1_eq Let_def)
  ultimately show ?thesis
    using overlays_reach.freeze[of "sample_nomt\<lparr>nt_heap := snd sample_freeze1\<rparr>" "{?a}" "{live_over (snd sample_freeze1) ?a 0}"] by simp
qed


lemma sample_new:
  "live_overlay_new (snd sample_freeze2) [fst sample_freeze2, fst sample_freeze1] = Some (Inr (live_over (snd sample_freeze2) (fst sample_freeze2) 1))"
  by (simp add: live_overlay_new_def live_over_def sample_freeze1_eq sample_freeze2_eq upgrade_def Let_def)

theorem overlay_reads_newest_witness:
  "\<exists>lo. live_overlay_new (nt_heap sample_nomt2) [fst sample_freeze2, fst sample_freeze1] = Some (Inr lo) \<and>
    session_read sample_nomt2 lo [1] = Some (Some [10]) \<and> session_read sample_nomt2 lo [2] = Some None"
  using overlay_reads_newest[OF sample_reach _, of "[fst sample_freeze2, fst sample_freeze1]" _ "[1]"]
    overlay_reads_newest[OF sample_reach _, of "[fst sample_freeze2, fst sample_freeze1]" _ "[2]"] sample_new
  by (simp add: sample_freeze1_eq sample_freeze2_eq Let_def)

theorem commit_keeps_view_witness:
  "\<exists>nt' lo'. overlay_commit sample_nomt2 (fst sample_freeze1) = (Inr (), nt') \<and> nt_root nt' = [1] \<and>
    live_overlay_new (nt_heap nt') [fst sample_freeze2] = Some (Inr lo') \<and>
    session_read nt' lo' [1] = session_read sample_nomt2 (live_over (snd sample_freeze2) (fst sample_freeze2) 1) [1]"
proof -
  let ?nt = "snd (overlay_commit sample_nomt2 (fst sample_freeze1))"
  have com: "overlay_commit sample_nomt2 (fst sample_freeze1) = (Inr (), ?nt)" "nt_root ?nt = [1]"
    by (simp_all add: overlay_commit_def sample_freeze1_eq sample_nomt_def parent_matches_marker_def mark_committed_def store_commit_def Let_def)
  have "length [] < length (ov_ancestor_data (fst sample_freeze2))" by (simp add: sample_freeze2_eq Let_def)
  from commit_keeps_view[OF sample_reach _ this _ com(1), of _ "[1]"] show ?thesis using sample_new com by auto
qed

theorem failed_commit_hides_overlay_witness:
  "\<exists>nt' lo. overlay_commit (sample_nomt2\<lparr>nt_root := [7]\<rparr>) (fst sample_freeze1) = (Inl (ChangesetInvalid [0] [7]), nt') \<and>
    live_overlay_new (nt_heap nt') [fst sample_freeze2] = Some (Inr lo) \<and> session_read nt' lo [1] = Some (Some [9])"
proof -
  let ?nt = "sample_nomt2\<lparr>nt_root := [7]\<rparr>"
  have "session_commit sample_nomt2 [0] [7] [] [] None = (Inr (), ?nt)"
    by (simp add: session_commit_def store_commit_def sample_nomt_def apply_changes_def fun_eq_iff)
  from overlays_reach.commit_session[OF sample_reach this]
  have r: "overlays_reach ?nt {fst sample_freeze2, fst sample_freeze1} {}" .
  show ?thesis
    using failed_commit_hides_overlay[OF r, of "fst sample_freeze1" "fst sample_freeze2" "[1]"]
    by (simp add: sample_freeze1_eq sample_freeze2_eq Let_def is_committed_def sample_nomt_def parent_matches_marker_def)
qed

end
