(* ===== verification/Spec2Isabelle.thy ===== *)
theory Spec2Isabelle
  imports NomtPrelude TrieNodes SampleData BuildTrie PageIds PageRegions TriePos TriePaths PathProofs MultiProofs MultiProofFacts MultiProofBuild MultiProofUpdate PassCells
    ByteReaders PageDiffs WalBlobs HashTables HashTableFacts BitboxSync BitboxCrash
    StoreMeta SegmentFiles SegLog SegRecords SegLogFacts SegLogOpen RollbackDeltas RollbackLog RollbackRestart RollbackFaults FreeLists FreeListFacts FreeListDisk PageAllocators AllocatorFacts Overlays OverlayFacts
begin

text \<open>
  A verification library for NOMT, a Merkle trie database.

  \<^bold>\<open>The program.\<close>  NOMT keeps a binary Merkle trie over 256-bit keys.  The crate \<open>core\<close>
  defines the nodes and their hashes, builds sub-tries from ordered leaves, names the
  pages the trie is stored in, and makes and checks proofs.  The crate \<open>nomt\<close> stores the
  pages in a hash table on disk with a write-ahead log (bitbox), the values in a B-tree
  (beatree) over files of pages with an embedded free list, keeps rollback deltas in a segmented
  log, lets sessions work on in-memory overlays, and updates pages in parallel through
  regioned access tokens.  A sync writes the log of the page store, the pages of the beatree and the
  rollback log, then switches over by writing the meta page.

  \<^bold>\<open>Conventions.\<close>  A panic is \<open>None\<close>; a \<open>Result\<close> is a sum with \<open>Inl\<close> for the error; byte
  arrays are lists of \<open>8 word\<close> and their lengths are part of the well-formedness
  predicates; a vector used only as a stack is a list with its top first; integers that can
  overflow are words, or natural numbers with the check written out.  The semantics is that of a
  build with debug assertions and overflow checks: a failed \<open>debug_assert\<close> or an overflow is a
  panic.  A file is the list of its bytes and a directory an association list from names to files.
  What the operating system grants, the hash function and the buffers of the page pool are parameters.
  Loops are recursive functions with a termination proof; the loops that may run forever, probing
  the hash table and following the free list on disk, are partial functions with \<open>None\<close>, and where a
  theorem says that they return, it is proved as such.

  \<^bold>\<open>Foundations.\<close>
  \<^item> \<open>NomtPrelude\<close>: bytes, bits (most significant first), slices, integers in bytes, the
    binary search of the standard library.
  \<^item> \<open>TrieNodes\<close>: \<open>core/src/trie.rs\<close> and \<open>hasher.rs\<close>; the locale \<open>node_hasher_laws\<close> is the
    contract of \<open>NodeHasher\<close>, met by \<open>binary_hasher\<close> over every hash that meets \<open>binary_hash\<close>; the
    abstract trie \<open>mk_trie\<close> the code is compared with.
  \<^item> \<open>SampleData\<close>: a concrete hash and keys for the witnesses.

  \<^bold>\<open>Tries and proofs (crate \<open>core\<close>).\<close>
  \<^item> \<open>BuildTrie\<close>: \<open>update.rs\<close>; the one-pass construction computes the root of the abstract
    trie and visits its nodes, and splicing a leaf into operations applies them.
  \<^item> \<open>PageIds\<close>, \<open>TriePos\<close>: \<open>page_id.rs\<close>, \<open>trie_pos.rs\<close>; codecs, key ranges, the iterator over
    the pages of a key, and the moves of a position.
  \<^item> \<open>TriePaths\<close>, \<open>PathProofs\<close>: paths through the abstract trie and \<open>proof/path_proof.rs\<close>;
    soundness and completeness of verification, and the root after updates.
  \<^item> \<open>MultiProofs\<close>, \<open>MultiProofFacts\<close>, \<open>MultiProofBuild\<close>, \<open>MultiProofUpdate\<close>: \<open>proof/multi_proof.rs\<close>;
    soundness, that compressed path proofs verify, and the order in which an update takes the siblings.
    Hash functions are not assumed to be free of collisions: the soundness theorems assume that
    none occurs between the nodes of the trie and those of the proof.

  \<^bold>\<open>Access tokens.\<close>
  \<^item> \<open>PageRegions\<close>: \<open>nomt/src/page_region.rs\<close>; the locale \<open>region_laws\<close> is what the tokens rely on.
  \<^item> \<open>PassCells\<close>: \<open>nomt/src/rw_pass_cell/mod.rs\<close> as steps of a domain, interleaved in any
    order; mutual exclusion of writers, and that a split pass comes back whole.

  \<^bold>\<open>The page store (\<open>nomt/src/bitbox\<close>).\<close>
  \<^item> \<open>ByteReaders\<close>: pages of files, and the locale \<open>byte_codec\<close> between a printer and a reader,
    interpreted on the nodes and the entries of the log.
  \<^item> \<open>PageDiffs\<close>, \<open>WalBlobs\<close>: \<open>nomt/src/page_diff.rs\<close> and \<open>wal\<close>; the log is read back, and a log cut short is
    refused.
  \<^item> \<open>HashTables\<close>, \<open>HashTableFacts\<close>: \<open>meta_map.rs\<close>, \<open>ht_file.rs\<close> and the probing of \<open>mod.rs\<close>; the
    table refines a map from page ids to pages.
  \<^item> \<open>BitboxSync\<close>, \<open>BitboxCrash\<close>: preparing a sync, writing it out and recovering; a crash may leave
    every byte of the table file old or new.

  \<^bold>\<open>Metadata and the rollback log (\<open>nomt/src/store/meta.rs\<close>, \<open>seglog\<close>, \<open>rollback\<close>).\<close>
  \<^item> \<open>StoreMeta\<close>: the layout of the meta page and its checks.
  \<^item> \<open>SegmentFiles\<close>, \<open>SegLog\<close>, \<open>SegRecords\<close>, \<open>SegLogFacts\<close>, \<open>SegLogOpen\<close>: the segmented log refines a sequence of
    records, and opening it recovers the committed ones.
  \<^item> \<open>RollbackDeltas\<close>, \<open>RollbackLog\<close>, \<open>RollbackRestart\<close>, \<open>RollbackFaults\<close>: deltas restore the store, the log refines
    a bounded stack, survives a restart at any point of a sync, and fails in one case.

  \<^bold>\<open>The page allocator (\<open>nomt/src/beatree/allocator\<close>).\<close>
  \<^item> \<open>FreeLists\<close>, \<open>FreeListFacts\<close>: the paginated stack of free pages with its copy-on-write commit, and
    that a commit neither loses nor duplicates a page.
  \<^item> \<open>FreeListDisk\<close>: the chain of pages on disk under any part of the writes of a commit.
  \<^item> \<open>PageAllocators\<close>, \<open>AllocatorFacts\<close>: allocation by threads that draw their indices from a shared
    counter, growing the file, and the end of a sync, which is atomic.  The bound in its theorem keeps
    page numbers below \<open>2^32\<close> by two steps of growth.

  \<^bold>\<open>Overlays (\<open>nomt/src/overlay.rs\<close>, \<open>lib.rs\<close>).\<close>
  \<^item> \<open>Overlays\<close>, \<open>OverlayFacts\<close>: overlays with their weak references, the reads and commits of sessions over
    them; sessions read the newest change, and committing the oldest overlay is invisible.

  \<^bold>\<open>Not modelled.\<close>  The nodes of the beatree and their bulk update, the page walker and the merkle
  workers, the page cache, thread pools, channels and locks, which only order the steps above,
  asynchronous I/O and system calls, options and metrics, and the tools around the library.  Errors
  of the file system are modelled where the code reacts to them: a short read, a missing or an
  existing file, and a refused length or mapping.
\<close>

end
